(* ===== verification/Prelude.thy ===== *)
theory Prelude
  imports Main "HOL-Library.Word" "HOL-Library.Monad_Syntax"
begin

text \<open>
  Shared vocabulary of the development: machine integers, byte strings,
  little-endian scalars, slices of a buffer and writes into it, and the panic
  monad. A Rust expression that may panic (an index out of range, a slice past
  its end) is a value of an option type whose None is the panic; the
  library's do-notation on options then follows the source's control flow.
  A value of type usize is a nat: the targets have 64-bit addresses, and the
  operations of the source that test for overflow (checked and saturating
  ones) are written against the bound USIZE_MAX.
\<close>

unbundle bit_operations_syntax

type_synonym byte = "8 word"
type_synonym u16 = "16 word"
type_synonym u32 = "32 word"
type_synonym u64 = "64 word"
type_synonym bytes = "byte list"

text \<open>Facts the component proofs hand to the simplifier as a group.\<close>

named_theorems buf_simps
named_theorems word_bounds

subsection \<open>Fixed quantities\<close>

definition USIZE_MAX :: nat where
  "USIZE_MAX = 2 ^ 64 - 1"

definition U32_MAX :: nat where
  "U32_MAX = 2 ^ 32 - 1"

definition U16_MAX :: nat where
  "U16_MAX = 2 ^ 16 - 1"

definition checked_add :: "nat \<Rightarrow> nat \<Rightarrow> nat option" where
  "checked_add a b = (if a + b \<le> USIZE_MAX then Some (a + b) else None)"

definition checked_mul :: "nat \<Rightarrow> nat \<Rightarrow> nat option" where
  "checked_mul a b = (if a * b \<le> USIZE_MAX then Some (a * b) else None)"

definition saturating_add :: "nat \<Rightarrow> nat \<Rightarrow> nat" where
  "saturating_add a b = min (a + b) USIZE_MAX"

definition div_ceil :: "nat \<Rightarrow> nat \<Rightarrow> nat" where
  "div_ceil a b = (a + b - 1) div b"

subsection \<open>Panics\<close>

text \<open>The source's assertions and range checks: None is the panic.\<close>

definition assert_that :: "bool \<Rightarrow> unit option" where
  "assert_that b = (if b then Some () else None)"

lemma assert_that_simps [simp]:
  "assert_that True = Some ()" "assert_that False = None"
  by (simp_all add: assert_that_def)

lemma assert_that_eq_Some [simp]: "assert_that b = Some u \<longleftrightarrow> b"
  by (simp add: assert_that_def)

definition index :: "'a list \<Rightarrow> nat \<Rightarrow> 'a option" where
  "index xs i = (if i < length xs then Some (xs ! i) else None)"

definition slice :: "'a list \<Rightarrow> nat \<Rightarrow> nat \<Rightarrow> 'a list option" where
  "slice xs a b = (if a \<le> b \<and> b \<le> length xs then Some (take (b - a) (drop a xs)) else None)"

text \<open>A write of a run of elements at a position; a store past the end panics.\<close>

definition blit :: "'a list \<Rightarrow> nat \<Rightarrow> 'a list \<Rightarrow> 'a list" where
  "blit buf at xs = take at buf @ xs @ drop (at + length xs) buf"

definition put :: "'a list \<Rightarrow> nat \<Rightarrow> 'a list \<Rightarrow> 'a list option" where
  "put buf at xs = (if at + length xs \<le> length buf then Some (blit buf at xs) else None)"

lemma index_Some [simp]: "i < length xs \<Longrightarrow> index xs i = Some (xs ! i)"
  by (simp add: index_def)

lemma index_eq_Some: "index xs i = Some x \<longleftrightarrow> i < length xs \<and> x = xs ! i"
  by (auto simp: index_def)

lemma slice_eq_Some:
  "slice xs a b = Some ys \<longleftrightarrow> a \<le> b \<and> b \<le> length xs \<and> ys = take (b - a) (drop a xs)"
  by (auto simp: slice_def)

lemma slice_Some [simp]:
  "a \<le> b \<Longrightarrow> b \<le> length xs \<Longrightarrow> slice xs a b = Some (take (b - a) (drop a xs))"
  by (simp add: slice_def)

lemma length_blit [simp]: "at + length xs \<le> length buf \<Longrightarrow> length (blit buf at xs) = length buf"
  by (simp add: blit_def)

lemma put_Some [simp]: "at + length xs \<le> length buf \<Longrightarrow> put buf at xs = Some (blit buf at xs)"
  by (simp add: put_def)

lemma put_eq_Some:
  "put buf at xs = Some b \<longleftrightarrow> at + length xs \<le> length buf \<and> b = blit buf at xs"
  by (auto simp: put_def)

text \<open>A store of one element, and the unsigned subtraction that may underflow.\<close>

definition store :: "'a list \<Rightarrow> nat \<Rightarrow> 'a \<Rightarrow> 'a list option" where
  "store xs i v = (if i < length xs then Some (xs[i := v]) else None)"

definition usub :: "nat \<Rightarrow> nat \<Rightarrow> nat option" where
  "usub a b = (if b \<le> a then Some (a - b) else None)"

definition u32_checked :: "nat \<Rightarrow> nat option" where
  "u32_checked n = (if n \<le> U32_MAX then Some n else None)"

definition as_u8 :: "nat \<Rightarrow> nat" where "as_u8 n = n mod 2 ^ 8"
definition as_u16 :: "nat \<Rightarrow> nat" where "as_u16 n = n mod 2 ^ 16"
definition as_u32 :: "nat \<Rightarrow> nat" where "as_u32 n = n mod 2 ^ 32"

lemma store_Some [simp]: "i < length xs \<Longrightarrow> store xs i v = Some (xs[i := v])"
  by (simp add: store_def)

lemma store_eq_Some: "store xs i v = Some ys \<longleftrightarrow> i < length xs \<and> ys = xs[i := v]"
  by (auto simp: store_def)

lemma usub_Some [simp]: "b \<le> a \<Longrightarrow> usub a b = Some (a - b)"
  by (simp add: usub_def)

lemma u32_checked_Some [simp]: "n \<le> U32_MAX \<Longrightarrow> u32_checked n = Some n"
  by (simp add: u32_checked_def)

lemma take_blit:
  assumes "at + length xs \<le> length buf"
  shows "take (at + length xs) (blit buf at xs) = take at buf @ xs"
  using assms by (simp add: blit_def)

lemma take_blit_le [buf_simps]:
  "n \<le> at \<Longrightarrow> at \<le> length buf \<Longrightarrow> take n (blit buf at xs) = take n buf"
  by (simp add: blit_def)

lemma nth_blit:
  assumes "at + length xs \<le> length buf" and "i < length buf"
  shows "blit buf at xs ! i = (if at \<le> i \<and> i < at + length xs then xs ! (i - at) else buf ! i)"
  using assms by (auto simp: blit_def nth_append min_def)

lemma blit_blit:
  "at + length xs + length ys \<le> length out \<Longrightarrow> blit (blit out at xs) (at + length xs) ys = blit out at (xs @ ys)"
  by (simp add: blit_def ac_simps)

lemma blit_Nil [simp]: "blit buf at [] = buf"
  by (simp add: blit_def)

subsection \<open>Little-endian scalars\<close>

primrec le_bytes :: "nat \<Rightarrow> nat \<Rightarrow> bytes" where
  "le_bytes 0 v = []"
| "le_bytes (Suc n) v = word_of_nat (v mod 256) # le_bytes n (v div 256)"

primrec le_val :: "bytes \<Rightarrow> nat" where
  "le_val [] = 0"
| "le_val (b # bs) = unat b + 256 * le_val bs"

lemma length_le_bytes [simp]: "length (le_bytes n v) = n"
  by (induction n arbitrary: v) auto

lemma unat_byte_less [simp, word_bounds]: "unat (b :: byte) < 256"
  using unsigned_less [of b, where 'a = nat] by simp

lemma unat_of_nat_byte [simp]: "unat (word_of_nat (v mod 256) :: byte) = v mod 256"
  by (simp add: unat_of_nat)

lemma le_val_bytes: "le_val (le_bytes n v) = v mod 256 ^ n"
proof (induction n arbitrary: v)
  case 0
  then show ?case by simp
next
  case (Suc n)
  then show ?case
    by (simp add: mod_mult2_eq)
qed

lemma le_val_bytes_id: "v < 256 ^ n \<Longrightarrow> le_val (le_bytes n v) = v"
  by (simp add: le_val_bytes)

lemma le_val_less: "le_val bs < 256 ^ length bs"
proof (induction bs)
  case Nil
  then show ?case by simp
next
  case (Cons b bs)
  have "unat b < 256" by simp
  moreover from Cons have "le_val bs + 1 \<le> 256 ^ length bs" by simp
  ultimately have "unat b + 256 * le_val bs < 256 * 256 ^ length bs" by linarith
  then show ?case by simp
qed

lemma le_bytes_val: "le_bytes (length bs) (le_val bs) = bs"
proof (induction bs)
  case Nil
  then show ?case by simp
next
  case (Cons b bs)
  have "unat b < 256" by simp
  then have "(unat b + 256 * le_val bs) mod 256 = unat b" "(unat b + 256 * le_val bs) div 256 = le_val bs"
    by simp_all
  with Cons show ?case by simp
qed

lemma le_bytes_inj:
  "le_bytes n v = le_bytes n w \<Longrightarrow> v < 256 ^ n \<Longrightarrow> w < 256 ^ n \<Longrightarrow> v = w"
  by (metis le_val_bytes_id)

definition u16_le :: "u16 \<Rightarrow> bytes" where "u16_le w = le_bytes 2 (unat w)"
definition u32_le :: "u32 \<Rightarrow> bytes" where "u32_le w = le_bytes 4 (unat w)"
definition u64_le :: "u64 \<Rightarrow> bytes" where "u64_le w = le_bytes 8 (unat w)"

text \<open>The from-bytes conversions: exactly the right number of bytes, else None.\<close>

definition rd_u16 :: "bytes \<Rightarrow> nat \<Rightarrow> u16 option" where
  "rd_u16 b at = map_option (\<lambda>s. word_of_nat (le_val s)) (slice b at (at + 2))"

definition rd_u32 :: "bytes \<Rightarrow> nat \<Rightarrow> u32 option" where
  "rd_u32 b at = map_option (\<lambda>s. word_of_nat (le_val s)) (slice b at (at + 4))"

definition rd_u64 :: "bytes \<Rightarrow> nat \<Rightarrow> u64 option" where
  "rd_u64 b at = map_option (\<lambda>s. word_of_nat (le_val s)) (slice b at (at + 8))"

lemma length_scalar_le [simp]:
  "length (u16_le a) = 2" "length (u32_le b) = 4" "length (u64_le c) = 8"
  by (simp_all add: u16_le_def u32_le_def u64_le_def)

lemma scalar_le_val [simp]:
  "word_of_nat (le_val (u16_le a)) = a"
  "word_of_nat (le_val (u32_le b)) = b"
  "word_of_nat (le_val (u64_le c)) = c"
  using unsigned_less [of a, where 'a = nat] unsigned_less [of b, where 'a = nat]
    unsigned_less [of c, where 'a = nat]
  by (simp_all add: u16_le_def u32_le_def u64_le_def le_val_bytes)

subsection \<open>Exclusive or on words\<close>

lemma xor_eq_0: "x XOR y = 0 \<Longrightarrow> x = (y :: 'a::len word)"
  by (metis xor.left_neutral xor.assoc xor_self_eq xor.right_neutral)

lemma xor_same_right: "x XOR y = y \<Longrightarrow> x = (0 :: 'a::len word)"
proof -
  assume e: "x XOR y = y"
  have "x = (x XOR y) XOR y" by (simp add: xor.assoc)
  also have "\<dots> = 0" by (simp add: e)
  finally show ?thesis .
qed

lemma xor_right_cancel: "x XOR z = y XOR z \<Longrightarrow> x = (y :: 'a::len word)"
proof -
  assume e: "x XOR z = y XOR z"
  have "x = (x XOR z) XOR z" by (simp add: xor.assoc)
  also have "\<dots> = y" by (simp add: e xor.assoc)
  finally show ?thesis .
qed

subsection \<open>Values of concatenated bytes\<close>

lemma le_val_append: "le_val (xs @ ys) = le_val xs + 256 ^ length xs * le_val ys"
  by (induction xs) (simp_all add: algebra_simps)


lemma word_bits_below: "unat v < 2 ^ n \<Longrightarrow> bit v i \<Longrightarrow> i < n" for v :: "'a::len word"
proof -
  assume v: "unat v < 2 ^ n" and b: "bit v i"
  have "unat (take_bit n v) = unat v"
    using v by (simp only: unsigned_take_bit_eq take_bit_nat_eq_self)
  then have "take_bit n v = v" by (simp only: word_unat_eq_iff)
  with b show "i < n" by (metis bit_take_bit_iff)
qed

lemma length_concat_const: "\<forall>v \<in> set vs. length v = w \<Longrightarrow> length (concat vs) = length vs * w"
  by (induction vs) auto

subsection \<open>Reads and writes at a place in the middle\<close>

lemma put_at: "length x = length y \<Longrightarrow> p = length a \<Longrightarrow> put (a @ x @ b) p y = Some (a @ y @ b)"
  by (simp add: put_def blit_def)

lemma rd_u16_at: "p = length a \<Longrightarrow> rd_u16 (a @ u16_le x @ b) p = Some x"
  by (simp add: rd_u16_def)

lemma rd_u32_at: "p = length a \<Longrightarrow> rd_u32 (a @ u32_le x @ b) p = Some x"
  by (simp add: rd_u32_def)

lemma rd_u64_at: "p = length a \<Longrightarrow> rd_u64 (a @ u64_le x @ b) p = Some x"
  by (simp add: rd_u64_def)

text \<open>Rows of words.\<close>

lemma length_words [simp]: "length (concat (map u32_le ws)) = 4 * length ws" "length (concat (map u64_le vs)) = 8 * length vs"
  by (induction ws; induction vs; simp)+

lemma concat_nth:
  assumes "i < length ws"
  shows "concat (map f ws) = concat (map f (take i ws)) @ f (ws ! i) @ concat (map f (drop (Suc i) ws))"
proof -
  have "concat (map f (take i ws @ ws ! i # drop (Suc i) ws)) = concat (map f (take i ws)) @ f (ws ! i) @ concat (map f (drop (Suc i) ws))"
    by simp
  then show ?thesis by (simp only: id_take_nth_drop [OF assms, symmetric])
qed

lemma rd_words:
  assumes "i < length ws"
  shows "rd_u32 (pre @ concat (map u32_le ws) @ post) (length pre + 4 * i) = Some (ws ! i)"
  using assms unfolding concat_nth [OF assms] by (simp add: rd_u32_def)

lemma rd_words64:
  assumes "i < length ws"
  shows "rd_u64 (pre @ concat (map u64_le ws) @ post) (length pre + 8 * i) = Some (ws ! i)"
  using assms unfolding concat_nth [OF assms] by (simp add: rd_u64_def)

lemma blit_mid:
  assumes "length a \<le> at" and "at + length w \<le> length a + length b"
  shows "blit (a @ b @ c) at w = a @ blit b (at - length a) w @ c"
  using assms by (simp add: blit_def)

text \<open>A write inside a window of the buffer is a write to the window, and changes it when it changes the buffer.\<close>

lemma take_drop_blit:
  assumes "at + length w \<le> length b" "p \<le> at" "at + length w \<le> p + k" "p + k \<le> length b"
  shows "take k (drop p (blit b at w)) = blit (take k (drop p b)) (at - p) w"
  using assms by (intro nth_equalityI) (auto simp: nth_blit add.commute)

lemma blit_window_changes:
  assumes "at + length w \<le> length b" "p \<le> at" "at + length w \<le> p + k" "p + k \<le> length b" and "blit b at w \<noteq> b"
  shows "blit (take k (drop p b)) (at - p) w \<noteq> take k (drop p b)"
proof
  assume "blit (take k (drop p b)) (at - p) w = take k (drop p b)"
  then have e: "take k (drop p (blit b at w)) = take k (drop p b)" using take_drop_blit [OF assms(1-4)] by simp
  have "blit b at w = b"
  proof (rule nth_equalityI)
    fix i
    assume "i < length (blit b at w)"
    then have i: "i < length b" using assms(1) by simp
    show "blit b at w ! i = b ! i"
    proof (cases "at \<le> i \<and> i < at + length w")
      case True
      then have "i - p < k" "p \<le> i" using assms(2,3) by auto
      then show ?thesis using arg_cong [OF e, of "\<lambda>x. x ! (i - p)"] i assms(1,4) by simp
    next
      case False
      then show ?thesis using nth_blit [OF assms(1) i] by auto
    qed
  qed (use assms(1) in simp)
  with assms(5) show False by simp
qed

subsection \<open>Results\<close>

text \<open>
  A fallible operation that may also panic (or, in unsafe code, touch memory out
  of bounds): None is the panic, \<open>Some (Inl e)\<close> the error \<open>e\<close> returned,
  \<open>Some (Inr x)\<close> the value. \<open>bind_res\<close> is the question mark operator.
\<close>

type_synonym ('e, 'a) res = "('e + 'a) option"

abbreviation Ok :: "'a \<Rightarrow> ('e, 'a) res" where "Ok x \<equiv> Some (Inr x)"
abbreviation Err :: "'e \<Rightarrow> ('e, 'a) res" where "Err e \<equiv> Some (Inl e)"

definition bind_res :: "('e, 'a) res \<Rightarrow> ('a \<Rightarrow> ('e, 'b) res) \<Rightarrow> ('e, 'b) res" where
  "bind_res m f = (case m of None \<Rightarrow> None | Some (Inl e) \<Rightarrow> Err e | Some (Inr x) \<Rightarrow> f x)"

definition lift_res :: "'a option \<Rightarrow> ('e, 'a) res" where
  "lift_res m = map_option Inr m"

lemma bind_res_simps [simp]:
  "bind_res None f = None" "bind_res (Err e) f = Err e" "bind_res (Ok x) f = f x"
  by (simp_all add: bind_res_def)

lemma lift_res_simps [simp]: "lift_res None = None" "lift_res (Some x) = Ok x"
  by (simp_all add: lift_res_def)

lemma bind_res_eq_Ok:
  "bind_res m f = Ok y \<longleftrightarrow> (\<exists>x. m = Ok x \<and> f x = Ok y)"
  by (auto simp: bind_res_def split: option.splits sum.splits)

lemma bind_res_cong [fundef_cong]:
  "m = m' \<Longrightarrow> (\<And>x. m' = Ok x \<Longrightarrow> f x = g x) \<Longrightarrow> bind_res m f = bind_res m' g"
  by (auto simp: bind_res_def split: option.splits sum.splits)

end
