(* ===== verification/Crc32c.thy ===== *)
theory Crc32c
  imports Prelude
begin

text \<open>
  The checksum of block.rs: CRC-32C (Castagnoli). The model has the table
  builder, the portable slice-by-8 update, the hardware update written over the
  two x86 instructions, the dispatch between them, the resumed and the combined
  checksum and the GF(2) matrices the combination multiplies by. The lemmas
  compare every one of them with a reference that divides by the polynomial a
  bit at a time, and the locale \<open>checksum\<close> is what the other components rely on.
\<close>

subsection \<open>The tables and the portable update\<close>

definition CASTAGNOLI :: u32 where
  "CASTAGNOLI = 0x82F63B78"

definition crc_step :: "u32 \<Rightarrow> u32" where
  "crc_step c = (if c AND 1 \<noteq> 0 then CASTAGNOLI XOR drop_bit 1 c else drop_bit 1 c)"

definition crc_table0 :: "u32 list" where
  "crc_table0 = map (\<lambda>i. (crc_step ^^ 8) (word_of_nat i)) [0..<256]"

definition crc_next_table :: "u32 list \<Rightarrow> u32 list" where
  "crc_next_table t = map (\<lambda>prev. drop_bit 8 prev XOR crc_table0 ! unat (prev AND 0xff)) t"

definition build_crc_tables :: "u32 list list" where
  "build_crc_tables = map (\<lambda>j. (crc_next_table ^^ j) crc_table0) [0..<8]"

definition crc_round :: "u32 \<Rightarrow> bytes \<Rightarrow> u32" where
  "crc_round c w =
    (let lo = word_of_nat (le_val (take 4 w)) XOR c;
         hi = word_of_nat (le_val (drop 4 w)) :: u32;
         T = build_crc_tables
     in T ! 7 ! unat (lo AND 0xff) XOR T ! 6 ! unat (drop_bit 8 lo AND 0xff)
        XOR T ! 5 ! unat (drop_bit 16 lo AND 0xff) XOR T ! 4 ! unat (drop_bit 24 lo AND 0xff)
        XOR T ! 3 ! unat (hi AND 0xff) XOR T ! 2 ! unat (drop_bit 8 hi AND 0xff)
        XOR T ! 1 ! unat (drop_bit 16 hi AND 0xff) XOR T ! 0 ! unat (drop_bit 24 hi AND 0xff))"

function crc_rounds :: "u32 \<Rightarrow> bytes \<Rightarrow> u32 \<times> bytes" where
  "crc_rounds c data =
    (if 8 \<le> length data then crc_rounds (crc_round c (take 8 data)) (drop 8 data) else (c, data))"
  by pat_completeness auto
termination by (relation "measure (\<lambda>(c, data). length data)") auto

declare crc_rounds.simps [simp del]

definition crc_tail_byte :: "u32 \<Rightarrow> byte \<Rightarrow> u32" where
  "crc_tail_byte c b = build_crc_tables ! 0 ! unat ((c XOR ucast b) AND 0xff) XOR drop_bit 8 c"

definition crc32c_scalar :: "u32 \<Rightarrow> bytes \<Rightarrow> u32" where
  "crc32c_scalar ini data =
    (case crc_rounds ini data of (c, rest) \<Rightarrow> foldl crc_tail_byte c rest XOR 0xFFFFFFFF)"

text \<open>
  On a target with neither hardware path, \<open>crc32_from\<close> is the portable update;
  \<open>crc32\<close> and \<open>crc32_resume\<close> are written over it, and the dispatching form below
  is shown to return the same word.
\<close>

definition crc32 :: "bytes \<Rightarrow> u32" where
  "crc32 data = crc32c_scalar 0xFFFFFFFF data"

definition crc32_resume :: "u32 \<Rightarrow> bytes \<Rightarrow> u32" where
  "crc32_resume prev data = crc32c_scalar (prev XOR 0xFFFFFFFF) data"

subsection \<open>The hardware update and the dispatch\<close>

text \<open>
  The two instructions divide the operand, xored into the running remainder, by
  the reflected polynomial: eight bit steps for a byte, sixty-four for a word,
  on a register as wide as the operand.
\<close>

definition mm_crc32_u8 :: "u32 \<Rightarrow> byte \<Rightarrow> u32" where
  "mm_crc32_u8 crc v = (crc_step ^^ 8) (crc XOR ucast v)"

definition crc_step64 :: "u64 \<Rightarrow> u64" where
  "crc_step64 r = (if r AND 1 \<noteq> 0 then ucast CASTAGNOLI XOR drop_bit 1 r else drop_bit 1 r)"

definition mm_crc32_u64 :: "u64 \<Rightarrow> u64 \<Rightarrow> u64" where
  "mm_crc32_u64 crc v = (crc_step64 ^^ 64) (take_bit 32 crc XOR v)"

function crc_hw_words :: "u64 \<Rightarrow> bytes \<Rightarrow> u64 \<times> bytes" where
  "crc_hw_words c data =
    (if 8 \<le> length data then crc_hw_words (mm_crc32_u64 c (word_of_nat (le_val (take 8 data)))) (drop 8 data)
     else (c, data))"
  by pat_completeness auto
termination by (relation "measure (\<lambda>(c, data). length data)") auto

declare crc_hw_words.simps [simp del]

definition crc32c_hw :: "u32 \<Rightarrow> bytes \<Rightarrow> u32" where
  "crc32c_hw ini data =
    (case crc_hw_words (ucast ini) data of (c, rest) \<Rightarrow> foldl mm_crc32_u8 (ucast c) rest XOR 0xFFFFFFFF)"

definition crc32_from :: "bool \<Rightarrow> nat \<Rightarrow> u32 \<Rightarrow> bytes \<Rightarrow> u32 \<times> nat" where
  "crc32_from detected impl ini data =
    (let which = (if impl = 0 then (if detected then 1 else 2) else impl)
     in ((if which = 1 then crc32c_hw ini data else crc32c_scalar ini data), which))"

subsection \<open>Shifting a checksum past zero bytes\<close>

lemma unat_drop1: "unat (drop_bit 1 x) = unat x div 2" for x :: u32
  by (simp add: drop_bit_eq_div unat_div)

function gf2_times_from :: "u32 list \<Rightarrow> u32 \<Rightarrow> nat \<Rightarrow> u32 \<Rightarrow> u32" where
  "gf2_times_from mat vec i acc =
    (if vec = 0 then acc
     else gf2_times_from mat (drop_bit 1 vec) (Suc i) (if vec AND 1 \<noteq> 0 then acc XOR mat ! i else acc))"
  by pat_completeness auto
termination
proof (relation "measure (\<lambda>(mat, vec, i, acc). unat vec)")
  fix mat i acc and vec :: u32
  assume "vec \<noteq> 0"
  then show "((mat, drop_bit 1 vec, Suc i, if vec AND 1 \<noteq> 0 then acc XOR mat ! i else acc), mat, vec, i, acc)
      \<in> measure (\<lambda>(mat, vec, i, acc). unat vec)"
    using unat_gt_0 [of vec] by (simp only: in_measure prod.case unat_drop1) auto
qed simp

declare gf2_times_from.simps [simp del]

definition gf2_times :: "u32 list \<Rightarrow> u32 \<Rightarrow> u32" where
  "gf2_times mat vec = gf2_times_from mat vec 0 0"

definition gf2_square :: "u32 list \<Rightarrow> u32 list" where
  "gf2_square mat = map (\<lambda>n. gf2_times mat (mat ! n)) [0..<32]"

definition crc_odd :: "u32 list" where
  "crc_odd = 0x82F63B78 # map (\<lambda>i. push_bit i 1) [0..<31]"

definition crc32c_shift_matrices :: "u32 list list" where
  "crc32c_shift_matrices =
    (let even = gf2_square crc_odd;
         byte = gf2_square (gf2_square even)
     in map (\<lambda>k. (gf2_square ^^ k) byte) [0..<64])"

function combine_loop :: "u32 \<Rightarrow> nat \<Rightarrow> nat \<Rightarrow> u32" where
  "combine_loop c n k =
    (if n = 0 then c
     else combine_loop (if odd n then gf2_times (crc32c_shift_matrices ! k) c else c) (n div 2) (Suc k))"
  by pat_completeness auto
termination by (relation "measure (\<lambda>(c, n, k). n)") auto

declare combine_loop.simps [simp del]

definition crc32_combine :: "u32 \<Rightarrow> u32 \<Rightarrow> u64 \<Rightarrow> u32" where
  "crc32_combine crc1 crc2 len2 =
    (if len2 = 0 then crc1 else combine_loop crc1 (unat len2) 0 XOR crc2)"

subsection \<open>The reference: one bit at a time\<close>

definition crc_shift8 :: "u32 \<Rightarrow> u32" where
  "crc_shift8 = crc_step ^^ 8"

definition crc_fold :: "u32 \<Rightarrow> bytes \<Rightarrow> u32" where
  "crc_fold = foldl (\<lambda>c b. crc_shift8 (c XOR ucast b))"

definition crc32c_reference :: "u32 \<Rightarrow> bytes \<Rightarrow> u32" where
  "crc32c_reference ini data = crc_fold ini data XOR 0xFFFFFFFF"

subsection \<open>The step is linear and injective\<close>

lemma crc_step_alt: "crc_step c = drop_bit 1 c XOR (if bit c 0 then CASTAGNOLI else 0)"
  by (auto simp add: crc_step_def and_one_eq bit_0 xor.commute even_iff_mod_2_eq_zero)

lemma crc_step_xor: "crc_step (x XOR y) = crc_step x XOR crc_step y"
  by (simp add: crc_step_alt drop_bit_xor bit_xor_iff ac_simps del: bit_0)

lemma crc_step_0 [simp]: "crc_step 0 = 0"
  by (simp add: crc_step_alt)

lemma crc_step_inj: "crc_step x = crc_step y \<Longrightarrow> x = y"
proof -
  assume "crc_step x = crc_step y"
  then have z: "crc_step (x XOR y) = 0" by (simp add: crc_step_xor)
  define w where "w = x XOR y"
  have b0: "\<not> bit w 0"
  proof
    assume "bit w 0"
    with z have "drop_bit 1 w XOR CASTAGNOLI = 0" by (simp add: crc_step_alt w_def)
    then have "bit (drop_bit 1 w XOR CASTAGNOLI) 31 = False" by simp
    then have "bit w 32" by (simp add: bit_xor_iff bit_drop_bit_eq CASTAGNOLI_def)
    then show False using bit_imp_le_length [of w 32] by simp
  qed
  with z have d: "drop_bit 1 w = 0" by (simp add: crc_step_alt w_def)
  have "w = 0"
  proof (rule bit_eqI)
    fix n show "bit w n \<longleftrightarrow> bit 0 n"
    proof (cases n)
      case 0
      with b0 show ?thesis by simp
    next
      case (Suc m)
      from d have "bit (drop_bit 1 w) m = False" by simp
      with Suc show ?thesis by (simp add: bit_drop_bit_eq)
    qed
  qed
  then show "x = y" by (simp add: w_def xor_eq_0)
qed

lemma crc_steps_xor: "(crc_step ^^ n) (x XOR y) = (crc_step ^^ n) x XOR (crc_step ^^ n) y"
  by (induction n) (simp_all add: crc_step_xor)

lemma crc_steps_inj: "(crc_step ^^ n) x = (crc_step ^^ n) y \<Longrightarrow> x = y"
  by (induction n) (auto dest: crc_step_inj)

lemma crc_steps_low_zero: "(\<And>i. i < n \<Longrightarrow> \<not> bit z i) \<Longrightarrow> (crc_step ^^ n) z = drop_bit n z"
proof (induction n arbitrary: z)
  case 0
  then show ?case by simp
next
  case (Suc n)
  have "crc_step z = drop_bit 1 z" using Suc.prems [of 0] by (simp add: crc_step_alt)
  moreover have "(crc_step ^^ n) (drop_bit 1 z) = drop_bit n (drop_bit 1 z)"
    by (rule Suc.IH) (use Suc.prems in \<open>simp add: bit_drop_bit_eq\<close>)
  ultimately show ?case by (simp add: funpow_swap1)
qed

lemma shift8_pow: "(crc_shift8 ^^ n) x = (crc_step ^^ (8 * n)) x"
  by (simp add: crc_shift8_def funpow_mult)

lemma shift8_xor: "crc_shift8 (x XOR y) = crc_shift8 x XOR crc_shift8 y"
  by (simp add: crc_shift8_def crc_steps_xor)

lemma shift8_pow_xor: "(crc_shift8 ^^ n) (x XOR y) = (crc_shift8 ^^ n) x XOR (crc_shift8 ^^ n) y"
  by (simp add: shift8_pow crc_steps_xor)

lemma shift8_pow_inj: "(crc_shift8 ^^ n) x = (crc_shift8 ^^ n) y \<Longrightarrow> x = y"
  by (auto simp: shift8_pow dest: crc_steps_inj)

lemma bit_ff: "bit (0xff :: u32) i \<longleftrightarrow> i < 8"
proof -
  have "(mask 8 :: u32) = 0xff" by (simp add: mask_eq_exp_minus_1)
  then have "bit (0xff :: u32) i \<longleftrightarrow> bit (mask 8 :: u32) i" by simp
  then show ?thesis by (simp only: bit_mask_iff) auto
qed

lemma shift8_split: "crc_shift8 x = drop_bit 8 x XOR crc_shift8 (x AND 0xff)"
proof -
  define m :: u32 where "m = 0xff"
  have m: "bit m i \<longleftrightarrow> i < 8" for i by (simp only: m_def bit_ff)
  have s: "x = (x AND NOT m) XOR (x AND m)"
    by (rule bit_eqI) (auto simp add: bit_xor_iff bit_and_iff bit_not_iff)
  have "(crc_step ^^ 8) (x AND NOT m) = drop_bit 8 (x AND NOT m)"
    by (rule crc_steps_low_zero) (simp add: bit_and_iff bit_not_iff m)
  also have "\<dots> = drop_bit 8 x"
    by (rule bit_eqI) (auto simp add: bit_and_iff bit_not_iff m bit_drop_bit_eq dest: bit_imp_le_length)
  finally have "crc_shift8 (x AND NOT m) = drop_bit 8 x" by (simp add: crc_shift8_def)
  then show ?thesis using shift8_xor [of "x AND NOT m" "x AND m"] s by (simp add: m_def)
qed

lemma shift8_push: "unat v < 2 ^ 24 \<Longrightarrow> crc_shift8 (push_bit 8 v) = v"
proof -
  assume v: "unat v < 2 ^ 24"
  have "unat (take_bit 24 v) = unat v"
    using v by (simp only: unsigned_take_bit_eq take_bit_nat_eq_self)
  then have "take_bit 24 v = v" by (simp only: word_unat_eq_iff)
  then have b: "bit v i \<Longrightarrow> i < 24" for i by (metis bit_take_bit_iff)
  have "(crc_step ^^ 8) (push_bit 8 v) = drop_bit 8 (push_bit 8 v)"
    by (rule crc_steps_low_zero) (simp add: bit_push_bit_iff)
  also have "\<dots> = v"
    by (rule bit_eqI) (auto simp: bit_drop_bit_eq bit_push_bit_iff dest: b)
  finally show ?thesis by (simp add: crc_shift8_def)
qed

lemma le_word_Cons:
  "(word_of_nat (le_val (b # bs)) :: u32) = ucast b XOR push_bit 8 (word_of_nat (le_val bs))"
proof -
  have "(word_of_nat (le_val (b # bs)) :: u32) = ucast b + push_bit 8 (word_of_nat (le_val bs))"
    by (simp add: push_bit_eq_mult unsigned_ucast_eq)
  also have "\<dots> = ucast b XOR push_bit 8 (word_of_nat (le_val bs))"
  proof (rule disjunctive_add_eq_xor)
    show "ucast b AND push_bit 8 (word_of_nat (le_val bs) :: u32) = 0"
      by (rule bit_eqI) (auto simp: bit_and_iff bit_push_bit_iff bit_ucast_iff dest: bit_imp_le_length)
  qed
  finally show ?thesis .
qed

lemma crc_fold_simps [simp]:
  "crc_fold c [] = c"
  "crc_fold c (b # bs) = crc_fold (crc_shift8 (c XOR ucast b)) bs"
  by (simp_all add: crc_fold_def)

lemma crc_fold_append: "crc_fold c (xs @ ys) = crc_fold (crc_fold c xs) ys"
  by (simp add: crc_fold_def)

lemma crc_fold_word:
  "length bs \<le> 4 \<Longrightarrow> crc_fold c bs = (crc_shift8 ^^ length bs) (c XOR word_of_nat (le_val bs))"
proof (induction bs arbitrary: c)
  case Nil
  then show ?case by simp
next
  case (Cons b bs)
  let ?v = "word_of_nat (le_val bs) :: u32"
  have "le_val bs < 256 ^ length bs" by (rule le_val_less)
  also have "\<dots> \<le> 256 ^ 3" using Cons.prems by (intro power_increasing) auto
  finally have l: "le_val bs < 2 ^ 24" by simp
  then have "unat ?v < 2 ^ 24" by (simp add: unat_of_nat)
  then have p: "crc_shift8 (push_bit 8 ?v) = ?v" by (rule shift8_push)
  have "crc_fold c (b # bs) = (crc_shift8 ^^ length bs) (crc_shift8 (c XOR ucast b) XOR ?v)"
    using Cons by simp
  also have "crc_shift8 (c XOR ucast b) XOR ?v = crc_shift8 (c XOR ucast b XOR push_bit 8 ?v)"
    by (simp only: shift8_xor p xor.assoc)
  finally show ?case
    by (simp only: le_word_Cons list.size add_Suc_right add_0_right funpow_Suc_right o_apply xor.assoc)
qed

lemma crc_fold_linear: "crc_fold (x XOR y) bs = (crc_shift8 ^^ length bs) x XOR crc_fold y bs"
proof (induction bs arbitrary: x y)
  case Nil
  then show ?case by simp
next
  case (Cons b bs)
  have "crc_fold (x XOR y) (b # bs) = crc_fold (crc_shift8 x XOR crc_shift8 (y XOR ucast b)) bs"
    by (simp add: shift8_xor xor.assoc)
  also have "\<dots> = (crc_shift8 ^^ length bs) (crc_shift8 x) XOR crc_fold (crc_shift8 (y XOR ucast b)) bs"
    by (rule Cons)
  finally show ?case by (simp add: funpow_swap1)
qed

lemma shift8_table0: "i < 256 \<Longrightarrow> crc_table0 ! i = crc_shift8 (word_of_nat i)"
  by (simp add: crc_table0_def crc_shift8_def)

lemma unat_and_ff: "unat (x AND 0xff :: u32) < 256"
proof -
  have "x AND 0xff \<le> (0xff :: u32)" by (rule word_and_le1)
  then show ?thesis by (simp add: word_le_nat_alt)
qed

lemma shift8_table: "crc_shift8 x = drop_bit 8 x XOR crc_table0 ! unat (x AND 0xff)"
  by (subst shift8_split) (simp add: shift8_table0 unat_and_ff)

lemma crc_next_table_map: "crc_next_table = map crc_shift8"
  by (rule ext) (simp add: crc_next_table_def flip: shift8_table)

lemma length_next_table: "length ((crc_next_table ^^ j) crc_table0) = 256"
  by (induction j) (simp_all add: crc_next_table_def crc_table0_def)

lemma crc_next_tables:
  "i < 256 \<Longrightarrow> (crc_next_table ^^ j) crc_table0 ! i = (crc_shift8 ^^ Suc j) (word_of_nat i)"
proof (induction j)
  case 0
  then show ?case by (simp add: shift8_table0)
next
  case (Suc j)
  then show ?case
    using length_next_table [of j] by (simp add: crc_next_table_map)
qed

lemma crc_tables: "j < 8 \<Longrightarrow> i < 256 \<Longrightarrow> build_crc_tables ! j ! i = (crc_shift8 ^^ Suc j) (word_of_nat i)"
  by (simp add: build_crc_tables_def crc_next_tables del: funpow.simps)

lemma crc_table_at: "j < 8 \<Longrightarrow> build_crc_tables ! j ! unat (x AND 0xff) = (crc_shift8 ^^ Suc j) (x AND 0xff)"
  by (simp add: crc_tables unat_and_ff del: funpow.simps)

lemma shift8_word:
  "(crc_shift8 ^^ 4) x =
    (crc_shift8 ^^ 4) (x AND 0xff) XOR (crc_shift8 ^^ 3) (drop_bit 8 x AND 0xff)
    XOR (crc_shift8 ^^ 2) (drop_bit 16 x AND 0xff) XOR (crc_shift8 ^^ 1) (drop_bit 24 x AND 0xff)"
proof -
  have z: "drop_bit 32 x = 0"
    by (rule bit_eqI) (auto simp: bit_drop_bit_eq dest: bit_imp_le_length)
  have 1: "(crc_shift8 ^^ Suc n) y = (crc_shift8 ^^ n) (drop_bit 8 y) XOR (crc_shift8 ^^ Suc n) (y AND 0xff)" for n y
    by (simp only: funpow_Suc_right o_apply) (subst shift8_split, simp only: shift8_pow_xor)
  have "(crc_shift8 ^^ 4) x = drop_bit 32 x XOR (crc_shift8 ^^ 1) (drop_bit 24 x AND 0xff)
     XOR (crc_shift8 ^^ 2) (drop_bit 16 x AND 0xff) XOR (crc_shift8 ^^ 3) (drop_bit 8 x AND 0xff)
     XOR (crc_shift8 ^^ 4) (x AND 0xff)"
    using 1 [of 3 x] 1 [of 2 "drop_bit 8 x"] 1 [of 1 "drop_bit 16 x"] 1 [of 0 "drop_bit 24 x"]
    by (simp add: drop_bit_drop_bit numeral_eq_Suc xor.assoc del: funpow.simps)
  then show ?thesis by (simp only: z xor.left_neutral ac_simps)
qed

lemma shift8_word_pow:
  "(crc_shift8 ^^ (n + 4)) x =
    (crc_shift8 ^^ (n + 4)) (x AND 0xff) XOR (crc_shift8 ^^ (n + 3)) (drop_bit 8 x AND 0xff)
    XOR (crc_shift8 ^^ (n + 2)) (drop_bit 16 x AND 0xff) XOR (crc_shift8 ^^ (n + 1)) (drop_bit 24 x AND 0xff)"
  by (simp only: funpow_add o_apply, subst shift8_word, simp only: shift8_pow_xor)

lemma crc_round_fold: "length w = 8 \<Longrightarrow> crc_round c w = crc_fold c w"
proof -
  assume w: "length w = 8"
  let ?lo = "word_of_nat (le_val (take 4 w)) XOR c"
  let ?hi = "word_of_nat (le_val (drop 4 w)) :: u32"
  have "crc_fold c w = crc_fold (crc_fold c (take 4 w)) (drop 4 w)"
    by (metis append_take_drop_id crc_fold_append)
  also have "\<dots> = (crc_shift8 ^^ 4) ((crc_shift8 ^^ 4) ?lo XOR ?hi)"
    using w by (simp add: crc_fold_word xor.commute)
  also have "\<dots> = (crc_shift8 ^^ (4 + 4)) ?lo XOR (crc_shift8 ^^ (0 + 4)) ?hi"
    by (simp only: shift8_pow_xor funpow_add o_apply) simp
  also have "\<dots> = crc_round c w"
    unfolding shift8_word_pow [of _ ?lo] shift8_word_pow [of _ ?hi]
    by (simp add: crc_round_def Let_def crc_table_at xor.assoc del: funpow.simps)
  finally show ?thesis by simp
qed


lemma crc_tail_byte_fold: "crc_tail_byte c b = crc_shift8 (c XOR ucast b)"
proof -
  have "drop_bit 8 (c XOR ucast b) = drop_bit 8 c"
    by (rule bit_eqI) (auto simp: bit_drop_bit_eq bit_xor_iff bit_ucast_iff dest: bit_imp_le_length)
  then show ?thesis
    by (subst shift8_split) (simp add: crc_tail_byte_def crc_table_at xor.commute)
qed

lemma crc_rounds_fold:
  "crc_rounds c data = (d, rest) \<Longrightarrow> crc_fold d rest = crc_fold c data"
proof (induction c data rule: crc_rounds.induct)
  case (1 c data)
  show ?case
  proof (cases "8 \<le> length data")
    case True
    with 1 have "crc_fold d rest = crc_fold (crc_round c (take 8 data)) (drop 8 data)"
      by (simp add: crc_rounds.simps [of c data])
    also have "\<dots> = crc_fold c (take 8 data @ drop 8 data)"
      using True by (simp only: crc_fold_append) (simp add: crc_round_fold)
    finally show ?thesis by simp
  next
    case False
    with 1 show ?thesis by (simp add: crc_rounds.simps [of c data])
  qed
qed

lemma crc32c_scalar_fold: "crc32c_scalar ini data = crc_fold ini data XOR 0xFFFFFFFF"
proof -
  obtain d rest where r: "crc_rounds ini data = (d, rest)" by fastforce
  have "foldl crc_tail_byte d rest = crc_fold d rest"
    by (simp add: crc_fold_def crc_tail_byte_fold [abs_def])
  with r show ?thesis by (simp add: crc32c_scalar_def crc_rounds_fold)
qed

subsection \<open>The matrices represent the shifts\<close>

definition represents :: "u32 list \<Rightarrow> (u32 \<Rightarrow> u32) \<Rightarrow> bool" where
  "represents mat f \<longleftrightarrow> (\<forall>x y. f (x XOR y) = f x XOR f y) \<and> length mat = 32 \<and>
     (\<forall>i<32. mat ! i = f (push_bit i 1))"

lemma represents_xor: "represents mat f \<Longrightarrow> f (x XOR y) = f x XOR f y"
  by (simp add: represents_def)

lemma represents_0: "represents mat f \<Longrightarrow> f 0 = 0"
  using represents_xor [of mat f 0 0] by simp

lemma push_bit_low_split:
  "push_bit i x = (if x AND 1 \<noteq> 0 then push_bit i 1 else 0) XOR push_bit (Suc i) (drop_bit 1 x)"
  for x :: u32
proof (rule bit_eqI)
  fix n assume n: "possible_bit TYPE(u32) n"
  have o: "x AND 1 \<noteq> 0 \<longleftrightarrow> bit x 0" by (auto simp: and_one_eq bit_0 even_iff_mod_2_eq_zero)
  show "bit (push_bit i x) n \<longleftrightarrow>
    bit ((if x AND 1 \<noteq> 0 then push_bit i 1 else 0) XOR push_bit (Suc i) (drop_bit 1 x)) n"
    unfolding o using n
    by (cases "n < i"; cases "n = i")
      (auto simp: bit_xor_iff bit_push_bit_iff bit_drop_bit_eq bit_1_iff Suc_diff_Suc simp del: push_bit_of_1 push_bit_Suc drop_bit_Suc)
qed

lemma gf2_times_from_eq:
  "represents mat f \<Longrightarrow> i \<le> 32 \<Longrightarrow> unat vec < 2 ^ (32 - i) \<Longrightarrow>
    gf2_times_from mat vec i acc = acc XOR f (push_bit i vec)"
proof (induction mat vec i acc rule: gf2_times_from.induct)
  case (1 mat vec i acc)
  note r = "1.prems"(1)
  show ?case
  proof (cases "vec = 0")
    case True
    then show ?thesis using represents_0 [OF r] by (simp add: gf2_times_from.simps)
  next
    case False
    then have "0 < unat vec" by (simp add: unat_gt_0)
    with "1.prems" have i: "i < 32" by (cases "i = 32") auto
    then have "32 - i = Suc (32 - Suc i)" by simp
    with "1.prems"(3) have b: "unat (drop_bit 1 vec) < 2 ^ (32 - Suc i)"
      by (simp only: unat_drop1 power_Suc)
    have m: "mat ! i = f (push_bit i 1)" using r i by (simp add: represents_def)
    have "gf2_times_from mat vec i acc =
        (if vec AND 1 \<noteq> 0 then acc XOR mat ! i else acc) XOR f (push_bit (Suc i) (drop_bit 1 vec))"
      using "1.IH" [OF False r _ b] False i by (simp add: gf2_times_from.simps [of mat vec])
    also have "\<dots> = acc XOR f (push_bit i vec)"
      by (subst push_bit_low_split) (simp add: represents_xor [OF r] represents_0 [OF r] m xor.assoc)
    finally show ?thesis .
  qed
qed

lemma gf2_times_eq: "represents mat f \<Longrightarrow> gf2_times mat v = f v"
  using gf2_times_from_eq [of mat f 0 v 0] unsigned_less [of v, where 'a = nat]
  by (simp add: gf2_times_def)

lemma gf2_square_represents: "represents mat f \<Longrightarrow> represents (gf2_square mat) (f \<circ> f)"
  by (simp add: represents_def gf2_square_def gf2_times_eq [of mat f] represents_xor)

lemma gf2_square_pow: "represents mat f \<Longrightarrow> represents ((gf2_square ^^ k) mat) (f ^^ (2 ^ k))"
proof (induction k)
  case 0
  then show ?case by simp
next
  case (Suc k)
  then have "represents (gf2_square ((gf2_square ^^ k) mat)) ((f ^^ (2 ^ k)) \<circ> (f ^^ (2 ^ k)))"
    by (intro gf2_square_represents) simp
  then show ?case by (simp add: mult_2 flip: funpow_add)
qed

lemma crc_odd_represents: "represents crc_odd crc_step"
proof -
  have "crc_odd ! i = crc_step (push_bit i 1)" if "i < 32" for i
  proof (cases i)
    case 0
    then show ?thesis by (simp add: crc_odd_def crc_step_def CASTAGNOLI_def)
  next
    case (Suc j)
    have "drop_bit 1 (push_bit (Suc j) (1 :: u32)) = push_bit j 1"
      using that Suc by (intro bit_eqI) (auto simp: bit_drop_bit_eq bit_push_bit_iff bit_1_iff
        simp del: push_bit_of_1 push_bit_Suc drop_bit_Suc)
    then show ?thesis
      using that Suc by (simp add: crc_odd_def crc_step_alt bit_push_bit_iff del: push_bit_Suc push_bit_of_1 drop_bit_Suc)
  qed
  then show ?thesis by (simp add: represents_def crc_step_xor crc_odd_def)
qed

lemma shift_matrices_represent:
  "k < 64 \<Longrightarrow> represents (crc32c_shift_matrices ! k) (crc_shift8 ^^ (2 ^ k))"
proof -
  assume k: "k < 64"
  have "represents ((gf2_square ^^ 3) crc_odd) (crc_step ^^ (2 ^ 3))"
    by (rule gf2_square_pow [OF crc_odd_represents])
  then have "represents (gf2_square (gf2_square (gf2_square crc_odd))) crc_shift8"
    by (simp add: crc_shift8_def eval_nat_numeral)
  from gf2_square_pow [OF this, of k] k show ?thesis
    by (simp add: crc32c_shift_matrices_def Let_def)
qed

lemma combine_loop_eq:
  "n < 2 ^ (64 - k) \<Longrightarrow> k \<le> 64 \<Longrightarrow> combine_loop c n k = (crc_shift8 ^^ (n * 2 ^ k)) c"
proof (induction c n k rule: combine_loop.induct)
  case (1 c n k)
  show ?case
  proof (cases "n = 0")
    case True
    then show ?thesis by (simp add: combine_loop.simps)
  next
    case False
    with "1.prems" have k: "k < 64" by (cases "k = 64") auto
    then have "64 - k = Suc (64 - Suc k)" by simp
    with "1.prems" have b: "n div 2 < 2 ^ (64 - Suc k)" by (simp only: power_Suc)
    let ?c = "if odd n then gf2_times (crc32c_shift_matrices ! k) c else c"
    have c: "?c = (crc_shift8 ^^ ((n mod 2) * 2 ^ k)) c"
      using gf2_times_eq [OF shift_matrices_represent [OF k]] by (auto simp: odd_iff_mod_2_eq_one)
    have "combine_loop c n k = (crc_shift8 ^^ ((n div 2) * 2 ^ Suc k)) ?c"
      using "1.IH" [OF False b] False k by (simp add: combine_loop.simps [of c n k])
    also have "\<dots> = (crc_shift8 ^^ ((n div 2) * 2 ^ Suc k + (n mod 2) * 2 ^ k)) c"
      by (simp only: c funpow_add o_apply)
    also have "(n div 2) * 2 ^ Suc k + (n mod 2) * 2 ^ k = (n div 2 * 2 + n mod 2) * 2 ^ k"
      by (simp only: power_Suc add_mult_distrib mult.assoc)
    finally show ?thesis by (simp only: div_mult_mod_eq)
  qed
qed

lemma crc32_resume_eq: "crc32_resume (crc32 a) b = crc32 (a @ b)"
  by (simp add: crc32_resume_def crc32_def crc32c_scalar_fold crc_fold_append xor.assoc)

lemma crc32_combine_eq:
  assumes "length b < 2 ^ 64"
  shows "crc32_combine (crc32 a) (crc32 b) (word_of_nat (length b)) = crc32 (a @ b)"
proof -
  let ?m = "0xFFFFFFFF :: u32"
  have u: "unat (word_of_nat (length b) :: u64) = length b"
    using assms by (simp add: unat_of_nat)
  have z: "(word_of_nat (length b) :: u64) = 0 \<longleftrightarrow> b = []"
    using u by (metis length_0_conv unat_eq_zero)
  show ?thesis
  proof (cases "b = []")
    case True
    then show ?thesis by (simp add: crc32_combine_def)
  next
    case False
    let ?F = "crc_fold ?m a"
    have "crc32_combine (crc32 a) (crc32 b) (word_of_nat (length b)) =
        (crc_shift8 ^^ length b) (?F XOR ?m) XOR (crc_fold ?m b XOR ?m)"
      using False z assms
      by (simp add: crc32_combine_def u combine_loop_eq crc32_def crc32c_scalar_fold)
    also have "(crc_shift8 ^^ length b) (?F XOR ?m) XOR (crc_fold ?m b XOR ?m)
       = crc_fold (?F XOR ?m XOR ?m) b XOR ?m"
      by (simp only: crc_fold_linear xor.assoc shift8_pow_xor)
    finally show ?thesis
      by (simp add: crc32_def crc32c_scalar_fold crc_fold_append)
  qed
qed


subsection \<open>The hardware update\<close>

lemma crc_step64_alt: "crc_step64 c = drop_bit 1 c XOR (if bit c 0 then ucast CASTAGNOLI else 0)"
  by (auto simp add: crc_step64_def and_one_eq bit_0 xor.commute even_iff_mod_2_eq_zero)

lemma crc_step64_xor: "crc_step64 (x XOR y) = crc_step64 x XOR crc_step64 y"
  by (simp add: crc_step64_alt drop_bit_xor bit_xor_iff ac_simps del: bit_0)

lemma crc_steps64_xor: "(crc_step64 ^^ n) (x XOR y) = (crc_step64 ^^ n) x XOR (crc_step64 ^^ n) y"
  by (induction n) (simp_all add: crc_step64_xor)

lemma crc_step64_ucast: "crc_step64 (ucast x) = ucast (crc_step x)"
  by (rule bit_eqI)
    (auto simp: crc_step64_alt crc_step_alt bit_xor_iff bit_drop_bit_eq bit_ucast_iff dest: bit_imp_le_length)

lemma crc_steps64_ucast: "(crc_step64 ^^ n) (ucast x) = ucast ((crc_step ^^ n) x)"
  by (induction n) (simp_all add: crc_step64_ucast)

lemma crc_steps64_low_zero: "(\<And>i. i < n \<Longrightarrow> \<not> bit z i) \<Longrightarrow> (crc_step64 ^^ n) z = drop_bit n z"
proof (induction n arbitrary: z)
  case 0
  then show ?case by simp
next
  case (Suc n)
  have "crc_step64 z = drop_bit 1 z" using Suc.prems [of 0] by (simp add: crc_step64_alt)
  moreover have "(crc_step64 ^^ n) (drop_bit 1 z) = drop_bit n (drop_bit 1 z)"
    by (rule Suc.IH) (use Suc.prems in \<open>simp add: bit_drop_bit_eq\<close>)
  ultimately show ?case by (simp add: funpow_swap1)
qed

lemma crc_steps64_high: "(crc_step64 ^^ 32) (push_bit 32 (ucast (x :: u32))) = ucast x"
proof -
  have "(crc_step64 ^^ 32) (push_bit 32 (ucast x)) = drop_bit 32 (push_bit 32 (ucast x) :: u64)"
    by (rule crc_steps64_low_zero) (simp add: bit_push_bit_iff)
  also have "\<dots> = ucast x"
    by (rule bit_eqI) (auto simp: bit_drop_bit_eq bit_push_bit_iff bit_ucast_iff dest: bit_imp_le_length)
  finally show ?thesis .
qed

lemma le_word8_split:
  assumes "length w = 8"
  shows "(word_of_nat (le_val w) :: u64) =
    ucast (word_of_nat (le_val (take 4 w)) :: u32) XOR push_bit 32 (ucast (word_of_nat (le_val (drop 4 w)) :: u32))"
proof -
  let ?lo = "le_val (take 4 w)" and ?hi = "le_val (drop 4 w)"
  have b: "?lo < 2 ^ 32" "?hi < 2 ^ 32"
    using le_val_less [of "take 4 w"] le_val_less [of "drop 4 w"] assms by simp_all
  have u: "ucast (word_of_nat v :: u32) = (word_of_nat v :: u64)" if "v < 2 ^ 32" for v
    using that by (simp add: word_unat_eq_iff unat_of_nat unsigned_ucast_eq take_bit_eq_mod)
  have u1: "ucast (word_of_nat ?lo :: u32) = (word_of_nat ?lo :: u64)"
    and u2: "ucast (word_of_nat ?hi :: u32) = (word_of_nat ?hi :: u64)"
    using b by (simp_all only: u)
  have "le_val w = ?lo + 2 ^ 32 * ?hi"
    using le_val_append [of "take 4 w" "drop 4 w"] assms by simp
  then have "(word_of_nat (le_val w) :: u64) = ucast (word_of_nat ?lo :: u32) + push_bit 32 (ucast (word_of_nat ?hi :: u32))"
    unfolding u1 u2 by (simp add: push_bit_eq_mult)
  also have "\<dots> = ucast (word_of_nat ?lo :: u32) XOR push_bit 32 (ucast (word_of_nat ?hi :: u32))"
    by (rule disjunctive_add_eq_xor, rule bit_eqI)
      (auto simp: bit_and_iff bit_push_bit_iff bit_ucast_iff dest: bit_imp_le_length)
  finally show ?thesis .
qed

lemma take_bit_ucast32: "take_bit 32 (ucast (c :: u32) :: u64) = ucast c"
  by (rule bit_eqI) (auto simp: bit_take_bit_iff bit_ucast_iff dest: bit_imp_le_length)

lemma mm_crc32_u64_fold:
  assumes "length w = 8"
  shows "mm_crc32_u64 (ucast (c :: u32)) (word_of_nat (le_val w)) = ucast (crc_fold c w)"
proof -
  let ?lo = "word_of_nat (le_val (take 4 w)) :: u32" and ?hi = "word_of_nat (le_val (drop 4 w)) :: u32"
  have "mm_crc32_u64 (ucast c) (word_of_nat (le_val w)) =
      (crc_step64 ^^ (32 + 32)) (ucast (c XOR ?lo) XOR push_bit 32 (ucast ?hi))"
    by (simp add: mm_crc32_u64_def take_bit_ucast32 le_word8_split [OF assms] unsigned_xor_eq xor.assoc)
  also have "\<dots> = ucast ((crc_step ^^ 32) ((crc_step ^^ 32) (c XOR ?lo) XOR ?hi))"
    by (simp only: funpow_add o_apply crc_steps64_xor crc_steps64_high crc_steps64_ucast unsigned_xor_eq
        crc_steps_xor xor.assoc)
  also have "(crc_step ^^ 32) ((crc_step ^^ 32) (c XOR ?lo) XOR ?hi) = crc_fold (crc_fold c (take 4 w)) (drop 4 w)"
    using assms by (simp add: crc_fold_word shift8_pow)
  finally show ?thesis by (simp flip: crc_fold_append)
qed

lemma crc_hw_words_fold:
  "crc_hw_words (ucast c) data = (d, rest) \<Longrightarrow> crc_fold (ucast d) rest = crc_fold c data"
proof (induction "ucast c :: u64" data arbitrary: c rule: crc_hw_words.induct)
  case (1 data c)
  show ?case
  proof (cases "8 \<le> length data")
    case True
    then have l: "length (take 8 data) = 8" by simp
    from 1 True have "crc_fold (ucast d) rest = crc_fold (crc_fold c (take 8 data)) (drop 8 data)"
      by (simp add: crc_hw_words.simps [of "ucast c" data] mm_crc32_u64_fold [OF l])
    then show ?thesis by (simp flip: crc_fold_append)
  next
    case False
    have "ucast (ucast c :: u64) = c"
      by (rule bit_eqI) (auto simp: bit_ucast_iff dest: bit_imp_le_length)
    with 1 False show ?thesis by (auto simp: crc_hw_words.simps [of "ucast c" data])
  qed
qed

lemma crc32c_hw_fold: "crc32c_hw ini data = crc_fold ini data XOR 0xFFFFFFFF"
proof -
  obtain d rest where r: "crc_hw_words (ucast ini) data = (d, rest)" by fastforce
  have "foldl mm_crc32_u8 (ucast d) rest = crc_fold (ucast d) rest"
    by (simp add: crc_fold_def mm_crc32_u8_def [abs_def] crc_shift8_def)
  with r show ?thesis by (simp add: crc32c_hw_def crc_hw_words_fold)
qed

subsection \<open>Damage changes the checksum\<close>

lemma crc_fold_burst:
  assumes "length w = length w'" and "length w \<le> 4" and "crc_fold c w = crc_fold c w'"
  shows "w = w'"
proof -
  have "(crc_shift8 ^^ length w) (c XOR word_of_nat (le_val w)) = (crc_shift8 ^^ length w) (c XOR word_of_nat (le_val w'))"
    using assms by (simp add: crc_fold_word)
  then have "c XOR word_of_nat (le_val w) = c XOR (word_of_nat (le_val w') :: u32)"
    by (rule shift8_pow_inj)
  then have "(word_of_nat (le_val w) :: u32) = word_of_nat (le_val w')"
    by (metis xor.assoc xor_self_eq xor.left_neutral)
  moreover have "le_val v < 2 ^ 32" if "length v \<le> 4" for v
  proof -
    have "le_val v < 256 ^ length v" by (rule le_val_less)
    also have "\<dots> \<le> 256 ^ 4" using that by (intro power_increasing) auto
    finally show ?thesis by simp
  qed
  ultimately have "le_val w = le_val w'"
    using assms(1,2) by (auto simp: word_unat_eq_iff unat_of_nat)
  then show ?thesis using assms(1) by (metis le_bytes_val)
qed

lemma crc_fold_state_inj: "crc_fold c bs = crc_fold d bs \<Longrightarrow> c = d"
proof -
  assume "crc_fold c bs = crc_fold d bs"
  then have "crc_fold (c XOR d XOR d) bs = crc_fold (0 XOR d) bs" by simp
  then have "(crc_shift8 ^^ length bs) (c XOR d) XOR crc_fold d bs = crc_fold d bs"
    by (simp only: xor.assoc flip: crc_fold_linear) simp
  then have "(crc_shift8 ^^ length bs) (c XOR d) = 0" by (rule xor_same_right)
  also have "0 = (crc_shift8 ^^ length bs) 0" using shift8_pow_xor [of "length bs" 0 0] by simp
  finally have "c XOR d = 0" by (rule shift8_pow_inj)
  then show ?thesis by (rule xor_eq_0)
qed


lemma crc32_burst_eq:
  assumes "length w = length w'" and "length w \<le> 4" and "crc32 (a @ w @ b) = crc32 (a @ w' @ b)"
  shows "w = w'"
proof -
  let ?c = "crc_fold 0xFFFFFFFF a"
  have "crc_fold (crc_fold ?c w) b XOR 0xFFFFFFFF = crc_fold (crc_fold ?c w') b XOR 0xFFFFFFFF"
    using assms(3) by (simp add: crc32_def crc32c_scalar_fold crc_fold_append)
  then have "crc_fold (crc_fold ?c w) b = crc_fold (crc_fold ?c w') b" by (rule xor_right_cancel)
  then have "crc_fold ?c w = crc_fold ?c w'" by (rule crc_fold_state_inj)
  with assms(1,2) show ?thesis by (rule crc_fold_burst)
qed

subsection \<open>What a client of the checksum relies on\<close>

text \<open>
  A checksum that can be resumed and combined, and that no damage confined to
  four consecutive bytes leaves unchanged.
\<close>

locale checksum =
  fixes crc :: "bytes \<Rightarrow> u32"
    and resume :: "u32 \<Rightarrow> bytes \<Rightarrow> u32"
    and combine :: "u32 \<Rightarrow> u32 \<Rightarrow> u64 \<Rightarrow> u32"
  assumes resume_law: "resume (crc a) b = crc (a @ b)"
    and combine_law: "length b < 2 ^ 64 \<Longrightarrow> combine (crc a) (crc b) (word_of_nat (length b)) = crc (a @ b)"
    and burst_law: "length w = length w' \<Longrightarrow> length w \<le> 4 \<Longrightarrow> crc (a @ w @ b) = crc (a @ w' @ b) \<Longrightarrow> w = w'"
begin

text \<open>Resuming over a list of pieces hashes their concatenation.\<close>

lemma resume_pieces: "foldl resume (crc a) bs = crc (a @ concat bs)"
  by (induction bs arbitrary: a) (simp_all add: resume_law)

text \<open>So does combining the pieces' own checksums in turn.\<close>

lemma combine_pieces:
  "\<forall>b \<in> set bs. length b < 2 ^ 64 \<Longrightarrow>
    foldl (\<lambda>c b. combine c (crc b) (word_of_nat (length b))) (crc a) bs = crc (a @ concat bs)"
  by (induction bs arbitrary: a) (simp_all add: combine_law)

text \<open>Overwriting at most four consecutive bytes with others is noticed.\<close>

lemma blit_noticed:
  assumes "at + length w \<le> length d" and "length w \<le> 4" and "blit d at w \<noteq> d"
  shows "crc (blit d at w) \<noteq> crc d"
proof
  let ?o = "take (length w) (drop at d)"
  assume e: "crc (blit d at w) = crc d"
  have d: "d = take at d @ ?o @ drop (at + length w) d"
    by (metis add.commute append_take_drop_id drop_drop)
  have l: "length w = length ?o" using assms(1) by simp
  have "crc (take at d @ w @ drop (at + length w) d) = crc (take at d @ ?o @ drop (at + length w) d)"
    using e d by (simp add: blit_def)
  with l assms(2) have "w = ?o" by (rule burst_law)
  with d assms(3) show False by (simp add: blit_def)
qed

end

interpretation crc: checksum crc32 crc32_resume crc32_combine
proof unfold_locales
  show "crc32_resume (crc32 a) b = crc32 (a @ b)" for a b by (rule crc32_resume_eq)
  show "crc32_combine (crc32 a) (crc32 b) (word_of_nat (length b)) = crc32 (a @ b)"
    if "length b < 2 ^ 64" for a b using that by (rule crc32_combine_eq)
  show "w = w'" if "length w = length w'" "length w \<le> 4" "crc32 (a @ w @ b) = crc32 (a @ w' @ b)"
    for w w' a b using that by (rule crc32_burst_eq)
qed

subsection \<open>Properties\<close>

text \<open>
  C18: the slice-by-8 update over the eight tables the builder computes is the
  bit-at-a-time division by the Castagnoli polynomial, from every initial state
  and on every input, whatever its length modulo eight.
\<close>

theorem crc32c_scalar_reference: "crc32c_scalar ini data = crc32c_reference ini data"
  by (simp add: crc32c_scalar_fold crc32c_reference_def)

text \<open>
  Whatever the processor advertises and whatever an earlier call left in the
  cached choice, the dispatch returns the portable update's word, and it leaves
  the choice resolved.
\<close>

theorem crc32_from_agrees:
  "fst (crc32_from detected impl ini data) = crc32c_scalar ini data \<and> snd (crc32_from detected impl ini data) \<noteq> 0"
  by (simp add: crc32_from_def Let_def crc32c_hw_fold crc32c_scalar_fold)

text \<open>
  A checksum resumed over more bytes is the checksum of the whole, in one
  call or piece by piece, and the empty input's checksum is zero, so that a
  resume from zero is a fresh checksum.
\<close>

theorem crc32_resume_append:
  "crc32_resume (crc32 a) b = crc32 (a @ b) \<and> crc32_resume 0 b = crc32 b
   \<and> foldl crc32_resume (crc32 a) bs = crc32 (a @ concat bs)"
proof -
  have "crc32_resume 0 b = crc32 b" by (simp add: crc32_resume_def crc32_def)
  then show ?thesis by (simp add: crc.resume_law crc.resume_pieces)
qed

text \<open>
  C25: combining the checksums of the pieces of a byte stream, in order and with
  the pieces' lengths alone, gives the checksum of the stream, for pieces whose
  lengths a u64 holds.
\<close>

theorem crc32_combine_append:
  assumes "\<forall>b \<in> set bs. length b < 2 ^ 64"
  shows "foldl (\<lambda>c b. crc32_combine c (crc32 b) (word_of_nat (length b))) (crc32 a) bs = crc32 (a @ concat bs)"
  using assms by (rule crc.combine_pieces)

theorem crc32_combine_append_witness:
  "crc32_combine (crc32_combine (crc32 [1, 2]) (crc32 [3]) 1) (crc32 [4, 5, 6]) 3 = crc32 [1, 2, 3, 4, 5, 6]"
  using crc32_combine_append [of "[[3], [4, 5, 6]]" "[1, 2]"] by simp

text \<open>
  C19: no damage confined to four consecutive bytes goes unnoticed: overwriting
  them with anything that changes them changes the checksum.
\<close>

theorem crc32_burst_detected:
  assumes "at + length w \<le> length d" and "length w \<le> 4" and "blit d at w \<noteq> d"
  shows "crc32 (blit d at w) \<noteq> crc32 d"
  using assms by (rule crc.blit_noticed)

theorem crc32_burst_detected_witness:
  "crc32 (blit [1, 2, 3, 4, 5, 6] 2 [3, 255]) \<noteq> crc32 [1, 2, 3, 4, 5, 6]"
  by (rule crc32_burst_detected) (simp_all add: blit_def)

end
