(* ===== verification/Runs.thy ===== *)
theory Runs
  imports Prelude
begin

text \<open>
  The extent types and the run encoding of index.rs. An extent names one run of
  a key's values and carries two flags in its count word; a run is either
  fixed (values of one width, back to back) or prefixed (a varint length before
  each value). \<open>each_value\<close> hands its callback one value at a time, so its model
  returns the values handed over before it ended beside how it ended.
\<close>

subsection \<open>Extents\<close>

record ext =
  e_block :: u32
  e_off :: u32
  e_len :: u32
  e_last :: u32
  e_count :: u32

definition TOMBSTONE :: u32 where "TOMBSTONE = push_bit 31 1"
definition FIXED :: u32 where "FIXED = push_bit 30 1"
definition INLINE :: u32 where "INLINE = 0xFFFFFFFF"

definition is_fixed :: "ext \<Rightarrow> bool" where
  "is_fixed e \<longleftrightarrow> e_count e AND FIXED \<noteq> 0"

definition records :: "ext \<Rightarrow> u32" where
  "records e = e_count e AND NOT (TOMBSTONE OR FIXED)"

definition is_tombstone :: "ext \<Rightarrow> bool" where
  "is_tombstone e \<longleftrightarrow> e_count e AND TOMBSTONE \<noteq> 0"

definition is_inline :: "ext \<Rightarrow> bool" where
  "is_inline e \<longleftrightarrow> e_block e = INLINE"

definition fixed_width :: "ext \<Rightarrow> nat option" where
  "fixed_width e =
    (if \<not> is_fixed e then None
     else let n = unat (records e)
          in if n = 0 \<or> unat (e_len e) mod n \<noteq> 0 then None else Some (unat (e_len e) div n))"

text \<open>A record's extents as a reader finds them, and a key's extents as a writer grows them.\<close>

datatype exts = Borrowed "ext list" | OneExt ext

fun exts_deref :: "exts \<Rightarrow> ext list" where
  "exts_deref (Borrowed s) = s"
| "exts_deref (OneExt e) = [e]"

datatype extents = ENone | EOne ext | EMany "ext list"

fun extents_push :: "extents \<Rightarrow> ext \<Rightarrow> extents" where
  "extents_push ENone e = EOne e"
| "extents_push (EOne first) e = EMany [first, e]"
| "extents_push (EMany v) e = EMany (v @ [e])"

fun extents_as_slice :: "extents \<Rightarrow> ext list" where
  "extents_as_slice ENone = []"
| "extents_as_slice (EOne e) = [e]"
| "extents_as_slice (EMany v) = v"

subsection \<open>Varints\<close>

lemma unat_drop7: "unat (drop_bit 7 v) = unat v div 128" for v :: u64
  by (simp add: drop_bit_eq_div unat_div)

lemma ge_0x80: "0x80 \<le> v \<longleftrightarrow> 128 \<le> unat v" for v :: u64
  by (simp add: word_le_nat_alt)

function put_uvarint :: "bytes \<Rightarrow> u64 \<Rightarrow> bytes" where
  "put_uvarint out v =
    (if 0x80 \<le> v then put_uvarint (out @ [ucast v OR 0x80]) (drop_bit 7 v) else out @ [ucast v])"
  by pat_completeness auto
termination
  by (relation "measure (\<lambda>(out, v). unat v)") (auto simp: unat_drop7 ge_0x80)

declare put_uvarint.simps [simp del]

function get_uvarint_from :: "bytes \<Rightarrow> nat \<Rightarrow> u64 \<Rightarrow> nat \<Rightarrow> u64 \<times> nat" where
  "get_uvarint_from buf pos v shift =
    (if pos < length buf
     then let b = buf ! pos;
              v' = v OR push_bit shift (ucast (b AND 0x7f))
          in if b < 0x80 then (v', Suc pos)
             else if shift + 7 \<ge> 64 then (v', Suc pos)
             else get_uvarint_from buf (Suc pos) v' (shift + 7)
     else (v, pos))"
  by pat_completeness auto
termination
  by (relation "measure (\<lambda>(buf, pos, v, shift). length buf - pos)") auto

declare get_uvarint_from.simps [simp del]

definition get_uvarint :: "bytes \<Rightarrow> nat \<Rightarrow> u64 \<times> nat" where
  "get_uvarint buf pos = get_uvarint_from buf pos 0 0"

lemma get_uvarint_from_bounds:
  "get_uvarint_from buf pos v shift = (w, pos') \<Longrightarrow>
    pos \<le> pos' \<and> (pos < length buf \<longrightarrow> pos < pos') \<and> (pos \<le> length buf \<longrightarrow> pos' \<le> length buf)"
proof (induction buf pos v shift rule: get_uvarint_from.induct)
  case (1 buf pos v shift)
  show ?case
  proof (cases "pos < length buf \<and> \<not> buf ! pos < 0x80 \<and> shift + 7 < 64")
    case True
    with 1 show ?thesis by (simp add: get_uvarint_from.simps [of buf pos] Let_def) fastforce
  next
    case False
    with "1.prems" show ?thesis
      by (auto simp: get_uvarint_from.simps [of buf pos] Let_def split: if_splits)
  qed
qed

lemma get_uvarint_progress: "pos < length buf \<Longrightarrow> pos < snd (get_uvarint buf pos)"
  unfolding get_uvarint_def using get_uvarint_from_bounds [of buf pos 0 0] by (metis prod.collapse)

lemma get_uvarint_le: "pos \<le> length buf \<Longrightarrow> snd (get_uvarint buf pos) \<le> length buf"
  unfolding get_uvarint_def using get_uvarint_from_bounds [of buf pos 0 0] by (metis prod.collapse)

subsection \<open>Reading a run\<close>

function chunks_exact :: "nat \<Rightarrow> 'a list \<Rightarrow> 'a list list" where
  "chunks_exact w xs = (if w = 0 \<or> length xs < w then [] else take w xs # chunks_exact w (drop w xs))"
  by pat_completeness auto
termination by (relation "measure (\<lambda>(w, xs). length xs)") auto

declare chunks_exact.simps [simp del]

datatype run_error = FixedNotMultiple | FixedMismatch | RecordOverflows | RecordPastEnd

function each_prefixed :: "bytes \<Rightarrow> nat \<Rightarrow> bytes list \<Rightarrow> bytes list \<times> (run_error + nat)" where
  "each_prefixed run p vs =
    (if p < length run
     then (case get_uvarint run p of (l, q) \<Rightarrow>
       (case checked_add q (unat l) of
          None \<Rightarrow> (vs, Inl RecordOverflows)
        | Some e \<Rightarrow>
            if length run < e then (vs, Inl RecordPastEnd)
            else each_prefixed run e (vs @ [take (e - q) (drop q run)])))
     else (vs, Inr (length vs)))"
  by pat_completeness auto
termination
proof (relation "measure (\<lambda>(run, p, vs). length run - p)", goal_cases)
  case 1
  show ?case by simp
next
  case (2 run p vs l q e)
  from 2 have "p < q" using get_uvarint_progress [of p run] by (metis snd_conv)
  moreover from 2 have "q \<le> e" by (auto simp: checked_add_def split: if_splits)
  ultimately show ?case using 2 by simp
qed

declare each_prefixed.simps [simp del]

definition each_value :: "bytes \<Rightarrow> ext \<Rightarrow> bytes list \<times> (run_error + nat)" where
  "each_value run e =
    (if is_fixed e
     then (case fixed_width e of
             None \<Rightarrow> ([], Inl FixedNotMultiple)
           | Some w \<Rightarrow>
               if length run \<noteq> unat (e_len e) \<or> w = 0 then ([], Inl FixedMismatch)
               else (chunks_exact w run, Inr (length (chunks_exact w run))))
     else each_prefixed run 0 [])"

subsection \<open>Writing a run\<close>

fun encode_prefixed :: "bytes \<Rightarrow> u32 list \<Rightarrow> nat \<Rightarrow> u32 \<Rightarrow> bytes \<Rightarrow> (bytes \<times> u32) option" where
  "encode_prefixed values [] at lst out = Some (out, lst)"
| "encode_prefixed values (l # lens) at lst out =
    do { v \<leftarrow> slice values at (at + unat l);
         encode_prefixed values lens (at + unat l) (word_of_nat (length out)) (put_uvarint out (ucast l) @ v) }"

definition encode_run :: "bytes \<Rightarrow> u32 list \<Rightarrow> (bytes \<times> u32 \<times> u32) option" where
  "encode_run values lens =
    (let n = length lens
     in if n > 0 \<and> lens ! 0 > 0 \<and> (\<forall>l \<in> set lens. l = lens ! 0)
        then Some (values, (word_of_nat n - 1) * lens ! 0, FIXED)
        else map_option (\<lambda>(out, lst). (out, lst, 0)) (encode_prefixed values lens 0 0 []))"


subsection \<open>Varint lemmas\<close>

lemma put_uvarint_append: "put_uvarint (out @ out') v = out @ put_uvarint out' v"
proof (induction out' v rule: put_uvarint.induct)
  case (1 out' v)
  show ?case
    using 1 by (simp add: put_uvarint.simps [of "out @ out'" v] put_uvarint.simps [of out' v])
qed

definition uvarint :: "u64 \<Rightarrow> bytes" where
  "uvarint v = put_uvarint [] v"

lemma put_uvarint_eq: "put_uvarint out v = out @ uvarint v"
  using put_uvarint_append [of out "[]" v] by (simp add: uvarint_def)

lemma uvarint_rec:
  "uvarint v = (if 0x80 \<le> v then (ucast v OR 0x80) # uvarint (drop_bit 7 v) else [ucast v])"
proof (cases "0x80 \<le> v")
  case True
  then have "uvarint v = put_uvarint [ucast v OR 0x80] (drop_bit 7 v)"
    by (simp add: uvarint_def put_uvarint.simps [of "[]" v])
  with True show ?thesis by (simp add: put_uvarint_eq)
next
  case False
  then show ?thesis by (simp add: uvarint_def put_uvarint.simps [of "[]" v])
qed

lemma uvarint_induct [case_names step]:
  assumes "\<And>v. (0x80 \<le> v \<Longrightarrow> P (drop_bit 7 v)) \<Longrightarrow> P v"
  shows "P (v :: u64)"
proof (induction "unat v" arbitrary: v rule: less_induct)
  case less
  show ?case
    by (rule assms, rule less) (simp add: unat_drop7 ge_0x80)
qed

lemma uvarint_nonempty [simp]: "uvarint v \<noteq> []"
  by (subst uvarint_rec) simp

lemma mask7: "(0x7f :: u64) = mask 7" "(0x7f :: byte) = mask 7" "(0x80 :: byte) = push_bit 7 1"
  by (simp_all add: mask_eq_exp_minus_1)

lemma low7: "ucast ((ucast v OR 0x80 :: byte) AND 0x7f) = v AND 0x7f" for v :: u64
  unfolding mask7
  by (rule bit_eqI)
    (auto simp: bit_or_iff bit_and_iff bit_mask_iff bit_ucast_iff bit_push_bit_iff bit_1_iff simp del: push_bit_of_1)

lemma low7_small: "v < 0x80 \<Longrightarrow> ucast ((ucast v :: byte) AND 0x7f) = v" for v :: u64
proof -
  assume "v < 0x80"
  then have "unat v < 2 ^ 7" by (simp add: word_less_nat_alt)
  then have b: "bit v i \<Longrightarrow> i < 7" for i by (rule word_bits_below)
  show ?thesis unfolding mask7
    by (rule bit_eqI) (auto simp: bit_and_iff bit_mask_iff bit_ucast_iff dest: b)
qed

lemma push_split7: "push_bit s (v AND 0x7f) OR push_bit (s + 7) (drop_bit 7 v) = push_bit s v" for v :: u64
proof (rule bit_eqI)
  fix n assume n: "possible_bit TYPE(u64) n"
  have "7 + (n - (s + 7)) = n - s" if "s + 7 \<le> n" using that by simp
  then show "bit (push_bit s (v AND 0x7f) OR push_bit (s + 7) (drop_bit 7 v)) n \<longleftrightarrow> bit (push_bit s v) n"
    unfolding mask7 using n
    by (cases "s + 7 \<le> n") (auto simp: bit_or_iff bit_and_iff bit_mask_iff bit_push_bit_iff bit_drop_bit_eq)
qed

lemma high7: "\<not> (ucast v OR 0x80 :: byte) < 0x80" for v :: u64
proof -
  have "(0x80 :: byte) \<le> ucast v OR 0x80" by (rule le_word_or1)
  then show ?thesis by simp
qed

lemma small_byte: "v < 0x80 \<Longrightarrow> (ucast v :: byte) < 0x80" for v :: u64
  by (simp add: word_less_nat_alt unsigned_ucast_eq take_bit_eq_mod)

lemma get_uvarint_from_put:
  assumes "unat v < 2 ^ (64 - shift)" and "shift < 64"
  shows "get_uvarint_from (pre @ uvarint v @ post) (length pre) acc shift =
     (acc OR push_bit shift v, length pre + length (uvarint v))"
  using assms
proof (induction v arbitrary: pre acc shift rule: uvarint_induct)
  case (step v)
  show ?case
  proof (cases "0x80 \<le> v")
    case True
    let ?b = "ucast v OR 0x80 :: byte"
    have u: "uvarint v = ?b # uvarint (drop_bit 7 v)" using True by (simp add: uvarint_rec [of v])
    have "128 \<le> unat v" using True by (simp add: ge_0x80)
    with step.prems have "(2::nat) ^ 7 < 2 ^ (64 - shift)" by simp
    then have s: "shift + 7 < 64" by (subst (asm) power_strict_increasing_iff) auto
    have "unat v div 128 < 2 ^ (64 - (shift + 7))"
    proof -
      have "(2::nat) ^ (64 - shift) = 2 ^ (64 - (shift + 7)) * 128"
        using s power_add [of "2::nat" "64 - (shift + 7)" 7] by simp
      with step.prems(1) show ?thesis by (simp add: less_mult_imp_div_less)
    qed
    then have h: "unat (drop_bit 7 v) < 2 ^ (64 - (shift + 7))" by (simp only: unat_drop7)
    have nb: "\<not> ?b < 0x80" by (rule high7)
    let ?acc = "acc OR push_bit shift (ucast (?b AND 0x7f))"
    have "get_uvarint_from (pre @ uvarint v @ post) (length pre) acc shift =
       get_uvarint_from ((pre @ [?b]) @ uvarint (drop_bit 7 v) @ post) (length (pre @ [?b])) ?acc (shift + 7)"
      using s nb by (subst get_uvarint_from.simps) (simp add: u nth_append Let_def)
    also have "\<dots> = (?acc OR push_bit (shift + 7) (drop_bit 7 v), length (pre @ [?b]) + length (uvarint (drop_bit 7 v)))"
      by (rule step.IH [OF True h s])
    also have "?acc OR push_bit (shift + 7) (drop_bit 7 v) = acc OR push_bit shift v"
      by (simp only: low7 or.assoc push_split7)
    finally show ?thesis by (simp add: u)
  next
    case False
    then have u: "uvarint v = [ucast v]" by (simp add: uvarint_rec [of v])
    have lt: "(ucast v :: byte) < 0x80" using False by (simp add: small_byte)
    have e: "ucast ((ucast v :: byte) AND 0x7f) = v" using False by (simp add: low7_small)
    show ?thesis by (subst get_uvarint_from.simps) (simp add: u nth_append Let_def lt e)
  qed
qed

lemma get_uvarint_put:
  "get_uvarint (pre @ uvarint v @ post) (length pre) = (v, length pre + length (uvarint v))"
  using get_uvarint_from_put [of v 0 pre post 0] unsigned_less [of v, where 'a = nat]
  by (simp add: get_uvarint_def)


subsection \<open>Runs\<close>

lemma chunks_exact_concat:
  assumes "0 < w" and "\<forall>v \<in> set vs. length v = w"
  shows "chunks_exact w (concat vs) = vs"
  using assms(2)
proof (induction vs)
  case Nil
  then show ?case using assms(1) by (simp add: chunks_exact.simps)
next
  case (Cons v vs)
  then show ?case
    using assms(1) by (subst chunks_exact.simps) simp
qed

definition prefixed :: "bytes \<Rightarrow> bytes" where
  "prefixed v = uvarint (word_of_nat (length v)) @ v"

lemma unat_len64: "length (v :: bytes) < 2 ^ 64 \<Longrightarrow> unat (word_of_nat (length v) :: u64) = length v"
  by (simp add: unat_of_nat)

lemma each_prefixed_concat:
  assumes "\<forall>v \<in> set vs. length v < 2 ^ 32" and "length (pre @ concat (map prefixed vs)) \<le> USIZE_MAX"
  shows "each_prefixed (pre @ concat (map prefixed vs)) (length pre) acc = (acc @ vs, Inr (length acc + length vs))"
  using assms
proof (induction vs arbitrary: pre acc)
  case Nil
  then show ?case by (simp add: each_prefixed.simps)
next
  case (Cons v vs)
  let ?u = "uvarint (word_of_nat (length v))"
  define run where "run = pre @ concat (map prefixed (v # vs))"
  have r: "run = pre @ ?u @ (v @ concat (map prefixed vs))" by (simp add: run_def prefixed_def)
  have g: "get_uvarint run (length pre) = (word_of_nat (length v), length pre + length ?u)"
    unfolding r by (rule get_uvarint_put)
  have l: "unat (word_of_nat (length v) :: u64) = length v"
    using Cons.prems by (intro unat_len64) auto
  have c: "checked_add (length pre + length ?u) (length v) = Some (length pre + length ?u + length v)"
    using Cons.prems(2) by (simp add: checked_add_def prefixed_def)
  have i: "each_prefixed ((pre @ prefixed v) @ concat (map prefixed vs)) (length (pre @ prefixed v)) (acc @ [v])
      = ((acc @ [v]) @ vs, Inr (length (acc @ [v]) + length vs))"
    using Cons.prems by (intro Cons.IH) auto
  have p: "length pre < length run" by (simp add: r)
  have b: "\<not> length run < length pre + length ?u + length v"
    and t: "take (length v) (drop (length pre + length ?u) run) = v" by (simp_all add: r)
  have "each_prefixed run (length pre) acc = each_prefixed run (length pre + length ?u + length v) (acc @ [v])"
    by (simp add: each_prefixed.simps [of run "length pre" acc] p g l c b t)
  also have "\<dots> = (acc @ v # vs, Inr (length acc + length (v # vs)))"
    using i by (simp add: r prefixed_def add.assoc)
  finally show ?case by (simp only: run_def)
qed

lemma encode_prefixed_eq:
  assumes "\<forall>v \<in> set vs. length v < 2 ^ 32"
  shows "encode_prefixed (pre @ concat vs) (map (\<lambda>v. word_of_nat (length v)) vs) (length pre) lst out =
    Some (out @ concat (map prefixed vs),
          if vs = [] then lst else word_of_nat (length (out @ concat (map prefixed (butlast vs)))))"
  using assms
proof (induction vs arbitrary: pre lst out)
  case Nil
  then show ?case by simp
next
  case (Cons v vs)
  have l: "unat (word_of_nat (length v) :: u32) = length v" using Cons.prems by (simp add: unat_of_nat)
  have u: "(ucast (word_of_nat (length v) :: u32) :: u64) = word_of_nat (length v)"
    using Cons.prems by (simp add: word_unat_eq_iff unat_of_nat unsigned_ucast_eq take_bit_eq_mod)
  let ?lst = "word_of_nat (length out) :: u32"
  have i: "encode_prefixed ((pre @ v) @ concat vs) (map (\<lambda>v. word_of_nat (length v)) vs) (length (pre @ v)) ?lst (out @ prefixed v) =
    Some ((out @ prefixed v) @ concat (map prefixed vs),
          if vs = [] then ?lst else word_of_nat (length ((out @ prefixed v) @ concat (map prefixed (butlast vs)))))"
    using Cons.prems by (intro Cons.IH) auto
  have "encode_prefixed (pre @ concat (v # vs)) (map (\<lambda>v. word_of_nat (length v)) (v # vs)) (length pre) lst out =
     encode_prefixed ((pre @ v) @ concat vs) (map (\<lambda>v. word_of_nat (length v)) vs) (length (pre @ v)) ?lst (out @ prefixed v)"
    by (simp add: l u put_uvarint_eq prefixed_def)
  with i show ?case by simp
qed


definition count_word :: "nat \<Rightarrow> u32 \<Rightarrow> bool \<Rightarrow> u32" where
  "count_word n flag tomb = (word_of_nat n OR flag) OR (if tomb then TOMBSTONE else 0)"

lemma count_word_bits:
  assumes "n < 2 ^ 30" and "flag = FIXED \<or> flag = 0"
  shows "count_word n flag tomb AND NOT (TOMBSTONE OR FIXED) = word_of_nat n"
    and "count_word n flag tomb AND FIXED \<noteq> 0 \<longleftrightarrow> flag = FIXED"
    and "count_word n flag tomb AND TOMBSTONE \<noteq> 0 \<longleftrightarrow> tomb"
proof -
  let ?n = "word_of_nat n :: u32"
  have "unat ?n < 2 ^ 30" using assms(1) by (simp add: unat_of_nat)
  then have b: "bit ?n i \<Longrightarrow> i < 30" for i by (rule word_bits_below)
  have F: "bit FIXED i \<longleftrightarrow> i = 30" and T: "bit TOMBSTONE i \<longleftrightarrow> i = 31" for i
    by (auto simp: FIXED_def TOMBSTONE_def bit_push_bit_iff bit_1_iff simp del: push_bit_of_1)
  note B = bit_and_iff bit_or_iff bit_not_iff F T
  have n30: "\<not> bit ?n 30" "\<not> bit ?n 31" using b [of 30] b [of 31] by auto
  show "count_word n flag tomb AND NOT (TOMBSTONE OR FIXED) = ?n"
    unfolding count_word_def
    by (rule bit_eqI) (use assms(2) in \<open>auto simp: B dest: b split: if_splits\<close>)
  have F0: "FIXED \<noteq> 0" using F [of 30] by auto
  have f: "bit (count_word n flag tomb) 30 \<longleftrightarrow> flag = FIXED"
    using F0 assms(2) n30 F [of 30] by (auto simp: count_word_def B)
  have t: "bit (count_word n flag tomb) 31 \<longleftrightarrow> tomb"
    using assms(2) n30 by (auto simp: count_word_def B)
  have "x AND FIXED \<noteq> 0 \<longleftrightarrow> bit x 30" and "x AND TOMBSTONE \<noteq> 0 \<longleftrightarrow> bit x 31" for x
    by (simp_all add: FIXED_def TOMBSTONE_def bit_iff_and_push_bit_not_eq_0 [of x 30] bit_iff_and_push_bit_not_eq_0 [of x 31]
        del: push_bit_of_1)
  with f t show "count_word n flag tomb AND FIXED \<noteq> 0 \<longleftrightarrow> flag = FIXED"
    "count_word n flag tomb AND TOMBSTONE \<noteq> 0 \<longleftrightarrow> tomb" by simp_all
qed

definition lens_of :: "bytes list \<Rightarrow> u32 list" where
  "lens_of vs = map (\<lambda>v. word_of_nat (length v)) vs"

definition run_ext :: "u32 \<Rightarrow> u32 \<Rightarrow> bytes \<Rightarrow> nat \<Rightarrow> u32 \<Rightarrow> u32 \<Rightarrow> bool \<Rightarrow> ext" where
  "run_ext blk at run n lst flag tomb =
    \<lparr>e_block = blk, e_off = at, e_len = word_of_nat (length run), e_last = lst, e_count = count_word n flag tomb\<rparr>"

definition one_width :: "bytes list \<Rightarrow> bool" where
  "one_width vs \<longleftrightarrow> vs \<noteq> [] \<and> vs ! 0 \<noteq> [] \<and> (\<forall>v \<in> set vs. length v = length (vs ! 0))"

lemma encode_run_cases:
  assumes "\<forall>v \<in> set vs. length v < 2 ^ 32"
  shows "encode_run (concat vs) (lens_of vs) =
    (if one_width vs then Some (concat vs, (word_of_nat (length vs) - 1) * word_of_nat (length (vs ! 0)), FIXED)
     else Some (concat (map prefixed vs),
                if vs = [] then 0 else word_of_nat (length (concat (map prefixed (butlast vs)))), 0))"
proof -
  have z: "lens_of vs ! 0 > 0 \<longleftrightarrow> vs ! 0 \<noteq> []" if "vs \<noteq> []"
    using that assms by (auto simp: lens_of_def word_less_nat_alt unat_of_nat)
  have a: "(\<forall>l \<in> set (lens_of vs). l = lens_of vs ! 0) \<longleftrightarrow> (\<forall>v \<in> set vs. length v = length (vs ! 0))"
    if "vs \<noteq> []"
    using that assms by (auto simp: lens_of_def word_unat_eq_iff unat_of_nat)
  have n: "length (lens_of vs) = length vs" by (simp add: lens_of_def)
  have p: "encode_prefixed (concat vs) (lens_of vs) 0 0 [] = Some (concat (map prefixed vs),
      if vs = [] then 0 else word_of_nat (length (concat (map prefixed (butlast vs)))))"
    using encode_prefixed_eq [OF assms, of "[]" 0 "[]"] by (simp add: lens_of_def)
  have o: "0 < length (lens_of vs) \<and> lens_of vs ! 0 > 0 \<and> (\<forall>l \<in> set (lens_of vs). l = lens_of vs ! 0)
      \<longleftrightarrow> one_width vs"
    using z a n by (cases "vs = []") (simp_all add: one_width_def)
  have h: "lens_of vs ! 0 = word_of_nat (length (vs ! 0))" if "one_width vs"
  proof -
    from that have "vs \<noteq> []" unfolding one_width_def by blast
    then show ?thesis by (simp add: lens_of_def)
  qed
  show ?thesis
    unfolding encode_run_def Let_def o p using h n by simp
qed

lemma each_value_run:
  assumes v: "\<forall>v \<in> set vs. length v < 2 ^ 32" and n: "length vs < 2 ^ 30"
    and r: "encode_run (concat vs) (lens_of vs) = Some (run, lst, flag)" and l: "length run < 2 ^ 32"
  shows "each_value run (run_ext blk at run (length vs) lst flag tomb) = (vs, Inr (length vs))"
proof (cases "one_width vs")
  case True
  let ?e = "run_ext blk at run (length vs) lst flag tomb"
  let ?w = "length (vs ! 0)"
  from True r have run: "run = concat vs" "flag = FIXED" by (simp_all add: encode_run_cases [OF v])
  have w: "0 < ?w" "\<forall>v \<in> set vs. length v = ?w" "0 < length vs" using True unfolding one_width_def by blast+
  have len: "length (concat vs) = length vs * ?w"
    by (rule length_concat_const [OF w(2)])
  have f: "is_fixed ?e" "records ?e = word_of_nat (length vs)"
    using count_word_bits [OF n, of flag tomb] run by (simp_all add: is_fixed_def records_def run_ext_def)
  have "unat (e_len ?e) = length run" using l by (simp add: run_ext_def unat_of_nat)
  then have el: "unat (e_len ?e) = length vs * ?w" by (simp only: len run)
  have "fixed_width ?e = Some ?w"
    using f n w(1,3) el by (simp add: fixed_width_def unat_of_nat)
  then show ?thesis
    using f el len run w(1) chunks_exact_concat [OF w(1,2)] by (simp add: each_value_def)
next
  case False
  let ?e = "run_ext blk at run (length vs) lst flag tomb"
  from False r have run: "run = concat (map prefixed vs)" "flag = 0" by (simp_all add: encode_run_cases [OF v])
  have "\<not> is_fixed ?e"
    using count_word_bits [OF n, of flag tomb] run by (simp add: is_fixed_def run_ext_def FIXED_def)
  moreover have "each_prefixed (concat (map prefixed vs)) 0 [] = (vs, Inr (length vs))"
    using each_prefixed_concat [OF v, of "[]" "[]"] l run by (simp add: USIZE_MAX_def)
  ultimately show ?thesis using run by (simp add: each_value_def)
qed


lemma run_last:
  assumes v: "\<forall>v \<in> set vs. length v < 2 ^ 32" and ne: "vs \<noteq> []"
    and r: "encode_run (concat vs) (lens_of vs) = Some (run, lst, flag)" and l: "length run < 2 ^ 32"
  shows "drop (unat lst) run = (if flag = FIXED then last vs else prefixed (last vs))"
proof -
  have s: "concat (map f vs) = concat (map f (butlast vs)) @ f (last vs)" for f :: "bytes \<Rightarrow> bytes"
    using ne by (cases vs rule: rev_cases) simp_all
  show ?thesis
  proof (cases "one_width vs")
    case True
    from True r have run: "run = concat vs" "lst = (word_of_nat (length vs) - 1) * word_of_nat (length (vs ! 0))" "flag = FIXED"
      by (simp_all add: encode_run_cases [OF v])
    have w: "\<forall>v \<in> set vs. length v = length (vs ! 0)" using True unfolding one_width_def by blast
    have b: "length (concat (butlast vs)) = (length vs - 1) * length (vs ! 0)"
      using w by (subst length_concat_const [where w = "length (vs ! 0)"]) (auto dest: in_set_butlastD)
    have c: "concat vs = concat (butlast vs) @ last vs" using s [of "\<lambda>x. x"] by simp
    then have "length (concat (butlast vs)) < 2 ^ 32" using l run(1) by (metis le_add1 length_append order_le_less_trans)
    moreover have "lst = word_of_nat (length (concat (butlast vs)))"
      using ne unfolding b run by (simp add: of_nat_diff Suc_leI)
    ultimately have "unat lst = length (concat (butlast vs))" by (simp add: unat_of_nat)
    then show ?thesis using c run by simp
  next
    case False
    from False r ne have run: "run = concat (map prefixed vs)"
      "lst = word_of_nat (length (concat (map prefixed (butlast vs))))" "flag = 0"
      by (simp_all add: encode_run_cases [OF v])
    have "length (concat (map prefixed (butlast vs))) < 2 ^ 32"
      using l run(1) s [of prefixed] by (metis le_add1 length_append order_le_less_trans)
    then have "unat lst = length (concat (map prefixed (butlast vs)))" using run by (simp add: unat_of_nat)
    then show ?thesis using s [of prefixed] run by (simp add: FIXED_def)
  qed
qed

lemma length_uvarint: "0 < k \<Longrightarrow> unat v < 2 ^ (7 * k) \<Longrightarrow> length (uvarint v) \<le> k"
proof (induction v arbitrary: k rule: uvarint_induct)
  case (step v)
  show ?case
  proof (cases "0x80 \<le> v")
    case True
    then have "2 ^ 7 \<le> unat v" by (simp add: ge_0x80)
    with step.prems have "(2::nat) ^ 7 < 2 ^ (7 * k)" by linarith
    then have k: "1 < k" by (subst (asm) power_strict_increasing_iff) auto
    then obtain j where j: "k = Suc j" "0 < j" by (cases k) auto
    have "unat (drop_bit 7 v) < 2 ^ (7 * j)"
      using step.prems(2) by (simp add: unat_drop7 j power_add less_mult_imp_div_less mult.commute)
    with step.IH [OF True j(2)] have "length (uvarint (drop_bit 7 v)) \<le> j" .
    with True j show ?thesis by (simp add: uvarint_rec [of v])
  next
    case False
    with step.prems show ?thesis by (simp add: uvarint_rec [of v])
  qed
qed

lemma get_uvarint_from_ten:
  "shift < 64 \<Longrightarrow> get_uvarint_from buf pos v shift = (w, pos') \<Longrightarrow> pos' \<le> pos + (63 - shift) div 7 + 1"
proof (induction buf pos v shift rule: get_uvarint_from.induct)
  case (1 buf pos v shift)
  show ?case
  proof (cases "pos < length buf \<and> \<not> buf ! pos < 0x80 \<and> shift + 7 < 64")
    case True
    with 1 have "pos' \<le> Suc pos + (63 - (shift + 7)) div 7 + 1"
      by (simp add: get_uvarint_from.simps [of buf pos] Let_def)
    moreover have "(63 - shift) div 7 = (63 - (shift + 7)) div 7 + 1"
    proof -
      have e: "63 - shift = (63 - (shift + 7)) + 7" using True by simp
      show ?thesis by (subst e, rule div_add_self2) simp
    qed
    ultimately show ?thesis by simp
  next
    case False
    with "1.prems" show ?thesis
      by (auto simp: get_uvarint_from.simps [of buf pos] Let_def split: if_splits)
  qed
qed


subsection \<open>What a client of a self-delimiting code relies on\<close>

text \<open>
  A code that can be read back out of the middle of a buffer: the decoder finds
  the value and the position just past it, whatever surrounds the code.
\<close>

locale self_delimiting =
  fixes enc :: "'a \<Rightarrow> bytes" and dec :: "bytes \<Rightarrow> nat \<Rightarrow> 'a \<times> nat"
  assumes dec_enc: "dec (pre @ enc v @ post) (length pre) = (v, length pre + length (enc v))"
begin

lemma prefix_free: "enc v @ p = enc w @ q \<Longrightarrow> v = w \<and> p = q"
proof -
  assume e: "enc v @ p = enc w @ q"
  have "dec ([] @ enc v @ p) (length ([] :: bytes)) = dec ([] @ enc w @ q) (length ([] :: bytes))" using e by simp
  then have "v = w" by (simp only: dec_enc) simp
  with e show ?thesis by simp
qed

lemma enc_inj: "enc v = enc w \<Longrightarrow> v = w"
  using prefix_free [of v "[]" w "[]"] by simp

lemma concat_inj: "concat (map enc vs) = concat (map enc ws) \<Longrightarrow> length vs = length ws \<Longrightarrow> vs = ws"
proof (induction vs arbitrary: ws)
  case Nil
  then show ?case by simp
next
  case (Cons v vs)
  then obtain w us where ws: "ws = w # us" by (cases ws) auto
  with Cons.prems have "v = w" "concat (map enc vs) = concat (map enc us)"
    by (auto dest: prefix_free)
  with Cons ws show ?case by simp
qed

end

interpretation uvarints: self_delimiting uvarint get_uvarint
  by unfold_locales (rule get_uvarint_put)

subsection \<open>Properties\<close>

text \<open>
  A varint written anywhere in a buffer is read back as the value written,
  with the position left just past it, in at most ten bytes; and no value's
  bytes are a prefix of another's.
\<close>

theorem uvarint_roundtrip:
  "get_uvarint (put_uvarint pre v @ post) (length pre) = (v, length (put_uvarint pre v))
   \<and> length (put_uvarint pre v) \<le> length pre + 10
   \<and> (put_uvarint [] v @ p = put_uvarint [] w @ q \<longrightarrow> v = w \<and> p = q)"
proof -
  have "length (uvarint v) \<le> 10"
    using length_uvarint [of 10 v] unsigned_less [of v, where 'a = nat] by simp
  then show ?thesis
    using get_uvarint_put [of pre v post] uvarints.prefix_free [of v p w q]
    by (auto simp: put_uvarint_eq)
qed

theorem uvarint_roundtrip_witness:
  "get_uvarint (put_uvarint [7] 300 @ [9]) 1 = (300, 3) \<and> put_uvarint [] (5 :: u64) @ [1] \<noteq> put_uvarint [] 6 @ [1]"
proof -
  have p: "put_uvarint [7] 300 = [7, 172, 2]"
    by (simp add: put_uvarint.simps)
  show ?thesis
    using uvarint_roundtrip [of "[7]" 300 "[9]" "[1]" 5 "[1]"] uvarint_roundtrip [of "[]" 5 "[]" "[1]" 6 "[1]"]
    by (auto simp: p)
qed

text \<open>
  C39: reading a varint is safe on any bytes: the position never passes the end
  of the buffer, it moves forward whenever a byte is left, and it moves by at
  most ten bytes however long a run of continuation bytes is.
\<close>

theorem get_uvarint_safe:
  assumes "pos \<le> length buf"
  shows "snd (get_uvarint buf pos) \<le> length buf \<and> snd (get_uvarint buf pos) \<le> pos + 10
    \<and> (pos < length buf \<longrightarrow> pos < snd (get_uvarint buf pos))"
  using assms get_uvarint_progress [of pos buf] get_uvarint_le [of pos buf]
    get_uvarint_from_ten [of 0 buf pos 0 "fst (get_uvarint buf pos)" "snd (get_uvarint buf pos)"]
  by (simp add: get_uvarint_def)

theorem get_uvarint_safe_witness:
  "snd (get_uvarint (replicate 20 255) 3) \<le> 13"
  using get_uvarint_safe [of 3 "replicate 20 255"] by simp

text \<open>
  C26: whichever of the two encodings \<open>encode_run\<close> picks, the one decoder hands
  back exactly the values that went in, in order, and their count; the writer
  never reads outside the concatenated values. The values are shorter than
  4 GiB, the run addressable by a u32, and fewer than 2^30 records leave the
  count word's two flag bits free.
\<close>

theorem encode_run_roundtrip:
  assumes "\<forall>v \<in> set vs. length v < 2 ^ 32" and "length vs < 2 ^ 30"
  shows "\<exists>run lst flag. encode_run (concat vs) (lens_of vs) = Some (run, lst, flag)
    \<and> (length run < 2 ^ 32 \<longrightarrow>
        each_value run (run_ext blk at run (length vs) lst flag tomb) = (vs, Inr (length vs)))"
  using encode_run_cases [OF assms(1)] each_value_run [OF assms] by (metis (lifting))

theorem encode_run_roundtrip_witness:
  "\<exists>run lst flag. encode_run [1, 2, 3] [1, 2] = Some (run, lst, flag)
    \<and> (length run < 2 ^ 32 \<longrightarrow>
        each_value run (run_ext 0 0 run 2 lst flag False) = ([[1], [2, 3]], Inr 2))"
  using encode_run_roundtrip [of "[[1], [2, 3]]" 0 0 False] by (simp add: lens_of_def flip: numeral_2_eq_2)

text \<open>
  The offset \<open>encode_run\<close> returns is where the newest value starts: what is
  left of the run there is that value alone, behind its own length when the run
  is prefixed.
\<close>

theorem encode_run_last:
  assumes "\<forall>v \<in> set vs. length v < 2 ^ 32" and "vs \<noteq> []"
    and "encode_run (concat vs) (lens_of vs) = Some (run, lst, flag)" and "length run < 2 ^ 32"
  shows "drop (unat lst) run =
    (if flag = FIXED then last vs else put_uvarint [] (word_of_nat (length (last vs))) @ last vs)"
  using run_last [OF assms] by (simp add: prefixed_def put_uvarint_eq)

theorem encode_run_last_witness:
  "drop 2 [1, 2, 3, 4] = last [[1, 2], [3, 4 :: byte]]"
proof -
  have "encode_run (concat [[1, 2], [3, 4]]) (lens_of [[1, 2], [3, 4]]) = Some ([1, 2, 3, 4], 2, FIXED)"
    by (simp add: encode_run_def lens_of_def)
  from encode_run_last [OF _ _ this] show ?thesis by simp
qed

text \<open>
  The two flag bits and the record count share the count word without
  touching each other: each is read back as it was set, and the extent is
  fixed-width exactly when the run was encoded so.
\<close>

theorem count_word_fields:
  assumes "n < 2 ^ 30" and "flag = FIXED \<or> flag = 0"
  shows "records (run_ext blk at run n lst flag tomb) = word_of_nat n
    \<and> (is_fixed (run_ext blk at run n lst flag tomb) \<longleftrightarrow> flag = FIXED)
    \<and> (is_tombstone (run_ext blk at run n lst flag tomb) \<longleftrightarrow> tomb)"
  using count_word_bits [OF assms, of tomb] by (simp add: records_def is_fixed_def is_tombstone_def run_ext_def)

theorem count_word_fields_witness:
  "records (run_ext 0 0 [1, 2] 2 1 FIXED True) = 2 \<and> is_tombstone (run_ext 0 0 [1, 2] 2 1 FIXED True)"
  using count_word_fields [of 2 FIXED 0 0 "[1, 2]" 1 True] by simp

end
