(* ===== verification/Lz4_Decode.thy ===== *)
theory Lz4_Decode
  imports Prelude
begin

text \<open>
  The LZ4 block decoder of db/zlz4.rs. \<open>decompress_in\<close> runs a fast loop of wide,
  overrunning moves written with raw pointers while the input and the output have
  room for a turn, and a careful loop with every bound checked after it. In the
  model a raw move out of its buffer, or one whose source and destination
  overlap, is the value None, as a panic is. The reference is a decoder over an
  output that only grows.
\<close>

subsection \<open>Constants\<close>

definition MINMATCH :: nat where "MINMATCH = 4"
definition FAST_IN :: nat where "FAST_IN = 18"
definition FAST_OUT :: nat where "FAST_OUT = 64"
definition PAD_IN :: nat where "PAD_IN = 64"
definition DECODE_SLACK :: nat where "DECODE_SLACK = 64"

datatype decode_error = DecodeError

subsection \<open>Moves\<close>

text \<open>A move of \<open>n\<close> bytes from the input to the output, and one within the output.\<close>

definition move_in :: "bytes \<Rightarrow> nat \<Rightarrow> bytes \<Rightarrow> nat \<Rightarrow> nat \<Rightarrow> bytes option" where
  "move_in src s dst d n = do { x \<leftarrow> slice src s (s + n); put dst d x }"

definition move_within :: "bytes \<Rightarrow> nat \<Rightarrow> nat \<Rightarrow> nat \<Rightarrow> bytes option" where
  "move_within dst s d n =
    do { assert_that (s + n \<le> d \<or> d + n \<le> s); x \<leftarrow> slice dst s (s + n); put dst d x }"

text \<open>The safe move of the standard library, whose ranges may overlap.\<close>

definition copy_within :: "bytes \<Rightarrow> nat \<Rightarrow> nat \<Rightarrow> nat \<Rightarrow> bytes option" where
  "copy_within dst s e d = do { x \<leftarrow> slice dst s e; put dst d x }"

partial_function (option) wild_copy :: "nat \<Rightarrow> bytes \<Rightarrow> nat \<Rightarrow> bytes \<Rightarrow> nat \<Rightarrow> nat \<Rightarrow> bytes option" where
  "wild_copy n src s dst d e =
    do { dst' \<leftarrow> move_in src s dst d n;
         if e \<le> d + n then Some dst' else wild_copy n src (s + n) dst' (d + n) e }"

partial_function (option) match_copy16 :: "bytes \<Rightarrow> nat \<Rightarrow> nat \<Rightarrow> nat \<Rightarrow> bytes option" where
  "match_copy16 dst s d e =
    do { dst' \<leftarrow> move_within dst s d 16;
         if e \<le> d + 16 then Some dst' else match_copy16 dst' (s + 16) (d + 16) e }"

partial_function (option) match_copy8 :: "bytes \<Rightarrow> nat \<Rightarrow> nat \<Rightarrow> nat \<Rightarrow> bytes option" where
  "match_copy8 dst s d e =
    do { dst1 \<leftarrow> move_within dst s d 8;
         dst2 \<leftarrow> move_within dst1 (s + 8) (d + 8) 8;
         if e \<le> d + 16 then Some dst2 else match_copy8 dst2 (s + 16) (d + 16) e }"

fun near_bytes :: "bytes \<Rightarrow> nat \<Rightarrow> nat \<Rightarrow> nat \<Rightarrow> bytes option" where
  "near_bytes dst m op 0 = Some dst"
| "near_bytes dst m op (Suc n) =
    do { b \<leftarrow> index dst m; dst' \<leftarrow> put dst op [b]; near_bytes dst' (Suc m) (Suc op) n }"

definition near_step :: "nat \<Rightarrow> nat" where
  "near_step offset = [8, 8, 8, 9, 8, 10, 12, 14] ! (offset mod 8)"

partial_function (option) near_tail :: "bytes \<Rightarrow> nat \<Rightarrow> nat \<Rightarrow> nat \<Rightarrow> nat \<Rightarrow> bytes option" where
  "near_tail dst op k ml step =
    (if k < ml
     then do { assert_that (step \<le> op + k);
               dst' \<leftarrow> move_within dst (op + k - step) (op + k) 8;
               near_tail dst' op (k + 8) ml step }
     else Some dst)"

definition near_copy :: "bytes \<Rightarrow> nat \<Rightarrow> nat \<Rightarrow> nat \<Rightarrow> nat \<Rightarrow> bytes option" where
  "near_copy dst m op ml offset =
    do { dst' \<leftarrow> near_bytes dst m op 8; near_tail dst' op 8 ml (near_step offset) }"

partial_function (option) overlap_loop :: "bytes \<Rightarrow> nat \<Rightarrow> nat \<Rightarrow> nat \<Rightarrow> nat \<Rightarrow> nat \<Rightarrow> bytes option" where
  "overlap_loop dst to n period done span =
    (if done < n
     then do { assert_that (span \<le> to + done);
               let k = min span (n - done);
               dst' \<leftarrow> copy_within dst (to + done - span) (to + done - span + k) (to + done);
               overlap_loop dst' to n period (done + k) (min (span * 2) (done + k + period)) }
     else Some dst)"

definition copy_overlap :: "bytes \<Rightarrow> nat \<Rightarrow> nat \<Rightarrow> nat \<Rightarrow> bytes option" where
  "copy_overlap dst from to n =
    do { assert_that (from \<le> to); overlap_loop dst to n (to - from) 0 (to - from) }"

definition match_checked :: "bytes \<Rightarrow> nat \<Rightarrow> nat \<Rightarrow> nat \<Rightarrow> (decode_error, bytes) res" where
  "match_checked dst op offset ml =
    bind_res (lift_res (assert_that (op \<le> length dst))) (\<lambda>_.
      if length dst - op < ml then Err DecodeError
      else bind_res (lift_res (assert_that (offset \<le> op))) (\<lambda>_.
        let m = op - offset
        in lift_res (if ml \<le> offset then do { x \<leftarrow> slice dst m (m + ml); put dst op x }
                     else copy_overlap dst m op ml)))"

subsection \<open>The careful loop\<close>

function var_len_from :: "bytes \<Rightarrow> nat \<Rightarrow> nat \<Rightarrow> decode_error + (nat \<times> nat)" where
  "var_len_from src ip n =
    (if ip < length src
     then if src ! ip \<noteq> 255 then Inr (n + unat (src ! ip), Suc ip)
          else var_len_from src (Suc ip) (n + unat (src ! ip))
     else Inl DecodeError)"
  by pat_completeness auto
termination by (relation "measure (\<lambda>(src, ip, n). length src - ip)") auto

declare var_len_from.simps [simp del]

definition var_len :: "bytes \<Rightarrow> nat \<Rightarrow> decode_error + (nat \<times> nat)" where
  "var_len src ip = var_len_from src ip 0"

text \<open>A length: its nibble, continued by \<open>var_len\<close> where the nibble is full.\<close>

definition len_field :: "bytes \<Rightarrow> nat \<Rightarrow> nat \<Rightarrow> nat \<Rightarrow> decode_error + (nat \<times> nat)" where
  "len_field src ip base nibble =
    (if nibble = 15
     then (case var_len src ip of Inl e \<Rightarrow> Inl e | Inr (k, ip) \<Rightarrow> Inr (base + 15 + k, ip))
     else Inr (base + nibble, ip))"

text \<open>A sequence from its offset on, and the whole of it.\<close>

definition careful_match ::
    "bytes \<Rightarrow> bytes \<Rightarrow> nat \<Rightarrow> nat \<Rightarrow> byte \<Rightarrow> (decode_error, bool \<times> bytes \<times> nat \<times> nat) res" where
  "careful_match src dst ip op token =
    (if length src - ip < 2 then Err DecodeError
     else bind_res (lift_res (slice src ip (ip + 2))) (\<lambda>o2.
       let offset = le_val o2; ip = ip + 2
       in if offset = 0 \<or> op < offset then Err DecodeError
          else bind_res (Some (len_field src ip MINMATCH (unat (token AND 15)))) (\<lambda>(ml, ip).
            bind_res (match_checked dst op offset ml) (\<lambda>dst.
              Ok (False, dst, ip, op + ml)))))"

definition careful_sequence ::
    "bytes \<Rightarrow> bytes \<Rightarrow> nat \<Rightarrow> nat \<Rightarrow> (decode_error, bool \<times> bytes \<times> nat \<times> nat) res" where
  "careful_sequence src dst ip op =
    (case index src ip of None \<Rightarrow> Err DecodeError | Some token \<Rightarrow>
      bind_res (Some (len_field src (Suc ip) 0 (unat (drop_bit 4 token)))) (\<lambda>(lit, ip).
      bind_res (lift_res (assert_that (ip \<le> length src \<and> op \<le> length dst))) (\<lambda>_.
      if length src - ip < lit \<or> length dst - op < lit then Err DecodeError
      else bind_res (lift_res (move_in src ip dst op lit)) (\<lambda>dst.
        let ip = ip + lit; op = op + lit
        in if ip = length src then Ok (True, dst, ip, op) else careful_match src dst ip op token))))"

lemma var_len_from_bounds: "var_len_from src ip n = Inr (k, ip') \<Longrightarrow> ip < ip' \<and> ip' \<le> length src \<and> n \<le> k"
proof (induction src ip n rule: var_len_from.induct)
  case (1 src ip n)
  show ?case
  proof (cases "ip < length src \<and> src ! ip = 255")
    case True
    with 1 show ?thesis by (simp add: var_len_from.simps [of src ip n])
  next
    case False
    with "1.prems" show ?thesis by (auto simp: var_len_from.simps [of src ip n] split: if_splits)
  qed
qed

lemma var_len_bounds: "var_len src ip = Inr (k, ip') \<Longrightarrow> ip < ip' \<and> ip' \<le> length src"
  unfolding var_len_def by (drule var_len_from_bounds) simp

lemma len_field_bounds: "len_field src ip base nibble = Inr (k, ip') \<Longrightarrow> ip \<le> ip' \<and> (ip \<le> length src \<longrightarrow> ip' \<le> length src)"
  by (auto simp: len_field_def split: if_splits sum.splits dest!: var_len_bounds)

lemma careful_sequence_progress:
  "careful_sequence src dst ip op = Ok (fin, dst', ip', op') \<Longrightarrow> ip < ip'"
  unfolding careful_sequence_def careful_match_def
  by (auto simp: bind_res_eq_Ok Let_def index_eq_Some split: option.splits if_splits
      dest!: len_field_bounds)

function careful_loop :: "bytes \<Rightarrow> bytes \<Rightarrow> nat \<Rightarrow> nat \<Rightarrow> (decode_error, bytes \<times> nat) res" where
  "careful_loop block dst ip op =
    (if ip < length block
     then bind_res (careful_sequence block dst ip op) (\<lambda>(fin, dst', ip', op').
            if fin then Ok (dst', op') else careful_loop block dst' ip' op')
     else Err DecodeError)"
  by pat_completeness auto
termination
  by (relation "measure (\<lambda>(block, dst, ip, op). length block - ip)")
    (auto dest: careful_sequence_progress)

declare careful_loop.simps [simp del]

subsection \<open>The fast loop\<close>

datatype literals = LitRoom bytes nat nat | LitNoRoom nat

definition fast_literals ::
    "bool \<Rightarrow> bytes \<Rightarrow> nat \<Rightarrow> bytes \<Rightarrow> nat \<Rightarrow> nat \<Rightarrow> nat \<Rightarrow> byte \<Rightarrow> (decode_error, literals) res" where
  "fast_literals padded src len dst ip op olim token =
    (let lit = unat (drop_bit 4 token)
     in if lit < 15
        then bind_res (lift_res (move_in src ip dst op 16)) (\<lambda>dst. Ok (LitRoom dst (ip + lit) (op + lit)))
        else let at = ip - 1
             in bind_res (Some (var_len (take len src) ip)) (\<lambda>(k, ip).
               let lit = lit + k
               in if len - ip < lit then Err DecodeError
                  else if olim - op < lit
                      \<or> (\<not> padded \<and> (length src - ip < 64 \<or> length src - ip - lit < 32))
                  then Ok (LitNoRoom at)
                  else if lit \<le> 64
                  then bind_res (lift_res (do {
                         dst \<leftarrow> move_in src ip dst op 16;
                         dst \<leftarrow> move_in src (ip + 16) dst (op + 16) 16;
                         dst \<leftarrow> move_in src (ip + 32) dst (op + 32) 16;
                         move_in src (ip + 48) dst (op + 48) 16 }))
                       (\<lambda>dst. Ok (LitRoom dst (ip + lit) (op + lit)))
                  else bind_res (lift_res (wild_copy 32 src ip dst op (op + lit)))
                       (\<lambda>dst. Ok (LitRoom dst (ip + lit) (op + lit)))))"

datatype turn = Continue bytes nat nat | Break bytes nat nat | Finish bytes nat nat

definition fast_match ::
    "bytes \<Rightarrow> bytes \<Rightarrow> nat \<Rightarrow> nat \<Rightarrow> byte \<Rightarrow> nat \<Rightarrow> (decode_error, turn) res" where
  "fast_match block dst ip op token offset =
    (let m = op - offset; ml_n = unat (token AND 15); mlim = length dst - 32
     in if ml_n < 15
        then let ml = ml_n + MINMATCH
             in bind_res (lift_res
                  (if 8 \<le> offset
                   then do { dst \<leftarrow> move_within dst m op 8;
                             dst \<leftarrow> move_within dst (m + 8) (op + 8) 8;
                             move_within dst (m + 16) (op + 16) 2 }
                   else near_copy dst m op ml offset))
                (\<lambda>dst. Ok (Continue dst ip (op + ml)))
        else bind_res (Some (var_len block ip)) (\<lambda>(k, ip).
          let ml = 15 + MINMATCH + k
          in bind_res (lift_res (assert_that (op \<le> mlim))) (\<lambda>_.
             if mlim - op < ml
             then bind_res (match_checked dst op offset ml) (\<lambda>dst. Ok (Break dst ip (op + ml)))
             else bind_res (lift_res
                  (if 16 \<le> offset
                   then do { dst \<leftarrow> move_within dst m op 16;
                             dst \<leftarrow> move_within dst (m + 16) (op + 16) 16;
                             if 32 < ml then match_copy16 dst (m + 32) (op + 32) (op + ml) else Some dst }
                   else if 8 \<le> offset then match_copy8 dst m op (op + ml)
                   else near_copy dst m op ml offset))
                (\<lambda>dst. Ok (Continue dst ip (op + ml))))))"

definition fast_turn ::
    "bool \<Rightarrow> bytes \<Rightarrow> nat \<Rightarrow> bytes \<Rightarrow> nat \<Rightarrow> nat \<Rightarrow> nat \<Rightarrow> (decode_error, turn) res" where
  "fast_turn padded src len dst ip op olim =
    bind_res (lift_res (index src ip)) (\<lambda>token.
    bind_res (fast_literals padded src len dst (Suc ip) op olim token) (\<lambda>l.
      case l of
        LitNoRoom at \<Rightarrow> Ok (Break dst at op)
      | LitRoom dst ip op \<Rightarrow>
          if len \<le> ip then (if ip = len then Ok (Finish dst ip op) else Err DecodeError)
          else bind_res (lift_res (slice src ip (ip + 2))) (\<lambda>o2.
            let offset = le_val o2; ip = ip + 2
            in if offset = 0 \<or> op < offset then Err DecodeError
               else fast_match (take len src) dst ip op token offset)))"

lemma fast_literals_progress:
  "fast_literals padded src len dst ip op olim token = Ok (LitRoom dst' ip' op') \<Longrightarrow> ip \<le> ip'"
  unfolding fast_literals_def
  by (auto simp: bind_res_eq_Ok Let_def split: if_splits dest!: var_len_bounds)

lemma fast_match_progress:
  "fast_match block dst ip op token offset = Ok (Continue dst' ip' op') \<Longrightarrow> ip \<le> ip'"
proof (cases "unat (token AND 15) < 15")
  case True
  assume "fast_match block dst ip op token offset = Ok (Continue dst' ip' op')"
  with True show ?thesis unfolding fast_match_def Let_def by (simp add: bind_res_eq_Ok)
next
  case False
  assume "fast_match block dst ip op token offset = Ok (Continue dst' ip' op')"
  with False obtain k where "var_len block ip = Inr (k, ip')"
    unfolding fast_match_def Let_def
    by (cases "length dst - 32 - op < 15 + MINMATCH + fst (projr (var_len block ip))")
      (auto simp: bind_res_eq_Ok)
  then show ?thesis by (auto dest: var_len_bounds)
qed

lemma fast_turn_progress:
  assumes "fast_turn padded src len dst ip op olim = Ok (Continue dst' ip' op')"
  shows "ip < length src \<and> ip < ip'"
proof -
  from assms obtain t l where t: "index src ip = Some t"
    and l: "fast_literals padded src len dst (Suc ip) op olim t = Ok l"
    unfolding fast_turn_def by (auto simp: bind_res_eq_Ok lift_res_def)
  show ?thesis
  proof (cases l)
    case (LitRoom d i p)
    with assms t l obtain o2 where
      "fast_match (take len src) d (i + 2) p t (le_val o2) = Ok (Continue dst' ip' op')"
      unfolding fast_turn_def by (auto simp: bind_res_eq_Ok Let_def split: if_splits)
    then show ?thesis
      using t l LitRoom by (auto simp: index_eq_Some dest!: fast_match_progress fast_literals_progress)
  next
    case (LitNoRoom at)
    with assms t l show ?thesis unfolding fast_turn_def by simp
  qed
qed

function fast_loop ::
    "bool \<Rightarrow> bytes \<Rightarrow> nat \<Rightarrow> bytes \<Rightarrow> nat \<Rightarrow> nat \<Rightarrow> nat \<Rightarrow> nat \<Rightarrow> (decode_error, bool \<times> bytes \<times> nat \<times> nat) res" where
  "fast_loop padded src len dst ip op ilim olim =
    (if op \<le> olim \<and> (padded \<or> ip \<le> ilim)
     then bind_res (fast_turn padded src len dst ip op olim) (\<lambda>t.
       case t of
         Continue dst ip op \<Rightarrow> fast_loop padded src len dst ip op ilim olim
       | Break dst ip op \<Rightarrow> Ok (False, dst, ip, op)
       | Finish dst ip op \<Rightarrow> Ok (True, dst, ip, op))
     else Ok (False, dst, ip, op))"
  by pat_completeness auto
termination
  by (relation "measure (\<lambda>(padded, src, len, dst, ip, op, ilim, olim). length src - ip)")
    (auto dest: fast_turn_progress)

declare fast_loop.simps [simp del]

subsection \<open>The decoder\<close>

definition decompress_in :: "bytes \<Rightarrow> nat \<Rightarrow> bytes \<Rightarrow> (decode_error, bytes \<times> nat) res" where
  "decompress_in src len dst =
    (if length src < len then Err DecodeError
     else
       let readable = length src; oend = length dst
       in bind_res
            (if 0 < len \<and> FAST_OUT \<le> oend
             then let olim = oend - FAST_OUT
                  in if PAD_IN \<le> readable - len then fast_loop True src len dst 0 0 0 olim
                     else if FAST_IN \<le> readable
                     then fast_loop False src len dst 0 0 (min (readable - FAST_IN) (len - 1)) olim
                     else Ok (False, dst, 0, 0)
             else Ok (False, dst, 0, 0))
            (\<lambda>(fin, dst, ip, op).
               if fin then Ok (dst, op) else careful_loop (take len src) dst ip op))"

definition decompress_into :: "bytes \<Rightarrow> bytes \<Rightarrow> (decode_error, bytes \<times> nat) res" where
  "decompress_into src dst = decompress_in src (length src) dst"

declare wild_copy.simps [code] match_copy16.simps [code] match_copy8.simps [code] near_tail.simps [code] overlap_loop.simps [code]

end
