(* ===== verification/Lz4_Encode.thy ===== *)
theory Lz4_Encode
  imports Lz4_Decode
begin

text \<open>
  The LZ4 block encoder of db/zlz4.rs: the hash chains and the walk over them,
  the lazy parse, the search and the shortest path, and the writing of the
  sequences. Positions and prices are numbers; where the source's \<open>u32\<close> or
  \<open>usize\<close> arithmetic could overflow or underflow the value is None, as a panic
  is, so that a value means the arithmetic was exact in every build.
\<close>

subsection \<open>Constants and state\<close>

definition LASTLITERALS :: nat where "LASTLITERALS = 5"
definition MFLIMIT :: nat where "MFLIMIT = 12"
definition MAX_DISTANCE :: nat where "MAX_DISTANCE = 65535"
definition HASH_LOG :: nat where "HASH_LOG = 13"
definition RESUME :: nat where "RESUME = 3"
definition MAX_INPUT :: nat where "MAX_INPUT = 64 * 1024"
definition INF_COST :: nat where "INF_COST = U32_MAX div 4"

record effort =
  attempts :: nat
  seq_cost :: nat
  skip_min :: nat
  lazy_steps :: nat

definition SHIPPED :: effort where
  "SHIPPED = \<lparr>attempts = 16, seq_cost = 0, skip_min = 8, lazy_steps = 1\<rparr>"

type_synonym sequence = "nat \<times> nat \<times> nat \<times> nat"

record encoder =
  e_head :: "nat list"
  e_chain :: "nat list"
  e_base :: nat
  e_best :: "(nat \<times> nat) list"
  e_m_cost :: "nat list"
  e_m_from :: "(nat \<times> nat) list"
  e_p_lit :: "nat list"
  e_seqs :: "sequence list"

definition encoder_new :: encoder where
  "encoder_new = \<lparr>e_head = replicate (2 ^ HASH_LOG) 0, e_chain = [], e_base = 0, e_best = [],
     e_m_cost = [], e_m_from = [], e_p_lit = [], e_seqs = []\<rparr>"

subsection \<open>Reading, hashing and comparing\<close>

definition hash :: "u32 \<Rightarrow> nat" where
  "hash v = unat (drop_bit (32 - HASH_LOG) (v * 2654435761))"

definition read_u32 :: "bytes \<Rightarrow> nat \<Rightarrow> u32 option" where
  "read_u32 b i = rd_u32 b i"

definition read_u64 :: "bytes \<Rightarrow> nat \<Rightarrow> u64 option" where
  "read_u64 b i = rd_u64 b i"

definition trailing_zeros :: "u64 \<Rightarrow> nat" where
  "trailing_zeros x = length (takeWhile (\<lambda>i. \<not> bit x i) [0..<64])"

function common_tail :: "bytes \<Rightarrow> nat \<Rightarrow> nat \<Rightarrow> nat \<Rightarrow> nat \<Rightarrow> nat option" where
  "common_tail b a s limit l =
    (if l < limit
     then do { x \<leftarrow> index b (a + l); y \<leftarrow> index b (s + l);
               if x = y then common_tail b a s limit (l + 1) else Some l }
     else Some l)"
  by pat_completeness auto
termination by (relation "measure (\<lambda>(b, a, s, limit, l). limit - l)") auto

function common_from :: "bytes \<Rightarrow> nat \<Rightarrow> nat \<Rightarrow> nat \<Rightarrow> nat \<Rightarrow> nat option" where
  "common_from b a s limit l =
    (if l + 8 \<le> limit
     then do { x \<leftarrow> read_u64 b (a + l); y \<leftarrow> read_u64 b (s + l);
               if x XOR y \<noteq> 0 then Some (l + trailing_zeros (x XOR y) div 8)
               else common_from b a s limit (l + 8) }
     else common_tail b a s limit l)"
  by pat_completeness auto
termination by (relation "measure (\<lambda>(b, a, s, limit, l). limit - l)") auto

declare common_tail.simps [simp del] common_from.simps [simp del]

definition common :: "bytes \<Rightarrow> nat \<Rightarrow> nat \<Rightarrow> nat \<Rightarrow> nat option" where
  "common b a s limit = common_from b a s limit 0"

subsection \<open>The chains\<close>

definition insert_pos :: "nat list \<Rightarrow> nat list \<Rightarrow> nat \<Rightarrow> nat \<Rightarrow> nat \<Rightarrow> (nat list \<times> nat list) option" where
  "insert_pos heads ch s h bs =
    do { prev \<leftarrow> index heads h;
         d \<leftarrow> (if bs < prev
              then do { d \<leftarrow> usub s (prev - bs - 1); assert_that (d \<le> MAX_DISTANCE); Some (as_u16 d) }
              else Some 0);
         ch' \<leftarrow> store ch s d;
         p \<leftarrow> u32_checked (bs + as_u32 s + 1);
         heads' \<leftarrow> store heads h p;
         Some (heads', ch') }"

text \<open>One candidate of a walk: the better match and whether it ends the walk.\<close>

definition try_candidate ::
    "bytes \<Rightarrow> nat \<Rightarrow> u32 \<Rightarrow> nat \<Rightarrow> nat \<Rightarrow> nat \<Rightarrow> nat \<Rightarrow> (nat \<times> nat \<times> bool) option" where
  "try_candidate input p v max_len q bl bo =
    do { x \<leftarrow> index input (q + bl); y \<leftarrow> index input (p + bl);
         if x = y
         then do { w \<leftarrow> read_u32 input q;
                   if w = v
                   then do { l \<leftarrow> common input q p max_len;
                             if bl < l then do { d \<leftarrow> usub p q; Some (l, d, l = max_len) }
                             else Some (bl, bo, False) }
                   else Some (bl, bo, False) }
         else Some (bl, bo, False) }"

text \<open>
  The walk of a chain, its tries counted down. The search's walk asks the window
  of each candidate first, the lazy parse's does not.
\<close>

fun walk ::
    "bool \<Rightarrow> bytes \<Rightarrow> nat list \<Rightarrow> nat \<Rightarrow> nat \<Rightarrow> u32 \<Rightarrow> nat \<Rightarrow> nat \<Rightarrow> nat \<Rightarrow> nat \<Rightarrow> nat \<Rightarrow> (nat \<times> nat) option" where
  "walk windowed input ch bs p v max_len 0 cand bl bo = Some (bl, bo)"
| "walk windowed input ch bs p v max_len (Suc tries) cand bl bo =
    (if bs < cand
     then let q = cand - bs - 1
          in do { far \<leftarrow> (if windowed then do { d \<leftarrow> usub p q; Some (MAX_DISTANCE < d) } else Some False);
                  if far then Some (bl, bo)
                  else do { (bl, bo, stop) \<leftarrow> try_candidate input p v max_len q bl bo;
                            if stop then Some (bl, bo)
                            else do { c \<leftarrow> index ch q;
                                      if c = 0 then Some (bl, bo)
                                      else do { cand \<leftarrow> usub cand c;
                                                walk windowed input ch bs p v max_len tries cand bl bo } } } }
     else Some (bl, bo))"

function insert_upto ::
    "bytes \<Rightarrow> nat \<Rightarrow> nat \<Rightarrow> nat \<Rightarrow> nat list \<Rightarrow> nat list \<Rightarrow> (nat list \<times> nat list) option" where
  "insert_upto input bs p ins heads ch =
    (if ins < p
     then do { v \<leftarrow> read_u32 input ins;
               (heads, ch) \<leftarrow> insert_pos heads ch ins (hash v) bs;
               insert_upto input bs p (ins + 1) heads ch }
     else Some (heads, ch))"
  by pat_completeness auto
termination by (relation "measure (\<lambda>(input, bs, p, ins, heads, ch). p - ins)") auto

declare insert_upto.simps [simp del]

text \<open>The tables a parse threads: the positions inserted, the heads and the chains.\<close>

type_synonym tables = "nat \<times> nat list \<times> nat list"

definition longest_at :: "bytes \<Rightarrow> nat \<Rightarrow> nat \<Rightarrow> nat \<Rightarrow> nat \<Rightarrow> tables \<Rightarrow> (nat \<times> nat \<times> tables) option" where
  "longest_at input limit tries bs p t =
    (case t of (ins, heads, ch) \<Rightarrow>
      do { (heads, ch) \<leftarrow> insert_upto input bs p ins heads ch;
           v \<leftarrow> read_u32 input p;
           max_len \<leftarrow> usub limit p;
           cand \<leftarrow> index heads (hash v);
           (bl, bo) \<leftarrow> walk False input ch bs p v max_len tries cand (MINMATCH - 1) 0;
           Some (bl, bo, max ins p, heads, ch) })"

subsection \<open>The lazy parse\<close>

text \<open>The steps ahead, counted from none: the match taken and where it starts.\<close>

function ahead ::
    "bytes \<Rightarrow> effort \<Rightarrow> nat \<Rightarrow> nat \<Rightarrow> nat \<Rightarrow> nat \<Rightarrow> nat \<Rightarrow> nat \<Rightarrow> nat \<Rightarrow> tables
      \<Rightarrow> (nat \<times> nat \<times> nat \<times> tables) option" where
  "ahead input e limit last_start bs s k len off t =
    (if k < lazy_steps e
     then if last_start < s + (k + 1) then Some (s, len, off, t)
          else do { (l2, o2, t) \<leftarrow> longest_at input limit (attempts e) bs (s + (k + 1)) t;
                    if len + (k + 1) - 1 < l2 then ahead input e limit last_start bs (s + (k + 1)) 0 l2 o2 t
                    else ahead input e limit last_start bs s (k + 1) len off t }
     else Some (s, len, off, t))"
  by pat_completeness auto
termination
  by (relation "measures [\<lambda>(input, e, limit, last_start, bs, s, k, len, off, t). last_start - s,
        \<lambda>(input, e, limit, last_start, bs, s, k, len, off, t). lazy_steps e - k]") auto

declare ahead.simps [simp del]

partial_function (option) lazy_loop ::
    "bytes \<Rightarrow> effort \<Rightarrow> nat \<Rightarrow> nat \<Rightarrow> nat \<Rightarrow> nat \<Rightarrow> nat \<Rightarrow> tables \<Rightarrow> sequence list \<Rightarrow> (tables \<times> sequence list) option" where
  "lazy_loop input e limit last_start bs s anchor t seqs =
    (if s \<le> last_start
     then do { (len, off, t) \<leftarrow> longest_at input limit (attempts e) bs s t;
               if len < MINMATCH then lazy_loop input e limit last_start bs (s + 1) anchor t seqs
               else do { (s, len, off, t) \<leftarrow> ahead input e limit last_start bs s 0 len off t;
                         lit \<leftarrow> usub s anchor;
                         lazy_loop input e limit last_start bs (s + len) (s + len) t
                           (seqs @ [(as_u32 anchor, as_u32 lit, as_u16 off, as_u32 len)]) } }
     else Some (t, seqs))"

text \<open>A fresh base for a group; the heads are cleared where it would wrap.\<close>

definition fresh_base :: "encoder \<Rightarrow> nat \<Rightarrow> (nat \<times> encoder) option" where
  "fresh_base s n =
    (let s = (if U32_MAX - 2 * MAX_INPUT - 2 < e_base s
              then s\<lparr>e_head := replicate (length (e_head s)) 0, e_base := 0\<rparr> else s)
     in do { b \<leftarrow> u32_checked (e_base s + as_u32 n + 1); Some (e_base s, s\<lparr>e_base := b\<rparr>) })"

definition resize :: "'a list \<Rightarrow> nat \<Rightarrow> 'a \<Rightarrow> 'a list" where
  "resize xs n v = take n xs @ replicate (n - length xs) v"

definition lazy_parse :: "encoder \<Rightarrow> bytes \<Rightarrow> effort \<Rightarrow> encoder option" where
  "lazy_parse s input e =
    (let n = length input
     in do { (bs, s) \<leftarrow> fresh_base s n;
             let chain = (if length (e_chain s) < n then resize (e_chain s) n 0 else e_chain s);
             last_start \<leftarrow> usub n MFLIMIT;
             limit \<leftarrow> usub n LASTLITERALS;
             ((ins, heads, ch), seqs) \<leftarrow>
               lazy_loop input e limit last_start bs 0 0 (0, e_head s, take n chain) (e_seqs s);
             Some (s\<lparr>e_head := heads, e_chain := ch @ drop n chain, e_seqs := rev seqs\<rparr>) })"

subsection \<open>The search\<close>

text \<open>The state the search threads: the heads, the chains, the longest matches and the run it is in.\<close>

type_synonym search_state = "nat list \<times> nat list \<times> (nat \<times> nat) list \<times> (nat \<times> nat \<times> nat)"

definition search_step :: "bytes \<Rightarrow> effort \<Rightarrow> nat \<Rightarrow> nat \<Rightarrow> nat \<Rightarrow> search_state \<Rightarrow> search_state option" where
  "search_step input e limit bs s st =
    (case st of (heads, ch, best, (at, till, roff)) \<Rightarrow>
      do { v \<leftarrow> read_u32 input s;
           if s < till - RESUME \<and> at < s
           then do { best \<leftarrow> store best s (as_u32 (till - s), roff);
                     (heads, ch) \<leftarrow> insert_pos heads ch s (hash v) bs;
                     Some (heads, ch, best, (at, till, roff)) }
           else do { max_len \<leftarrow> usub limit s;
                     cand \<leftarrow> index heads (hash v);
                     (bl, bo) \<leftarrow> walk True input ch bs s v max_len (attempts e) cand (MINMATCH - 1) 0;
                     best \<leftarrow> (if MINMATCH \<le> bl then store best s (as_u32 bl, as_u16 bo) else Some best);
                     let run = (if MINMATCH \<le> bl \<and> skip_min e \<le> bl then (s, s + bl, as_u16 bo)
                                else (at, till, roff));
                     (heads, ch) \<leftarrow> insert_pos heads ch s (hash v) bs;
                     Some (heads, ch, best, run) } })"

function search_loop :: "bytes \<Rightarrow> effort \<Rightarrow> nat \<Rightarrow> nat \<Rightarrow> nat \<Rightarrow> nat \<Rightarrow> search_state \<Rightarrow> search_state option" where
  "search_loop input e limit last_start bs s st =
    (if s \<le> last_start
     then do { st \<leftarrow> search_step input e limit bs s st;
               search_loop input e limit last_start bs (s + 1) st }
     else Some st)"
  by pat_completeness auto
termination by (relation "measure (\<lambda>(input, e, limit, last_start, bs, s, st). Suc last_start - s)") auto

declare search_loop.simps [simp del]

definition search :: "encoder \<Rightarrow> bytes \<Rightarrow> effort \<Rightarrow> encoder option" where
  "search s input e =
    (let n = length input
     in do { (bs, s) \<leftarrow> fresh_base s n;
             last_start \<leftarrow> usub n MFLIMIT;
             limit \<leftarrow> usub n LASTLITERALS;
             (heads, ch, best, run) \<leftarrow>
               search_loop input e limit last_start bs 0
                 (e_head s, replicate n 0, replicate n (0, 0), (0, 0, 0));
             Some (s\<lparr>e_head := heads, e_chain := ch, e_best := best\<rparr>) })"

subsection \<open>Prices\<close>

definition len_ext :: "nat \<Rightarrow> nat" where
  "len_ext k = (if k < 15 then 0 else 1 + as_u32 ((k - 15) div 255))"

definition lit_step :: "nat \<Rightarrow> nat" where
  "lit_step k = len_ext (k + 1) - len_ext k"

definition lit_run :: "nat \<Rightarrow> nat" where
  "lit_run k = 1 + len_ext k + as_u32 k"

definition max_output :: "nat \<Rightarrow> nat" where
  "max_output n = n + n div 255 + 16"

subsection \<open>The shortest path\<close>

text \<open>
  The tables of the path (the price of a match ending at a position, that match,
  the run of literals at a position), and what the loop carries: the end of the
  best path and its price, the price of the run and its length.
\<close>

type_synonym path = "nat list \<times> (nat \<times> nat) list \<times> nat list"

function cuts :: "(nat \<times> nat) list \<Rightarrow> nat \<Rightarrow> nat \<Rightarrow> nat \<Rightarrow> nat \<Rightarrow> nat \<Rightarrow> nat \<Rightarrow> nat list \<Rightarrow> (nat \<times> nat) list
    \<Rightarrow> (nat list \<times> (nat \<times> nat) list) option" where
  "cuts best i off seq reach j stop m_cost m_from =
    (if j < stop
     then do { (bl, bo) \<leftarrow> index best j;
               (m_cost, m_from) \<leftarrow>
                 (if MINMATCH \<le> bl \<and> reach < j + bl
                  then do { k \<leftarrow> usub j (i + MINMATCH);
                            c \<leftarrow> u32_checked (seq + len_ext k);
                            old \<leftarrow> index m_cost j;
                            if c < old
                            then do { m_cost \<leftarrow> store m_cost j c; m_from \<leftarrow> store m_from j (as_u32 i, off);
                                      Some (m_cost, m_from) }
                            else Some (m_cost, m_from) }
                  else Some (m_cost, m_from));
               cuts best i off seq reach (j + 1) stop m_cost m_from }
     else Some (m_cost, m_from))"
  by pat_completeness auto
termination by (relation "measure (\<lambda>(best, i, off, seq, reach, j, stop, m_cost, m_from). stop - j)") auto

declare cuts.simps [simp del]

text \<open>The matches tried from a position, with the price of the run before it.\<close>

definition relax :: "(nat \<times> nat) list \<Rightarrow> effort \<Rightarrow> nat \<Rightarrow> nat \<Rightarrow> nat \<Rightarrow> nat \<Rightarrow> nat list \<Rightarrow> (nat \<times> nat) list
    \<Rightarrow> (nat list \<times> (nat \<times> nat) list) option" where
  "relax best e last_start i pc pl m_cost m_from =
    do { (longest, off) \<leftarrow> index best i;
         if longest < MINMATCH then Some (m_cost, m_from)
         else do {
           carried \<leftarrow> (if 0 < pl \<and> 0 < i
                      then do { b \<leftarrow> index best (i - 1); Some (b = (as_u32 (longest + 1), off)) }
                      else Some False);
           if carried then Some (m_cost, m_from)
           else do {
             seq \<leftarrow> u32_checked (pc + 3 + seq_cost e);
             let reach = i + longest;
             c \<leftarrow> u32_checked (seq + len_ext (longest - MINMATCH));
             old \<leftarrow> index m_cost reach;
             (m_cost, m_from) \<leftarrow>
               (if c < old
                then do { m_cost \<leftarrow> store m_cost reach c; m_from \<leftarrow> store m_from reach (as_u32 i, off);
                          Some (m_cost, m_from) }
                else Some (m_cost, m_from));
             cuts best i off seq reach (max (i + MINMATCH) (reach - MINMATCH)) (min reach (last_start + 1))
               m_cost m_from } } }"

type_synonym path_state = "path \<times> (nat \<times> nat) \<times> (nat \<times> nat)"

definition shortest_step :: "(nat \<times> nat) list \<Rightarrow> effort \<Rightarrow> nat \<Rightarrow> nat \<Rightarrow> nat \<Rightarrow> path_state \<Rightarrow> path_state option" where
  "shortest_step best e n last_start i st =
    (case st of ((m_cost, m_from, p_lit), (till, cost), (pc, pl)) \<Rightarrow>
      do { fresh \<leftarrow> index m_cost i;
           (till, cost) \<leftarrow>
             (if 0 < i \<and> fresh < INF_COST
              then do { c \<leftarrow> u32_checked (fresh + lit_run (n - i));
                        Some (if c < cost \<or> (c = cost \<and> till < i) then (i, c) else (till, cost)) }
              else Some (till, cost));
           carry \<leftarrow> (if i = 0 then Some INF_COST else u32_checked (pc + 1 + lit_step pl));
           let (pc, pl) = (if fresh \<le> carry then (fresh, 0) else (carry, pl + 1));
           p_lit \<leftarrow> store p_lit i pl;
           if last_start < i then Some ((m_cost, m_from, p_lit), (till, cost), (pc, pl))
           else do { (m_cost, m_from) \<leftarrow> relax best e last_start i pc pl m_cost m_from;
                     Some ((m_cost, m_from, p_lit), (till, cost), (pc, pl)) } })"

function shortest_loop :: "(nat \<times> nat) list \<Rightarrow> effort \<Rightarrow> nat \<Rightarrow> nat \<Rightarrow> nat \<Rightarrow> path_state \<Rightarrow> path_state option" where
  "shortest_loop best e n last_start i st =
    (if i \<le> n
     then do { st \<leftarrow> shortest_step best e n last_start i st;
               shortest_loop best e n last_start (i + 1) st }
     else Some st)"
  by pat_completeness auto
termination by (relation "measure (\<lambda>(best, e, n, last_start, i, st). Suc n - i)") auto

declare shortest_loop.simps [simp del]

partial_function (option) way_back :: "(nat \<times> nat) list \<Rightarrow> nat list \<Rightarrow> nat \<Rightarrow> sequence list \<Rightarrow> sequence list option" where
  "way_back m_from p_lit e2 seqs =
    (if 0 < e2
     then do { (s, off) \<leftarrow> index m_from e2;
               lit \<leftarrow> index p_lit s;
               lit_at \<leftarrow> usub s lit;
               len \<leftarrow> usub e2 s;
               way_back m_from p_lit lit_at (seqs @ [(as_u32 lit_at, as_u32 lit, off, as_u32 len)]) }
     else Some seqs)"

definition shortest :: "encoder \<Rightarrow> bytes \<Rightarrow> effort \<Rightarrow> encoder option" where
  "shortest s input e =
    (let n = length input
     in do { last_start \<leftarrow> usub n MFLIMIT;
             best \<leftarrow> slice (e_best s) 0 n;
             m_cost \<leftarrow> store (replicate (n + 1) INF_COST) 0 0;
             ((m_cost, m_from, p_lit), (till, cost), run) \<leftarrow>
               shortest_loop best e n last_start 0
                 ((m_cost, replicate (n + 1) (0, 0), replicate (n + 1) 0), (0, lit_run n), (INF_COST, 0));
             seqs \<leftarrow> way_back m_from p_lit till (e_seqs s);
             Some (s\<lparr>e_m_cost := m_cost, e_m_from := m_from, e_p_lit := p_lit, e_seqs := seqs\<rparr>) })"

subsection \<open>Writing the block\<close>

function put_len_loop :: "bytes \<Rightarrow> nat \<Rightarrow> nat \<Rightarrow> (bytes \<times> nat) option" where
  "put_len_loop out at r =
    (if 255 \<le> r then do { out \<leftarrow> put out at [255]; put_len_loop out (at + 1) (r - 255) }
     else do { out \<leftarrow> put out at [word_of_nat r]; Some (out, at + 1) })"
  by pat_completeness auto
termination by (relation "measure (\<lambda>(out, at, r). r)") auto

declare put_len_loop.simps [simp del]

definition put_len :: "bytes \<Rightarrow> nat \<Rightarrow> nat \<Rightarrow> (bytes \<times> nat) option" where
  "put_len out at k = (if k < 15 then Some (out, at) else put_len_loop out at (k - 15))"

fun emit_seqs :: "bytes \<Rightarrow> sequence list \<Rightarrow> bytes \<Rightarrow> nat \<Rightarrow> nat \<Rightarrow> (bytes \<times> nat \<times> nat) option" where
  "emit_seqs input [] out at pos = Some (out, at, pos)"
| "emit_seqs input ((lit_at, lit, off, ml) # seqs) out at pos =
    do { assert_that (lit_at = pos);
         k \<leftarrow> usub ml MINMATCH;
         out \<leftarrow> put out at [push_bit 4 (word_of_nat (min lit 15)) OR word_of_nat (min k 15)];
         (out, at) \<leftarrow> put_len out (at + 1) lit;
         x \<leftarrow> slice input lit_at (lit_at + lit);
         out \<leftarrow> put out at x;
         out \<leftarrow> put out (at + lit) (le_bytes 2 off);
         (out, at) \<leftarrow> put_len out (at + lit + 2) k;
         emit_seqs input seqs out at (lit_at + lit + ml) }"

definition emit :: "encoder \<Rightarrow> bytes \<Rightarrow> bytes \<Rightarrow> (bytes \<times> nat) option" where
  "emit s input out =
    do { (out, at, pos) \<leftarrow> emit_seqs input (rev (e_seqs s)) out 0 0;
         lit \<leftarrow> usub (length input) pos;
         out \<leftarrow> put out at [push_bit 4 (word_of_nat (min lit 15))];
         (out, at) \<leftarrow> put_len out (at + 1) lit;
         out \<leftarrow> put out at (drop pos input);
         Some (out, at + lit) }"

subsection \<open>The encoder\<close>

definition parse :: "encoder \<Rightarrow> bytes \<Rightarrow> effort \<Rightarrow> encoder option" where
  "parse s input e =
    (let s = s\<lparr>e_seqs := []\<rparr>
     in if length input < MFLIMIT + 1 \<or> attempts e = 0 then Some s
        else if 0 < lazy_steps e then lazy_parse s input e
        else do { s \<leftarrow> search s input e; shortest s input e })"

datatype encode_error = NoRoom

definition compress_into :: "encoder \<Rightarrow> bytes \<Rightarrow> bytes \<Rightarrow> effort \<Rightarrow> (encode_error, encoder \<times> bytes \<times> nat) res" where
  "compress_into s input out e =
    (let n = length input
     in if MAX_INPUT < n \<or> length out < max_output n then Err NoRoom
        else lift_res (do { s \<leftarrow> parse s input e; (out, k) \<leftarrow> emit s input out; Some (s, out, k) }))"

declare lazy_loop.simps [code] way_back.simps [code]

end
