(* ===== verification/Lz4_Decode_Correct.thy ===== *)
theory Lz4_Decode_Correct
  imports Lz4_Decode
begin

text \<open>
  The decoder of \<open>Lz4_Decode\<close> against a reference: a decoder over an output
  that only grows, with no moves that overrun and no loops but its own. The copy
  loops keep \<open>matched\<close> (the output repeats with the match's offset) or
  \<open>moved\<close> (the output holds the literals); a sequence of the careful loop and a
  turn of the fast loop stand for the reference's sequence; and so the whole
  decoder, which never leaves its buffers, is the reference.
\<close>

subsection \<open>The reference decoder\<close>

fun copy_match :: "bytes \<Rightarrow> nat \<Rightarrow> nat \<Rightarrow> bytes" where
  "copy_match out off 0 = out"
| "copy_match out off (Suc n) = copy_match (out @ [out ! (length out - off)]) off n"

definition spec_match ::
    "bytes \<Rightarrow> nat \<Rightarrow> byte \<Rightarrow> nat \<Rightarrow> bytes \<Rightarrow> decode_error + (bool \<times> nat \<times> bytes)" where
  "spec_match block cap token ip out =
    (if ip = length block then Inr (True, ip, out)
     else if length block < ip + 2 then Inl DecodeError
     else let off = le_val (take 2 (drop ip block))
          in if off = 0 \<or> length out < off then Inl DecodeError
             else case len_field block (ip + 2) MINMATCH (unat (token AND 15)) of
               Inl e \<Rightarrow> Inl e
             | Inr (ml, ip') \<Rightarrow>
                 if cap < length out + ml then Inl DecodeError
                 else Inr (False, ip', copy_match out off ml))"

definition spec_sequence :: "bytes \<Rightarrow> nat \<Rightarrow> nat \<Rightarrow> bytes \<Rightarrow> decode_error + (bool \<times> nat \<times> bytes)" where
  "spec_sequence block cap ip out =
    (if length block \<le> ip then Inl DecodeError
     else case len_field block (Suc ip) 0 (unat (drop_bit 4 (block ! ip))) of
       Inl e \<Rightarrow> Inl e
     | Inr (lit, ip') \<Rightarrow>
         if length block < ip' + lit \<or> cap < length out + lit then Inl DecodeError
         else spec_match block cap (block ! ip) (ip' + lit) (out @ take lit (drop ip' block)))"

lemma spec_sequence_progress:
  "spec_sequence block cap ip out = Inr (fin, ip', out') \<Longrightarrow> ip < ip' \<and> ip < length block"
  unfolding spec_sequence_def spec_match_def
  by (auto simp: Let_def split: if_splits sum.splits dest!: len_field_bounds)

function spec_loop :: "bytes \<Rightarrow> nat \<Rightarrow> nat \<Rightarrow> bytes \<Rightarrow> decode_error + bytes" where
  "spec_loop block cap ip out =
    (case spec_sequence block cap ip out of
       Inl e \<Rightarrow> Inl e
     | Inr (fin, ip', out') \<Rightarrow> if fin then Inr out' else spec_loop block cap ip' out')"
  by pat_completeness auto
termination
  by (relation "measure (\<lambda>(block, cap, ip, out). length block - ip)")
    (auto dest!: spec_sequence_progress)

declare spec_loop.simps [simp del]

definition lz4_decode :: "bytes \<Rightarrow> nat \<Rightarrow> decode_error + bytes" where
  "lz4_decode block cap = spec_loop block cap 0 []"

lemma decode_error_all [simp]: "(e :: decode_error) = DecodeError" "DecodeError = (e :: decode_error)"
  by (cases e; simp)+

lemma spec_loop_end: "length block \<le> ip \<Longrightarrow> spec_loop block cap ip out = Inl DecodeError"
  by (subst spec_loop.simps) (simp add: spec_sequence_def)

subsection \<open>Copying a match\<close>

lemma length_copy_match [simp]: "length (copy_match out off n) = length out + n"
  by (induction out off n rule: copy_match.induct) auto

lemma copy_match_snoc:
  "copy_match out off (Suc n) = copy_match out off n @ [copy_match out off n ! (length out + n - off)]"
  by (induction out off n rule: copy_match.induct) auto

lemma copy_match_map:
  assumes "0 < off" and "off \<le> length out"
  shows "copy_match out off n = out @ map (\<lambda>i. out ! (length out - off + i mod off)) [0..<n]"
proof (induction n)
  case 0
  then show ?case by simp
next
  case (Suc n)
  let ?r = "out @ map (\<lambda>i. out ! (length out - off + i mod off)) [0..<n]"
  have "?r ! (length out + n - off) = out ! (length out - off + n mod off)"
  proof (cases "n < off")
    case True
    moreover from True assms have "length out + n - off < length out" by linarith
    ultimately show ?thesis using assms by (simp add: nth_append)
  next
    case False
    then have "(n - off) mod off = n mod off" by (simp add: le_mod_geq)
    moreover have "length out + n - off = length out + (n - off)" using False by simp
    ultimately show ?thesis using False assms by (simp add: nth_append)
  qed
  then show ?case by (simp only: copy_match_snoc Suc) simp
qed

definition matched :: "bytes \<Rightarrow> nat \<Rightarrow> nat \<Rightarrow> bytes \<Rightarrow> nat \<Rightarrow> bool" where
  "matched buf0 m off buf d \<longleftrightarrow>
     0 < off \<and> m + off \<le> d \<and> d \<le> length buf \<and> length buf = length buf0 \<and>
     (\<forall>i < m + off. buf ! i = buf0 ! i) \<and>
     (\<forall>i. m \<le> i \<and> i < d \<longrightarrow> buf ! i = buf0 ! (m + (i - m) mod off))"

lemma matched_start: "0 < off \<Longrightarrow> m + off \<le> length buf \<Longrightarrow> matched buf m off buf (m + off)"
  by (auto simp: matched_def less_diff_conv2 add.commute)

lemma matched_weaken: "matched buf0 m off buf d \<Longrightarrow> m + off \<le> d' \<Longrightarrow> d' \<le> d \<Longrightarrow> matched buf0 m off buf d'"
  by (auto simp: matched_def)

lemma matched_length: "matched buf0 m off buf d \<Longrightarrow> length buf = length buf0"
  by (simp add: matched_def)

lemma matched_take:
  assumes "matched buf0 m off buf d"
  shows "take d buf = copy_match (take (m + off) buf0) off (d - (m + off))"
proof -
  let ?op = "m + off"
  have o: "0 < off" "?op \<le> d" "d \<le> length buf" "length buf = length buf0"
    using assms by (simp_all add: matched_def)
  have l: "length (take ?op buf0) = ?op" using o by simp
  have "take d buf = take ?op buf0 @ map (\<lambda>i. take ?op buf0 ! (m + i mod off)) [0..<d - ?op]"
  proof (rule nth_equalityI)
    show "length (take d buf) = length (take ?op buf0 @ map (\<lambda>i. take ?op buf0 ! (m + i mod off)) [0..<d - ?op])"
      using o by simp
    fix i assume "i < length (take d buf)"
    then have i: "i < d" using o by simp
    show "take d buf ! i = (take ?op buf0 @ map (\<lambda>i. take ?op buf0 ! (m + i mod off)) [0..<d - ?op]) ! i"
    proof (cases "i < ?op")
      case True
      with assms o i show ?thesis by (simp add: matched_def nth_append)
    next
      case False
      then have "i - m = (i - ?op) + off" by linarith
      then have "(i - m) mod off = (i - ?op) mod off" by simp
      moreover from False i assms have "buf ! i = buf0 ! (m + (i - m) mod off)"
        by (simp add: matched_def)
      ultimately show ?thesis using False i o by (simp add: nth_append)
    qed
  qed
  then show ?thesis using o copy_match_map [of off "take ?op buf0" "d - ?op"] by simp
qed

lemma matched_blit:
  assumes m: "matched buf0 m off buf d" and s: "off dvd step" "m + step \<le> d" "n \<le> step" "d + n \<le> length buf"
  shows "matched buf0 m off (blit buf d (take n (drop (d - step) buf))) (d + n)"
proof -
  let ?x = "take n (drop (d - step) buf)"
  have o: "0 < off" "m + off \<le> d" "length buf = length buf0" using m by (simp_all add: matched_def)
  have lx: "length ?x = n" using s by simp
  have per: "blit buf d ?x ! i = buf0 ! (m + (i - m) mod off)" if "m \<le> i" "i < d + n" for i
  proof (cases "i < d")
    case True
    with that m s lx show ?thesis by (subst nth_blit) (auto simp: matched_def)
  next
    case False
    have "blit buf d ?x ! i = ?x ! (i - d)"
      using False that s lx by (subst nth_blit) auto
    also have "\<dots> = buf ! (i - step)"
    proof -
      have "i - d < n" "d - step + (i - d) = i - step" using False that s by linarith+
      then show ?thesis using s by simp
    qed
    also have "\<dots> = buf0 ! (m + (i - step - m) mod off)"
    proof -
      have "m \<le> i - step" "i - step < d" using s False that by linarith+
      then show ?thesis using m by (simp add: matched_def)
    qed
    also have "(i - step - m) mod off = (i - m) mod off"
    proof -
      from s(1) obtain q where q: "step = off * q" by (rule dvdE)
      have "i - m = (i - step - m) + off * q" using s False q by linarith
      then show ?thesis by (metis mod_mult_self2)
    qed
    finally show ?thesis .
  qed
  have "blit buf d ?x ! i = buf0 ! i" if "i < m + off" for i
    using that m s lx o by (subst nth_blit) (auto simp: matched_def)
  with per o s lx show ?thesis by (simp add: matched_def)
qed

lemma matched_move:
  assumes "matched buf0 m off buf d" "off dvd step" "m + step \<le> d" "n \<le> step" "d + n \<le> length buf" "s + step = d"
  shows "\<exists>buf'. move_within buf s d n = Some buf' \<and> matched buf0 m off buf' (d + n)"
proof -
  have s: "s = d - step" "s + n \<le> d" using assms by linarith+
  then have "move_within buf s d n = Some (blit buf d (take n (drop (d - step) buf)))"
    using assms(5) by (simp add: move_within_def)
  with matched_blit [OF assms(1-5)] show ?thesis by blast
qed

lemma matched_copy_within:
  assumes "matched buf0 m off buf d" "off dvd step" "m + step \<le> d" "n \<le> step" "d + n \<le> length buf" "s + step = d"
  shows "\<exists>buf'. copy_within buf s (s + n) d = Some buf' \<and> matched buf0 m off buf' (d + n)"
proof -
  have s: "s = d - step" "s + n \<le> d" using assms by linarith+
  then have "copy_within buf s (s + n) d = Some (blit buf d (take n (drop (d - step) buf)))"
    using assms(5) by (simp add: copy_within_def)
  with matched_blit [OF assms(1-5)] show ?thesis by blast
qed

lemma match_copy16_ok:
  assumes "matched buf0 m off buf d" "16 \<le> off" "s + off = d" "d < e" "e + 15 \<le> length buf"
  shows "\<exists>buf'. match_copy16 buf s d e = Some buf' \<and> matched buf0 m off buf' e"
  using assms
proof (induction "e - d" arbitrary: buf s d rule: less_induct)
  case less
  have "m + off \<le> d" using less.prems(1) by (simp add: matched_def)
  then obtain b where b: "move_within buf s d 16 = Some b" "matched buf0 m off b (d + 16)"
    using matched_move [OF less.prems(1), of off 16 s] less.prems by auto
  show ?case
  proof (cases "e \<le> d + 16")
    case True
    then show ?thesis
      using b matched_weaken [OF b(2), of e] less.prems \<open>m + off \<le> d\<close> by (simp add: match_copy16.simps)
  next
    case False
    have "length b = length buf" using b(2) less.prems(1) by (simp add: matched_def)
    then show ?thesis
      using less.hyps [of "d + 16" b "s + 16"] b less.prems False by (simp add: match_copy16.simps [of buf])
  qed
qed

lemma match_copy8_ok:
  assumes "matched buf0 m off buf d" "8 \<le> off" "s + off = d" "d < e" "e + 15 \<le> length buf"
  shows "\<exists>buf'. match_copy8 buf s d e = Some buf' \<and> matched buf0 m off buf' e"
  using assms
proof (induction "e - d" arbitrary: buf s d rule: less_induct)
  case less
  have o: "m + off \<le> d" using less.prems(1) by (simp add: matched_def)
  then obtain b1 where b1: "move_within buf s d 8 = Some b1" "matched buf0 m off b1 (d + 8)"
    using matched_move [OF less.prems(1), of off 8 s] less.prems by auto
  have l1: "length b1 = length buf" using b1(2) less.prems(1) by (simp add: matched_def)
  obtain b where b: "move_within b1 (s + 8) (d + 8) 8 = Some b" "matched buf0 m off b (d + 8 + 8)"
    using matched_move [OF b1(2), of off 8 "s + 8"] o l1 less.prems by auto
  show ?case
  proof (cases "e \<le> d + 16")
    case True
    then show ?thesis
      using b1 b matched_weaken [OF b(2), of e] less.prems o by (simp add: match_copy8.simps)
  next
    case False
    have "length b = length buf" using b(2) less.prems(1) by (simp add: matched_def)
    then show ?thesis
      using less.hyps [of "d + 16" b "s + 16"] b1 b less.prems False by (simp add: match_copy8.simps [of buf] ac_simps)
  qed
qed

lemma near_bytes_ok:
  assumes "matched buf0 m off buf d" "s + off = d" "d + n \<le> length buf"
  shows "\<exists>buf'. near_bytes buf s d n = Some buf' \<and> matched buf0 m off buf' (d + n)"
  using assms
proof (induction n arbitrary: buf s d)
  case 0
  then show ?case by simp
next
  case (Suc n)
  have o: "0 < off" "m + off \<le> d" using Suc.prems(1) by (simp_all add: matched_def)
  have "take 1 (drop s buf) = [buf ! s]"
    using Suc.prems o by (simp add: take_Suc_conv_app_nth nth_via_drop hd_drop_conv_nth take_Suc)
  moreover have "s = d - off" using Suc.prems by simp
  ultimately have b: "matched buf0 m off (blit buf d [buf ! s]) (d + 1)"
    using matched_blit [OF Suc.prems(1) dvd_refl, of 1] Suc.prems o by simp
  have "length (blit buf d [buf ! s]) = length buf" using Suc.prems by simp
  then show ?case
    using Suc.IH [OF b, of "Suc s"] Suc.prems o by simp
qed


lemma near_step_ok:
  assumes "0 < off" "off < 8"
  shows "off dvd near_step off \<and> 8 \<le> near_step off \<and> near_step off \<le> 8 + off"
proof -
  have "off \<in> {1, 2, 3, 4, 5, 6, 7}" using assms by auto
  then show ?thesis by (auto simp: near_step_def)
qed

lemma near_tail_ok:
  assumes "matched buf0 m off buf (op + k)" "off dvd step" "8 \<le> step" "m + step \<le> op + k" "op = m + off"
    "op + ml + 7 \<le> length buf"
  shows "\<exists>buf'. near_tail buf op k ml step = Some buf' \<and> matched buf0 m off buf' (max (op + k) (op + ml))"
  using assms
proof (induction "ml - k" arbitrary: buf k rule: less_induct)
  case less
  show ?case
  proof (cases "k < ml")
    case True
    obtain b where b: "move_within buf (op + k - step) (op + k) 8 = Some b" "matched buf0 m off b (op + k + 8)"
      using matched_move [OF less.prems(1,2), of 8 "op + k - step"] less.prems True by auto
    have "length b = length buf" using b(2) less.prems(1) by (simp add: matched_def)
    then have "\<exists>b'. near_tail b op (k + 8) ml step = Some b' \<and> matched buf0 m off b' (max (op + (k + 8)) (op + ml))"
      using b less.prems True by (intro less.hyps) (simp_all add: add.assoc)
    then obtain b' where "near_tail b op (k + 8) ml step = Some b'" "matched buf0 m off b' (max (op + (k + 8)) (op + ml))"
      by blast
    moreover have "near_tail buf op k ml step = near_tail b op (k + 8) ml step"
      using b less.prems True by (simp add: near_tail.simps [of buf])
    ultimately show ?thesis
      using matched_weaken [of buf0 m off b' _ "max (op + k) (op + ml)"] less.prems by auto
  next
    case False
    then have "max (op + k) (op + ml) = op + k" by simp
    with False show ?thesis using less.prems(1) by (simp add: near_tail.simps)
  qed
qed

lemma near_copy_ok:
  assumes "0 < off" "off < 8" "op = m + off" "op + 8 \<le> length buf" "op + ml + 7 \<le> length buf"
  shows "\<exists>buf'. near_copy buf m op ml off = Some buf' \<and> matched buf m off buf' (op + ml)"
proof -
  have "matched buf m off buf op" using matched_start [of off m buf] assms by simp
  then obtain b where b: "near_bytes buf m op 8 = Some b" "matched buf m off b (op + 8)"
    using near_bytes_ok [of buf m off buf op m 8] assms(3,4) by blast
  have "length b = length buf" using b(2) by (simp add: matched_def)
  then have "\<exists>b'. near_tail b op 8 ml (near_step off) = Some b' \<and> matched buf m off b' (max (op + 8) (op + ml))"
    using near_step_ok [OF assms(1,2)] assms by (intro near_tail_ok [OF b(2)]) simp_all
  then obtain b' where "near_tail b op 8 ml (near_step off) = Some b'" "matched buf m off b' (max (op + 8) (op + ml))"
    by blast
  then show ?thesis
    using b matched_weaken [of buf m off b' _ "op + ml"] assms by (auto simp: near_copy_def)
qed

lemma overlap_loop_ok:
  assumes "matched buf0 m off buf (to + dn)" "to = m + off" "span = dn + off" "off dvd span" "to + n \<le> length buf" "dn \<le> n"
  shows "\<exists>buf'. overlap_loop buf to n off dn span = Some buf' \<and> matched buf0 m off buf' (to + n)"
  using assms
proof (induction "n - dn" arbitrary: buf dn span rule: less_induct)
  case less
  have o: "0 < off" using less.prems(1) by (simp add: matched_def)
  show ?case
  proof (cases "dn < n")
    case True
    let ?k = "min span (n - dn)"
    have src: "to + dn - span + span = to + dn" using less.prems by simp
    obtain b where b: "copy_within buf (to + dn - span) (to + dn - span + ?k) (to + dn) = Some b"
      "matched buf0 m off b (to + dn + ?k)"
    proof -
      have "m + span \<le> to + dn" "?k \<le> span" "to + dn + ?k \<le> length buf" using less.prems True by simp_all
      with matched_copy_within [OF less.prems(1,4) this src] that show thesis by blast
    qed
    have lb: "length b = length buf" using b(2) less.prems(1) by (simp add: matched_def)
    have e: "overlap_loop buf to n off dn span = overlap_loop b to n off (dn + ?k) (min (span * 2) (dn + ?k + off))"
      using b True less.prems by (simp add: overlap_loop.simps [of buf] Let_def)
    show ?thesis
    proof (cases "span \<le> n - dn")
      case True
      then have k: "?k = span" by simp
      have sp: "min (span * 2) (dn + ?k + off) = span * 2" using less.prems k by simp
      have "\<exists>buf'. overlap_loop b to n off (dn + span) (span * 2) = Some buf' \<and> matched buf0 m off buf' (to + n)"
      proof (rule less.hyps)
        show "n - (dn + span) < n - dn" using True \<open>dn < n\<close> less.prems o by simp
        show "matched buf0 m off b (to + (dn + span))" using b(2) k by (simp add: add.assoc)
        show "span * 2 = dn + span + off" using less.prems by simp
        show "off dvd span * 2" using less.prems by simp
        show "dn + span \<le> n" using True \<open>dn < n\<close> by linarith
      qed (use less.prems lb in auto)
      then show ?thesis using e k sp by simp
    next
      case False
      then have k: "?k = n - dn" by simp
      then have "dn + ?k = n" using \<open>dn < n\<close> by simp
      then show ?thesis using e b by (simp add: overlap_loop.simps [of b] add.assoc)
    qed
  next
    case False
    then show ?thesis using less.prems by (simp add: overlap_loop.simps)
  qed
qed

lemma copy_overlap_ok:
  assumes "0 < off" "to = m + off" "to + n \<le> length buf"
  shows "\<exists>buf'. copy_overlap buf m to n = Some buf' \<and> matched buf m off buf' (to + n)"
  using overlap_loop_ok [of buf m off buf to 0 off n] matched_start [of off m buf] assms
  by (simp add: copy_overlap_def)

lemma match_checked_ok:
  assumes "0 < off" "off \<le> op" "op \<le> length buf"
  shows "if length buf < op + ml then match_checked buf op off ml = Err DecodeError
    else \<exists>buf'. match_checked buf op off ml = Ok buf' \<and> matched buf (op - off) off buf' (op + ml)"
proof (cases "length buf < op + ml")
  case True
  then have "length buf - op < ml" using assms by linarith
  then show ?thesis using True assms by (simp add: match_checked_def)
next
  case False
  let ?m = "op - off"
  have o: "op = ?m + off" using assms by simp
  have "\<not> length buf - op < ml" using False assms by linarith
  moreover have "\<exists>buf'. (if ml \<le> off then do { x \<leftarrow> slice buf ?m (?m + ml); put buf op x }
                     else copy_overlap buf ?m op ml) = Some buf' \<and> matched buf ?m off buf' (op + ml)"
  proof (cases "ml \<le> off")
    case True
    have "matched buf ?m off buf op" using matched_start [of off ?m buf] assms by simp
    from matched_copy_within [OF this, of off ml ?m] True False assms show ?thesis
      by (simp add: copy_within_def)
  next
    case False
    then show ?thesis using copy_overlap_ok [OF assms(1) o, of ml buf] \<open>\<not> length buf < op + ml\<close> by simp
  qed
  ultimately show ?thesis using False assms by (auto simp: match_checked_def Let_def)
qed

subsection \<open>Moving literals\<close>

definition moved :: "bytes \<Rightarrow> bytes \<Rightarrow> nat \<Rightarrow> nat \<Rightarrow> bytes \<Rightarrow> nat \<Rightarrow> bool" where
  "moved src buf0 ip op buf d \<longleftrightarrow>
     op \<le> d \<and> d \<le> length buf \<and> length buf = length buf0 \<and> ip + (d - op) \<le> length src \<and>
     (\<forall>i < op. buf ! i = buf0 ! i) \<and> (\<forall>i. op \<le> i \<and> i < d \<longrightarrow> buf ! i = src ! (ip + (i - op)))"

lemma moved_start: "op \<le> length buf \<Longrightarrow> ip \<le> length src \<Longrightarrow> moved src buf ip op buf op"
  by (auto simp: moved_def)

lemma moved_weaken: "moved src buf0 ip op buf d \<Longrightarrow> op \<le> d' \<Longrightarrow> d' \<le> d \<Longrightarrow> moved src buf0 ip op buf d'"
  by (auto simp: moved_def)

lemma moved_length: "moved src buf0 ip op buf d \<Longrightarrow> length buf = length buf0"
  by (simp add: moved_def)

lemma moved_take:
  assumes "moved src buf0 ip op buf d"
  shows "take d buf = take op buf0 @ take (d - op) (drop ip src)"
  by (rule nth_equalityI) (use assms in \<open>auto simp: moved_def nth_append\<close>)

lemma moved_move:
  assumes m: "moved src buf0 ip op buf d" and "s + op = ip + d" "s + n \<le> length src" "d + n \<le> length buf"
  shows "\<exists>buf'. move_in src s buf d n = Some buf' \<and> moved src buf0 ip op buf' (d + n)"
proof -
  let ?x = "take n (drop s src)"
  have lx: "length ?x = n" using assms by simp
  have "moved src buf0 ip op (blit buf d ?x) (d + n)"
    unfolding moved_def
  proof (intro conjI allI impI)
    fix i assume "i < op"
    then show "blit buf d ?x ! i = buf0 ! i" using assms lx by (subst nth_blit) (auto simp: moved_def)
  next
    fix i assume i: "op \<le> i \<and> i < d + n"
    show "blit buf d ?x ! i = src ! (ip + (i - op))"
    proof (cases "i < d")
      case True
      with i assms lx show ?thesis by (subst nth_blit) (auto simp: moved_def)
    next
      case False
      then have "s + (i - d) = ip + (i - op)" "i - d < n" using i assms by linarith+
      with False i assms lx show ?thesis by (subst nth_blit) auto
    qed
  qed (use assms lx in \<open>auto simp: moved_def\<close>)
  then show ?thesis using assms lx by (simp add: move_in_def)
qed

lemma wild_copy_ok:
  assumes "moved src buf0 ip op buf d" "s + op = ip + d" "0 < n" "d < e"
    "s + (e - d) + n \<le> length src + 1" "e + n \<le> length buf + 1"
  shows "\<exists>buf'. wild_copy n src s buf d e = Some buf' \<and> moved src buf0 ip op buf' e"
  using assms
proof (induction "e - d" arbitrary: buf s d rule: less_induct)
  case less
  have "s + n \<le> length src" "d + n \<le> length buf" using less.prems(4-6) by linarith+
  then obtain b where b: "move_in src s buf d n = Some b" "moved src buf0 ip op b (d + n)"
    using moved_move [OF less.prems(1,2)] by blast
  have o: "op \<le> d" using less.prems(1) by (simp add: moved_def)
  show ?case
  proof (cases "e \<le> d + n")
    case True
    then show ?thesis
      using b moved_weaken [OF b(2), of e] o less.prems by (simp add: wild_copy.simps [of n])
  next
    case False
    have "length b = length buf" using b(2) less.prems(1) by (simp add: moved_def)
    then show ?thesis
      using less.hyps [of "d + n" b "s + n"] b less.prems False by (simp add: wild_copy.simps [of n src s buf])
  qed
qed


subsection \<open>The careful loop follows the reference\<close>

text \<open>A decoder state stands for the bytes of the output before its position.\<close>

definition follows ::
    "bytes \<Rightarrow> decode_error + (bool \<times> nat \<times> bytes) \<Rightarrow> (decode_error, bool \<times> bytes \<times> nat \<times> nat) res \<Rightarrow> bool" where
  "follows dst spec r \<longleftrightarrow>
    (case spec of
       Inl e \<Rightarrow> r = Err e
     | Inr (fin, ip', out') \<Rightarrow> \<exists>dst'. r = Ok (fin, dst', ip', length out') \<and> length dst' = length dst
         \<and> length out' \<le> length dst \<and> take (length out') dst' = out')"

lemma follows_length: "length d = length d' \<Longrightarrow> follows d = follows d'"
  by (intro ext) (auto simp: follows_def split: sum.splits)

lemma careful_match_follows:
  assumes op: "op \<le> length dst" and ip: "ip \<le> length src" "ip \<noteq> length src"
  shows "follows dst (spec_match src (length dst) t ip (take op dst)) (careful_match src dst ip op t)"
proof (cases "length src < ip + 2")
  case True
  then have "length src - ip < 2" by linarith
  with True ip show ?thesis by (simp add: follows_def spec_match_def careful_match_def)
next
  case two: False
  then have n2: "\<not> length src - ip < 2" by linarith
  let ?off = "le_val (take 2 (drop ip src))"
  have sl: "slice src ip (ip + 2) = Some (take 2 (drop ip src))" using two by simp
  show ?thesis
  proof (cases "?off = 0 \<or> op < ?off")
    case True
    with two n2 ip op sl show ?thesis by (simp add: follows_def spec_match_def careful_match_def Let_def)
  next
    case off: False
    show ?thesis
    proof (cases "len_field src (ip + 2) MINMATCH (unat (t AND 15))")
      case (Inl e)
      with two n2 ip op sl off show ?thesis by (simp add: follows_def spec_match_def careful_match_def Let_def)
    next
      case (Inr q)
      obtain ml i3 where q: "q = (ml, i3)" by fastforce
      have ca: "careful_match src dst ip op t =
          bind_res (match_checked dst op ?off ml) (\<lambda>dst. Ok (False, dst, i3, op + ml))"
        using n2 sl off Inr q by (simp add: careful_match_def Let_def)
      have sp: "spec_match src (length dst) t ip (take op dst) =
          (if length dst < op + ml then Inl DecodeError else Inr (False, i3, copy_match (take op dst) ?off ml))"
        using two ip op off Inr q by (simp add: spec_match_def Let_def)
      have mc: "if length dst < op + ml then match_checked dst op ?off ml = Err DecodeError
          else \<exists>b. match_checked dst op ?off ml = Ok b \<and> matched dst (op - ?off) ?off b (op + ml)"
        by (rule match_checked_ok) (use off op in auto)
      show ?thesis
      proof (cases "length dst < op + ml")
        case True
        then show ?thesis unfolding ca sp using mc by (simp add: follows_def)
      next
        case False
        then obtain b where b: "match_checked dst op ?off ml = Ok b" "matched dst (op - ?off) ?off b (op + ml)"
          using mc by auto
        have "take (op + ml) b = copy_match (take op dst) ?off ml" using matched_take [OF b(2)] off by simp
        then show ?thesis unfolding ca sp using b False op matched_length [OF b(2)] by (simp add: follows_def)
      qed
    qed
  qed
qed

lemma careful_sequence_follows:
  assumes op: "op \<le> length dst"
  shows "follows dst (spec_sequence src (length dst) ip (take op dst)) (careful_sequence src dst ip op)"
proof (cases "ip < length src")
  case False
  then show ?thesis by (simp add: follows_def spec_sequence_def careful_sequence_def index_def)
next
  case ip: True
  let ?t = "src ! ip"
  show ?thesis
  proof (cases "len_field src (Suc ip) 0 (unat (drop_bit 4 ?t))")
    case (Inl e)
    with ip show ?thesis by (simp add: follows_def spec_sequence_def careful_sequence_def)
  next
    case (Inr p)
    obtain lit i1 where p: "p = (lit, i1)" by fastforce
    have i1: "i1 \<le> length src" using Inr p ip len_field_bounds by force
    show ?thesis
    proof (cases "length src < i1 + lit \<or> length dst < op + lit")
      case True
      then have "length src - i1 < lit \<or> length dst - op < lit" using i1 op by linarith
      with True Inr p ip i1 op show ?thesis
        by (simp add: follows_def spec_sequence_def careful_sequence_def)
    next
      case False
      then obtain d1 where d1: "move_in src i1 dst op lit = Some d1" "moved src dst i1 op d1 (op + lit)"
        using moved_move [OF moved_start [OF op i1], of i1 lit] by auto
      have c: "\<not> (length src - i1 < lit \<or> length dst - op < lit)" using False by linarith
      let ?o = "take (op + lit) d1"
      have o: "?o = take op dst @ take lit (drop i1 src)" using moved_take [OF d1(2)] by simp
      have l: "length d1 = length dst" "length ?o = op + lit" using moved_length [OF d1(2)] False by simp_all
      have sp: "spec_sequence src (length dst) ip (take op dst) = spec_match src (length dst) ?t (i1 + lit) ?o"
        using ip Inr p False op by (simp add: spec_sequence_def o)
      have ca: "careful_sequence src dst ip op =
          (if i1 + lit = length src then Ok (True, d1, i1 + lit, op + lit)
           else careful_match src d1 (i1 + lit) (op + lit) ?t)"
        using ip Inr p c i1 op d1 by (simp add: careful_sequence_def Let_def)
      show ?thesis
      proof (cases "i1 + lit = length src")
        case True
        then show ?thesis unfolding sp ca using l False by (simp add: follows_def spec_match_def)
      next
        case ne: False
        have "follows d1 (spec_match src (length d1) ?t (i1 + lit) (take (op + lit) d1))
            (careful_match src d1 (i1 + lit) (op + lit) ?t)"
          by (rule careful_match_follows) (use False ne l in auto)
        then show ?thesis unfolding sp ca using ne l(1) follows_length [OF l(1)] by simp
      qed
    qed
  qed
qed


lemma careful_loop_spec:
  "op \<le> length dst \<Longrightarrow>
    (case spec_loop src (length dst) ip (take op dst) of
       Inl e \<Rightarrow> careful_loop src dst ip op = Err e
     | Inr out \<Rightarrow> \<exists>dst'. careful_loop src dst ip op = Ok (dst', length out) \<and> length dst' = length dst
         \<and> length out \<le> length dst \<and> take (length out) dst' = out)"
proof (induction src dst ip op rule: careful_loop.induct)
  case (1 src dst ip op)
  note f = careful_sequence_follows [OF "1.prems", of src ip]
  show ?case
  proof (cases "spec_sequence src (length dst) ip (take op dst)")
    case (Inl e)
    with f show ?thesis
      by (simp add: spec_loop.simps [of src _ ip] careful_loop.simps [of src dst ip op] follows_def)
  next
    case (Inr p)
    obtain fin ip' out' where p: "p = (fin, ip', out')" by (cases p) auto
    with Inr f obtain dst' where d: "careful_sequence src dst ip op = Ok (fin, dst', ip', length out')"
      "length dst' = length dst" "length out' \<le> length dst" "take (length out') dst' = out'"
      by (auto simp: follows_def)
    have ip: "ip < length src" using Inr p spec_sequence_progress by blast
    show ?thesis
    proof (cases fin)
      case True
      with d Inr p ip show ?thesis
        by (simp add: spec_loop.simps [of src _ ip] careful_loop.simps [of src dst ip op])
    next
      case False
      have sp: "spec_loop src (length dst) ip (take op dst) = spec_loop src (length dst) ip' out'"
        using Inr p False by (simp add: spec_loop.simps [of src _ ip])
      have ca: "careful_loop src dst ip op = careful_loop src dst' ip' (length out')"
        using d(1) False ip by (simp add: careful_loop.simps [of src dst ip op])
      have "length out' \<le> length dst'" using d by simp
      from "1.IH" [OF ip d(1) refl refl refl False this] show ?thesis
        unfolding sp ca d(2,4) .
    qed
  qed
qed


subsection \<open>The fast loop follows the reference\<close>

lemma nibble_le: "unat (t AND 15 :: byte) \<le> 15" "unat (drop_bit 4 (t :: byte)) \<le> 15"
proof -
  have "t AND 15 \<le> (15 :: byte)" by (rule word_and_le1)
  then show "unat (t AND 15) \<le> 15" by (simp add: word_le_nat_alt)
  have "unat (drop_bit 4 t) = unat t div 16" by (simp add: drop_bit_eq_div unat_div)
  then show "unat (drop_bit 4 t) \<le> 15" using unat_byte_less [of t] by linarith
qed

lemma long_match_ok:
  assumes op: "op + ml + 32 \<le> length dst" and ml: "19 \<le> ml" and off: "0 < off" "off \<le> op"
  shows "\<exists>b. (if 16 \<le> off
       then do { dst \<leftarrow> move_within dst (op - off) op 16;
                 dst \<leftarrow> move_within dst (op - off + 16) (op + 16) 16;
                 if 32 < ml then match_copy16 dst (op - off + 32) (op + 32) (op + ml) else Some dst }
       else if 8 \<le> off then match_copy8 dst (op - off) op (op + ml)
       else near_copy dst (op - off) op ml off) = Some b \<and> matched dst (op - off) off b (op + ml)"
proof -
  have st: "matched dst (op - off) off dst op" using matched_start [of off "op - off" dst] off op by simp
  consider "16 \<le> off" | "8 \<le> off" "off < 16" | "off < 8" by linarith
  then show ?thesis
  proof cases
    case 1
    obtain b1 where b1: "move_within dst (op - off) op 16 = Some b1" "matched dst (op - off) off b1 (op + 16)"
      using matched_move [OF st, of off 16 "op - off"] 1 off op by auto
    obtain b2 where b2: "move_within b1 (op - off + 16) (op + 16) 16 = Some b2" "matched dst (op - off) off b2 (op + 16 + 16)"
      using matched_move [OF b1(2), of off 16 "op - off + 16"] matched_length [OF b1(2)] 1 off op by auto
    show ?thesis
    proof (cases "32 < ml")
      case True
      have "\<exists>b. match_copy16 b2 (op - off + 32) (op + 16 + 16) (op + ml) = Some b \<and> matched dst (op - off) off b (op + ml)"
        by (rule match_copy16_ok [OF b2(2)]) (use 1 True off op matched_length [OF b2(2)] in auto)
      then show ?thesis using 1 True b1(1) b2(1) by (simp add: add.commute)
    next
      case False
      have "matched dst (op - off) off b2 (op + ml)"
        by (rule matched_weaken [OF b2(2)]) (use off False in auto)
      then show ?thesis using 1 False b1(1) b2(1) by simp
    qed
  next
    case 2
    have "\<exists>b. match_copy8 dst (op - off) op (op + ml) = Some b \<and> matched dst (op - off) off b (op + ml)"
      by (rule match_copy8_ok [OF st]) (use 2 off op ml in auto)
    then show ?thesis using 2 by simp
  next
    case 3
    have "\<exists>b. near_copy dst (op - off) op ml off = Some b \<and> matched dst (op - off) off b (op + ml)"
      by (rule near_copy_ok) (use 3 off op in auto)
    then show ?thesis using 3 by simp
  qed
qed

text \<open>
  A match of the fast loop. With the offset inside the block it is the
  reference's match; with the block ended in the middle of the offset, where the
  reference stops, it is an error or leaves a position past the block.
\<close>

lemma fast_match_ok:
  assumes op: "op + 50 \<le> length dst" and off: "0 < off" "off \<le> op"
  shows "case len_field block ip MINMATCH (unat (t AND 15)) of
      Inl e \<Rightarrow> fast_match block dst ip op t off = Err e
    | Inr (ml, ip') \<Rightarrow>
        if length dst < op + ml then fast_match block dst ip op t off = Err DecodeError
        else \<exists>b. matched dst (op - off) off b (op + ml) \<and>
           (fast_match block dst ip op t off = Ok (Continue b ip' (op + ml)) \<or>
            fast_match block dst ip op t off = Ok (Break b ip' (op + ml)))"
proof (cases "unat (t AND 15) < 15")
  case True
  let ?ml = "unat (t AND 15) + MINMATCH"
  have ml: "?ml \<le> 18" using True by (simp add: MINMATCH_def)
  have st: "matched dst (op - off) off dst op" using matched_start [of off "op - off" dst] off op by simp
  have "\<exists>b. (if 8 \<le> off
       then do { dst \<leftarrow> move_within dst (op - off) op 8;
                 dst \<leftarrow> move_within dst (op - off + 8) (op + 8) 8;
                 move_within dst (op - off + 16) (op + 16) 2 }
       else near_copy dst (op - off) op ?ml off) = Some b \<and> matched dst (op - off) off b (op + ?ml)"
  proof (cases "8 \<le> off")
    case True
    obtain b1 where b1: "move_within dst (op - off) op 8 = Some b1" "matched dst (op - off) off b1 (op + 8)"
      using matched_move [OF st, of off 8 "op - off"] True off op by auto
    obtain b2 where b2: "move_within b1 (op - off + 8) (op + 8) 8 = Some b2" "matched dst (op - off) off b2 (op + 8 + 8)"
      using matched_move [OF b1(2), of off 8 "op - off + 8"] matched_length [OF b1(2)] True off op by auto
    obtain b3 where b3: "move_within b2 (op - off + 16) (op + 8 + 8) 2 = Some b3" "matched dst (op - off) off b3 (op + 8 + 8 + 2)"
      using matched_move [OF b2(2), of off 2 "op - off + 16"] matched_length [OF b2(2)] True off op by auto
    have "matched dst (op - off) off b3 (op + ?ml)"
      by (rule matched_weaken [OF b3(2)]) (use off ml in auto)
    then show ?thesis using True b1(1) b2(1) b3(1) by (simp add: add.commute)
  next
    case False
    have "\<exists>b. near_copy dst (op - off) op ?ml off = Some b \<and> matched dst (op - off) off b (op + ?ml)"
      by (rule near_copy_ok) (use False off op ml in auto)
    then show ?thesis using False by simp
  qed
  moreover have "len_field block ip MINMATCH (unat (t AND 15)) = Inr (?ml, ip)"
    using True by (simp add: len_field_def)
  moreover have "\<not> length dst < op + ?ml" using op ml by simp
  ultimately show ?thesis using True by (auto simp: fast_match_def Let_def)
next
  case False
  then have n: "unat (t AND 15) = 15" using nibble_le(1) [of t] by simp
  show ?thesis
  proof (cases "var_len block ip")
    case (Inl e)
    with n show ?thesis by (simp add: fast_match_def len_field_def Let_def)
  next
    case (Inr q)
    obtain k ip' where q: "q = (k, ip')" by fastforce
    let ?ml = "15 + MINMATCH + k" and ?mlim = "length dst - 32"
    have lf: "len_field block ip MINMATCH (unat (t AND 15)) = Inr (?ml, ip')"
      using n Inr q by (simp add: len_field_def)
    have opm: "op \<le> ?mlim" using op by simp
    show ?thesis
    proof (cases "?mlim - op < ?ml")
      case True
      have fm: "fast_match block dst ip op t off =
          bind_res (match_checked dst op off ?ml) (\<lambda>dst. Ok (Break dst ip' (op + ?ml)))"
        using n Inr q opm True by (simp add: fast_match_def Let_def)
      have "if length dst < op + ?ml then match_checked dst op off ?ml = Err DecodeError
          else \<exists>b. match_checked dst op off ?ml = Ok b \<and> matched dst (op - off) off b (op + ?ml)"
        by (rule match_checked_ok) (use off op in auto)
      then show ?thesis unfolding lf fm by auto
    next
      case room: False
      have r: "op + ?ml + 32 \<le> length dst" using room op by simp
      have st: "matched dst (op - off) off dst op" using matched_start [of off "op - off" dst] off op by simp
      have "\<exists>b. (if 16 \<le> off
           then do { dst \<leftarrow> move_within dst (op - off) op 16;
                     dst \<leftarrow> move_within dst (op - off + 16) (op + 16) 16;
                     if 32 < ?ml then match_copy16 dst (op - off + 32) (op + 32) (op + ?ml) else Some dst }
           else if 8 \<le> off then match_copy8 dst (op - off) op (op + ?ml)
           else near_copy dst (op - off) op ?ml off) = Some b \<and> matched dst (op - off) off b (op + ?ml)"
        by (rule long_match_ok) (use r off op in \<open>auto simp: MINMATCH_def\<close>)
      then show ?thesis unfolding lf using n Inr q opm room r by (auto simp: fast_match_def Let_def)
    qed
  qed
qed


lemma moves64_ok:
  assumes "i + 64 \<le> length src" "op + 64 \<le> length dst" "n \<le> 64"
  shows "\<exists>d. do { dst \<leftarrow> move_in src i dst op 16;
                  dst \<leftarrow> move_in src (i + 16) dst (op + 16) 16;
                  dst \<leftarrow> move_in src (i + 32) dst (op + 32) 16;
                  move_in src (i + 48) dst (op + 48) 16 } = Some d \<and> moved src dst i op d (op + n)"
proof -
  have st: "moved src dst i op dst op" using assms by (intro moved_start) auto
  obtain d1 where d1: "move_in src i dst op 16 = Some d1" "moved src dst i op d1 (op + 16)"
    using moved_move [OF st, of i 16] assms by auto
  obtain d2 where d2: "move_in src (i + 16) d1 (op + 16) 16 = Some d2" "moved src dst i op d2 (op + 16 + 16)"
    using moved_move [OF d1(2), of "i + 16" 16] moved_length [OF d1(2)] assms by auto
  then have d2: "move_in src (i + 16) d1 (op + 16) 16 = Some d2" "moved src dst i op d2 (op + 32)"
    by (simp_all add: add.assoc)
  obtain d3 where d3: "move_in src (i + 32) d2 (op + 32) 16 = Some d3" "moved src dst i op d3 (op + 32 + 16)"
    using moved_move [OF d2(2), of "i + 32" 16] moved_length [OF d2(2)] assms by auto
  then have d3: "move_in src (i + 32) d2 (op + 32) 16 = Some d3" "moved src dst i op d3 (op + 48)"
    by (simp_all add: add.assoc)
  obtain d4 where d4: "move_in src (i + 48) d3 (op + 48) 16 = Some d4" "moved src dst i op d4 (op + 48 + 16)"
    using moved_move [OF d3(2), of "i + 48" 16] moved_length [OF d3(2)] assms by auto
  have "moved src dst i op d4 (op + n)" by (rule moved_weaken [OF d4(2)]) (use assms in auto)
  then show ?thesis using d1(1) d2(1) d3(1) d4(1) by simp
qed

definition turn_room :: "bool \<Rightarrow> bytes \<Rightarrow> nat \<Rightarrow> nat \<Rightarrow> bool" where
  "turn_room padded src len ip \<longleftrightarrow> len \<le> length src \<and>
    (if padded then len + 64 \<le> length src \<and> ip \<le> Suc len else ip < len \<and> ip + 18 \<le> length src)"

lemma fast_literals_ok:
  assumes room: "turn_room padded src len ip" and ip: "ip < len" and op: "op \<le> olim" "olim + 64 = length dst"
  shows "case len_field (take len src) (Suc ip) 0 (unat (drop_bit 4 t)) of
      Inl e \<Rightarrow> fast_literals padded src len dst (Suc ip) op olim t = Err e
    | Inr (lit, i) \<Rightarrow>
        len < i + lit \<and> fast_literals padded src len dst (Suc ip) op olim t = Err DecodeError
      \<or> fast_literals padded src len dst (Suc ip) op olim t = Ok (LitNoRoom ip)
      \<or> (\<exists>d. fast_literals padded src len dst (Suc ip) op olim t = Ok (LitRoom d (i + lit) (op + lit))
           \<and> moved src dst i op d (op + lit) \<and> op + lit + 50 \<le> length dst \<and> i + lit + 2 \<le> length src)"
proof (cases "unat (drop_bit 4 t) < 15")
  case True
  have l: "Suc ip + 17 \<le> length src" using room ip by (auto simp: turn_room_def split: if_splits)
  have st: "moved src dst (Suc ip) op dst op" using l op by (intro moved_start) auto
  obtain d where d: "move_in src (Suc ip) dst op 16 = Some d" "moved src dst (Suc ip) op d (op + 16)"
    using moved_move [OF st, of "Suc ip" 16] l op by auto
  have "moved src dst (Suc ip) op d (op + unat (drop_bit 4 t))"
    by (rule moved_weaken [OF d(2)]) (use True in auto)
  then show ?thesis using True d(1) l op by (simp add: len_field_def fast_literals_def Let_def)
next
  case False
  then have n: "unat (drop_bit 4 t) = 15" using nibble_le(2) [of t] by simp
  show ?thesis
  proof (cases "var_len (take len src) (Suc ip)")
    case (Inl e)
    with n show ?thesis by (simp add: fast_literals_def len_field_def Let_def)
  next
    case (Inr q)
    obtain k i where q: "q = (k, i)" by fastforce
    let ?lit = "15 + k"
    have i: "i \<le> len" "Suc ip < i" using var_len_bounds [OF Inr [unfolded q]] by auto
    have lf: "len_field (take len src) (Suc ip) 0 (unat (drop_bit 4 t)) = Inr (?lit, i)"
      using n Inr q by (simp add: len_field_def)
    show ?thesis
    proof (cases "len - i < ?lit")
      case True
      then have "len < i + ?lit" using i by linarith
      then show ?thesis unfolding lf using True n Inr q by (simp add: fast_literals_def Let_def)
    next
      case inb: False
      show ?thesis
      proof (cases "olim - op < ?lit \<or> (\<not> padded \<and> (length src - i < 64 \<or> length src - i - ?lit < 32))")
        case True
        then show ?thesis unfolding lf using inb n Inr q by (simp add: fast_literals_def Let_def)
      next
        case go: False
        have b: "i + ?lit \<le> len" "op + ?lit \<le> olim" using inb go i op by linarith+
        have s: "i + 64 \<le> length src" "i + ?lit + 32 \<le> length src"
          using go room b i by (auto simp: turn_room_def split: if_splits)
        show ?thesis
        proof (cases "?lit \<le> 64")
          case True
          obtain d where "do { dst \<leftarrow> move_in src i dst op 16;
                  dst \<leftarrow> move_in src (i + 16) dst (op + 16) 16;
                  dst \<leftarrow> move_in src (i + 32) dst (op + 32) 16;
                  move_in src (i + 48) dst (op + 48) 16 } = Some d" "moved src dst i op d (op + ?lit)"
            using moves64_ok [of i src op dst ?lit] s op True by auto
          then show ?thesis unfolding lf using True inb go n Inr q b s op by (simp add: fast_literals_def Let_def)
        next
          case False
          have st: "moved src dst i op dst op" using s op by (intro moved_start) auto
          obtain d where "wild_copy 32 src i dst op (op + ?lit) = Some d" "moved src dst i op d (op + ?lit)"
            using wild_copy_ok [OF st, of i 32 "op + ?lit"] b s op by auto
          then show ?thesis unfolding lf using False inb go n Inr q b s op by (simp add: fast_literals_def Let_def)
        qed
      qed
    qed
  qed
qed


text \<open>What a turn leaves stands for the same rest of the reference's run.\<close>

definition turn_agrees :: "bytes \<Rightarrow> nat \<Rightarrow> decode_error + bytes \<Rightarrow> (decode_error, turn) res \<Rightarrow> bool" where
  "turn_agrees block cap spec r \<longleftrightarrow>
    (case r of None \<Rightarrow> False
     | Some (Inl e) \<Rightarrow> spec = Inl e
     | Some (Inr t) \<Rightarrow> (case t of
         Continue d i p \<Rightarrow> length d = cap \<and> p \<le> cap \<and> i \<le> Suc (length block) \<and> spec = spec_loop block cap i (take p d)
       | Break d i p \<Rightarrow> length d = cap \<and> p \<le> cap \<and> spec = spec_loop block cap i (take p d)
       | Finish d i p \<Rightarrow> length d = cap \<and> p \<le> cap \<and> spec = Inr (take p d)))"

lemma spec_loop_sequence:
  "spec_sequence block cap ip out = Inl e \<Longrightarrow> spec_loop block cap ip out = Inl e"
  "spec_sequence block cap ip out = Inr (True, i, out') \<Longrightarrow> spec_loop block cap ip out = Inr out'"
  "spec_sequence block cap ip out = Inr (False, i, out') \<Longrightarrow> spec_loop block cap ip out = spec_loop block cap i out'"
  by (simp_all add: spec_loop.simps [of block cap ip out])

lemma len_field_le: "len_field block ip base nib = Inr (n, ip') \<Longrightarrow> ip' \<le> max ip (length block)"
  using len_field_bounds [of block ip base nib n ip']
  by (auto simp: len_field_def max_def split: if_splits sum.splits dest!: var_len_bounds)

lemma fast_match_agrees:
  assumes len: "ip < len" "len \<le> length src" "ip + 2 \<le> length src" and op: "op + 50 \<le> length dst"
    and off: "off = le_val (take 2 (drop ip src))" "0 < off" "off \<le> op"
    and spec: "spec = (case spec_match (take len src) (length dst) t ip (take op dst) of
        Inl e \<Rightarrow> Inl e | Inr (fin, i, out) \<Rightarrow> if fin then Inr out else spec_loop (take len src) (length dst) i out)"
  shows "turn_agrees (take len src) (length dst) spec (fast_match (take len src) dst (ip + 2) op t off)"
proof (cases "len_field (take len src) (ip + 2) MINMATCH (unat (t AND 15))")
  case (Inl e)
  then have "fast_match (take len src) dst (ip + 2) op t off = Err DecodeError"
    using fast_match_ok [OF op off(2,3), where block = "take len src" and ip = "ip + 2" and t = t] by simp
  moreover have "spec = Inl DecodeError" using spec len Inl by (simp add: spec_match_def Let_def)
  ultimately show ?thesis by (simp add: turn_agrees_def)
next
  case (Inr q)
  obtain ml i where q: "q = (ml, i)" by fastforce
  have i: "i \<le> Suc len" "ip + 2 \<le> i"
    using len_field_le [OF Inr [unfolded q]] len_field_bounds [OF Inr [unfolded q]] len by auto
  note fm = fast_match_ok [OF op off(2,3), where block = "take len src" and ip = "ip + 2" and t = t,
      unfolded Inr q, simplified]
  have mid: "spec = Inl DecodeError" if "len = Suc ip" using spec len that by (simp add: spec_match_def)
  have inn: "spec = (if length dst < op + ml then Inl DecodeError
      else spec_loop (take len src) (length dst) i (copy_match (take op dst) off ml))" if "ip + 2 \<le> len"
    using spec len that Inr q off op by (simp add: spec_match_def Let_def take_drop min_absorb2)
  show ?thesis
  proof (cases "length dst < op + ml")
    case True
    then have "fast_match (take len src) dst (ip + 2) op t off = Err DecodeError" using fm by simp
    moreover have "spec = Inl DecodeError" using mid inn True len by (cases "ip + 2 \<le> len") auto
    ultimately show ?thesis by (simp add: turn_agrees_def)
  next
    case False
    then obtain b where m: "matched dst (op - off) off b (op + ml)"
      and r: "fast_match (take len src) dst (ip + 2) op t off = Ok (Continue b i (op + ml)) \<or>
          fast_match (take len src) dst (ip + 2) op t off = Ok (Break b i (op + ml))"
      using fm by auto
    have tk: "take (op + ml) b = copy_match (take op dst) off ml" using matched_take [OF m] off by simp
    have "spec = spec_loop (take len src) (length dst) i (take (op + ml) b)"
    proof (cases "ip + 2 \<le> len")
      case True
      then show ?thesis using inn False tk by simp
    next
      case cut: False
      then have "len = Suc ip" using len by simp
      then show ?thesis using mid i by (simp add: spec_loop_end)
    qed
    then show ?thesis using r matched_length [OF m] False i len
      by (auto simp: turn_agrees_def)
  qed
qed

lemma fast_turn_agrees:
  assumes room: "turn_room padded src len ip" and op: "op \<le> olim" "olim + 64 = length dst"
  shows "turn_agrees (take len src) (length dst) (spec_loop (take len src) (length dst) ip (take op dst))
    (fast_turn padded src len dst ip op olim)"
proof (cases "ip < len")
  case False
  have l: "ip + 62 \<le> length src" "len \<le> length src" using room False by (auto simp: turn_room_def split: if_splits)
  have "fast_turn padded src len dst ip op olim = Err DecodeError"
  proof (cases "unat (drop_bit 4 (src ! ip)) < 15")
    case True
    have "moved src dst (Suc ip) op dst op" using l op by (intro moved_start) auto
    from moved_move [OF this, of "Suc ip" 16] obtain d where "move_in src (Suc ip) dst op 16 = Some d"
      using l op by auto
    then show ?thesis using True l False by (simp add: fast_turn_def fast_literals_def Let_def index_def)
  next
    case False
    have "var_len (take len src) (Suc ip) = Inl DecodeError"
      using \<open>\<not> ip < len\<close> l by (simp add: var_len_def var_len_from.simps)
    then show ?thesis using False l by (simp add: fast_turn_def fast_literals_def Let_def index_def)
  qed
  moreover have "spec_loop (take len src) (length dst) ip (take op dst) = Inl DecodeError"
    using False by (intro spec_loop_end) simp
  ultimately show ?thesis by (simp add: turn_agrees_def)
next
  case ip: True
  let ?b = "take len src" and ?c = "length dst" and ?t = "src ! ip" and ?s = "spec_loop (take len src) (length dst) ip (take op dst)"
  have len: "len \<le> length src" "ip < length src" "op \<le> ?c" using room ip op by (auto simp: turn_room_def)
  note fl = fast_literals_ok [OF room ip op, of ?t]
  note ft = fast_turn_def [of padded src len dst ip op olim]
  show ?thesis
  proof (cases "len_field ?b (Suc ip) 0 (unat (drop_bit 4 ?t))")
    case (Inl e)
    have "?s = Inl e" by (rule spec_loop_sequence) (use Inl len ip in \<open>simp add: spec_sequence_def\<close>)
    then show ?thesis using fl Inl len by (simp add: ft turn_agrees_def)
  next
    case (Inr q)
    obtain lit i where q: "q = (lit, i)" by fastforce
    have i: "Suc ip \<le> i" using len_field_bounds Inr q by blast
    from fl Inr q consider
        (err) "len < i + lit" "fast_literals padded src len dst (Suc ip) op olim ?t = Err DecodeError"
      | (no) "fast_literals padded src len dst (Suc ip) op olim ?t = Ok (LitNoRoom ip)"
      | (ok) d where "fast_literals padded src len dst (Suc ip) op olim ?t = Ok (LitRoom d (i + lit) (op + lit))"
           "moved src dst i op d (op + lit)" "op + lit + 50 \<le> length dst" "i + lit + 2 \<le> length src"
      by auto
    then show ?thesis
    proof cases
      case err
      have "?s = Inl DecodeError"
        by (rule spec_loop_sequence) (use Inr q len ip err in \<open>simp add: spec_sequence_def\<close>)
      then show ?thesis using err len by (simp add: ft turn_agrees_def)
    next
      case no
      then show ?thesis using len by (simp add: ft turn_agrees_def)
    next
      case ok
      have ld: "length d = length dst" using moved_length [OF ok(2)] .
      have seq: "spec_sequence ?b ?c ip (take op dst) =
          (if len < i + lit then Inl DecodeError else spec_match ?b ?c ?t (i + lit) (take (op + lit) d))"
        using Inr q len ip ok moved_take [OF ok(2)] by (simp add: spec_sequence_def take_drop min_absorb2)
      have turn: "fast_turn padded src len dst ip op olim =
          (if len \<le> i + lit then (if i + lit = len then Ok (Finish d (i + lit) (op + lit)) else Err DecodeError)
           else bind_res (lift_res (slice src (i + lit) (i + lit + 2))) (\<lambda>o2.
             if le_val o2 = 0 \<or> op + lit < le_val o2 then Err DecodeError
             else fast_match ?b d (i + lit + 2) (op + lit) ?t (le_val o2)))"
        using ok len by (simp add: ft Let_def)
      consider "len < i + lit" | "len = i + lit" | "i + lit < len" by linarith
      then show ?thesis
      proof cases
        case 1
        then have "?s = Inl DecodeError" using seq by (intro spec_loop_sequence) simp
        then show ?thesis using 1 turn by (simp add: turn_agrees_def)
      next
        case 2
        then have "?s = Inr (take (op + lit) d)"
          using seq len by (intro spec_loop_sequence(2)) (simp add: spec_match_def)
        then show ?thesis using 2 turn ld ok by (simp add: turn_agrees_def)
      next
        case 3
        let ?off = "le_val (take 2 (drop (i + lit) src))"
        have s: "?s = (case spec_match ?b (length d) ?t (i + lit) (take (op + lit) d) of
            Inl e \<Rightarrow> Inl e | Inr (fin, i, out) \<Rightarrow> if fin then Inr out else spec_loop ?b (length d) i out)"
          unfolding ld using 3 by (subst spec_loop.simps) (simp add: seq)
        show ?thesis
        proof (cases "?off = 0 \<or> op + lit < ?off")
          case True
          have "?s = Inl DecodeError"
          proof (cases "i + lit + 2 \<le> len")
            case t: True
            then show ?thesis using s True len ok ld 3 by (simp add: spec_match_def Let_def take_drop min_absorb2)
          next
            case False
            then show ?thesis using s len 3 by (simp add: spec_match_def)
          qed
          then show ?thesis using 3 turn True ok by (simp add: turn_agrees_def)
        next
          case False
          have "turn_agrees ?b (length d) ?s (fast_match ?b d (i + lit + 2) (op + lit) ?t ?off)"
            by (rule fast_match_agrees [OF 3 len(1) ok(4) _ refl _ _ s]) (use False ok ld in auto)
          then show ?thesis using 3 turn False ok ld by simp
        qed
      qed
    qed
  qed
qed


definition loop_agrees ::
    "bytes \<Rightarrow> nat \<Rightarrow> decode_error + bytes \<Rightarrow> (decode_error, bool \<times> bytes \<times> nat \<times> nat) res \<Rightarrow> bool" where
  "loop_agrees block cap spec r \<longleftrightarrow>
    (case r of None \<Rightarrow> False
     | Some (Inl e) \<Rightarrow> spec = Inl e
     | Some (Inr (fin, d, i, p)) \<Rightarrow> length d = cap \<and> p \<le> cap \<and>
         spec = (if fin then Inr (take p d) else spec_loop block cap i (take p d)))"

lemma loop_agrees_stop:
  "op \<le> length dst \<Longrightarrow>
    loop_agrees block (length dst) (spec_loop block (length dst) ip (take op dst)) (Ok (False, dst, ip, op))"
  by (simp add: loop_agrees_def)

lemma fast_loop_agrees:
  assumes "op \<le> length dst" "olim + 64 = length dst" "len \<le> length src"
    "if padded then len + 64 \<le> length src \<and> ip \<le> Suc len else 0 < len \<and> 18 \<le> length src \<and> ilim = min (length src - 18) (len - 1)"
  shows "loop_agrees (take len src) (length dst) (spec_loop (take len src) (length dst) ip (take op dst))
    (fast_loop padded src len dst ip op ilim olim)"
  using assms
proof (induction padded src len dst ip op ilim olim rule: fast_loop.induct)
  case (1 padded src len dst ip op ilim olim)
  let ?s = "spec_loop (take len src) (length dst) ip (take op dst)"
  note fl = fast_loop.simps [of padded src len dst ip op ilim olim]
  show ?case
  proof (cases "op \<le> olim \<and> (padded \<or> ip \<le> ilim)")
    case False
    then show ?thesis using loop_agrees_stop [OF "1.prems"(1)] by (simp only: fl if_False)
  next
    case True
    have "turn_room padded src len ip" using "1.prems" True by (auto simp: turn_room_def split: if_splits)
    then have ag: "turn_agrees (take len src) (length dst) ?s (fast_turn padded src len dst ip op olim)"
      by (rule fast_turn_agrees) (use True "1.prems" in auto)
    then obtain r where r: "fast_turn padded src len dst ip op olim = Some r"
      by (auto simp: turn_agrees_def split: option.splits)
    show ?thesis
    proof (cases r)
      case (Inl e)
      with ag r True show ?thesis by (simp add: turn_agrees_def loop_agrees_def fl)
    next
      case (Inr t)
      show ?thesis
      proof (cases t)
        case (Continue d i p)
        have s: "?s = spec_loop (take len src) (length dst) i (take p d)"
          and d: "length d = length dst" "p \<le> length dst" "i \<le> Suc len"
          using ag r Inr Continue "1.prems" by (auto simp: turn_agrees_def)
        have e: "fast_loop padded src len dst ip op ilim olim = fast_loop padded src len d i p ilim olim"
          using True r Inr Continue by (simp add: fl)
        have "loop_agrees (take len src) (length d) (spec_loop (take len src) (length d) i (take p d))
            (fast_loop padded src len d i p ilim olim)"
          by (rule "1.IH" [OF True r [unfolded Inr] Continue]) (use "1.prems" d in \<open>auto split: if_splits\<close>)
        then show ?thesis unfolding s e d(1) .
      next
        case (Break d i p)
        with ag r Inr True show ?thesis by (simp add: turn_agrees_def loop_agrees_def fl)
      next
        case (Finish d i p)
        with ag r Inr True show ?thesis by (simp add: turn_agrees_def loop_agrees_def fl)
      qed
    qed
  qed
qed

lemma decompress_in_agrees:
  assumes "len \<le> length src"
  shows "case lz4_decode (take len src) (length dst) of
      Inl e \<Rightarrow> decompress_in src len dst = Err e
    | Inr out \<Rightarrow> \<exists>dst'. decompress_in src len dst = Ok (dst', length out) \<and> length dst' = length dst
         \<and> length out \<le> length dst \<and> take (length out) dst' = out"
proof -
  define fast where "fast = (if 0 < len \<and> FAST_OUT \<le> length dst
             then let olim = length dst - FAST_OUT
                  in if PAD_IN \<le> length src - len then fast_loop True src len dst 0 0 0 olim
                     else if FAST_IN \<le> length src
                     then fast_loop False src len dst 0 0 (min (length src - FAST_IN) (len - 1)) olim
                     else Ok (False, dst, 0, 0)
             else Ok (False, dst, 0, 0))"
  let ?s = "spec_loop (take len src) (length dst)"
  note stop = loop_agrees_stop [OF le0, of "take len src" dst 0, simplified]
  have ag: "loop_agrees (take len src) (length dst) (?s 0 []) fast"
  proof (cases "0 < len \<and> FAST_OUT \<le> length dst")
    case False
    then show ?thesis unfolding fast_def using stop by (simp only: if_False)
  next
    case True
    then have o: "length dst - FAST_OUT + 64 = length dst" by (simp add: FAST_OUT_def)
    consider "PAD_IN \<le> length src - len" | "\<not> PAD_IN \<le> length src - len" "FAST_IN \<le> length src"
      | "\<not> PAD_IN \<le> length src - len" "\<not> FAST_IN \<le> length src" by blast
    then show ?thesis
    proof cases
      case 1
      then have "len + 64 \<le> length src" using True assms by (simp add: PAD_IN_def)
      then show ?thesis
        using True 1 fast_loop_agrees [OF le0 o assms, of True 0 0] by (simp add: fast_def Let_def)
    next
      case 2
      then show ?thesis
        using True fast_loop_agrees [OF le0 o assms, of False 0 "min (length src - FAST_IN) (len - 1)"]
        by (simp add: fast_def Let_def FAST_IN_def)
    next
      case 3
      then show ?thesis using True stop by (simp add: fast_def Let_def)
    qed
  qed
  have dc: "decompress_in src len dst = bind_res fast (\<lambda>(fin, dst, ip, op).
      if fin then Ok (dst, op) else careful_loop (take len src) dst ip op)"
    using assms by (simp add: decompress_in_def fast_def Let_def)
  from ag consider e where "fast = Err e" "?s 0 [] = Inl e"
    | fin d i p where "fast = Ok (fin, d, i, p)" "length d = length dst" "p \<le> length dst"
        "?s 0 [] = (if fin then Inr (take p d) else ?s i (take p d))"
    by (auto simp: loop_agrees_def split: option.splits sum.splits)
  then show ?thesis
  proof cases
    case 1
    then show ?thesis by (simp add: lz4_decode_def dc)
  next
    case 2
    then show ?thesis
      using careful_loop_spec [of p d "take len src" i] by (cases fin) (auto simp: lz4_decode_def dc split: sum.splits)
  qed
qed


text \<open>
  C2: The decoder never leaves its buffers and never panics, whatever the bytes
  it is given and whatever room it has: it always returns. What it returns is the
  reference's: an error exactly where the block is longer than the input or the
  reference refuses it, and otherwise the reference's bytes at the front of the
  output, with their count.
\<close>

theorem decompress_in_reference:
  "\<exists>r. decompress_in src len dst = Some r \<and>
    (case r of
       Inl e \<Rightarrow> length src < len \<or> lz4_decode (take len src) (length dst) = Inl e
     | Inr (dst', n) \<Rightarrow> len \<le> length src \<and> length dst' = length dst \<and> n \<le> length dst
         \<and> lz4_decode (take len src) (length dst) = Inr (take n dst'))"
proof (cases "len \<le> length src")
  case False
  then show ?thesis by (simp add: decompress_in_def)
next
  case True
  from decompress_in_agrees [OF this, of dst] show ?thesis
    using True by (auto split: sum.splits)
qed

lemma decompress_in_decoded:
  assumes "len \<le> length src" "lz4_decode (take len src) (length dst) = Inr out"
  shows "\<exists>dst'. decompress_in src len dst = Ok (dst', length out) \<and> length dst' = length dst
    \<and> length out \<le> length dst \<and> take (length out) dst' = out"
  using decompress_in_agrees [OF assms(1), of dst] assms(2) by simp

end
