(* ===== verification/Lz4_Encode_Correct.thy ===== *)
theory Lz4_Encode_Correct
  imports Lz4_Encode Lz4_Decode_Correct
begin

text \<open>
  The encoder of \<open>Lz4_Encode\<close>. The tables keep \<open>chained\<close>, so every walk stays in
  the group; a match a walk finds is one (\<open>is_match\<close>); the sequences of the lazy
  parse and of the shortest path cover the input (\<open>covers\<close>); the block written
  for sequences that cover it fits \<open>max_output\<close>, and the decoder's reference reads
  the input back from it. What a parse leaves of the tables serves the next group
  (\<open>encoder_ok\<close>).
\<close>

subsection \<open>The common length\<close>

definition agree_len :: "bytes \<Rightarrow> nat \<Rightarrow> nat \<Rightarrow> nat \<Rightarrow> nat \<Rightarrow> bool" where
  "agree_len b a s limit m \<longleftrightarrow> m \<le> limit \<and> (\<forall>i < m. b ! (a + i) = b ! (s + i)) \<and>
    (m = limit \<or> b ! (a + m) \<noteq> b ! (s + m))"

lemma common_tail_spec:
  assumes "a \<le> s" "s + limit \<le> length b" "l \<le> limit" "\<forall>i < l. b ! (a + i) = b ! (s + i)"
  shows "\<exists>m. common_tail b a s limit l = Some m \<and> agree_len b a s limit m"
  using assms
proof (induction b a s limit l rule: common_tail.induct)
  case (1 b a s limit l)
  show ?case
  proof (cases "l < limit \<and> b ! (a + l) = b ! (s + l)")
    case True
    then have i: "index b (a + l) = Some (b ! (a + l))" "index b (s + l) = Some (b ! (s + l))" using "1.prems" by auto
    have "\<exists>m. common_tail b a s limit (l + 1) = Some m \<and> agree_len b a s limit m"
      by (rule "1.IH" [OF _ i]) (use True "1.prems" in \<open>auto simp: less_Suc_eq\<close>)
    then show ?thesis using True i by (simp add: common_tail.simps [of b a s limit l])
  next
    case False
    then show ?thesis using "1.prems" by (auto simp: common_tail.simps [of b a s limit l] agree_len_def)
  qed
qed

lemma bit_le_val: "bit (le_val bs) k \<longleftrightarrow> k div 8 < length bs \<and> bit (bs ! (k div 8)) (k mod 8)"
proof (induction bs arbitrary: k)
  case Nil
  then show ?case by simp
next
  case (Cons b bs)
  have d: "le_val (b # bs) = or (unat b) (push_bit 8 (le_val bs))"
  proof -
    have "le_val (b # bs) = take_bit 8 (unat b) + push_bit 8 (le_val bs)"
      by (simp add: push_bit_eq_mult take_bit_nat_eq_self)
    also have "\<dots> = or (take_bit 8 (unat b)) (push_bit 8 (le_val bs))"
      by (rule disjunctive_add) (auto simp: bit_simps)
    finally show ?thesis by (simp add: take_bit_nat_eq_self)
  qed
  show ?case
  proof (cases "k < 8")
    case True
    then show ?thesis unfolding d by (simp add: bit_simps)
  next
    case False
    then have "\<not> bit (unat b) k" using bit_imp_le_length [of b k] by (auto simp: bit_unsigned_iff)
    moreover have "k div 8 = Suc ((k - 8) div 8)" "(k - 8) mod 8 = k mod 8"
      using False by (simp_all add: le_div_geq le_mod_geq)
    ultimately show ?thesis unfolding d using False Cons [of "k - 8"] by (simp add: bit_simps)
  qed
qed

lemma trailing_zeros_bit:
  assumes "x \<noteq> (0 :: u64)"
  shows "trailing_zeros x < 64 \<and> bit x (trailing_zeros x) \<and> (\<forall>i < trailing_zeros x. \<not> bit x i)"
proof -
  let ?w = "takeWhile (\<lambda>i. \<not> bit x i) [0..<64]"
  have "\<exists>k. bit x k"
  proof (rule ccontr)
    assume "\<nexists>k. bit x k"
    then have "x = 0" by (intro bit_word_eqI) simp
    with assms show False by simp
  qed
  then obtain k where k: "bit x k" "k < 64" using bit_imp_le_length by fastforce
  have lt: "length ?w < 64"
  proof (rule ccontr)
    assume "\<not> length ?w < 64"
    then have "length ?w = length [0..<64]" using length_takeWhile_le [of "\<lambda>i. \<not> bit x i" "[0..<64]"] by simp
    then have "?w = [0..<64]" by (metis takeWhile_eq_take take_all_iff order_refl)
    then have "\<forall>i \<in> set [0..<64]. \<not> bit x i" by (simp only: takeWhile_eq_all_conv)
    with k show False by simp
  qed
  have "bit x (length ?w)" using nth_length_takeWhile [of "\<lambda>i. \<not> bit x i" "[0..<64]"] lt by simp
  moreover have "\<not> bit x i" if "i < length ?w" for i
  proof -
    have "?w ! i \<in> set ?w" using that by (rule nth_mem)
    moreover have "?w ! i = i" using that lt by (simp add: takeWhile_nth)
    ultimately show ?thesis by (metis set_takeWhileD)
  qed
  ultimately show ?thesis using lt by (simp add: trailing_zeros_def)
qed

lemma bit_le_word:
  "length bs = 8 \<Longrightarrow> k < 64 \<Longrightarrow> bit (word_of_nat (le_val bs) :: u64) k \<longleftrightarrow> bit (bs ! (k div 8)) (k mod 8)"
proof -
  assume l: "length bs = 8" and k: "k < 64"
  have "le_val bs < 2 ^ 64" using le_val_less [of bs] l by simp
  then have "unat (word_of_nat (le_val bs) :: u64) = le_val bs" by (simp add: unat_of_nat)
  then have "bit (word_of_nat (le_val bs) :: u64) k \<longleftrightarrow> bit (le_val bs) k"
    by (metis bit_unsigned_iff possible_bit_nat)
  moreover have "k div 8 < 8" using k by linarith
  ultimately show ?thesis using l k by (simp add: bit_le_val)
qed

lemma le_word_inj:
  assumes "length xs = 8" "length ys = 8" "(word_of_nat (le_val xs) :: u64) = word_of_nat (le_val ys)"
  shows "xs = ys"
proof (rule nth_equalityI)
  fix i assume "i < length xs"
  then have i: "i < 8" using assms by simp
  show "xs ! i = ys ! i"
  proof (rule bit_word_eqI)
    fix n assume "n < LENGTH(8)"
    then show "bit (xs ! i) n = bit (ys ! i) n"
      using bit_le_word [OF assms(1), of "8 * i + n"] bit_le_word [OF assms(2), of "8 * i + n"] assms(3) i by simp
  qed
qed (use assms in simp)

lemma first_difference:
  fixes x y :: u64
  assumes xy: "x = word_of_nat (le_val xs)" "y = word_of_nat (le_val ys)" and len: "length xs = 8" "length ys = 8"
    and ne: "x XOR y \<noteq> 0"
  shows "trailing_zeros (x XOR y) div 8 < 8"
    "xs ! (trailing_zeros (x XOR y) div 8) \<noteq> ys ! (trailing_zeros (x XOR y) div 8)"
    "i < trailing_zeros (x XOR y) div 8 \<Longrightarrow> xs ! i = ys ! i"
proof -
  let ?t = "trailing_zeros (x XOR y)"
  have b: "bit x k \<longleftrightarrow> bit (xs ! (k div 8)) (k mod 8)" "bit y k \<longleftrightarrow> bit (ys ! (k div 8)) (k mod 8)" if "k < 64" for k
    using that len by (simp_all add: xy bit_le_word)
  from trailing_zeros_bit [OF ne] have t: "?t < 64" "bit x ?t \<noteq> bit y ?t" "\<And>i. i < ?t \<Longrightarrow> bit x i = bit y i"
    by (simp_all add: bit_xor_iff)
  show "?t div 8 < 8" using t by simp
  show "xs ! (?t div 8) \<noteq> ys ! (?t div 8)" using t b by metis
  show "xs ! i = ys ! i" if "i < ?t div 8"
  proof (rule bit_word_eqI)
    fix n assume "n < LENGTH(8)"
    then have n: "n < 8" by simp
    have k: "8 * i + n < ?t" using that n by linarith
    then have "bit x (8 * i + n) = bit y (8 * i + n)" by (rule t)
    then show "bit (xs ! i) n = bit (ys ! i) n" using b [of "8 * i + n"] k t(1) n by simp
  qed
qed

lemma common_from_spec:
  assumes "a \<le> s" "s + limit \<le> length b" "l \<le> limit" "\<forall>i < l. b ! (a + i) = b ! (s + i)"
  shows "\<exists>m. common_from b a s limit l = Some m \<and> agree_len b a s limit m"
  using assms
proof (induction b a s limit l rule: common_from.induct)
  case (1 b a s limit l)
  show ?case
  proof (cases "l + 8 \<le> limit")
    case False
    then show ?thesis using common_tail_spec "1.prems" by (simp add: common_from.simps [of b a s limit l])
  next
    case True
    let ?xs = "take 8 (drop (a + l) b)" and ?ys = "take 8 (drop (s + l) b)"
    let ?x = "word_of_nat (le_val ?xs) :: u64" and ?y = "word_of_nat (le_val ?ys) :: u64"
    have r: "read_u64 b (a + l) = Some ?x" "read_u64 b (s + l) = Some ?y"
      using True "1.prems" by (simp_all add: read_u64_def rd_u64_def)
    have len: "length ?xs = 8" "length ?ys = 8" using True "1.prems" by simp_all
    have nth: "?xs ! i = b ! (a + (l + i))" "?ys ! i = b ! (s + (l + i))" if "i < 8" for i
      using that True "1.prems" by (simp_all add: add.assoc)
    show ?thesis
    proof (cases "?x XOR ?y = 0")
      case ne: False
      let ?t = "trailing_zeros (?x XOR ?y) div 8"
      note f = first_difference [OF refl refl len ne]
      have "b ! (a + i) = b ! (s + i)" if "i < l + ?t" for i
      proof (cases "i < l")
        case False
        define j where "j = i - l"
        have j: "i = l + j" "j < ?t" using that False unfolding j_def by linarith+
        have "?xs ! j = ?ys ! j" using j(2) by (rule f(3))
        moreover have "j < 8" using j(2) f(1) by (rule less_trans)
        ultimately show ?thesis by (simp only: nth j(1))
      qed (use "1.prems" in simp)
      moreover have "b ! (a + (l + ?t)) \<noteq> b ! (s + (l + ?t))" using f(1,2) nth [of ?t] by simp
      moreover have "l + ?t \<le> limit" using True f(1) by simp
      ultimately show ?thesis using True r ne by (simp add: common_from.simps [of b a s limit l] agree_len_def)
    next
      case eq: True
      then have "?x = ?y" by (rule xor_eq_0)
      with len have "?xs = ?ys" by (rule le_word_inj)
      then have e8: "b ! (a + (l + i)) = b ! (s + (l + i))" if "i < 8" for i using nth that by metis
      have "\<forall>i < l + 8. b ! (a + i) = b ! (s + i)"
      proof (intro allI impI)
        fix i assume "i < l + 8"
        then show "b ! (a + i) = b ! (s + i)" using "1.prems"(4) e8 [of "i - l"] by (cases "i < l") auto
      qed
      then have "\<exists>m. common_from b a s limit (l + 8) = Some m \<and> agree_len b a s limit m"
        using "1.IH" [OF True r] eq "1.prems" True by simp
      then show ?thesis using True r eq by (simp add: common_from.simps [of b a s limit l])
    qed
  qed
qed

lemma common_spec:
  "a \<le> s \<Longrightarrow> s + limit \<le> length b \<Longrightarrow> \<exists>m. common b a s limit = Some m \<and> agree_len b a s limit m"
  unfolding common_def by (rule common_from_spec) auto

subsection \<open>The chains\<close>

definition is_match :: "bytes \<Rightarrow> nat \<Rightarrow> nat \<Rightarrow> nat \<Rightarrow> bool" where
  "is_match input p l off \<longleftrightarrow> 0 < off \<and> off \<le> p \<and> p + l \<le> length input \<and>
    (\<forall>i < l. input ! (p + i) = input ! (p - off + i))"

text \<open>
  The tables of a group: the heads name the positions inserted or lie at or
  below the group's base, and a link of an inserted position stays in the group.
\<close>

definition chained :: "nat list \<Rightarrow> nat list \<Rightarrow> nat \<Rightarrow> nat \<Rightarrow> bool" where
  "chained heads ch bs ins \<longleftrightarrow> length heads = 2 ^ HASH_LOG \<and> ins \<le> length ch \<and>
    (\<forall>h < length heads. heads ! h \<le> bs + ins) \<and> (\<forall>q < ins. ch ! q \<le> q)"

lemma hash_less: "hash v < 2 ^ HASH_LOG"
proof -
  have "unat (drop_bit 19 (v * 2654435761)) = unat (v * 2654435761) div 2 ^ 19"
    by (simp add: drop_bit_eq_div unat_div)
  moreover have "unat (v * 2654435761) < 2 ^ 32" using unsigned_less [of "v * 2654435761", where 'a = nat] by simp
  ultimately show ?thesis by (simp add: hash_def HASH_LOG_def less_mult_imp_div_less)
qed

lemma insert_pos_ok:
  assumes c: "chained heads ch bs s" and "s < length ch" "s \<le> MAX_DISTANCE" "bs + s + 1 \<le> U32_MAX" "h < 2 ^ HASH_LOG"
  shows "\<exists>heads' ch'. insert_pos heads ch s h bs = Some (heads', ch') \<and> chained heads' ch' bs (Suc s)
    \<and> length ch' = length ch"
proof -
  have lh: "h < length heads" "heads ! h \<le> bs + s" using c assms by (simp_all add: chained_def)
  have s32: "as_u32 s = s" using assms by (simp add: as_u32_def MAX_DISTANCE_def)
  define d where "d = (if bs < heads ! h then s - (heads ! h - bs - 1) else 0)"
  have d: "d \<le> s" by (auto simp: d_def)
  then have "as_u16 d = d" "d \<le> MAX_DISTANCE" using assms by (simp_all add: as_u16_def MAX_DISTANCE_def)
  then have "insert_pos heads ch s h bs = Some (heads[h := bs + s + 1], ch[s := d])"
    using lh assms s32 by (auto simp: insert_pos_def d_def)
  moreover have "chained (heads[h := bs + s + 1]) (ch[s := d]) bs (Suc s)"
    using c d assms lh by (auto simp: chained_def nth_list_update less_Suc_eq le_SucI)
  ultimately show ?thesis by simp
qed

lemma read_u32_Some: "i + 4 \<le> length b \<Longrightarrow> \<exists>v. read_u32 b i = Some v"
  by (simp add: read_u32_def rd_u32_def)

lemma insert_upto_ok:
  assumes "chained heads ch bs ins" "ins \<le> p" "p + 3 \<le> length input" "p \<le> length ch" "p \<le> MAX_DISTANCE" "bs + p \<le> U32_MAX"
  shows "\<exists>heads' ch'. insert_upto input bs p ins heads ch = Some (heads', ch') \<and> chained heads' ch' bs p
    \<and> length ch' = length ch"
  using assms
proof (induction input bs p ins heads ch rule: insert_upto.induct)
  case (1 input bs p ins heads ch)
  show ?case
  proof (cases "ins < p")
    case True
    obtain v where v: "read_u32 input ins = Some v" using read_u32_Some [of ins input] True "1.prems" by auto
    obtain heads' ch' where i: "insert_pos heads ch ins (hash v) bs = Some (heads', ch')"
      "chained heads' ch' bs (Suc ins)" "length ch' = length ch"
      using insert_pos_ok [OF "1.prems"(1), of "hash v"] hash_less True "1.prems" by auto
    have "\<exists>h c. insert_upto input bs p (ins + 1) heads' ch' = Some (h, c) \<and> chained h c bs p \<and> length c = length ch'"
      by (rule "1.IH" [OF True v i(1) refl]) (use i True "1.prems" in auto)
    then show ?thesis using True v i by (simp add: insert_upto.simps [of input bs p ins])
  next
    case False
    then show ?thesis using "1.prems" by (simp add: insert_upto.simps)
  qed
qed

text \<open>A match found so far: longer than the shortest only where the bytes agree.\<close>

definition found :: "bytes \<Rightarrow> nat \<Rightarrow> nat \<Rightarrow> nat \<Rightarrow> nat \<Rightarrow> bool" where
  "found input p max_len bl bo \<longleftrightarrow> bl \<le> max_len \<and> (MINMATCH \<le> bl \<longrightarrow> is_match input p bl bo)"

lemma try_candidate_ok:
  assumes q: "q < p" and f: "found input p max_len bl bo" "bl < max_len" and p: "p + max_len \<le> length input" "p + 4 \<le> length input"
  shows "\<exists>bl' bo' stop. try_candidate input p v max_len q bl bo = Some (bl', bo', stop) \<and>
    found input p max_len bl' bo' \<and> (stop \<or> bl' < max_len)"
proof -
  obtain w where w: "read_u32 input q = Some w" using read_u32_Some [of q input] q p by auto
  obtain l where l: "common input q p max_len = Some l" "agree_len input q p max_len l"
    using common_spec [of q p max_len input] q p by auto
  have "found input p max_len l (p - q)"
    using l(2) q p by (auto simp: found_def is_match_def agree_len_def)
  moreover have "l = max_len \<or> l < max_len" using l(2) by (auto simp: agree_len_def)
  ultimately show ?thesis using w l(1) q p f by (auto simp: try_candidate_def)
qed

lemma walk_ok:
  assumes ch: "\<forall>q < ins. ch ! q \<le> q" "ins \<le> length ch" "ins \<le> p"
    and p: "p + max_len \<le> length input" "p + 4 \<le> length input"
    and st: "cand \<le> bs + ins" "found input p max_len bl bo" "bl < max_len"
  shows "\<exists>bl' bo'. walk w input ch bs p v max_len tries cand bl bo = Some (bl', bo') \<and> found input p max_len bl' bo'"
  using st
proof (induction tries arbitrary: cand bl bo)
  case 0
  then show ?case by simp
next
  case (Suc tries)
  let ?q = "cand - bs - 1"
  show ?case
  proof (cases "bs < cand")
    case False
    then show ?thesis using Suc.prems by simp
  next
    case True
    have q: "?q < ins" "?q < p" using True Suc.prems ch by linarith+
    obtain bl' bo' stop where t: "try_candidate input p v max_len ?q bl bo = Some (bl', bo', stop)"
      "found input p max_len bl' bo'" "stop \<or> bl' < max_len"
      using try_candidate_ok [OF q(2) Suc.prems(2,3) p] by blast
    have c: "ch ! ?q \<le> ?q" "?q < length ch" using q ch by auto
    show ?thesis
    proof (cases stop)
      case True
      then show ?thesis using t q Suc.prems by (auto simp: Let_def)
    next
      case False
      have "\<exists>bl'' bo''. walk w input ch bs p v max_len tries (cand - ch ! ?q) bl' bo' = Some (bl'', bo'') \<and> found input p max_len bl'' bo''"
        by (rule Suc.IH) (use Suc.prems t False in auto)
      moreover have "usub cand (ch ! ?q) = Some (cand - ch ! ?q)" using c True by simp
      ultimately show ?thesis using t q c False True Suc.prems by (auto simp: Let_def)
    qed
  qed
qed

definition tables_ok :: "bytes \<Rightarrow> nat \<Rightarrow> tables \<Rightarrow> bool" where
  "tables_ok input bs t \<longleftrightarrow> (case t of (ins, heads, ch) \<Rightarrow> chained heads ch bs ins \<and> length ch = length input)"

lemma longest_at_ok:
  assumes t: "tables_ok input bs t" "fst t \<le> p"
    and n: "p + MFLIMIT \<le> length input" "length input \<le> MAX_INPUT" "bs + length input \<le> U32_MAX"
    and limit: "limit = length input - LASTLITERALS"
  shows "\<exists>bl bo t'. longest_at input limit tries bs p t = Some (bl, bo, t') \<and> tables_ok input bs t' \<and> fst t' = p
    \<and> found input p (limit - p) bl bo"
proof -
  obtain ins heads ch where t3: "t = (ins, heads, ch)" by (cases t)
  have p: "p + 12 \<le> length input" "p \<le> MAX_DISTANCE" using n by (simp_all add: MFLIMIT_def MAX_INPUT_def MAX_DISTANCE_def)
  obtain heads' ch' where i: "insert_upto input bs p ins heads ch = Some (heads', ch')" "chained heads' ch' bs p" "length ch' = length ch"
    using insert_upto_ok [of heads ch bs ins p input] t t3 p n by (auto simp: tables_ok_def)
  obtain v where v: "read_u32 input p = Some v" using read_u32_Some [of p input] p by auto
  have h: "hash v < length heads'" "heads' ! hash v \<le> bs + p" using i(2) hash_less by (auto simp: chained_def)
  have "\<exists>bl bo. walk False input ch' bs p v (limit - p) tries (heads' ! hash v) (MINMATCH - 1) 0 = Some (bl, bo)
      \<and> found input p (limit - p) bl bo"
    by (rule walk_ok [of p]) (use i t t3 p h limit in \<open>auto simp: chained_def tables_ok_def found_def LASTLITERALS_def MINMATCH_def\<close>)
  then obtain bl bo where w: "walk False input ch' bs p v (limit - p) tries (heads' ! hash v) (MINMATCH - 1) 0 = Some (bl, bo)"
      "found input p (limit - p) bl bo" by blast
  have "longest_at input limit tries bs p t = Some (bl, bo, p, heads', ch')"
    using t3 t i v h w p limit by (simp add: longest_at_def LASTLITERALS_def max_def)
  then show ?thesis using i w t t3 by (simp add: tables_ok_def)
qed

subsection \<open>The lazy parse\<close>

text \<open>Sequences that cover the input from a position: literals where the last ended, then a match.\<close>

fun covers :: "bytes \<Rightarrow> nat \<Rightarrow> sequence list \<Rightarrow> nat \<Rightarrow> bool" where
  "covers input pos [] till \<longleftrightarrow> till = pos"
| "covers input pos ((at, lit, off, ml) # seqs) till \<longleftrightarrow>
     at = pos \<and> MINMATCH \<le> ml \<and> off \<le> MAX_DISTANCE \<and> is_match input (at + lit) ml off \<and>
     covers input (at + lit + ml) seqs till"

lemma covers_append:
  "covers input pos (xs @ ys) till \<longleftrightarrow> (\<exists>m. covers input pos xs m \<and> covers input m ys till)"
  by (induction xs arbitrary: pos) auto

lemma covers_le: "covers input pos seqs till \<Longrightarrow> pos \<le> length input \<Longrightarrow> pos \<le> till \<and> till \<le> length input"
proof (induction input pos seqs till rule: covers.induct)
  case (2 input pos at lit off ml seqs till)
  then have "at + lit + ml \<le> length input" by (simp add: is_match_def)
  with 2 show ?case by auto
qed auto

text \<open>A group the parses take: the bounds their positions rest on.\<close>

definition group_ok :: "bytes \<Rightarrow> nat \<Rightarrow> bool" where
  "group_ok input bs \<longleftrightarrow> MFLIMIT \<le> length input \<and> length input \<le> MAX_INPUT \<and> bs + length input \<le> U32_MAX"

lemma longest_at_group:
  assumes g: "group_ok input bs" "limit = length input - LASTLITERALS" "last_start = length input - MFLIMIT"
    and t: "tables_ok input bs t" "fst t \<le> p" "p \<le> last_start"
  shows "\<exists>bl bo t'. longest_at input limit tries bs p t = Some (bl, bo, t') \<and> tables_ok input bs t' \<and> fst t' = p
    \<and> found input p (limit - p) bl bo"
  by (rule longest_at_ok [OF t(1,2) _ _ _ g(2)]) (use g t(3) in \<open>auto simp: group_ok_def\<close>)

lemma found_cast:
  assumes "found input p max_len bl bo" "MINMATCH \<le> bl" "p + MFLIMIT \<le> length input" "length input \<le> MAX_INPUT"
  shows "as_u16 bo = bo" "bo \<le> MAX_DISTANCE" "as_u32 bl = bl" "as_u32 p = p"
proof -
  have "is_match input p bl bo" using assms by (simp add: found_def)
  then have "bo \<le> p" "p + bl \<le> length input" by (simp_all add: is_match_def)
  then show "as_u16 bo = bo" "bo \<le> MAX_DISTANCE" "as_u32 bl = bl" "as_u32 p = p"
    using assms by (simp_all add: as_u16_def as_u32_def MAX_DISTANCE_def MAX_INPUT_def MFLIMIT_def)
qed

lemma ahead_ok:
  assumes "group_ok input bs" "limit = length input - LASTLITERALS" "last_start = length input - MFLIMIT"
    "tables_ok input bs t" "fst t \<le> s + k" "s \<le> last_start" "found input s (limit - s) len off" "MINMATCH \<le> len"
    "k \<le> lazy_steps e"
  shows "\<exists>s' len' off' t'. ahead input e limit last_start bs s k len off t = Some (s', len', off', t') \<and>
    s \<le> s' \<and> s' \<le> last_start \<and> found input s' (limit - s') len' off' \<and> MINMATCH \<le> len' \<and>
    tables_ok input bs t' \<and> fst t' \<le> s' + lazy_steps e"
  using assms
proof (induction input e limit last_start bs s k len off t rule: ahead.induct)
  case (1 input e limit last_start bs s k len off t)
  show ?case
  proof (cases "k < lazy_steps e \<and> s + (k + 1) \<le> last_start")
    case False
    then have "ahead input e limit last_start bs s k len off t = Some (s, len, off, t)"
      by (auto simp: ahead.simps [of input e limit last_start bs s k])
    moreover have "fst t \<le> s + lazy_steps e" using "1.prems"(5,9) by simp
    ultimately show ?thesis using "1.prems"(4,6-8) by blast
  next
    case True
    then have k: "k < lazy_steps e" "\<not> last_start < s + (k + 1)" by auto
    obtain l2 o2 t' where l: "longest_at input limit (attempts e) bs (s + (k + 1)) t = Some (l2, o2, t')"
      "tables_ok input bs t'" "fst t' = s + (k + 1)" "found input (s + (k + 1)) (limit - (s + (k + 1))) l2 o2"
    proof -
      have "fst t \<le> s + (k + 1)" "s + (k + 1) \<le> last_start" using "1.prems"(5) True by auto
      from longest_at_group [OF "1.prems"(1-4) this, of "attempts e"] that show thesis by blast
    qed
    show ?thesis
    proof (cases "len + (k + 1) - 1 < l2")
      case longer: True
      have "\<exists>s' len' off' t''. ahead input e limit last_start bs (s + (k + 1)) 0 l2 o2 t' = Some (s', len', off', t'') \<and>
        s + (k + 1) \<le> s' \<and> s' \<le> last_start \<and> found input s' (limit - s') len' off' \<and> MINMATCH \<le> len' \<and>
        tables_ok input bs t'' \<and> fst t'' \<le> s' + lazy_steps e"
        by (rule "1.IH"(1) [OF k l(1) refl refl longer]) (use "1.prems" True l longer in auto)
      then show ?thesis using k l longer by (auto simp: ahead.simps [of input e limit last_start bs s k])
    next
      case shorter: False
      have "\<exists>s' len' off' t''. ahead input e limit last_start bs s (k + 1) len off t' = Some (s', len', off', t'') \<and>
        s \<le> s' \<and> s' \<le> last_start \<and> found input s' (limit - s') len' off' \<and> MINMATCH \<le> len' \<and>
        tables_ok input bs t'' \<and> fst t'' \<le> s' + lazy_steps e"
        by (rule "1.IH"(2) [OF k l(1) refl refl shorter]) (use "1.prems" True l in auto)
      then show ?thesis using k l shorter by (auto simp: ahead.simps [of input e limit last_start bs s k])
    qed
  qed
qed

lemma lazy_loop_ok:
  assumes "group_ok input bs" "limit = length input - LASTLITERALS" "last_start = length input - MFLIMIT"
    "lazy_steps e \<le> MINMATCH" "tables_ok input bs t" "fst t \<le> s" "anchor \<le> s" "covers input 0 seqs anchor"
  shows "\<exists>t' seqs' till. lazy_loop input e limit last_start bs s anchor t seqs = Some (t', seqs') \<and>
    tables_ok input bs t' \<and> fst t' \<le> length input \<and> covers input 0 seqs' till"
  using assms
proof (induction "Suc last_start - s" arbitrary: s anchor t seqs rule: less_induct)
  case less
  note step = lazy_loop.simps [of input e limit last_start bs s anchor t seqs]
  show ?case
  proof (cases "s \<le> last_start")
    case False
    have "fst t \<le> length input" using less.prems(5) by (auto simp: tables_ok_def chained_def)
    moreover have "lazy_loop input e limit last_start bs s anchor t seqs = Some (t, seqs)"
      using False by (simp add: step)
    ultimately show ?thesis using less.prems(5,8) by blast
  next
    case True
    obtain len off t1 where l: "longest_at input limit (attempts e) bs s t = Some (len, off, t1)"
      "tables_ok input bs t1" "fst t1 = s" "found input s (limit - s) len off"
      using longest_at_group [OF less.prems(1-3,5,6) True, of "attempts e"] by blast
    show ?thesis
    proof (cases "len < MINMATCH")
      case short: True
      have "\<exists>t' seqs' till. lazy_loop input e limit last_start bs (s + 1) anchor t1 seqs = Some (t', seqs') \<and>
          tables_ok input bs t' \<and> fst t' \<le> length input \<and> covers input 0 seqs' till"
        by (rule less.hyps) (use less.prems True l in auto)
      then show ?thesis using True short l by (simp add: step)
    next
      case long: False
      obtain s2 len2 off2 t2 where a: "ahead input e limit last_start bs s 0 len off t1 = Some (s2, len2, off2, t2)"
        "s \<le> s2" "s2 \<le> last_start" "found input s2 (limit - s2) len2 off2" "MINMATCH \<le> len2"
        "tables_ok input bs t2" "fst t2 \<le> s2 + lazy_steps e"
        using ahead_ok [OF less.prems(1,2,3) l(2), of s 0 len off e] l less.prems True long by auto
      have n: "s2 + MFLIMIT \<le> length input" "length input \<le> MAX_INPUT" using a less.prems(1,3) by (auto simp: group_ok_def)
      note c = found_cast [OF a(4,5) n]
      have "as_u32 anchor = anchor" "as_u32 (s2 - anchor) = s2 - anchor"
        using less.prems(7) a(2) n by (simp_all add: as_u32_def MAX_INPUT_def)
      then have e: "lazy_loop input e limit last_start bs s anchor t seqs =
          lazy_loop input e limit last_start bs (s2 + len2) (s2 + len2) t2 (seqs @ [(anchor, s2 - anchor, off2, len2)])"
        using True long l a less.prems(7) c by (simp add: step)
      have m: "is_match input s2 len2 off2" using a by (simp add: found_def)
      have "\<exists>t' seqs' till. lazy_loop input e limit last_start bs (s2 + len2) (s2 + len2) t2 (seqs @ [(anchor, s2 - anchor, off2, len2)]) = Some (t', seqs') \<and>
          tables_ok input bs t' \<and> fst t' \<le> length input \<and> covers input 0 seqs' till"
      proof (rule less.hyps)
        show "Suc last_start - (s2 + len2) < Suc last_start - s" using a True by (simp add: MINMATCH_def)
        show "covers input 0 (seqs @ [(anchor, s2 - anchor, off2, len2)]) (s2 + len2)"
          using less.prems(7,8) a m c by (auto simp: covers_append)
      qed (use a less.prems in auto)
      then show ?thesis by (simp add: e)
    qed
  qed
qed

text \<open>What an encoder keeps between groups: heads at or below its base.\<close>

definition encoder_ok :: "encoder \<Rightarrow> bool" where
  "encoder_ok s \<longleftrightarrow> length (e_head s) = 2 ^ HASH_LOG \<and> e_base s \<le> U32_MAX \<and> (\<forall>h < length (e_head s). e_head s ! h \<le> e_base s)"

lemma fresh_base_ok:
  assumes "encoder_ok s" "length input \<le> MAX_INPUT" "MFLIMIT \<le> length input"
  shows "\<exists>bs heads. fresh_base s (length input) = Some (bs, s\<lparr>e_head := heads, e_base := bs + length input + 1\<rparr>) \<and>
    length heads = 2 ^ HASH_LOG \<and> (\<forall>h < length heads. heads ! h \<le> bs) \<and> group_ok input bs \<and> bs + length input + 1 \<le> U32_MAX"
proof -
  have n: "as_u32 (length input) = length input" using assms by (simp add: as_u32_def MAX_INPUT_def)
  show ?thesis
  proof (cases "U32_MAX - 2 * MAX_INPUT - 2 < e_base s")
    case True
    then show ?thesis
      using assms n by (auto simp: fresh_base_def Let_def encoder_ok_def group_ok_def U32_MAX_def MAX_INPUT_def)
  next
    case False
    then show ?thesis
      using assms n by (intro exI [of _ "e_base s"] exI [of _ "e_head s"])
        (auto simp: fresh_base_def Let_def encoder_ok_def group_ok_def U32_MAX_def MAX_INPUT_def)
  qed
qed

lemma lazy_parse_ok:
  assumes s: "encoder_ok s" "e_seqs s = []" and n: "length input \<le> MAX_INPUT" "MFLIMIT \<le> length input"
    and e: "lazy_steps e \<le> MINMATCH"
  shows "\<exists>s' till. lazy_parse s input e = Some s' \<and> encoder_ok s' \<and> covers input 0 (rev (e_seqs s')) till"
proof -
  obtain bs heads where f: "fresh_base s (length input) = Some (bs, s\<lparr>e_head := heads, e_base := bs + length input + 1\<rparr>)"
    "length heads = 2 ^ HASH_LOG" "\<forall>h < length heads. heads ! h \<le> bs" "group_ok input bs" "bs + length input + 1 \<le> U32_MAX"
    using fresh_base_ok [OF s(1) n] by blast
  let ?n = "length input"
  define chain where "chain = (if length (e_chain s) < ?n then resize (e_chain s) ?n 0 else e_chain s)"
  have lc: "length (take ?n chain) = ?n" by (auto simp: chain_def resize_def)
  obtain ins heads' ch seqs till where l:
    "lazy_loop input e (?n - LASTLITERALS) (?n - MFLIMIT) bs 0 0 (0, heads, take ?n chain) [] = Some ((ins, heads', ch), seqs)"
    "tables_ok input bs (ins, heads', ch)" "ins \<le> ?n" "covers input 0 seqs till"
    using lazy_loop_ok [OF f(4) refl refl e, of "(0, heads, take ?n chain)" 0 0 "[]"] f lc
    by (auto simp: tables_ok_def chained_def)
  have "lazy_parse s input e = Some (s\<lparr>e_head := heads', e_base := bs + ?n + 1, e_chain := ch @ drop ?n chain, e_seqs := rev seqs\<rparr>)"
    using f(1) l(1) s n
    by (cases "length (e_chain s) < ?n") (simp_all add: lazy_parse_def Let_def chain_def LASTLITERALS_def MFLIMIT_def)
  moreover have "length heads' = 2 ^ HASH_LOG" "\<forall>h < length heads'. heads' ! h \<le> bs + ?n + 1"
    using l(2,3) by (force simp: tables_ok_def chained_def)+
  ultimately show ?thesis using l(4) f(5) by (auto simp: encoder_ok_def)
qed

subsection \<open>The search\<close>

text \<open>The longest matches of the positions searched, a position's the run's where it lies in one.\<close>

definition best_ok :: "bytes \<Rightarrow> nat \<Rightarrow> (nat \<times> nat) list \<Rightarrow> bool" where
  "best_ok input limit best \<longleftrightarrow> length best = length input \<and>
    (\<forall>i < length best. case best ! i of (len, off) \<Rightarrow> MINMATCH \<le> len \<longrightarrow>
       is_match input i len off \<and> off \<le> MAX_DISTANCE \<and> i + len \<le> limit)"

definition run_ok :: "bytes \<Rightarrow> nat \<Rightarrow> nat \<times> nat \<times> nat \<Rightarrow> bool" where
  "run_ok input limit run \<longleftrightarrow> (case run of (at, till, off) \<Rightarrow>
    at \<le> till \<and> (at < till \<longrightarrow> is_match input at (till - at) off \<and> off \<le> MAX_DISTANCE \<and> till \<le> limit))"

lemma is_match_later:
  assumes "is_match input p l off" "p \<le> q" "q \<le> p + l"
  shows "is_match input q (p + l - q) off"
proof -
  have "input ! (q + i) = input ! (q - off + i)" if "i < p + l - q" for i
  proof -
    have "q - p + i < l" using that assms by linarith
    then have "input ! (p + (q - p + i)) = input ! (p - off + (q - p + i))" using assms(1) unfolding is_match_def by blast
    moreover have "p + (q - p + i) = q + i" "p - off + (q - p + i) = q - off + i"
      using assms by (auto simp: is_match_def)
    ultimately show ?thesis by simp
  qed
  then show ?thesis using assms by (auto simp: is_match_def)
qed

lemma best_okD:
  assumes "best_ok input limit best" "best ! i = (len, off)" "i < length input" "MINMATCH \<le> len"
  shows "is_match input i len off" "off \<le> MAX_DISTANCE" "i + len \<le> limit"
  using assms by (auto simp: best_ok_def dest!: spec [of _ i])

lemma best_ok_store:
  assumes "best_ok input limit best" "i < length input" "MINMATCH \<le> len \<Longrightarrow> is_match input i len off \<and> off \<le> MAX_DISTANCE \<and> i + len \<le> limit"
  shows "best_ok input limit (best[i := (len, off)])"
  using assms by (auto simp: best_ok_def nth_list_update)

definition search_ok :: "bytes \<Rightarrow> nat \<Rightarrow> nat \<Rightarrow> nat \<Rightarrow> search_state \<Rightarrow> bool" where
  "search_ok input limit bs s st \<longleftrightarrow> (case st of (heads, ch, best, run) \<Rightarrow>
     chained heads ch bs s \<and> length ch = length input \<and> best_ok input limit best \<and> run_ok input limit run)"

lemma search_step_ok:
  assumes g: "group_ok input bs" "limit = length input - LASTLITERALS" "s \<le> length input - MFLIMIT"
    and st: "search_ok input limit bs s st"
  shows "\<exists>st'. search_step input e limit bs s st = Some st' \<and> search_ok input limit bs (Suc s) st'"
proof -
  obtain heads ch best at till roff where st4: "st = (heads, ch, best, (at, till, roff))" by (cases st) auto
  have ok: "chained heads ch bs s" "length ch = length input" "best_ok input limit best" "run_ok input limit (at, till, roff)"
    using st st4 by (simp_all add: search_ok_def)
  have n: "s + 12 \<le> length input" "length input \<le> MAX_INPUT" "s \<le> MAX_DISTANCE" "bs + s + 1 \<le> U32_MAX"
    using g by (auto simp: group_ok_def MFLIMIT_def MAX_INPUT_def MAX_DISTANCE_def)
  obtain v where v: "read_u32 input s = Some v" using read_u32_Some [of s input] n by auto
  obtain heads' ch' where i: "insert_pos heads ch s (hash v) bs = Some (heads', ch')" "chained heads' ch' bs (Suc s)" "length ch' = length ch"
    using insert_pos_ok [OF ok(1) _ n(3,4) hash_less [of v]] ok(2) n by auto
  have lb: "s < length best" using ok(3) n by (simp add: best_ok_def)
  show ?thesis
  proof (cases "s < till - RESUME \<and> at < s")
    case True
    then have "is_match input at (till - at) roff" "roff \<le> MAX_DISTANCE" "till \<le> limit" "at \<le> s" "s < till"
      using ok(4) by (auto simp: run_ok_def)
    then have m: "is_match input s (till - s) roff" "roff \<le> MAX_DISTANCE" "s + (till - s) \<le> limit"
      using is_match_later [of input at "till - at" roff s] by simp_all
    have "as_u32 (till - s) = till - s" using m(3) g n by (simp add: as_u32_def MAX_INPUT_def)
    moreover have "best_ok input limit (best[s := (till - s, roff)])"
      by (rule best_ok_store) (use ok m n in auto)
    ultimately show ?thesis using True st4 v i lb ok by (auto simp: search_step_def search_ok_def)
  next
    case False
    have h: "hash v < length heads" "heads ! hash v \<le> bs + s" using ok(1) hash_less by (auto simp: chained_def)
    obtain bl bo where w: "walk True input ch bs s v (limit - s) (attempts e) (heads ! hash v) (MINMATCH - 1) 0 = Some (bl, bo)"
      "found input s (limit - s) bl bo"
    proof -
      have "\<exists>bl bo. walk True input ch bs s v (limit - s) (attempts e) (heads ! hash v) (MINMATCH - 1) 0 = Some (bl, bo)
        \<and> found input s (limit - s) bl bo"
        by (rule walk_ok [of s]) (use ok n h g in \<open>auto simp: chained_def found_def LASTLITERALS_def MINMATCH_def\<close>)
      with that show thesis by blast
    qed
    have u: "usub limit s = Some (limit - s)" using g n by (simp add: LASTLITERALS_def)
    show ?thesis
    proof (cases "MINMATCH \<le> bl")
      case True
      have "s + MFLIMIT \<le> length input" using n by (simp add: MFLIMIT_def)
      note c = found_cast [OF w(2) True this n(2)]
      have m: "is_match input s bl bo" "s + bl \<le> limit" using w(2) True g n by (auto simp: found_def LASTLITERALS_def)
      have "best_ok input limit (best[s := (bl, bo)])"
        by (rule best_ok_store) (use ok m n c in auto)
      moreover have "run_ok input limit (s, s + bl, bo)" using m c by (auto simp: run_ok_def)
      ultimately show ?thesis using False True st4 v i lb ok w u h c
        by (auto simp: search_step_def search_ok_def Let_def)
    next
      case none: False
      then show ?thesis using False st4 v i lb ok w u h by (auto simp: search_step_def search_ok_def Let_def)
    qed
  qed
qed

lemma search_loop_ok:
  assumes "group_ok input bs" "limit = length input - LASTLITERALS" "last_start = length input - MFLIMIT"
    "s \<le> Suc last_start" "search_ok input limit bs s st"
  shows "\<exists>st'. search_loop input e limit last_start bs s st = Some st' \<and> search_ok input limit bs (Suc last_start) st'"
  using assms
proof (induction input e limit last_start bs s st rule: search_loop.induct)
  case (1 input e limit last_start bs s st)
  note step = search_loop.simps [of input e limit last_start bs s st]
  show ?case
  proof (cases "s \<le> last_start")
    case True
    obtain st1 where s1: "search_step input e limit bs s st = Some st1" "search_ok input limit bs (Suc s) st1"
      using search_step_ok [OF "1.prems"(1,2) _ "1.prems"(5), of e] True "1.prems"(3) by auto
    have "\<exists>st'. search_loop input e limit last_start bs (s + 1) st1 = Some st' \<and> search_ok input limit bs (Suc last_start) st'"
      by (rule "1.IH" [OF True s1(1) "1.prems"(1-3)]) (use True s1 in auto)
    then show ?thesis using True s1 by (simp add: step)
  next
    case False
    then have "s = Suc last_start" using "1.prems"(4) by simp
    moreover have "search_loop input e limit last_start bs s st = Some st" using False by (simp add: step)
    ultimately show ?thesis using "1.prems"(5) by blast
  qed
qed

lemma search_ok_encoder:
  assumes s: "encoder_ok s" and n: "length input \<le> MAX_INPUT" "MFLIMIT \<le> length input"
  shows "\<exists>s'. search s input e = Some s' \<and> encoder_ok s' \<and> best_ok input (length input - LASTLITERALS) (e_best s')
    \<and> e_seqs s' = e_seqs s"
proof -
  let ?n = "length input" and ?limit = "length input - LASTLITERALS"
  obtain bs heads where f: "fresh_base s ?n = Some (bs, s\<lparr>e_head := heads, e_base := bs + ?n + 1\<rparr>)"
    "length heads = 2 ^ HASH_LOG" "\<forall>h < length heads. heads ! h \<le> bs" "group_ok input bs" "bs + ?n + 1 \<le> U32_MAX"
    using fresh_base_ok [OF s(1) n] by blast
  have "search_ok input ?limit bs 0 (heads, replicate ?n 0, replicate ?n (0, 0), (0, 0, 0))"
    using f by (auto simp: search_ok_def chained_def best_ok_def run_ok_def MINMATCH_def)
  from search_loop_ok [OF f(4) refl refl _ this, of e] obtain heads' ch best run where
    l: "search_loop input e ?limit (?n - MFLIMIT) bs 0 (heads, replicate ?n 0, replicate ?n (0, 0), (0, 0, 0)) = Some (heads', ch, best, run)"
    "search_ok input ?limit bs (Suc (?n - MFLIMIT)) (heads', ch, best, run)"
    by auto
  have "search s input e = Some (s\<lparr>e_head := heads', e_base := bs + ?n + 1, e_chain := ch, e_best := best\<rparr>)"
    using f(1) l(1) n by (simp add: search_def Let_def LASTLITERALS_def MFLIMIT_def)
  moreover have "length heads' = 2 ^ HASH_LOG" "\<forall>h < length heads'. heads' ! h \<le> bs + ?n + 1"
  proof -
    have "length heads' = 2 ^ HASH_LOG \<and> (\<forall>h < length heads'. heads' ! h \<le> bs + Suc (?n - MFLIMIT))"
      using l(2) by (auto simp: search_ok_def chained_def)
    then show "length heads' = 2 ^ HASH_LOG" "\<forall>h < length heads'. heads' ! h \<le> bs + ?n + 1" by force+
  qed
  ultimately show ?thesis using l(2) f(5) by (auto simp: encoder_ok_def search_ok_def)
qed

subsection \<open>The shortest path\<close>

text \<open>The priced cells: a position a match ends at, with the match that closes there.\<close>

definition cells_ok :: "bytes \<Rightarrow> nat \<Rightarrow> nat \<Rightarrow> nat list \<Rightarrow> (nat \<times> nat) list \<Rightarrow> bool" where
  "cells_ok input limit i m_cost m_from \<longleftrightarrow>
     length m_cost = length input + 1 \<and> length m_from = length input + 1 \<and> m_cost ! 0 = 0 \<and>
     (\<forall>j. 0 < j \<and> j \<le> length input \<and> m_cost ! j < INF_COST \<longrightarrow> (case m_from ! j of (s, off) \<Rightarrow>
        s < i \<and> s + MINMATCH \<le> j \<and> j \<le> limit \<and> is_match input s (j - s) off \<and> off \<le> MAX_DISTANCE))"

lemma cells_mono: "cells_ok input limit i m_cost m_from \<Longrightarrow> i \<le> i' \<Longrightarrow> cells_ok input limit i' m_cost m_from"
  unfolding cells_ok_def case_prod_beta by (meson less_le_trans)

lemma is_match_shorter: "is_match input p l off \<Longrightarrow> l' \<le> l \<Longrightarrow> is_match input p l' off"
  by (auto simp: is_match_def)

lemma cells_update:
  assumes "cells_ok input limit (Suc i) m_cost m_from" "i + MINMATCH \<le> j" "j \<le> limit" "limit \<le> length input"
    "is_match input i (j - i) off" "off \<le> MAX_DISTANCE"
  shows "cells_ok input limit (Suc i) (m_cost[j := c]) (m_from[j := (i, off)])"
proof -
  have "j < length m_cost" "j < length m_from" "0 < j" using assms by (auto simp: cells_ok_def MINMATCH_def)
  then have "(m_cost[j := c]) ! k = (if k = j then c else m_cost ! k)"
    "(m_from[j := (i, off)]) ! k = (if k = j then (i, off) else m_from ! k)" for k
    by (simp_all add: nth_list_update)
  then show ?thesis unfolding cells_ok_def using assms \<open>0 < j\<close> by (simp add: cells_ok_def)
qed

definition same_upto :: "nat \<Rightarrow> nat list \<Rightarrow> nat list \<Rightarrow> bool" where
  "same_upto i xs ys \<longleftrightarrow> (\<forall>k \<le> i. ys ! k = xs ! k)"

lemma cuts_ok:
  assumes "cells_ok input limit (Suc i) m_cost m_from" "best_ok input limit best" "limit \<le> length input" "as_u32 i = i"
    "is_match input i (reach - i) off" "off \<le> MAX_DISTANCE" "reach \<le> limit" "stop \<le> reach" "i + MINMATCH \<le> j"
    "seq + 300 \<le> U32_MAX" "length input \<le> MAX_INPUT"
  shows "\<exists>mc mf. cuts best i off seq reach j stop m_cost m_from = Some (mc, mf) \<and>
    cells_ok input limit (Suc i) mc mf \<and> same_upto i m_cost mc"
  using assms
proof (induction best i off seq reach j stop m_cost m_from rule: cuts.induct)
  case (1 best i off seq reach j stop m_cost m_from)
  note step = cuts.simps [of best i off seq reach j stop m_cost m_from]
  show ?case
  proof (cases "j < stop")
    case False
    then show ?thesis using "1.prems"(1) by (simp add: step same_upto_def)
  next
    case True
    obtain bl bo where b: "index best j = Some (bl, bo)"
      using True "1.prems" by (cases "best ! j") (auto simp: best_ok_def)
    have lj: "j < length m_cost" "j < length m_from" using True "1.prems" by (auto simp: cells_ok_def)
    define c where "c = seq + len_ext (j - (i + MINMATCH))"
    have "len_ext (j - (i + MINMATCH)) \<le> 300"
      using True "1.prems" by (auto simp: len_ext_def as_u32_def MAX_INPUT_def)
    then have c: "u32_checked (seq + len_ext (j - (i + MINMATCH))) = Some c" using "1.prems"(10) by (simp add: c_def)
    define up where "up \<longleftrightarrow> MINMATCH \<le> bl \<and> reach < j + bl \<and> c < m_cost ! j"
    define mc1 where "mc1 = (if up then m_cost[j := c] else m_cost)"
    define mf1 where "mf1 = (if up then m_from[j := (i, off)] else m_from)"
    have r: "(if MINMATCH \<le> bl \<and> reach < j + bl
              then do { k \<leftarrow> usub j (i + MINMATCH);
                        c \<leftarrow> u32_checked (seq + len_ext k);
                        old \<leftarrow> index m_cost j;
                        if c < old
                        then do { m_cost \<leftarrow> store m_cost j c; m_from \<leftarrow> store m_from j (as_u32 i, off);
                                  Some (m_cost, m_from) }
                        else Some (m_cost, m_from) }
              else Some (m_cost, m_from)) = Some (mc1, mf1)"
      using "1.prems"(4,9) lj c by (auto simp: up_def mc1_def mf1_def)
    have "is_match input i (j - i) off" by (rule is_match_shorter [OF "1.prems"(5)]) (use True "1.prems" in auto)
    then have k1: "cells_ok input limit (Suc i) mc1 mf1"
      using cells_update [OF "1.prems"(1,9) _ "1.prems"(3) _ "1.prems"(6), of c] True "1.prems" by (auto simp: mc1_def mf1_def)
    have s1: "same_upto i m_cost mc1" using "1.prems"(9) by (auto simp: same_upto_def mc1_def MINMATCH_def)
    have "\<exists>mc mf. cuts best i off seq reach (j + 1) stop mc1 mf1 = Some (mc, mf) \<and> cells_ok input limit (Suc i) mc mf \<and> same_upto i mc1 mc"
      by (rule "1.IH" [OF True b refl r refl k1]) (use "1.prems" in auto)
    moreover have "cuts best i off seq reach j stop m_cost m_from = cuts best i off seq reach (j + 1) stop mc1 mf1"
      unfolding step using True by (simp only: if_True b Option.bind.bind_lunit case_prod_conv r)
    ultimately show ?thesis using s1 by (auto simp: same_upto_def)
  qed
qed

lemma relax_ok:
  assumes c: "cells_ok input limit i m_cost m_from" and b: "best_ok input limit best"
    and n: "length input \<le> MAX_INPUT" "i < length input" "limit \<le> length input"
    and p: "pc \<le> 2 * i" "seq_cost e \<le> 2 ^ 31"
  shows "\<exists>mc mf. relax best e last_start i pc pl m_cost m_from = Some (mc, mf) \<and>
    cells_ok input limit (Suc i) mc mf \<and> same_upto i m_cost mc"
proof -
  obtain len off where bi: "best ! i = (len, off)" by fastforce
  have li: "i < length best" "i - 1 < length best" using b n by (auto simp: best_ok_def)
  have m0: "cells_ok input limit (Suc i) m_cost m_from" using cells_mono [OF c] by simp
  show ?thesis
  proof (cases "len < MINMATCH \<or> (0 < pl \<and> 0 < i \<and> best ! (i - 1) = (as_u32 (len + 1), off))")
    case True
    then have "relax best e last_start i pc pl m_cost m_from = Some (m_cost, m_from)"
      using li bi by (auto simp: relax_def)
    then show ?thesis using m0 by (simp add: same_upto_def)
  next
    case False
    let ?r = "i + len"
    have m: "is_match input i len off" "off \<le> MAX_DISTANCE" "?r \<le> limit" "MINMATCH \<le> len"
      using best_okD [OF b bi n(2)] False by auto
    define seq where "seq = pc + 3 + seq_cost e"
    have sq: "seq + 300 \<le> U32_MAX" using p n by (simp add: seq_def U32_MAX_def MAX_INPUT_def)
    have "len_ext (len - MINMATCH) \<le> 300"
      using m(3) n by (auto simp: len_ext_def as_u32_def MAX_INPUT_def)
    then have ck: "u32_checked (pc + 3 + seq_cost e) = Some seq"
      "u32_checked (seq + len_ext (len - MINMATCH)) = Some (seq + len_ext (len - MINMATCH))"
      using sq by (simp_all add: seq_def)
    have lr: "?r < length m_cost" "?r < length m_from" using c m n by (auto simp: cells_ok_def)
    have i32: "as_u32 i = i" using n by (simp add: as_u32_def MAX_INPUT_def)
    define up where "up \<longleftrightarrow> seq + len_ext (len - MINMATCH) < m_cost ! ?r"
    define mc1 where "mc1 = (if up then m_cost[?r := seq + len_ext (len - MINMATCH)] else m_cost)"
    define mf1 where "mf1 = (if up then m_from[?r := (i, off)] else m_from)"
    have k1: "cells_ok input limit (Suc i) mc1 mf1"
      using cells_update [OF m0 _ m(3) n(3) _ m(2)] m0 m by (auto simp: mc1_def mf1_def)
    have s1: "same_upto i m_cost mc1" using m by (auto simp: same_upto_def mc1_def MINMATCH_def)
    have e: "relax best e last_start i pc pl m_cost m_from =
        cuts best i off seq ?r (max (i + MINMATCH) (?r - MINMATCH)) (min ?r (last_start + 1)) mc1 mf1"
      using li bi False ck lr i32 by (auto simp: relax_def Let_def mc1_def mf1_def up_def)
    have "\<exists>mc mf. cuts best i off seq ?r (max (i + MINMATCH) (?r - MINMATCH)) (min ?r (last_start + 1)) mc1 mf1 = Some (mc, mf)
        \<and> cells_ok input limit (Suc i) mc mf \<and> same_upto i mc1 mc"
      by (rule cuts_ok [OF k1 b n(3) i32]) (use m sq n in auto)
    then show ?thesis using e s1 by (auto simp: same_upto_def)
  qed
qed

text \<open>
  The path before a position: the cells, and for each position passed a run of
  literals that starts at the input's start or where a match closes.
\<close>

definition path_ok :: "bytes \<Rightarrow> nat \<Rightarrow> nat \<Rightarrow> path_state \<Rightarrow> bool" where
  "path_ok input limit i st \<longleftrightarrow> (case st of ((m_cost, m_from, p_lit), (till, cost), (pc, pl)) \<Rightarrow>
     cells_ok input limit i m_cost m_from \<and> length p_lit = length input + 1 \<and>
     (\<forall>s < i. p_lit ! s \<le> s \<and> m_cost ! (s - p_lit ! s) < INF_COST) \<and>
     till \<le> length input \<and> m_cost ! till < INF_COST \<and> (till = 0 \<or> till < i) \<and>
     (if i = 0 then pl = 0 else pc \<le> 2 * (i - 1) \<and> pl = p_lit ! (i - 1)))"

lemma lit_step_le: "k < MAX_INPUT \<Longrightarrow> lit_step k \<le> 1"
proof -
  assume k: "k < MAX_INPUT"
  have "(Suc k - 15) div 255 \<le> Suc ((k - 15) div 255)"
  proof -
    have "Suc k - 15 \<le> (k - 15) + 255" by simp
    then have "(Suc k - 15) div 255 \<le> ((k - 15) + 255) div 255" by (rule div_le_mono)
    then show ?thesis by simp
  qed
  moreover have "as_u32 ((Suc k - 15) div 255) = (Suc k - 15) div 255" "as_u32 ((k - 15) div 255) = (k - 15) div 255"
    using k by (simp_all add: as_u32_def MAX_INPUT_def)
  ultimately show ?thesis unfolding lit_step_def len_ext_def by (simp add: le_diff_conv)
qed

lemma lit_run_le: "k \<le> MAX_INPUT \<Longrightarrow> lit_run k \<le> 2 ^ 20"
  by (auto simp: lit_run_def len_ext_def as_u32_def MAX_INPUT_def)

lemma shortest_step_ok:
  assumes st: "path_ok input limit i st" and b: "best_ok input limit best"
    and n: "length input \<le> MAX_INPUT" "MFLIMIT \<le> length input" "i \<le> length input" "limit \<le> length input"
    and e: "seq_cost e \<le> 2 ^ 31" and ls: "last_start = length input - MFLIMIT"
  shows "\<exists>st'. shortest_step best e (length input) last_start i st = Some st' \<and> path_ok input limit (Suc i) st'"
proof -
  obtain m_cost m_from p_lit till cost pc pl where st6: "st = ((m_cost, m_from, p_lit), (till, cost), (pc, pl))"
    by (metis prod_cases3 surj_pair)
  have ok: "cells_ok input limit i m_cost m_from" "length p_lit = length input + 1"
      "\<forall>s < i. p_lit ! s \<le> s \<and> m_cost ! (s - p_lit ! s) < INF_COST"
      "till \<le> length input" "m_cost ! till < INF_COST" "till = 0 \<or> till < i"
      "if i = 0 then pl = 0 else pc \<le> 2 * (i - 1) \<and> pl = p_lit ! (i - 1)"
    using st unfolding st6 path_ok_def case_prod_conv by blast+
  have li: "i < length m_cost" "i < length p_lit" using ok n by (auto simp: cells_ok_def)
  let ?fresh = "m_cost ! i"
  have inf: "2 * MAX_INPUT < INF_COST" "INF_COST + 2 ^ 20 \<le> U32_MAX" by (simp_all add: INF_COST_def U32_MAX_def MAX_INPUT_def)
  have pl: "pl \<le> i" "0 < i \<Longrightarrow> pl \<le> i - 1" using ok(3,7) by (auto split: if_splits dest!: spec [of _ "i - 1"])
  define till' cost' where "till' = (if 0 < i \<and> ?fresh < INF_COST \<and> (?fresh + lit_run (length input - i) < cost \<or> (?fresh + lit_run (length input - i) = cost \<and> till < i)) then i else till)"
    and "cost' = (if 0 < i \<and> ?fresh < INF_COST \<and> (?fresh + lit_run (length input - i) < cost \<or> (?fresh + lit_run (length input - i) = cost \<and> till < i)) then ?fresh + lit_run (length input - i) else cost)"
  have r1: "(if 0 < i \<and> ?fresh < INF_COST
              then do { c \<leftarrow> u32_checked (?fresh + lit_run (length input - i));
                        Some (if c < cost \<or> (c = cost \<and> till < i) then (i, c) else (till, cost)) }
              else Some (till, cost)) = Some (till', cost')"
  proof (cases "0 < i \<and> ?fresh < INF_COST")
    case True
    have "?fresh + lit_run (length input - i) \<le> U32_MAX"
      using True lit_run_le [of "length input - i"] n inf(2) by linarith
    then show ?thesis using True by (auto simp: till'_def cost'_def)
  qed (auto simp: till'_def cost'_def)
  define carry where "carry = (if i = 0 then INF_COST else pc + 1 + lit_step pl)"
  have cb: "carry \<le> 2 * i" if "0 < i"
  proof -
    have "lit_step pl \<le> 1" by (rule lit_step_le) (use that pl(2) n in linarith)
    moreover have "pc \<le> 2 * (i - 1)" using that ok(7) by simp
    ultimately have "pc + 1 + lit_step pl \<le> 2 * i" using that by linarith
    then show ?thesis using that by (simp add: carry_def)
  qed
  have r2: "(if i = 0 then Some INF_COST else u32_checked (pc + 1 + lit_step pl)) = Some carry"
    using cb n inf by (auto simp: carry_def)
  define pc' pl' where "pc' = (if ?fresh \<le> carry then ?fresh else carry)" and "pl' = (if ?fresh \<le> carry then 0 else pl + 1)"
  have p1: "(if ?fresh \<le> carry then (?fresh, 0) else (carry, pl + 1)) = (pc', pl')" by (simp add: pc'_def pl'_def)
  have f0: "?fresh = 0" if "i = 0" using ok(1) that by (simp add: cells_ok_def)
  have pcb: "pc' \<le> 2 * i"
  proof (cases "i = 0")
    case True
    then show ?thesis using f0 by (simp add: pc'_def carry_def)
  next
    case False
    then show ?thesis using cb by (simp add: pc'_def)
  qed
  have plb: "pl' \<le> i \<and> m_cost ! (i - pl') < INF_COST"
  proof (cases "?fresh \<le> carry")
    case True
    show ?thesis
    proof (cases "i = 0")
      case i0: True
      then show ?thesis using f0 inf by (simp add: pl'_def True)
    next
      case False
      then have "?fresh < INF_COST" using True cb n inf by simp
      then show ?thesis by (simp add: pl'_def True)
    qed
  next
    case False
    then have i0: "0 < i" using f0 by (cases i) auto
    then have "m_cost ! (i - 1 - pl) < INF_COST" "pl \<le> i - 1" using ok(3,7) by (auto dest!: spec [of _ "i - 1"])
    then show ?thesis using False i0 by (simp add: pl'_def)
  qed
  let ?p = "p_lit[i := pl']"
  have tl: "till' \<le> length input" "m_cost ! till' < INF_COST" "till' < Suc i" using ok(4-6) n by (auto simp: till'_def)
  have pth: "path_ok input limit (Suc i) ((mc, mf, ?p), (till', cost'), (pc', pl'))"
    if mc: "cells_ok input limit (Suc i) mc mf" "same_upto i m_cost mc" for mc mf
  proof -
    have "?p ! s \<le> s \<and> mc ! (s - ?p ! s) < INF_COST" if "s < Suc i" for s
    proof (cases "s = i")
      case True
      then show ?thesis using plb mc(2) li by (simp add: same_upto_def)
    next
      case False
      then have s: "s < i" using that by simp
      then have "m_cost ! (s - p_lit ! s) < INF_COST" "p_lit ! s \<le> s" using ok(3) by blast+
      moreover have "mc ! (s - p_lit ! s) = m_cost ! (s - p_lit ! s)"
        using mc(2) s unfolding same_upto_def by (metis diff_le_self le_trans less_imp_le)
      ultimately show ?thesis using False by simp
    qed
    moreover have "mc ! till' < INF_COST" using tl mc(2) by (simp add: same_upto_def)
    ultimately show ?thesis using mc(1) tl pcb ok(2) li by (simp add: path_ok_def)
  qed
  have step: "shortest_step best e (length input) last_start i st =
     (if last_start < i then Some ((m_cost, m_from, ?p), (till', cost'), (pc', pl'))
      else do { (m_cost, m_from) \<leftarrow> relax best e last_start i pc' pl' m_cost m_from;
                Some ((m_cost, m_from, ?p), (till', cost'), (pc', pl')) })"
    unfolding shortest_step_def st6 using li
    by (simp only: case_prod_conv index_Some store_Some Option.bind.bind_lunit r1 r2 p1 Let_def)
  show ?thesis
  proof (cases "last_start < i")
    case True
    then show ?thesis unfolding step using pth [OF cells_mono [OF ok(1)]] by (auto simp: same_upto_def)
  next
    case False
    have "i < length input" using False n ls by (simp add: MFLIMIT_def)
    then obtain mc mf where "relax best e last_start i pc' pl' m_cost m_from = Some (mc, mf)"
      "cells_ok input limit (Suc i) mc mf" "same_upto i m_cost mc"
      using relax_ok [OF ok(1) b n(1) _ n(4) pcb e, of last_start pl'] by blast
    then show ?thesis unfolding step using False pth by simp
  qed
qed

lemma shortest_loop_ok:
  assumes "path_ok input limit i st" "best_ok input limit best"
    "length input \<le> MAX_INPUT" "MFLIMIT \<le> length input" "i \<le> Suc (length input)" "limit \<le> length input"
    "seq_cost e \<le> 2 ^ 31" "last_start = length input - MFLIMIT" "n = length input"
  shows "\<exists>st'. shortest_loop best e n last_start i st = Some st' \<and> path_ok input limit (Suc (length input)) st'"
  using assms
proof (induction best e n last_start i st rule: shortest_loop.induct)
  case (1 best e n last_start i st)
  note step = shortest_loop.simps [of best e n last_start i st]
  show ?case
  proof (cases "i \<le> n")
    case True
    then obtain st1 where s1: "shortest_step best e n last_start i st = Some st1" "path_ok input limit (Suc i) st1"
      using shortest_step_ok [OF "1.prems"(1-4) _ "1.prems"(6,7,8)] "1.prems"(9) by blast
    have "\<exists>st'. shortest_loop best e n last_start (i + 1) st1 = Some st' \<and> path_ok input limit (Suc (length input)) st'"
      by (rule "1.IH" [OF True s1(1)]) (use True s1 "1.prems" in auto)
    then show ?thesis using True s1 by (simp add: step)
  next
    case False
    then have "i = Suc (length input)" using "1.prems"(5,9) by simp
    moreover have "shortest_loop best e n last_start i st = Some st" using False by (simp add: step)
    ultimately show ?thesis using "1.prems"(1) by blast
  qed
qed

lemma way_back_ok:
  assumes "path_ok input limit (Suc (length input)) ((m_cost, m_from, p_lit), q, r)"
    "length input \<le> MAX_INPUT" "e2 \<le> length input" "m_cost ! e2 < INF_COST"
  shows "\<exists>l. way_back m_from p_lit e2 seqs = Some (seqs @ l) \<and> covers input 0 (rev l) e2"
  using assms(3,4)
proof (induction e2 arbitrary: seqs rule: less_induct)
  case (less e2)
  show ?case
  proof (cases "e2 = 0")
    case True
    then show ?thesis by (simp add: way_back.simps [of m_from p_lit 0])
  next
    case False
    have ok: "cells_ok input limit (Suc (length input)) m_cost m_from" "length p_lit = length input + 1"
      "\<forall>s < Suc (length input). p_lit ! s \<le> s \<and> m_cost ! (s - p_lit ! s) < INF_COST"
      using assms(1) by (auto simp: path_ok_def)
    obtain s off where mf: "m_from ! e2 = (s, off)" by fastforce
    have m: "s + MINMATCH \<le> e2" "is_match input s (e2 - s) off" "off \<le> MAX_DISTANCE"
      using ok(1) less.prems False mf by (auto simp: cells_ok_def dest!: spec [of _ e2])
    have le: "e2 < length m_from" "s < length p_lit" using ok less.prems m by (auto simp: cells_ok_def)
    let ?lit = "p_lit ! s"
    have p: "?lit \<le> s" "m_cost ! (s - ?lit) < INF_COST" using ok(3) m less.prems by auto
    have c: "as_u32 (s - ?lit) = s - ?lit" "as_u32 ?lit = ?lit" "as_u32 (e2 - s) = e2 - s"
      using m p less.prems assms(2) by (auto simp: as_u32_def MAX_INPUT_def)
    have w: "way_back m_from p_lit e2 seqs = way_back m_from p_lit (s - ?lit) (seqs @ [(s - ?lit, ?lit, off, e2 - s)])"
      using False le mf p m c by (simp add: way_back.simps [of m_from p_lit e2])
    have lt: "s - ?lit < e2" "s - ?lit \<le> length input" using m(1) less.prems by (auto simp: MINMATCH_def)
    obtain l where l: "way_back m_from p_lit (s - ?lit) (seqs @ [(s - ?lit, ?lit, off, e2 - s)]) = Some ((seqs @ [(s - ?lit, ?lit, off, e2 - s)]) @ l)"
      "covers input 0 (rev l) (s - ?lit)"
      using less.IH [of "s - ?lit" "seqs @ [(s - ?lit, ?lit, off, e2 - s)]"] lt p less.prems by auto
    have "covers input 0 (rev ((s - ?lit, ?lit, off, e2 - s) # l)) e2"
      using l(2) m p by (auto simp: covers_append)
    then show ?thesis using w l(1) by (intro exI [of _ "(s - ?lit, ?lit, off, e2 - s) # l"]) simp
  qed
qed

lemma shortest_ok:
  assumes b: "best_ok input (length input - LASTLITERALS) (e_best s)" and s: "e_seqs s = []" "encoder_ok s"
    and n: "length input \<le> MAX_INPUT" "MFLIMIT \<le> length input" and e: "seq_cost e \<le> 2 ^ 31"
  shows "\<exists>s' till. shortest s input e = Some s' \<and> encoder_ok s' \<and> covers input 0 (rev (e_seqs s')) till"
proof -
  let ?n = "length input" and ?limit = "length input - LASTLITERALS"
  let ?c = "replicate (?n + 1) INF_COST"
  let ?st = "((?c[0 := 0], replicate (?n + 1) (0, 0), replicate (?n + 1) 0), (0, lit_run ?n), (INF_COST, 0))"
  have st0: "path_ok input ?limit 0 ?st"
    by (auto simp: path_ok_def cells_ok_def nth_list_update INF_COST_def U32_MAX_def simp del: replicate_Suc)
  have "\<exists>st'. shortest_loop (e_best s) e ?n (?n - MFLIMIT) 0 ?st = Some st' \<and> path_ok input ?limit (Suc ?n) st'"
    by (rule shortest_loop_ok [OF st0 b n]) (use e in auto)
  then obtain m_cost m_from p_lit till cost run where
    l: "shortest_loop (e_best s) e ?n (?n - MFLIMIT) 0 ?st = Some ((m_cost, m_from, p_lit), (till, cost), run)"
    "path_ok input ?limit (Suc ?n) ((m_cost, m_from, p_lit), (till, cost), run)"
    by (metis prod_cases3 surj_pair)
  have tl: "till \<le> ?n" "m_cost ! till < INF_COST" using l(2) by (auto simp: path_ok_def)
  obtain w where w: "way_back m_from p_lit till [] = Some w" "covers input 0 (rev w) till"
    using way_back_ok [OF l(2) n(1) tl, of "[]"] by auto
  have lb: "length (e_best s) = ?n" using b by (simp add: best_ok_def)
  have "shortest s input e = Some (s\<lparr>e_m_cost := m_cost, e_m_from := m_from, e_p_lit := p_lit, e_seqs := w\<rparr>)"
    using l(1) w(1) s(1) n lb by (simp add: shortest_def Let_def MFLIMIT_def del: replicate_Suc)
  then show ?thesis using w(2) s(2) by (auto simp: encoder_ok_def)
qed

subsection \<open>The bytes of a block\<close>

definition len_bytes :: "nat \<Rightarrow> bytes" where
  "len_bytes k = (if k < 15 then [] else replicate ((k - 15) div 255) 255 @ [word_of_nat ((k - 15) mod 255)])"

definition token :: "nat \<Rightarrow> nat \<Rightarrow> byte" where
  "token lit k = push_bit 4 (word_of_nat (min lit 15)) OR word_of_nat (min k 15)"

fun seq_bytes :: "bytes \<Rightarrow> sequence \<Rightarrow> bytes" where
  "seq_bytes input (at, lit, off, ml) =
    token lit (ml - MINMATCH) # len_bytes lit @ take lit (drop at input) @ le_bytes 2 off @ len_bytes (ml - MINMATCH)"

definition last_bytes :: "bytes \<Rightarrow> nat \<Rightarrow> bytes" where
  "last_bytes input pos = token (length input - pos) 0 # len_bytes (length input - pos) @ drop pos input"

definition block_bytes :: "bytes \<Rightarrow> sequence list \<Rightarrow> nat \<Rightarrow> bytes" where
  "block_bytes input seqs till = concat (map (seq_bytes input) seqs) @ last_bytes input till"

lemma put_len_loop_ok:
  "at + length (replicate (r div 255) (255 :: byte)) + 1 \<le> length out \<Longrightarrow>
    put_len_loop out at r = Some (blit out at (replicate (r div 255) 255 @ [word_of_nat (r mod 255)]), at + r div 255 + 1)"
proof (induction out at r rule: put_len_loop.induct)
  case (1 out at r)
  show ?case
  proof (cases "255 \<le> r")
    case False
    then show ?thesis using 1 by (simp add: put_len_loop.simps [of out at r])
  next
    case True
    then have d: "r div 255 = Suc ((r - 255) div 255)" "r mod 255 = (r - 255) mod 255"
      by (simp_all add: le_div_geq le_mod_geq)
    have "put out at [255] = Some (blit out at [255])" using "1.prems" d by simp
    then have "put_len_loop out at r = put_len_loop (blit out at [255]) (at + 1) (r - 255)"
      using True by (simp add: put_len_loop.simps [of out at r])
    also have "\<dots> = Some (blit (blit out at [255]) (at + 1) (replicate ((r - 255) div 255) 255 @ [word_of_nat ((r - 255) mod 255)]),
        at + 1 + (r - 255) div 255 + 1)"
      by (rule "1.IH") (use True "1.prems" d in auto)
    also have "blit (blit out at [255]) (at + 1) (replicate ((r - 255) div 255) 255 @ [word_of_nat ((r - 255) mod 255)])
        = blit out at (replicate (r div 255) 255 @ [word_of_nat (r mod 255)])"
      using blit_blit [of at "[255]" "replicate ((r - 255) div 255) 255 @ [word_of_nat ((r - 255) mod 255)]" out] "1.prems" d
      by simp
    finally show ?thesis using d by simp
  qed
qed

lemma put_len_ok:
  "at + length (len_bytes k) \<le> length out \<Longrightarrow> put_len out at k = Some (blit out at (len_bytes k), at + length (len_bytes k))"
  using put_len_loop_ok [of at "k - 15" out] by (auto simp: put_len_def len_bytes_def)

lemma emit_seqs_ok:
  assumes "covers input pos seqs till" "at + length (concat (map (seq_bytes input) seqs)) \<le> length out"
  shows "emit_seqs input seqs out at pos =
    Some (blit out at (concat (map (seq_bytes input) seqs)), at + length (concat (map (seq_bytes input) seqs)), till)"
  using assms
proof (induction seqs arbitrary: out at pos)
  case Nil
  then show ?case by simp
next
  case (Cons x seqs)
  obtain lit off ml where x: "x = (pos, lit, off, ml)" and c: "MINMATCH \<le> ml" "is_match input (pos + lit) ml off"
    "covers input (pos + lit + ml) seqs till" using Cons.prems(1) by (cases x) auto
  let ?k = "ml - MINMATCH" and ?l = "take lit (drop pos input)"
  let ?t = "[token lit ?k]" and ?s = "seq_bytes input x"
  have ll: "length ?l = lit" "pos + lit \<le> length input" using c(2) by (auto simp: is_match_def)
  have fit: "at + (1 + length (len_bytes lit) + lit + 2 + length (len_bytes ?k)) \<le> length out"
    using Cons.prems(2) ll x by simp
  have sl: "length ?s = 1 + length (len_bytes lit) + lit + 2 + length (len_bytes ?k)" using ll x by simp
  have bl: "blit (blit (blit (blit (blit out at ?t) (at + 1) (len_bytes lit)) (at + 1 + length (len_bytes lit)) ?l)
      (at + 1 + length (len_bytes lit) + lit) (le_bytes 2 off))
      (at + 1 + length (len_bytes lit) + lit + 2) (len_bytes ?k) = blit out at ?s"
    using blit_blit [of at ?t "len_bytes lit" out]
      blit_blit [of at "?t @ len_bytes lit" ?l out]
      blit_blit [of at "?t @ len_bytes lit @ ?l" "le_bytes 2 off" out]
      blit_blit [of at "?t @ len_bytes lit @ ?l @ le_bytes 2 off" "len_bytes ?k" out] ll fit x
    by (simp add: add.assoc)
  have "emit_seqs input (x # seqs) out at pos = emit_seqs input seqs (blit out at ?s) (at + length ?s) (pos + lit + ml)"
    using fit ll c x sl bl by (simp add: put_len_ok token_def [symmetric] add.assoc)
  also have "\<dots> = Some (blit (blit out at ?s) (at + length ?s) (concat (map (seq_bytes input) seqs)),
      at + length ?s + length (concat (map (seq_bytes input) seqs)), till)"
    by (rule Cons.IH [OF c(3)]) (use Cons.prems fit sl in auto)
  finally show ?case using blit_blit [of at ?s "concat (map (seq_bytes input) seqs)" out] Cons.prems(2)
    by (simp add: add.assoc)
qed

lemma emit_ok:
  assumes "covers input 0 (rev (e_seqs s)) till" "length (block_bytes input (rev (e_seqs s)) till) \<le> length out"
  shows "emit s input out = Some (blit out 0 (block_bytes input (rev (e_seqs s)) till),
    length (block_bytes input (rev (e_seqs s)) till))"
proof -
  let ?c = "concat (map (seq_bytes input) (rev (e_seqs s)))" and ?n = "length input - till"
  have tl: "till \<le> length input" using covers_le [OF assms(1)] by simp
  have fit: "length ?c + (1 + length (len_bytes ?n) + ?n) \<le> length out"
    using assms(2) by (simp add: block_bytes_def last_bytes_def)
  have e: "emit_seqs input (rev (e_seqs s)) out 0 0 = Some (blit out 0 ?c, length ?c, till)"
    using emit_seqs_ok [OF assms(1), of 0 out] fit by simp
  have tk: "push_bit 4 (word_of_nat (min ?n 15)) = token ?n 0" by (simp add: token_def)
  have "blit (blit (blit (blit out 0 ?c) (length ?c) [token ?n 0]) (length ?c + 1) (len_bytes ?n))
      (length ?c + 1 + length (len_bytes ?n)) (drop till input) = blit out 0 (block_bytes input (rev (e_seqs s)) till)"
    using blit_blit [of 0 ?c "[token ?n 0]" out]
      blit_blit [of 0 "?c @ [token ?n 0]" "len_bytes ?n" out]
      blit_blit [of 0 "?c @ [token ?n 0] @ len_bytes ?n" "drop till input" out] fit tl
    by (simp add: block_bytes_def last_bytes_def add.assoc)
  then show ?thesis
    unfolding emit_def using e fit tl
    by (simp add: tk put_len_ok block_bytes_def last_bytes_def)
qed

subsection \<open>The length of a block\<close>

lemma length_len_bytes: "length (len_bytes k) = (if k < 15 then 0 else 1 + (k - 15) div 255)"
  by (simp add: len_bytes_def)

lemma length_len_bytes_le: "255 * length (len_bytes k) \<le> k + 240"
proof (cases "k < 15")
  case False
  have "255 * ((k - 15) div 255) \<le> k - 15" by (rule times_div_less_eq_dividend)
  then show ?thesis using False by (simp add: length_len_bytes)
qed (simp add: length_len_bytes)

lemma length_len_bytes_ml: "4 \<le> ml \<Longrightarrow> 1005 + 255 * length (len_bytes (ml - 4)) \<le> 256 * ml"
  using length_len_bytes_le [of "ml - 4"] by (cases "ml < 19") (auto simp: length_len_bytes)

lemma seq_bytes_bound:
  assumes "MINMATCH \<le> ml" "at + lit \<le> length input"
  shows "255 * length (seq_bytes input (at, lit, off, ml)) \<le> 256 * (lit + ml)"
  using length_len_bytes_le [of lit] length_len_bytes_ml [of ml] assms by (simp add: MINMATCH_def)

lemma seqs_bytes_bound:
  assumes "covers input pos seqs till" "pos \<le> length input"
  shows "255 * length (concat (map (seq_bytes input) seqs)) + 256 * pos \<le> 256 * till"
  using assms
proof (induction seqs arbitrary: pos)
  case (Cons x seqs)
  obtain lit off ml where x: "x = (pos, lit, off, ml)" and c: "MINMATCH \<le> ml" "is_match input (pos + lit) ml off"
    "covers input (pos + lit + ml) seqs till" using Cons.prems(1) by (cases x) auto
  have "pos + lit + ml \<le> length input" using c(2) by (simp add: is_match_def)
  with Cons.IH [OF c(3)] seq_bytes_bound [OF c(1), of pos lit input off] show ?case
    by (simp add: x del: seq_bytes.simps)
qed simp

lemma block_bytes_bound:
  assumes "covers input 0 seqs till"
  shows "length (block_bytes input seqs till) \<le> max_output (length input)"
proof -
  have tl: "till \<le> length input" using covers_le [OF assms] by simp
  let ?n = "length input - till"
  have "255 * length (block_bytes input seqs till) \<le> 256 * till + 255 * (1 + length (len_bytes ?n) + ?n)"
    using seqs_bytes_bound [OF assms] by (simp add: block_bytes_def last_bytes_def)
  then have "255 * length (block_bytes input seqs till) \<le> 256 * length input + 495"
    using length_len_bytes_le [of ?n] tl by simp
  then have "length (block_bytes input seqs till) \<le> (256 * length input + 495) div 255"
    by (metis div_le_mono nonzero_mult_div_cancel_left zero_neq_numeral)
  also have "\<dots> \<le> max_output (length input)"
    by (simp add: max_output_def)
  finally show ?thesis .
qed

subsection \<open>Reading a block back\<close>

lemma token_nibbles:
  "unat (drop_bit 4 (token lit k)) = min lit 15" "unat (token lit k AND 15) = min k 15"
proof -
  define x y :: byte where "x = word_of_nat (min lit 15)" and "y = word_of_nat (min k 15)"
  have u: "unat x = min lit 15" "unat y = min k 15" by (simp_all add: x_def y_def unat_of_nat)
  have bx: "bit x i \<Longrightarrow> i < 4" and bby: "bit y i \<Longrightarrow> i < 4" for i
    using word_bits_below [of x 4 i] word_bits_below [of y 4 i] u by auto
  have m: "(15 :: byte) = mask 4" by (simp add: mask_eq_exp_minus_1)
  have "drop_bit 4 (push_bit 4 x OR y) = x"
    by (rule bit_word_eqI) (auto simp: bit_simps dest: bx bby)
  moreover have "(push_bit 4 x OR y) AND 15 = y"
    unfolding m by (rule bit_word_eqI) (auto simp: bit_simps dest: bx bby)
  ultimately show "unat (drop_bit 4 (token lit k)) = min lit 15" "unat (token lit k AND 15) = min k 15"
    using u by (simp_all add: token_def x_def y_def)
qed

lemma var_len_from_bytes:
  "b \<noteq> 255 \<Longrightarrow> var_len_from (pre @ replicate m 255 @ b # post) (length pre) n
    = Inr (n + 255 * m + unat b, length pre + m + 1)"
proof (induction m arbitrary: pre n)
  case 0
  then show ?case by (simp add: var_len_from.simps)
next
  case (Suc m)
  have "var_len_from (pre @ replicate (Suc m) 255 @ b # post) (length pre) n
      = var_len_from ((pre @ [255]) @ replicate m 255 @ b # post) (length (pre @ [255])) (n + 255)"
    by (subst var_len_from.simps) simp
  also have "\<dots> = Inr (n + 255 + 255 * m + unat b, length (pre @ [255]) + m + 1)" using Suc by blast
  finally show ?case by simp
qed

lemma len_field_bytes:
  "len_field (pre @ len_bytes k @ post) (length pre) base (min k 15) = Inr (base + k, length pre + length (len_bytes k))"
proof (cases "k < 15")
  case True
  then show ?thesis by (simp add: len_field_def len_bytes_def)
next
  case False
  let ?b = "word_of_nat ((k - 15) mod 255) :: byte"
  have u: "unat ?b = (k - 15) mod 255" by (simp add: unat_of_nat)
  have "?b \<noteq> 255"
  proof
    assume "?b = 255"
    then have "unat ?b = 255" by simp
    then show False unfolding u using mod_less_divisor [of 255 "k - 15"] by simp
  qed
  from var_len_from_bytes [OF this, of pre "(k - 15) div 255" post 0]
  have "var_len (pre @ len_bytes k @ post) (length pre) = Inr (255 * ((k - 15) div 255) + unat ?b, length pre + length (len_bytes k))"
    using False by (simp add: var_len_def len_bytes_def)
  moreover have "255 * ((k - 15) div 255) + unat ?b = k - 15" unfolding u by simp
  ultimately show ?thesis using False by (simp add: len_field_def)
qed

lemma copy_match_input:
  assumes "is_match input p ml off"
  shows "copy_match (take p input) off ml = take (p + ml) input"
proof -
  have "n \<le> ml \<Longrightarrow> copy_match (take p input) off n = take (p + n) input" for n
  proof (induction n)
    case (Suc n)
    have p: "p + n < length input" "off \<le> p" "0 < off" "p - off + n = p + n - off" using assms Suc.prems by (auto simp: is_match_def)
    have "input ! (p + n) = input ! (p - off + n)" using assms Suc.prems by (simp add: is_match_def)
    moreover have "take (p + n) input ! (p + n - off) = input ! (p - off + n)" using p by simp
    ultimately show ?case using Suc p by (simp add: copy_match_snoc take_Suc_conv_app_nth min_def del: copy_match.simps)
  qed simp
  then show ?thesis by simp
qed

lemma spec_sequence_bytes:
  assumes c: "MINMATCH \<le> ml" "off \<le> MAX_DISTANCE" "is_match input (at + lit) ml off" "length input \<le> cap"
  shows "spec_sequence (pre @ seq_bytes input (at, lit, off, ml) @ post) cap (length pre) (take at input)
    = Inr (False, length pre + length (seq_bytes input (at, lit, off, ml)), take (at + lit + ml) input)"
proof -
  let ?k = "ml - MINMATCH" and ?l = "take lit (drop at input)"
  let ?b = "pre @ seq_bytes input (at, lit, off, ml) @ post"
  let ?p1 = "pre @ [token lit ?k]" and ?r1 = "?l @ le_bytes 2 off @ len_bytes ?k @ post"
  let ?p2 = "?p1 @ len_bytes lit @ ?l @ le_bytes 2 off"
  have m: "0 < off" "off \<le> at + lit" "at + lit + ml \<le> length input" using c(3) by (simp_all add: is_match_def)
  have b1: "?b = ?p1 @ len_bytes lit @ ?r1" and b2: "?b = ?p2 @ len_bytes ?k @ post" by simp_all
  have ll: "length ?l = lit" using m by simp
  have f1: "len_field ?b (Suc (length pre)) 0 (min lit 15) = Inr (lit, Suc (length pre) + length (len_bytes lit))"
    using len_field_bytes [of ?p1 lit ?r1 0] by (simp add: b1)
  have f2: "len_field ?b (Suc (length pre) + length (len_bytes lit) + lit + 2) MINMATCH (min ?k 15)
      = Inr (ml, length pre + length (seq_bytes input (at, lit, off, ml)))"
    using len_field_bytes [of ?p2 ?k post MINMATCH] c(1) ll by (simp add: b2 add.assoc)
  have dl: "take lit (drop (Suc (length pre) + length (len_bytes lit)) ?b) = ?l" using ll by simp
  have ofs: "le_val (take 2 (drop (Suc (length pre) + length (len_bytes lit) + lit) ?b)) = off"
    using ll c(2) le_val_bytes_id [of off 2] by (simp add: MAX_DISTANCE_def)
  have tk: "take at input @ ?l = take (at + lit) input" by (simp add: take_add)
  have lb: "length ?b = Suc (length pre) + length (len_bytes lit) + lit + 2 + length (len_bytes ?k) + length post"
    and tb: "?b ! length pre = token lit ?k" using ll by simp_all
  define b where "b = ?b"
  note fs = f1 [folded b_def] f2 [folded b_def] dl [folded b_def] ofs [folded b_def] lb [folded b_def] tb [folded b_def]
  have "spec_sequence b cap (length pre) (take at input)
      = spec_match b cap (token lit ?k) (Suc (length pre) + length (len_bytes lit) + lit) (take (at + lit) input)"
    unfolding spec_sequence_def fs(6) token_nibbles fs(1) using fs(3,5) m c(4) ll tk by simp
  also have "\<dots> = Inr (False, length pre + length (seq_bytes input (at, lit, off, ml)), copy_match (take (at + lit) input) off ml)"
    unfolding spec_match_def token_nibbles fs(2,4) Let_def using fs(5) m c(4) ll by simp
  finally show ?thesis unfolding b_def using copy_match_input [OF c(3)] by simp
qed

lemma spec_loop_bytes:
  assumes "covers input pos seqs till" "pos \<le> length input" "length input \<le> cap"
  shows "spec_loop (pre @ block_bytes input seqs till) cap (length pre) (take pos input) = Inr input"
  using assms
proof (induction seqs arbitrary: pos pre)
  case Nil
  let ?n = "length input - pos"
  let ?b = "pre @ last_bytes input pos"
  have f: "len_field ?b (Suc (length pre)) 0 (min ?n 15) = Inr (?n, Suc (length pre) + length (len_bytes ?n))"
    using len_field_bytes [of "pre @ [token ?n 0]" ?n "drop pos input" 0] by (simp add: last_bytes_def)
  have "spec_sequence ?b cap (length pre) (take pos input) = Inr (True, length ?b, input)"
  proof -
    have lb: "length ?b = Suc (length pre) + length (len_bytes ?n) + ?n" and tb: "?b ! length pre = token ?n 0"
      and dl: "take ?n (drop (Suc (length pre) + length (len_bytes ?n)) ?b) = drop pos input"
      by (simp_all add: last_bytes_def)
    define b where "b = ?b"
    note fs = f [folded b_def] lb [folded b_def] tb [folded b_def] dl [folded b_def]
    show ?thesis unfolding b_def [symmetric] spec_sequence_def fs(3) token_nibbles fs(1)
      using fs(2,4) Nil by (simp add: spec_match_def, arith)
  qed
  then show ?case using Nil spec_loop_sequence(2) by (simp add: block_bytes_def)
next
  case (Cons x seqs)
  obtain lit off ml where x: "x = (pos, lit, off, ml)" and c: "MINMATCH \<le> ml" "off \<le> MAX_DISTANCE" "is_match input (pos + lit) ml off"
    "covers input (pos + lit + ml) seqs till" using Cons.prems(1) by (cases x) auto
  let ?s = "seq_bytes input x" and ?r = "block_bytes input seqs till"
  have b: "pre @ block_bytes input (x # seqs) till = pre @ ?s @ ?r" by (simp add: block_bytes_def)
  have "spec_loop (pre @ ?s @ ?r) cap (length pre) (take pos input)
      = spec_loop (pre @ ?s @ ?r) cap (length (pre @ ?s)) (take (pos + lit + ml) input)"
    using spec_loop_sequence(3) [OF spec_sequence_bytes [OF c(1-3) Cons.prems(3), of pre ?r]]
    by (simp add: x del: seq_bytes.simps)
  also have "\<dots> = Inr input"
    using Cons.IH [OF c(4) _ Cons.prems(3), of "pre @ ?s"] c(3) by (simp add: is_match_def)
  finally show ?case using b by simp
qed

lemma parse_ok:
  assumes "encoder_ok s" "length input \<le> MAX_INPUT" "lazy_steps e \<le> MINMATCH" "seq_cost e \<le> 2 ^ 31"
  shows "\<exists>s' till. parse s input e = Some s' \<and> encoder_ok s' \<and> covers input 0 (rev (e_seqs s')) till"
proof -
  let ?s = "s\<lparr>e_seqs := []\<rparr>"
  have s: "encoder_ok ?s" "e_seqs ?s = []" using assms(1) by (simp_all add: encoder_ok_def)
  show ?thesis
  proof (cases "length input < MFLIMIT + 1 \<or> attempts e = 0")
    case True
    then have "parse s input e = Some ?s" by (auto simp: parse_def Let_def)
    moreover have "covers input 0 (rev (e_seqs ?s)) 0" by simp
    ultimately show ?thesis using s(1) by blast
  next
    case False
    then have n: "MFLIMIT \<le> length input" by simp
    show ?thesis
    proof (cases "0 < lazy_steps e")
      case True
      then show ?thesis using lazy_parse_ok [OF s assms(2) n assms(3)] False by (simp add: parse_def Let_def)
    next
      case no: False
      obtain s1 where s1: "search ?s input e = Some s1" "encoder_ok s1" "best_ok input (length input - LASTLITERALS) (e_best s1)" "e_seqs s1 = []"
        using search_ok_encoder [OF s(1) assms(2) n, of e] by auto
      show ?thesis using shortest_ok [OF s1(3,4,2) assms(2) n assms(4)] s1(1) False no by (simp add: parse_def Let_def)
    qed
  qed
qed

lemma compress_into_block:
  assumes s: "encoder_ok s" and n: "length input \<le> MAX_INPUT" "max_output (length input) \<le> length out"
    and e: "lazy_steps e \<le> MINMATCH" "seq_cost e \<le> 2 ^ 31"
  shows "\<exists>s' out' k. compress_into s input out e = Ok (s', out', k) \<and> encoder_ok s' \<and>
    k \<le> max_output (length input) \<and> length out' = length out \<and>
    (\<forall>cap. length input \<le> cap \<longrightarrow> lz4_decode (take k out') cap = Inr input)"
proof -
  obtain s' till where p: "parse s input e = Some s'" "encoder_ok s'" "covers input 0 (rev (e_seqs s')) till"
    using parse_ok [OF s n(1) e] by blast
  let ?b = "block_bytes input (rev (e_seqs s')) till"
  have b: "length ?b \<le> max_output (length input)" by (rule block_bytes_bound [OF p(3)])
  have "compress_into s input out e = Ok (s', blit out 0 ?b, length ?b)"
    using p(1) emit_ok [OF p(3), of out] b n by (simp add: compress_into_def Let_def)
  moreover have "take (length ?b) (blit out 0 ?b) = ?b" using b n by (simp add: blit_def)
  moreover have "lz4_decode ?b cap = Inr input" if "length input \<le> cap" for cap
    using spec_loop_bytes [OF p(3) _ that, of "[]"] by (simp add: lz4_decode_def)
  ultimately show ?thesis using p(2) b n by (intro exI [of _ s'] exI [of _ "blit out 0 ?b"] exI [of _ "length ?b"]) simp
qed

lemma encoder_ok_new: "encoder_ok encoder_new"
  by (simp add: encoder_ok_def encoder_new_def)

subsection \<open>Properties\<close>

text \<open>
  C38: The eight-bytes-a-compare \<open>common\<close> is the length the bytes at two positions
  agree for: it reads nothing out of the input, everything below its result
  agrees, and its result is the limit or a position where they differ.
\<close>

theorem common_longest:
  assumes "a \<le> s" and "s + limit \<le> length b"
  shows "\<exists>m. common b a s limit = Some m \<and> m \<le> limit \<and>
    take m (drop a b) = take m (drop s b) \<and> (m = limit \<or> b ! (a + m) \<noteq> b ! (s + m))"
proof -
  obtain m where m: "common b a s limit = Some m" "agree_len b a s limit m" using common_spec [OF assms] by blast
  have "take m (drop a b) = take m (drop s b)"
    by (rule nth_equalityI) (use m(2) assms in \<open>auto simp: agree_len_def\<close>)
  then show ?thesis using m by (auto simp: agree_len_def)
qed

theorem common_longest_witness:
  "\<exists>m. common (replicate 12 7 @ [8, 9]) 0 1 10 = Some m \<and> m \<le> 10 \<and>
    take m (drop 0 (replicate 12 7 @ [8, 9 :: byte])) = take m (drop 1 (replicate 12 7 @ [8, 9])) \<and>
    (m = 10 \<or> (replicate 12 7 @ [8, 9 :: byte]) ! (0 + m) \<noteq> (replicate 12 7 @ [8, 9]) ! (1 + m))"
  by (rule common_longest) simp_all

text \<open>
  C1: What the encoder writes the decoder reads. For every encoder an encode has
  left in order (the new one among them), every input up to \<open>MAX_INPUT\<close>, and every
  effort whose steps ahead are at most the shortest match and whose price of a
  sequence leaves the arithmetic exact, an output of \<open>max_output\<close> bytes is room
  enough, nothing panics or overflows, the block is no longer than \<open>max_output\<close>,
  the encoder is in order for the next group, and the decoder returns the input
  from the block into any buffer that has room for it.
\<close>

theorem lz4_roundtrip:
  assumes "encoder_ok s" and "length input \<le> MAX_INPUT" and "max_output (length input) \<le> length out"
    and "lazy_steps e \<le> MINMATCH" and "seq_cost e \<le> 2 ^ 31" and "length input \<le> length dst"
  shows "\<exists>s' out' k. compress_into s input out e = Ok (s', out', k) \<and> encoder_ok s' \<and>
    k \<le> max_output (length input) \<and> length out' = length out \<and>
    (\<exists>dst'. decompress_into (take k out') dst = Ok (dst', length input) \<and> length dst' = length dst \<and>
      take (length input) dst' = input)"
proof -
  obtain s' out' k where c: "compress_into s input out e = Ok (s', out', k)" "encoder_ok s'"
    "k \<le> max_output (length input)" "length out' = length out"
    "\<forall>cap. length input \<le> cap \<longrightarrow> lz4_decode (take k out') cap = Inr input"
    using compress_into_block [OF assms(1-5)] by blast
  have "lz4_decode (take (length (take k out')) (take k out')) (length dst) = Inr input"
    using c(5) assms(6) by (simp only: take_all order_refl simp_thms)
  from decompress_in_decoded [OF order_refl this] show ?thesis
    using c by (auto simp: decompress_into_def)
qed

theorem lz4_roundtrip_witness:
  "\<exists>s' out' k. compress_into encoder_new (replicate 40 7) (replicate 100 0) SHIPPED = Ok (s', out', k) \<and> encoder_ok s' \<and>
    k \<le> max_output (length (replicate 40 (7 :: byte))) \<and> length out' = length (replicate 100 (0 :: byte)) \<and>
    (\<exists>dst'. decompress_into (take k out') (replicate 64 0) = Ok (dst', length (replicate 40 (7 :: byte))) \<and>
      length dst' = length (replicate 64 (0 :: byte)) \<and> take (length (replicate 40 (7 :: byte))) dst' = replicate 40 7)"
  by (rule lz4_roundtrip [OF encoder_ok_new])
    (simp_all add: MAX_INPUT_def max_output_def SHIPPED_def MINMATCH_def)

end
