(* ===== verification/Chunks.thy ===== *)
theory Chunks
  imports Crc32c Lz4_Encode_Correct
begin

text \<open>
  The blocks of block.rs: the location of a block, the builder that stages runs
  until a block is full, compression kept only where it pays, and the chunked
  form, whose directory holds the chunks' starts and checksums so that a range is
  read by decoding and verifying only the chunks it touches. The compressor is
  code of another package, a parameter of the definitions; what is relied on is
  the locale \<open>block_codec\<close>, which the engine's own encoder and decoder satisfy.
\<close>

subsection \<open>Locations and the builder\<close>

record block_loc =
  bl_off :: nat
  bl_stored :: nat
  bl_uncompressed :: nat
  bl_cap :: nat
  bl_chunked :: bool
  bl_crc :: u32
  bl_chunk_crc :: bool
  bl_solo :: bool

definition is_plain :: "block_loc \<Rightarrow> bool" where
  "is_plain l \<longleftrightarrow> bl_stored l = bl_uncompressed l"

record block_builder =
  bb_buf :: bytes
  bb_cap :: nat

definition builder_new :: "nat \<Rightarrow> block_builder" where
  "builder_new n = \<lparr>bb_buf = [], bb_cap = n\<rparr>"

definition builder_len :: "block_builder \<Rightarrow> nat" where
  "builder_len b = length (bb_buf b)"

definition builder_is_empty :: "block_builder \<Rightarrow> bool" where
  "builder_is_empty b \<longleftrightarrow> bb_buf b = []"

definition would_overflow :: "block_builder \<Rightarrow> nat \<Rightarrow> bool" where
  "would_overflow b n \<longleftrightarrow> bb_buf b \<noteq> [] \<and> bb_cap b < length (bb_buf b) + n"

definition builder_push :: "block_builder \<Rightarrow> bytes \<Rightarrow> nat \<times> block_builder" where
  "builder_push b extent = (as_u32 (length (bb_buf b)), b\<lparr>bb_buf := bb_buf b @ extent\<rparr>)"

definition builder_take :: "block_builder \<Rightarrow> bytes \<times> block_builder" where
  "builder_take b = (bb_buf b, b\<lparr>bb_buf := []\<rparr>)"

subsection \<open>Compression\<close>

text \<open>
  The compressor: a block of bytes, and the decoding of one into a buffer, the
  whole of which is given; an error is None.
\<close>

type_synonym deflate = "bytes \<Rightarrow> bytes"
type_synonym inflate = "bytes \<Rightarrow> bytes \<Rightarrow> bytes option"

datatype block_error = InvalidData string

definition compress :: "deflate \<Rightarrow> bytes \<Rightarrow> bytes option" where
  "compress deflate src = (let out = deflate src in if length out < length src then Some out else None)"

definition inflate_into :: "inflate \<Rightarrow> bytes \<Rightarrow> bytes \<Rightarrow> nat \<Rightarrow> nat \<Rightarrow> (block_error, bytes) res" where
  "inflate_into inflate src dst lo hi =
    bind_res (lift_res (slice dst lo hi)) (\<lambda>window.
      case inflate src window of
        None \<Rightarrow> Err (InvalidData ''lz4'')
      | Some w \<Rightarrow> lift_res (put dst lo w))"

definition block_decompress_into :: "inflate \<Rightarrow> bytes \<Rightarrow> bytes \<Rightarrow> nat \<Rightarrow> (block_error, bytes) res" where
  "block_decompress_into inflate src dst un =
    (let dst = (if length dst < un then resize dst un 0 else dst) in inflate_into inflate src dst 0 un)"

subsection \<open>Chunks\<close>

definition CHUNK :: nat where "CHUNK = 4096"
definition MAX_CHUNK_CRCS :: nat where "MAX_CHUNK_CRCS = 16"

function chunks :: "nat \<Rightarrow> 'a list \<Rightarrow> 'a list list" where
  "chunks n xs = (if n = 0 \<or> xs = [] then [] else take n xs # chunks n (drop n xs))"
  by pat_completeness auto
termination by (relation "measure (\<lambda>(n, xs). length xs)") auto

declare chunks.simps [simp del]

definition chunk_crcs :: "bytes \<Rightarrow> u32 list option" where
  "chunk_crcs bs =
    (let n = div_ceil (length bs) CHUNK
     in if n = 0 \<or> MAX_CHUNK_CRCS < n then None
        else Some (map crc32 (chunks CHUNK bs) @ replicate (MAX_CHUNK_CRCS - n) 0))"

definition chunk_header_len :: "nat \<Rightarrow> nat" where
  "chunk_header_len n = 8 + 4 * (n + 1) + 4 * n"

text \<open>A chunk of the source as it is stored, and the loop over the chunks.\<close>

definition chunk_body :: "deflate \<Rightarrow> bytes \<Rightarrow> nat \<Rightarrow> nat \<Rightarrow> bytes option" where
  "chunk_body deflate src chunk i =
    do { raw \<leftarrow> slice src (i * chunk) (min ((i + 1) * chunk) (length src));
         Some (case compress deflate raw of Some c \<Rightarrow> c | None \<Rightarrow> raw) }"

fun write_chunks :: "deflate \<Rightarrow> bool \<Rightarrow> bytes \<Rightarrow> nat \<Rightarrow> nat \<Rightarrow> nat list \<Rightarrow> bytes \<Rightarrow> u32 list \<Rightarrow> u32 list
    \<Rightarrow> (bytes \<times> u32 list \<times> u32 list) option" where
  "write_chunks deflate on src chunk header [] out starts crcs = Some (out, starts, crcs)"
| "write_chunks deflate on src chunk header (i # is) out starts crcs =
    do { body \<leftarrow> chunk_body deflate src chunk i;
         write_chunks deflate on src chunk header is (out @ body)
           (starts @ [word_of_nat (length out - header)]) (crcs @ [if on then crc32 body else 0]) }"

fun put_words :: "bytes \<Rightarrow> nat \<Rightarrow> u32 list \<Rightarrow> bytes option" where
  "put_words out at [] = Some out"
| "put_words out at (w # ws) = do { out \<leftarrow> put out at (u32_le w); put_words out (at + 4) ws }"

definition write_chunked_sz :: "deflate \<Rightarrow> bool \<Rightarrow> bytes \<Rightarrow> nat \<Rightarrow> bytes option" where
  "write_chunked_sz deflate on src chunk =
    do { assert_that (chunk \<noteq> 0);
         let n = div_ceil (length src) chunk;
         let header = chunk_header_len n;
         let out = resize (le_bytes 4 (as_u32 chunk) @ le_bytes 4 (as_u32 n)) header 0;
         (out, starts, crcs) \<leftarrow> write_chunks deflate on src chunk header [0..<n] out [] [];
         out \<leftarrow> put_words out 8 (starts @ [word_of_nat (length out - header)]);
         put_words out (8 + 4 * (n + 1)) crcs }"

text \<open>One chunk of a read, and the read.\<close>

definition read_chunk ::
    "inflate \<Rightarrow> bool \<Rightarrow> bytes \<Rightarrow> nat \<Rightarrow> nat \<Rightarrow> nat \<Rightarrow> nat \<Rightarrow> bytes \<Rightarrow> (block_error, bytes) res" where
  "read_chunk inflate verify blk un cs n i dst =
    (let header = chunk_header_len n; crc_base = 8 + 4 * (n + 1)
     in bind_res (lift_res (rd_u32 blk (8 + 4 * i))) (\<lambda>w0.
        bind_res (lift_res (rd_u32 blk (8 + 4 * (i + 1)))) (\<lambda>w1.
        let s0 = unat w0; s1 = unat w1
        in if s1 < s0 \<or> length blk < header + s1 then Err (InvalidData ''chunk offsets out of range'')
           else bind_res (lift_res (slice blk (header + s0) (header + s1))) (\<lambda>raw.
             bind_res (if verify then map_option (\<lambda>c. Inr (crc32 raw \<noteq> c)) (rd_u32 blk (crc_base + 4 * i)) else Ok False) (\<lambda>bad.
             if bad then Err (InvalidData ''chunk checksum mismatch'')
             else let lo = i * cs; hi = min ((i + 1) * cs) un
                  in bind_res (lift_res (usub hi lo)) (\<lambda>len.
                     if length raw = len
                     then bind_res (lift_res (slice dst lo hi)) (\<lambda>_. lift_res (put dst lo raw))
                     else inflate_into inflate raw dst lo hi))))))"

fun read_chunks ::
    "inflate \<Rightarrow> bool \<Rightarrow> bytes \<Rightarrow> nat \<Rightarrow> nat \<Rightarrow> nat \<Rightarrow> nat list \<Rightarrow> bytes \<Rightarrow> (block_error, bytes) res" where
  "read_chunks inflate verify blk un cs n [] dst = Ok dst"
| "read_chunks inflate verify blk un cs n (i # is) dst =
    bind_res (read_chunk inflate verify blk un cs n i dst) (read_chunks inflate verify blk un cs n is)"

definition read_chunked_range ::
    "inflate \<Rightarrow> bool \<Rightarrow> bytes \<Rightarrow> nat \<Rightarrow> nat \<Rightarrow> nat \<Rightarrow> bytes \<Rightarrow> (block_error, bytes) res" where
  "read_chunked_range inflate verify blk un a b dst =
    (if length blk < 8 then Err (InvalidData ''truncated header'')
     else let cs = le_val (take 4 blk); n = le_val (take 4 (drop 4 blk))
          in if cs = 0 \<or> n = 0 \<or> 2 ^ 20 < n then Err (InvalidData ''implausible chunk directory'')
             else if length blk < chunk_header_len n
             then Err (InvalidData ''directory extends past the block'')
             else read_chunks inflate verify blk un cs n [a div cs..<Suc (min ((b - 1) div cs) (n - 1))] dst)"

subsection \<open>What is relied on of the compressor\<close>

locale block_codec =
  fixes deflate :: deflate and inflate :: inflate
  assumes inflate_deflate: "length x \<le> MAX_INPUT \<Longrightarrow> length buf = length x \<Longrightarrow> inflate (deflate x) buf = Some x"
    and inflate_length: "inflate src buf = Some w \<Longrightarrow> length w = length buf"

text \<open>The engine's own encoder, fresh for each block, and its decoder.\<close>

definition zlz4_deflate :: deflate where
  "zlz4_deflate x =
    (case compress_into encoder_new x (replicate (max_output (length x)) 0) SHIPPED of
       Some (Inr (s, out, k)) \<Rightarrow> take k out
     | _ \<Rightarrow> x)"

definition zlz4_inflate :: inflate where
  "zlz4_inflate src buf = (case decompress_into src buf of Some (Inr (w, n)) \<Rightarrow> Some w | _ \<Rightarrow> None)"

interpretation zlz4: block_codec zlz4_deflate zlz4_inflate
proof unfold_locales
  fix x buf :: bytes
  assume x: "length x \<le> MAX_INPUT" "length buf = length x"
  have "lazy_steps SHIPPED \<le> MINMATCH" "seq_cost SHIPPED \<le> 2 ^ 31" by (simp_all add: SHIPPED_def MINMATCH_def)
  then obtain s' out' k where c: "compress_into encoder_new x (replicate (max_output (length x)) 0) SHIPPED = Ok (s', out', k)"
    "\<forall>cap. length x \<le> cap \<longrightarrow> lz4_decode (take k out') cap = Inr x"
    using compress_into_block [OF encoder_ok_new x(1), of "replicate (max_output (length x)) 0" SHIPPED] by auto
  then have "lz4_decode (take (length (take k out')) (take k out')) (length buf) = Inr x"
    using x(2) by (simp only: take_all order_refl simp_thms)
  from decompress_in_decoded [OF order_refl this] obtain w where
    "decompress_into (take k out') buf = Ok (w, length x)" "length w = length buf" "take (length x) w = x"
    by (auto simp: decompress_into_def)
  then show "zlz4_inflate (zlz4_deflate x) buf = Some x"
    using c(1) x(2) by (simp add: zlz4_deflate_def zlz4_inflate_def)
next
  fix src buf w
  assume "zlz4_inflate src buf = Some w"
  then obtain n where "decompress_in src (length src) buf = Ok (w, n)"
    by (auto simp: zlz4_inflate_def decompress_into_def split: option.splits sum.splits)
  then show "length w = length buf"
    using decompress_in_agrees [OF order_refl, of src buf] by (auto split: sum.splits)
qed

subsection \<open>Reading words back\<close>

lemma put_words_ok:
  "at + 4 * length ws \<le> length out \<Longrightarrow> put_words out at ws = Some (blit out at (concat (map u32_le ws)))"
proof (induction ws arbitrary: out at)
  case (Cons w ws)
  have l: "length (concat (map u32_le ws)) = 4 * length ws" by (induction ws) auto
  have "put_words (blit out at (u32_le w)) (at + 4) ws = Some (blit (blit out at (u32_le w)) (at + 4) (concat (map u32_le ws)))"
    by (rule Cons.IH) (use Cons.prems in auto)
  then show ?case using blit_blit [of at "u32_le w" "concat (map u32_le ws)" out] Cons.prems l by simp
qed simp

subsection \<open>The bytes of a chunked block\<close>

definition chunk_of :: "bytes \<Rightarrow> nat \<Rightarrow> nat \<Rightarrow> bytes" where
  "chunk_of src chunk i = take chunk (drop (i * chunk) src)"

definition body_of :: "deflate \<Rightarrow> bytes \<Rightarrow> nat \<Rightarrow> nat \<Rightarrow> bytes" where
  "body_of deflate src chunk i = (case compress deflate (chunk_of src chunk i) of Some c \<Rightarrow> c | None \<Rightarrow> chunk_of src chunk i)"

definition bodies_upto :: "deflate \<Rightarrow> bytes \<Rightarrow> nat \<Rightarrow> nat \<Rightarrow> bytes" where
  "bodies_upto deflate src chunk i = concat (map (body_of deflate src chunk) [0..<i])"

definition chunk_starts :: "deflate \<Rightarrow> bytes \<Rightarrow> nat \<Rightarrow> nat \<Rightarrow> u32 list" where
  "chunk_starts deflate src chunk n = map (\<lambda>i. word_of_nat (length (bodies_upto deflate src chunk i))) [0..<n]"

definition chunk_sums :: "deflate \<Rightarrow> bool \<Rightarrow> bytes \<Rightarrow> nat \<Rightarrow> nat \<Rightarrow> u32 list" where
  "chunk_sums deflate on src chunk n = map (\<lambda>i. if on then crc32 (body_of deflate src chunk i) else 0) [0..<n]"

definition chunk_count :: "bytes \<Rightarrow> nat \<Rightarrow> nat" where
  "chunk_count src chunk = div_ceil (length src) chunk"

lemma bodies_Suc: "bodies_upto deflate src chunk (Suc i) = bodies_upto deflate src chunk i @ body_of deflate src chunk i"
  by (simp add: bodies_upto_def)

lemma bodies_mono: "i \<le> j \<Longrightarrow> length (bodies_upto deflate src chunk i) \<le> length (bodies_upto deflate src chunk j)"
  by (induction j rule: nat_induct) (auto simp: bodies_Suc le_Suc_eq)

lemma bodies_split:
  "i \<le> n \<Longrightarrow> bodies_upto deflate src chunk n
    = bodies_upto deflate src chunk i @ concat (map (body_of deflate src chunk) [i..<n])"
  unfolding bodies_upto_def by (metis concat_append le0 map_append upt_add_eq_append le_add_diff_inverse add_0)

lemma chunk_count_less: "0 < chunk \<Longrightarrow> i < chunk_count src chunk \<longleftrightarrow> i * chunk < length src"
proof -
  assume c: "0 < chunk"
  have "i < (length src + chunk - 1) div chunk \<longleftrightarrow> Suc i * chunk \<le> length src + chunk - 1"
    using c by (metis Suc_le_eq less_eq_div_iff_mult_less_eq)
  then show ?thesis using c by (auto simp: chunk_count_def div_ceil_def)
qed

lemma chunk_body_eq:
  assumes "i < chunk_count src chunk" "0 < chunk"
  shows "chunk_body deflate src chunk i = Some (body_of deflate src chunk i)"
proof -
  have i: "i * chunk < length src" using assms by (simp add: chunk_count_less)
  have "slice src (i * chunk) (min ((i + 1) * chunk) (length src)) = Some (chunk_of src chunk i)"
    using i by (auto simp: slice_def chunk_of_def min_def)
  then show ?thesis by (simp add: chunk_body_def body_of_def)
qed

lemma write_chunks_append:
  "write_chunks deflate on src chunk header (is @ js) out starts crcs =
    do { (out, starts, crcs) \<leftarrow> write_chunks deflate on src chunk header is out starts crcs;
         write_chunks deflate on src chunk header js out starts crcs }"
proof (induction "is" arbitrary: out starts crcs)
  case (Cons i "is")
  then show ?case by (cases "chunk_body deflate src chunk i") simp_all
qed simp

lemma write_chunks_eq:
  assumes "m \<le> chunk_count src chunk" "0 < chunk" "length out = header"
  shows "write_chunks deflate on src chunk header [0..<m] out [] [] =
    Some (out @ bodies_upto deflate src chunk m, chunk_starts deflate src chunk m, chunk_sums deflate on src chunk m)"
  using assms
proof (induction m)
  case 0
  then show ?case by (simp add: bodies_upto_def chunk_starts_def chunk_sums_def)
next
  case (Suc m)
  have "write_chunks deflate on src chunk header [0..<Suc m] out [] [] =
      do { (out, starts, crcs) \<leftarrow> write_chunks deflate on src chunk header [0..<m] out [] [];
           write_chunks deflate on src chunk header [m] out starts crcs }"
    using write_chunks_append [of deflate on src chunk header "[0..<m]" "[m]" out "[]" "[]"] by simp
  then show ?case
    using Suc chunk_body_eq [of m src chunk deflate]
    by (simp add: bodies_Suc chunk_starts_def chunk_sums_def)
qed

definition chunked_block :: "deflate \<Rightarrow> bool \<Rightarrow> bytes \<Rightarrow> nat \<Rightarrow> bytes" where
  "chunked_block deflate on src chunk =
    (let n = chunk_count src chunk
     in le_bytes 4 (as_u32 chunk) @ le_bytes 4 (as_u32 n) @ concat (map u32_le (chunk_starts deflate src chunk (Suc n)))
        @ concat (map u32_le (chunk_sums deflate on src chunk n)) @ bodies_upto deflate src chunk n)"

lemma length_starts [simp]: "length (chunk_starts deflate src chunk n) = n" "length (chunk_sums deflate on src chunk n) = n"
  by (simp_all add: chunk_starts_def chunk_sums_def)

lemma starts_Suc:
  "chunk_starts deflate src chunk (Suc n) = chunk_starts deflate src chunk n @ [word_of_nat (length (bodies_upto deflate src chunk n))]"
  by (simp add: chunk_starts_def)

lemma write_chunked_eq:
  assumes "0 < chunk"
  shows "write_chunked_sz deflate on src chunk = Some (chunked_block deflate on src chunk)"
proof -
  let ?n = "chunk_count src chunk"
  let ?h = "le_bytes 4 (as_u32 chunk) @ le_bytes 4 (as_u32 ?n)" and ?p = "bodies_upto deflate src chunk ?n"
  let ?s = "concat (map u32_le (chunk_starts deflate src chunk (Suc ?n)))"
  let ?c = "concat (map u32_le (chunk_sums deflate on src chunk ?n))"
  let ?out = "resize ?h (chunk_header_len ?n) 0"
  have lo: "length ?out = chunk_header_len ?n" by (simp add: resize_def chunk_header_len_def)
  have ls: "length ?s = 4 * Suc ?n" "length ?c = 4 * ?n" by (simp_all only: length_words length_starts)
  have ro: "?out = ?h @ replicate (length ?s) 0 @ replicate (length ?c) 0"
    unfolding ls by (simp add: resize_def chunk_header_len_def replicate_add [symmetric])
  have b1: "blit (?out @ ?p) 8 ?s = ?h @ ?s @ replicate (length ?c) 0 @ ?p"
    by (simp add: ro blit_def)
  have b2: "blit (?h @ ?s @ replicate (length ?c) 0 @ ?p) (8 + 4 * Suc ?n) ?c = ?h @ ?s @ ?c @ ?p"
    using ls by (simp add: blit_def)
  have p1: "put_words (?out @ ?p) 8 (chunk_starts deflate src chunk (Suc ?n)) = Some (?h @ ?s @ replicate (length ?c) 0 @ ?p)"
    using put_words_ok [of 8 "chunk_starts deflate src chunk (Suc ?n)" "?out @ ?p"] b1 lo by (simp add: chunk_header_len_def)
  have p2: "put_words (?h @ ?s @ replicate (length ?c) 0 @ ?p) (8 + 4 * Suc ?n) (chunk_sums deflate on src chunk ?n)
      = Some (?h @ ?s @ ?c @ ?p)"
    using put_words_ok [of "8 + 4 * Suc ?n" "chunk_sums deflate on src chunk ?n" "?h @ ?s @ replicate (length ?c) 0 @ ?p"] b2 ls
    by simp
  have w: "write_chunks deflate on src chunk (chunk_header_len ?n) [0..<?n] ?out [] [] =
      Some (?out @ ?p, chunk_starts deflate src chunk ?n, chunk_sums deflate on src chunk ?n)"
    by (rule write_chunks_eq) (use assms lo in auto)
  have "write_chunked_sz deflate on src chunk =
     do { out \<leftarrow> put_words (?out @ ?p) 8 (chunk_starts deflate src chunk (Suc ?n));
          put_words out (8 + 4 * Suc ?n) (chunk_sums deflate on src chunk ?n) }"
    unfolding write_chunked_sz_def chunk_count_def [symmetric] using assms w lo by (simp add: starts_Suc Let_def)
  also have "\<dots> = Some (?h @ ?s @ ?c @ ?p)" by (simp only: p1 p2 Option.bind.bind_lunit)
  finally show ?thesis by (simp add: chunked_block_def Let_def)
qed

lemma chunks_nth: "0 < n \<Longrightarrow> i * n < length xs \<Longrightarrow> i < length (chunks n xs) \<and> chunks n xs ! i = take n (drop (i * n) xs)"
proof (induction i arbitrary: xs)
  case 0
  then show ?case by (simp add: chunks.simps [of n xs])
next
  case (Suc i)
  then have "i * n < length (drop n xs)" by simp
  moreover have "xs \<noteq> []" using Suc.prems by auto
  ultimately show ?case using Suc by (simp add: chunks.simps [of n xs] add.commute)
qed

lemma chunk_crcs_nth:
  assumes "chunk_crcs bs = Some row" "j < chunk_count bs CHUNK"
  shows "j < MAX_CHUNK_CRCS" "row ! j = crc32 (chunk_of bs CHUNK j)"
proof -
  have "j * CHUNK < length bs" using assms(2) by (simp add: chunk_count_less CHUNK_def)
  then have "j < length (chunks CHUNK bs)" "chunks CHUNK bs ! j = chunk_of bs CHUNK j"
    using chunks_nth [of CHUNK j bs] by (simp_all add: chunk_of_def CHUNK_def)
  then show "row ! j = crc32 (chunk_of bs CHUNK j)" "j < MAX_CHUNK_CRCS"
    using assms by (auto simp: chunk_crcs_def Let_def nth_append chunk_count_def split: if_splits)
qed

text \<open>What a reader finds in the directory of a block as it was written, payload aside.\<close>

definition directory_ok :: "deflate \<Rightarrow> bool \<Rightarrow> bytes \<Rightarrow> nat \<Rightarrow> bytes \<Rightarrow> bool" where
  "directory_ok deflate on src chunk blk \<longleftrightarrow>
    (let n = chunk_count src chunk
     in length blk = chunk_header_len n + length (bodies_upto deflate src chunk n) \<and>
        le_val (take 4 blk) = chunk \<and> le_val (take 4 (drop 4 blk)) = n \<and>
        (\<forall>i \<le> n. rd_u32 blk (8 + 4 * i) = Some (word_of_nat (length (bodies_upto deflate src chunk i)))) \<and>
        (\<forall>i < n. rd_u32 blk (8 + 4 * (n + 1) + 4 * i) = Some (if on then crc32 (body_of deflate src chunk i) else 0)))"

text \<open>The sizes a chunked block's words can hold and its reader accepts.\<close>

definition chunkable :: "deflate \<Rightarrow> bytes \<Rightarrow> nat \<Rightarrow> bool" where
  "chunkable deflate src chunk \<longleftrightarrow> 0 < chunk \<and> chunk \<le> MAX_INPUT \<and> 0 < length src \<and>
    chunk_count src chunk \<le> 2 ^ 20 \<and> length (bodies_upto deflate src chunk (chunk_count src chunk)) < 2 ^ 32"

lemma body_le: "length (body_of deflate src chunk i) \<le> length (chunk_of src chunk i)"
  by (auto simp: body_of_def compress_def Let_def split: option.splits if_splits)

lemma bodies_le: "length (bodies_upto deflate src chunk i) \<le> min (i * chunk) (length src)"
proof (induction i)
  case 0
  then show ?case by (simp add: bodies_upto_def)
next
  case (Suc i)
  have "length (body_of deflate src chunk i) \<le> min chunk (length src - i * chunk)"
    using body_le [of deflate src chunk i] by (simp add: chunk_of_def)
  moreover have "min chunk (length src - i * chunk) + min (i * chunk) (length src) \<le> min (Suc i * chunk) (length src)" by auto
  ultimately show ?case using Suc unfolding bodies_Suc length_append by linarith
qed

lemma chunkable_CHUNK: "0 < length src \<Longrightarrow> length src < 2 ^ 32 \<Longrightarrow> chunkable deflate src CHUNK"
  using bodies_le [of deflate src CHUNK "chunk_count src CHUNK"]
  by (auto simp: chunkable_def CHUNK_def MAX_INPUT_def chunk_count_def div_ceil_def)

lemma rd_u32_take:
  "at + 4 \<le> k \<Longrightarrow> k \<le> length b \<Longrightarrow> rd_u32 (take k b) at = rd_u32 b at"
  by (simp add: rd_u32_def drop_take min_def)

lemma chunked_directory:
  assumes "chunkable deflate src chunk"
  shows "directory_ok deflate on src chunk (chunked_block deflate on src chunk)"
proof -
  let ?n = "chunk_count src chunk"
  let ?h1 = "le_bytes 4 (as_u32 chunk)" and ?h2 = "le_bytes 4 (as_u32 ?n)"
  let ?s = "concat (map u32_le (chunk_starts deflate src chunk (Suc ?n)))"
  let ?c = "concat (map u32_le (chunk_sums deflate on src chunk ?n))"
  let ?p = "bodies_upto deflate src chunk ?n"
  have b: "chunked_block deflate on src chunk = (?h1 @ ?h2) @ ?s @ ?c @ ?p" by (simp add: chunked_block_def Let_def)
  have c: "as_u32 chunk = chunk" "as_u32 ?n = ?n" using assms by (simp_all add: chunkable_def as_u32_def MAX_INPUT_def)
  have v: "le_val ?h1 = chunk" "le_val ?h2 = ?n"
    unfolding c using assms by (simp_all add: le_val_bytes_id chunkable_def MAX_INPUT_def)
  have ls: "length ?s = 4 * Suc ?n" "length ?c = 4 * ?n" by (simp_all only: length_words length_starts)
  have "rd_u32 ((?h1 @ ?h2) @ ?s @ ?c @ ?p) (8 + 4 * i) = Some (word_of_nat (length (bodies_upto deflate src chunk i)))" if "i \<le> ?n" for i
    using rd_words [of i "chunk_starts deflate src chunk (Suc ?n)" "?h1 @ ?h2" "?c @ ?p"] that
    by (simp add: chunk_starts_def del: upt_Suc)
  moreover have "rd_u32 ((?h1 @ ?h2 @ ?s) @ ?c @ ?p) (8 + 4 * (?n + 1) + 4 * i) = Some (if on then crc32 (body_of deflate src chunk i) else 0)"
    if "i < ?n" for i
    using rd_words [of i "chunk_sums deflate on src chunk ?n" "?h1 @ ?h2 @ ?s" ?p] that ls by (simp add: chunk_sums_def)
  ultimately show ?thesis unfolding directory_ok_def Let_def b using v ls by (simp add: chunk_header_len_def)
qed

lemma chunked_payload:
  assumes "i < chunk_count src chunk"
  shows "take (length (body_of deflate src chunk i)) (drop (chunk_header_len (chunk_count src chunk)
      + length (bodies_upto deflate src chunk i)) (chunked_block deflate on src chunk)) = body_of deflate src chunk i"
proof -
  let ?n = "chunk_count src chunk"
  let ?hd = "le_bytes 4 (as_u32 chunk) @ le_bytes 4 (as_u32 ?n) @ concat (map u32_le (chunk_starts deflate src chunk (Suc ?n)))
      @ concat (map u32_le (chunk_sums deflate on src chunk ?n))"
  have lh: "length ?hd = chunk_header_len ?n"
    unfolding length_append length_words length_starts length_le_bytes by (simp add: chunk_header_len_def)
  have "chunked_block deflate on src chunk = ?hd @ bodies_upto deflate src chunk ?n" by (simp add: chunked_block_def Let_def)
  then have "drop (chunk_header_len ?n + length (bodies_upto deflate src chunk i)) (chunked_block deflate on src chunk)
      = drop (length (bodies_upto deflate src chunk i)) (bodies_upto deflate src chunk ?n)"
    by (metis lh append_eq_conv_conj drop_drop add.commute)
  also have "\<dots> = concat (map (body_of deflate src chunk) [i..<?n])"
    using bodies_split [of i ?n deflate src chunk] assms by simp
  also have "[i..<?n] = i # [Suc i..<?n]" using assms by (simp add: upt_conv_Cons)
  finally show ?thesis by simp
qed

text \<open>A read of arbitrary bytes: it returns, and what it returns has the buffer's length.\<close>

context block_codec
begin

lemma read_chunk_safe:
  assumes "chunk_header_len n \<le> length blk" "i < n" "i * cs \<le> un" "un \<le> length dst"
  shows "\<exists>r. read_chunk inflate verify blk un cs n i dst = Some r \<and> (\<forall>d. r = Inr d \<longrightarrow> length d = length dst)"
proof -
  have rd: "\<exists>w. rd_u32 blk at = Some w" if "at + 4 \<le> chunk_header_len n" for at
    using that assms(1) by (simp add: rd_u32_def)
  obtain w0 where w0: "rd_u32 blk (8 + 4 * i) = Some w0" using rd [of "8 + 4 * i"] assms(2) by (auto simp: chunk_header_len_def)
  obtain w1 where w1: "rd_u32 blk (8 + 4 * (i + 1)) = Some w1" using rd [of "8 + 4 * (i + 1)"] assms(2) by (auto simp: chunk_header_len_def)
  obtain w2 where w2: "rd_u32 blk (8 + 4 * (n + 1) + 4 * i) = Some w2"
    using rd [of "8 + 4 * (n + 1) + 4 * i"] assms(2) by (auto simp: chunk_header_len_def)
  let ?hi = "min ((i + 1) * cs) un"
  have hi: "i * cs \<le> ?hi" "?hi \<le> length dst" using assms(3,4) by auto
  show ?thesis
  proof (cases "unat w1 < unat w0 \<or> length blk < chunk_header_len n + unat w1")
    case True
    then show ?thesis using w0 w1 by (simp add: read_chunk_def Let_def)
  next
    case False
    let ?raw = "take (unat w1 - unat w0) (drop (chunk_header_len n + unat w0) blk)"
    have sl: "slice blk (chunk_header_len n + unat w0) (chunk_header_len n + unat w1) = Some ?raw" using False by simp
    show ?thesis
    proof (cases "verify \<and> crc32 ?raw \<noteq> w2")
      case True
      then show ?thesis using False w0 w1 w2 sl by (simp add: read_chunk_def Let_def)
    next
      case ok: False
      have e: "read_chunk inflate verify blk un cs n i dst =
          (if length ?raw = ?hi - i * cs
           then bind_res (lift_res (slice dst (i * cs) ?hi)) (\<lambda>_. lift_res (put dst (i * cs) ?raw))
           else inflate_into inflate ?raw dst (i * cs) ?hi)"
        using False w0 w1 w2 sl ok hi by (auto simp: read_chunk_def Let_def)
      show ?thesis
      proof (cases "length ?raw = ?hi - i * cs")
        case True
        moreover have "i * cs + length ?raw \<le> length dst" using True hi by linarith
        ultimately show ?thesis unfolding e using hi by simp
      next
        case ne: False
        show ?thesis
        proof (cases "inflate ?raw (take (?hi - i * cs) (drop (i * cs) dst))")
          case None
          then show ?thesis unfolding e using ne hi by (simp add: inflate_into_def)
        next
          case (Some w)
          have "length w = ?hi - i * cs" using inflate_length [OF Some] hi by simp
          then show ?thesis unfolding e using Some ne hi by (simp add: inflate_into_def)
        qed
      qed
    qed
  qed
qed

lemma read_chunks_safe:
  assumes "chunk_header_len n \<le> length blk" "\<forall>i \<in> set is. i < n \<and> i * cs \<le> un" "un \<le> length dst"
  shows "\<exists>r. read_chunks inflate verify blk un cs n is dst = Some r \<and> (\<forall>d. r = Inr d \<longrightarrow> length d = length dst)"
  using assms
proof (induction "is" arbitrary: dst)
  case (Cons i "is")
  obtain r where r: "read_chunk inflate verify blk un cs n i dst = Some r" "\<forall>d. r = Inr d \<longrightarrow> length d = length dst"
    using read_chunk_safe [OF Cons.prems(1), of i cs un dst verify] Cons.prems(2,3) by auto
  show ?case
  proof (cases r)
    case (Inl e)
    then show ?thesis using r by simp
  next
    case (Inr d)
    then show ?thesis using r Cons.IH [of d] Cons.prems by auto
  qed
qed simp

lemma read_chunked_safe:
  assumes "a \<le> b" "b \<le> un" "un \<le> length dst"
  shows "\<exists>r. read_chunked_range inflate verify blk un a b dst = Some r \<and> (\<forall>d. r = Inr d \<longrightarrow> length d = length dst)"
proof -
  define cs n where "cs = le_val (take 4 blk)" and "n = le_val (take 4 (drop 4 blk))"
  let ?is = "[a div cs..<Suc (min ((b - 1) div cs) (n - 1))]"
  show ?thesis
  proof (cases "length blk < 8 \<or> cs = 0 \<or> n = 0 \<or> 2 ^ 20 < n \<or> length blk < chunk_header_len n")
    case True
    then show ?thesis by (auto simp: read_chunked_range_def cs_def n_def Let_def)
  next
    case False
    have "\<forall>i \<in> set ?is. i < n \<and> i * cs \<le> un"
    proof
      fix i assume "i \<in> set ?is"
      then have i: "i \<le> (b - 1) div cs" "i \<le> n - 1" by auto
      have "i * cs \<le> (b - 1) div cs * cs" using i(1) by (rule mult_le_mono1)
      also have "\<dots> \<le> b - 1" by (rule div_times_less_eq_dividend)
      finally show "i < n \<and> i * cs \<le> un" using i(2) False assms(2) by auto
    qed
    from read_chunks_safe [OF _ this assms(3), of blk verify] False
    have "\<exists>r. read_chunks inflate verify blk un cs n ?is dst = Some r \<and> (\<forall>d. r = Inr d \<longrightarrow> length d = length dst)" by auto
    then show ?thesis using False by (simp add: read_chunked_range_def cs_def [symmetric] n_def [symmetric] Let_def)
  qed
qed

end

subsection \<open>Reading a block as it was written\<close>

lemma length_chunk_of:
  "length (chunk_of src chunk i) = min ((i + 1) * chunk) (length src) - i * chunk"
  by (auto simp: chunk_of_def min_def)

text \<open>The stored bytes of chunk \<open>i\<close> as a reader of the block cuts them.\<close>

definition stored_chunk :: "deflate \<Rightarrow> bytes \<Rightarrow> nat \<Rightarrow> bytes \<Rightarrow> nat \<Rightarrow> bytes" where
  "stored_chunk deflate src chunk blk i =
    take (length (body_of deflate src chunk i))
      (drop (chunk_header_len (chunk_count src chunk) + length (bodies_upto deflate src chunk i)) blk)"

lemma directory_reads:
  assumes c: "chunkable deflate src chunk" and d: "directory_ok deflate on src chunk blk" and i: "i < chunk_count src chunk"
  shows "\<exists>w0 w1. rd_u32 blk (8 + 4 * i) = Some w0 \<and> rd_u32 blk (8 + 4 * (i + 1)) = Some w1 \<and> unat w0 \<le> unat w1 \<and>
    chunk_header_len (chunk_count src chunk) + unat w1 \<le> length blk \<and>
    slice blk (chunk_header_len (chunk_count src chunk) + unat w0) (chunk_header_len (chunk_count src chunk) + unat w1)
      = Some (stored_chunk deflate src chunk blk i)"
proof -
  let ?n = "chunk_count src chunk" and ?s = "\<lambda>i. length (bodies_upto deflate src chunk i)"
  have lt: "?s j < 2 ^ 32" "?s j \<le> ?s ?n" if "j \<le> ?n" for j
    using bodies_mono [OF that, of deflate src chunk] c by (auto simp: chunkable_def)
  have u: "unat (word_of_nat (?s j) :: u32) = ?s j" if "j \<le> ?n" for j using lt [OF that] by (simp add: unat_of_nat)
  have r: "rd_u32 blk (8 + 4 * j) = Some (word_of_nat (?s j))" if "j \<le> ?n" for j
    using d that by (simp add: directory_ok_def Let_def)
  have l: "length blk = chunk_header_len ?n + ?s ?n" using d by (simp add: directory_ok_def Let_def)
  have "?s (Suc i) = ?s i + length (body_of deflate src chunk i)" by (simp add: bodies_Suc)
  then show ?thesis
    using r [of i] r [of "Suc i"] u [of i] u [of "Suc i"] lt [of "Suc i"] i l
    by (simp add: stored_chunk_def)
qed

context block_codec
begin

lemma read_chunk_bad:
  assumes c: "chunkable deflate src chunk" and d: "directory_ok deflate True src chunk blk" and i: "i < chunk_count src chunk"
    and bad: "crc32 (stored_chunk deflate src chunk blk i) \<noteq> crc32 (body_of deflate src chunk i)"
  shows "read_chunk inflate True blk un chunk (chunk_count src chunk) i dst = Err (InvalidData ''chunk checksum mismatch'')"
proof -
  obtain w0 w1 where w: "rd_u32 blk (8 + 4 * i) = Some w0" "rd_u32 blk (8 + 4 * (i + 1)) = Some w1" "unat w0 \<le> unat w1"
    "chunk_header_len (chunk_count src chunk) + unat w1 \<le> length blk"
    "slice blk (chunk_header_len (chunk_count src chunk) + unat w0) (chunk_header_len (chunk_count src chunk) + unat w1)
      = Some (stored_chunk deflate src chunk blk i)"
    using directory_reads [OF c d i] by blast
  have "rd_u32 blk (8 + 4 * (chunk_count src chunk + 1) + 4 * i) = Some (crc32 (body_of deflate src chunk i))"
    using d i by (simp add: directory_ok_def Let_def)
  then show ?thesis using w bad by (simp add: read_chunk_def Let_def)
qed

lemma read_chunk_good:
  assumes c: "chunkable deflate src chunk" and d: "directory_ok deflate on src chunk blk" and i: "i < chunk_count src chunk"
    and good: "stored_chunk deflate src chunk blk i = body_of deflate src chunk i" and v: "verify \<longrightarrow> on"
    and dst: "length src \<le> length dst"
  shows "read_chunk inflate verify blk (length src) chunk (chunk_count src chunk) i dst =
    Ok (blit dst (i * chunk) (chunk_of src chunk i))"
proof -
  obtain w0 w1 where w: "rd_u32 blk (8 + 4 * i) = Some w0" "rd_u32 blk (8 + 4 * (i + 1)) = Some w1" "unat w0 \<le> unat w1"
    "chunk_header_len (chunk_count src chunk) + unat w1 \<le> length blk"
    "slice blk (chunk_header_len (chunk_count src chunk) + unat w0) (chunk_header_len (chunk_count src chunk) + unat w1)
      = Some (body_of deflate src chunk i)"
    using directory_reads [OF c d i] good by auto
  let ?hi = "min ((i + 1) * chunk) (length src)" and ?raw = "chunk_of src chunk i" and ?body = "body_of deflate src chunk i"
  have "rd_u32 blk (8 + 4 * (chunk_count src chunk + 1) + 4 * i) = Some (if on then crc32 ?body else 0)"
    using d i by (simp add: directory_ok_def Let_def)
  moreover have ic: "i * chunk < length src" using i c by (simp add: chunk_count_less chunkable_def)
  ultimately have e: "read_chunk inflate verify blk (length src) chunk (chunk_count src chunk) i dst =
      (if length ?body = ?hi - i * chunk
       then bind_res (lift_res (slice dst (i * chunk) ?hi)) (\<lambda>_. lift_res (put dst (i * chunk) ?body))
       else inflate_into inflate ?body dst (i * chunk) ?hi)"
    using w v by (auto simp: read_chunk_def Let_def)
  have l: "length ?raw = ?hi - i * chunk" by (rule length_chunk_of)
  have hi: "i * chunk \<le> ?hi" "?hi \<le> length dst" using ic dst by auto
  show ?thesis
  proof (cases "compress deflate ?raw")
    case None
    then have "?body = ?raw" by (simp add: body_of_def)
    moreover have "i * chunk + length ?raw \<le> length dst" using l hi by linarith
    ultimately show ?thesis unfolding e using l hi by simp
  next
    case (Some cs)
    then have b: "?body = deflate ?raw" "length ?body < length ?raw" by (auto simp: body_of_def compress_def Let_def split: if_splits)
    have "length ?raw \<le> MAX_INPUT" using c by (simp add: chunk_of_def chunkable_def min_def)
    moreover have "length (take (?hi - i * chunk) (drop (i * chunk) dst)) = length ?raw" using l hi by simp
    ultimately have "inflate ?body (take (?hi - i * chunk) (drop (i * chunk) dst)) = Some ?raw"
      unfolding b(1) by (rule inflate_deflate)
    moreover have "i * chunk + length ?raw \<le> length dst" using l hi by linarith
    ultimately show ?thesis unfolding e using b(2) l hi by (simp add: inflate_into_def)
  qed
qed

lemma read_chunks_good:
  assumes c: "chunkable deflate src chunk" and d: "directory_ok deflate on src chunk blk" and v: "verify \<longrightarrow> on"
    and good: "\<forall>i < chunk_count src chunk. stored_chunk deflate src chunk blk i = body_of deflate src chunk i"
    and dst: "length src \<le> length dst" and fl: "f + m \<le> chunk_count src chunk"
  shows "\<exists>d. read_chunks inflate verify blk (length src) chunk (chunk_count src chunk) [f..<f + m] dst = Ok d \<and>
    length d = length dst \<and>
    (\<forall>k < length dst. d ! k = (if f * chunk \<le> k \<and> k < (f + m) * chunk \<and> k < length src then src ! k else dst ! k))"
  using dst fl
proof (induction m arbitrary: f dst)
  case 0
  then show ?case by auto
next
  case (Suc m)
  have "f < chunk_count src chunk" using Suc.prems by simp
  moreover from this have "f * chunk < length src" using c chunk_count_less [of chunk f src] by (simp add: chunkable_def)
  ultimately have f: "f < chunk_count src chunk" "f * chunk < length src" by simp_all
  let ?d1 = "blit dst (f * chunk) (chunk_of src chunk f)"
  have l: "length (chunk_of src chunk f) = min ((f + 1) * chunk) (length src) - f * chunk" by (rule length_chunk_of)
  then have fit: "f * chunk + length (chunk_of src chunk f) \<le> length dst" using f Suc.prems(1) by (auto simp: min_def)
  have r: "read_chunk inflate verify blk (length src) chunk (chunk_count src chunk) f dst = Ok ?d1"
    using read_chunk_good [OF c d f(1) _ v Suc.prems(1)] good f(1) by blast
  obtain d' where d': "read_chunks inflate verify blk (length src) chunk (chunk_count src chunk) [Suc f..<Suc f + m] ?d1 = Ok d'"
    "length d' = length ?d1"
    "\<forall>k < length ?d1. d' ! k = (if Suc f * chunk \<le> k \<and> k < (Suc f + m) * chunk \<and> k < length src then src ! k else ?d1 ! k)"
    using Suc.IH [of ?d1 "Suc f"] Suc.prems fit by auto
  have "[f..<f + Suc m] = f # [Suc f..<Suc f + m]" by (simp add: upt_conv_Cons)
  then have "read_chunks inflate verify blk (length src) chunk (chunk_count src chunk) [f..<f + Suc m] dst = Ok d'"
    using r d'(1) by simp
  moreover have "d' ! k = (if f * chunk \<le> k \<and> k < (f + Suc m) * chunk \<and> k < length src then src ! k else dst ! k)"
    if k: "k < length dst" for k
  proof -
    have k1: "k < length ?d1" using k fit by simp
    have n1: "?d1 ! k = (if f * chunk \<le> k \<and> k < f * chunk + length (chunk_of src chunk f) then chunk_of src chunk f ! (k - f * chunk) else dst ! k)"
      using nth_blit [OF fit k] .
    have n2: "chunk_of src chunk f ! (k - f * chunk) = src ! k" if "f * chunk \<le> k" "k < f * chunk + length (chunk_of src chunk f)"
      using that by (simp add: chunk_of_def)
    have e: "k < f * chunk + length (chunk_of src chunk f) \<longleftrightarrow> k < Suc f * chunk \<and> k < length src" if "f * chunk \<le> k"
      using l f(2) that by (auto simp: min_def)
    define A B C where "A = f * chunk" and "B = Suc f * chunk" and "C = (f + Suc m) * chunk"
    have le: "A \<le> B" "B \<le> C" unfolding A_def B_def C_def by (rule mult_le_mono1, simp)+
    have dk: "d' ! k = (if B \<le> k \<and> k < C \<and> k < length src then src ! k else ?d1 ! k)"
      using d'(3) k1 by (simp add: B_def C_def)
    show ?thesis
      using dk n1 n2 e le unfolding A_def [symmetric] B_def [symmetric] C_def [symmetric]
      by (cases "A \<le> k"; cases "k < B") auto
  qed
  ultimately show ?case using d'(2) fit by auto
qed

lemma read_chunked_good:
  assumes c: "chunkable deflate src chunk" and v: "verify \<longrightarrow> on" and ab: "a < b" "b \<le> length src" "length src \<le> length dst"
  shows "\<exists>d. read_chunked_range inflate verify (chunked_block deflate on src chunk) (length src) a b dst = Ok d \<and>
    length d = length dst \<and> take (b - a) (drop a d) = take (b - a) (drop a src) \<and>
    (\<forall>k. a div chunk * chunk \<le> k \<and> k < Suc ((b - 1) div chunk) * chunk \<and> k < length src \<longrightarrow> d ! k = src ! k)"
proof -
  let ?blk = "chunked_block deflate on src chunk" and ?n = "chunk_count src chunk"
  have d: "directory_ok deflate on src chunk ?blk" by (rule chunked_directory [OF c])
  have ch: "0 < chunk" "?n \<noteq> 0" "?n \<le> 2 ^ 20" using c chunk_count_less [of chunk 0 src] by (auto simp: chunkable_def)
  have good: "\<forall>i < ?n. stored_chunk deflate src chunk ?blk i = body_of deflate src chunk i"
    using chunked_payload by (simp add: stored_chunk_def)
  have "(b - 1) div chunk * chunk \<le> b - 1" by (rule div_times_less_eq_dividend)
  then have "(b - 1) div chunk * chunk < length src" using ab by linarith
  then have "(b - 1) div chunk < ?n" using ch(1) by (simp only: chunk_count_less)
  then have last: "min ((b - 1) div chunk) (?n - 1) = (b - 1) div chunk" by auto
  have fl: "a div chunk \<le> (b - 1) div chunk" using ab by (intro div_le_mono) simp
  define m where "m = Suc ((b - 1) div chunk) - a div chunk"
  have m: "Suc ((b - 1) div chunk) = a div chunk + m" "a div chunk + m \<le> ?n" using fl \<open>(b - 1) div chunk < ?n\<close> by (simp_all add: m_def)
  have hd: "le_val (take 4 ?blk) = chunk" "le_val (take 4 (drop 4 ?blk)) = ?n" "\<not> length ?blk < chunk_header_len ?n" "\<not> length ?blk < 8"
    using d by (simp_all add: directory_ok_def Let_def chunk_header_len_def)
  have r: "read_chunked_range inflate verify ?blk (length src) a b dst
      = read_chunks inflate verify ?blk (length src) chunk ?n [a div chunk..<a div chunk + m] dst"
    using hd ch by (simp add: read_chunked_range_def Let_def last m(1) [symmetric] del: upt_Suc One_nat_def)
  obtain d' where d': "read_chunks inflate verify ?blk (length src) chunk ?n [a div chunk..<a div chunk + m] dst = Ok d'"
    "length d' = length dst"
    "\<forall>k < length dst. d' ! k = (if a div chunk * chunk \<le> k \<and> k < (a div chunk + m) * chunk \<and> k < length src then src ! k else dst ! k)"
    using read_chunks_good [OF c d v good ab(3) m(2)] by blast
  have "b \<le> (a div chunk + m) * chunk"
    unfolding m(1) [symmetric] using dividend_less_div_times [OF ch(1), of "b - 1"] unfolding mult_Suc by linarith
  then have "d' ! k = src ! k" if "a \<le> k" "k < b" for k
    using that d'(3) ab div_times_less_eq_dividend [of a chunk] by (simp add: le_trans [of "a div chunk * chunk" a k])
  then have "take (b - a) (drop a d') = take (b - a) (drop a src)"
    using d'(2) ab by (intro nth_equalityI) auto
  moreover have "\<forall>k. a div chunk * chunk \<le> k \<and> k < Suc ((b - 1) div chunk) * chunk \<and> k < length src \<longrightarrow> d' ! k = src ! k"
    unfolding m(1) using d'(3) ab(3) by (simp add: less_le_trans)
  ultimately show ?thesis using r d'(1,2) by (intro exI [of _ d']) (simp del: One_nat_def mult_Suc)
qed

lemma read_chunks_err:
  assumes "chunk_header_len n \<le> length blk" "\<forall>i \<in> set is. i < n \<and> i * cs \<le> un" "un \<le> length dst"
    and "i \<in> set is" "\<And>dst. \<exists>e. read_chunk inflate verify blk un cs n i dst = Err e"
  shows "\<exists>e. read_chunks inflate verify blk un cs n is dst = Err e"
  using assms
proof (induction "is" arbitrary: dst)
  case (Cons j "is")
  obtain r where r: "read_chunk inflate verify blk un cs n j dst = Some r" "\<forall>d. r = Inr d \<longrightarrow> length d = length dst"
    using read_chunk_safe [OF Cons.prems(1), of j cs un dst verify] Cons.prems(2,3) by auto
  show ?case
  proof (cases r)
    case (Inl e)
    then show ?thesis using r by simp
  next
    case (Inr d)
    then have "j \<noteq> i" using r Cons.prems(5) [of dst] by auto
    then show ?thesis using Cons.IH [of d] Cons.prems r Inr by auto
  qed
qed simp

lemma read_chunked_damaged:
  assumes c: "chunkable deflate src chunk" and i: "a div chunk \<le> i" "i \<le> (b - 1) div chunk" "i < chunk_count src chunk"
    and ab: "a < b" "b \<le> length src" "length src \<le> length dst"
    and d: "directory_ok deflate True src chunk blk"
    and bad: "crc32 (stored_chunk deflate src chunk blk i) \<noteq> crc32 (body_of deflate src chunk i)"
  shows "\<exists>e. read_chunked_range inflate True blk (length src) a b dst = Err e"
proof -
  let ?n = "chunk_count src chunk"
  let ?is = "[a div chunk..<Suc (min ((b - 1) div chunk) (?n - 1))]"
  have ch: "0 < chunk" "?n \<noteq> 0" "?n \<le> 2 ^ 20" using c chunk_count_less [of chunk 0 src] by (auto simp: chunkable_def)
  have hd: "le_val (take 4 blk) = chunk" "le_val (take 4 (drop 4 blk)) = ?n" "chunk_header_len ?n \<le> length blk" "\<not> length blk < 8"
    using d by (simp_all add: directory_ok_def Let_def chunk_header_len_def)
  have r: "read_chunked_range inflate True blk (length src) a b dst = read_chunks inflate True blk (length src) chunk ?n ?is dst"
    using hd ch by (simp add: read_chunked_range_def Let_def del: upt_Suc)
  have "i \<in> set ?is" using i by auto
  moreover have "\<forall>j \<in> set ?is. j < ?n \<and> j * chunk \<le> length src"
  proof
    fix j assume "j \<in> set ?is"
    then have "j < ?n" using ch(2) by auto
    then show "j < ?n \<and> j * chunk \<le> length src" using ch(1) chunk_count_less [of chunk j src] by simp
  qed
  ultimately show ?thesis
    unfolding r using read_chunk_bad [OF c d i(3) bad] hd(3) ab(3) by (intro read_chunks_err) blast+
qed

end

subsection \<open>Properties\<close>

lemma rd_u32_blit:
  "p + 4 \<le> at \<Longrightarrow> at + length w \<le> length b \<Longrightarrow> rd_u32 (blit b at w) p = rd_u32 b p"
  using rd_u32_take [of p at b] rd_u32_take [of p at "blit b at w"] by (simp add: take_blit_le)

lemma directory_blit:
  assumes "directory_ok deflate on src chunk blk" "chunk_header_len (chunk_count src chunk) \<le> at" "at + length w \<le> length blk"
  shows "directory_ok deflate on src chunk (blit blk at w)"
proof -
  let ?n = "chunk_count src chunk"
  have h: "8 + 4 * (?n + 1) + 4 * ?n \<le> at" using assms(2) by (simp add: chunk_header_len_def)
  have "rd_u32 (blit blk at w) p = rd_u32 blk p" if "p + 4 \<le> chunk_header_len ?n" for p
    using that assms by (intro rd_u32_blit) auto
  moreover have "take 4 (blit blk at w) = take 4 blk" using h assms(3) by (intro take_blit_le) auto
  moreover have "take 4 (drop 4 (blit blk at w)) = take 4 (drop 4 blk)"
  proof -
    have "take 4 (drop 4 (blit blk at w)) = drop 4 (take 8 (blit blk at w))" by (simp add: drop_take)
    also have "take 8 (blit blk at w) = take 8 blk" using h assms(3) by (intro take_blit_le) auto
    finally show ?thesis by (simp add: drop_take)
  qed
  ultimately show ?thesis
    using assms(1,3) unfolding directory_ok_def Let_def by (simp add: chunk_header_len_def)
qed

text \<open>
  C13: A block written in chunks is read back: any range of the source, from a
  buffer that has room for the source, with the checksums verified or not, whatever
  compressor stands behind the chunks so long as it decodes what it encodes. Only
  the buffer's bytes of the chunks the range touches change.
\<close>

theorem chunked_roundtrip:
  assumes "block_codec deflate inflate" and "chunkable deflate src chunk" and "verify \<longrightarrow> on"
    and "a < b" and "b \<le> length src" and "length src \<le> length dst"
  shows "\<exists>blk d. write_chunked_sz deflate on src chunk = Some blk \<and>
    read_chunked_range inflate verify blk (length src) a b dst = Ok d \<and> length d = length dst \<and>
    take (b - a) (drop a d) = take (b - a) (drop a src)"
proof -
  have "0 < chunk" using assms(2) by (simp add: chunkable_def)
  then show ?thesis
    using block_codec.read_chunked_good [OF assms] write_chunked_eq by blast
qed

theorem chunked_roundtrip_witness:
  "\<exists>blk d. write_chunked_sz (\<lambda>x. x) True [1, 2, 3, 4, 5] 2 = Some blk \<and>
    read_chunked_range (\<lambda>src buf. if length src = length buf then Some src else None) True blk (length [1, 2, 3, 4, 5 :: byte]) 1 4
      (replicate 5 0) = Ok d \<and> length d = length (replicate 5 (0 :: byte)) \<and>
    take (4 - 1) (drop 1 d) = take (4 - 1) (drop 1 [1, 2, 3, 4, 5])"
proof (rule chunked_roundtrip)
  show "block_codec (\<lambda>x. x) (\<lambda>src buf. if length src = length buf then Some src else None)"
    by unfold_locales (auto split: if_splits)
  show "chunkable (\<lambda>x. x) [1, 2, 3, 4, 5] 2"
    by (simp add: chunkable_def MAX_INPUT_def chunk_count_def div_ceil_def bodies_upto_def body_of_def compress_def
        chunk_of_def numeral_3_eq_3)
qed simp_all

text \<open>
  C28: Damage to a chunk is noticed by every read that touches it. Overwriting up
  to four consecutive stored bytes of a chunk of a checksummed block, so that they
  change, makes the verified read of any range that touches the chunk an error.
\<close>

theorem chunk_damage_detected:
  assumes codec: "block_codec deflate inflate" and c: "chunkable deflate src chunk"
    and blk: "write_chunked_sz deflate True src chunk = Some blk"
    and at: "chunk_header_len (chunk_count src chunk) + length (bodies_upto deflate src chunk i) \<le> at"
      "at + length w \<le> chunk_header_len (chunk_count src chunk) + length (bodies_upto deflate src chunk (Suc i))"
    and w: "length w \<le> 4" "blit blk at w \<noteq> blk"
    and i: "i < chunk_count src chunk" "a div chunk \<le> i" "i \<le> (b - 1) div chunk"
    and ab: "a < b" "b \<le> length src" "length src \<le> length dst"
  shows "\<exists>e. read_chunked_range inflate True (blit blk at w) (length src) a b dst = Err e"
proof -
  let ?n = "chunk_count src chunk" and ?s = "length (bodies_upto deflate src chunk i)" and ?body = "body_of deflate src chunk i"
  have "0 < chunk" using c by (simp add: chunkable_def)
  then have b: "blk = chunked_block deflate True src chunk" using blk write_chunked_eq by simp
  have d: "directory_ok deflate True src chunk blk" unfolding b by (rule chunked_directory [OF c])
  have s1: "length (bodies_upto deflate src chunk (Suc i)) = ?s + length ?body" by (simp add: bodies_Suc)
  have len: "chunk_header_len ?n + ?s + length ?body \<le> length blk"
    using d bodies_mono [of "Suc i" ?n deflate src chunk] i(1) s1 by (simp add: directory_ok_def Let_def)
  have fit: "at + length w \<le> length blk" using at(2) s1 len by linarith
  have st: "stored_chunk deflate src chunk blk i = ?body" unfolding b stored_chunk_def by (rule chunked_payload [OF i(1)])
  let ?p = "chunk_header_len ?n + ?s"
  have sd: "stored_chunk deflate src chunk (blit blk at w) i = blit ?body (at - ?p) w"
    unfolding stored_chunk_def
    using take_drop_blit [OF fit at(1), of "length ?body"] at(2) s1 len st by (simp add: stored_chunk_def)
  have inb: "at - ?p + length w \<le> length ?body" using at s1 by linarith
  have ne: "blit ?body (at - ?p) w \<noteq> ?body"
    using blit_window_changes [OF fit at(1), of "length ?body"] at(2) s1 len w(2) st by (simp add: stored_chunk_def)
  show ?thesis
    by (rule block_codec.read_chunked_damaged [OF codec c i(2,3,1) ab directory_blit [OF d _ fit]])
      (use at crc.blit_noticed [OF inb w(1) ne] sd in auto)
qed

theorem chunk_damage_detected_witness:
  "\<exists>e. read_chunked_range (\<lambda>src buf. if length src = length buf then Some src else None) True
    (blit (chunked_block (\<lambda>x. x) True [1, 2, 3, 4, 5] 2) 38 [9]) (length [1, 2, 3, 4, 5 :: byte]) 2 3 (replicate 5 0) = Err e"
proof (rule chunk_damage_detected)
  show "block_codec (\<lambda>x. x) (\<lambda>src buf. if length src = length buf then Some src else None)"
    by unfold_locales (auto split: if_splits)
  show "chunkable (\<lambda>x. x) [1, 2, 3, 4, 5] 2"
    by (simp add: chunkable_def MAX_INPUT_def chunk_count_def div_ceil_def bodies_upto_def body_of_def compress_def
        chunk_of_def numeral_3_eq_3)
  show "write_chunked_sz (\<lambda>x. x) True [1, 2, 3, 4, 5] 2 = Some (chunked_block (\<lambda>x. x) True [1, 2, 3, 4, 5] 2)"
    by (rule write_chunked_eq) simp
  show "chunk_header_len (chunk_count [1, 2, 3, 4, 5 :: byte] 2) + length (bodies_upto (\<lambda>x. x) [1, 2, 3, 4, 5] 2 1) \<le> 38"
    "38 + length [9 :: byte] \<le> chunk_header_len (chunk_count [1, 2, 3, 4, 5 :: byte] 2) + length (bodies_upto (\<lambda>x. x) [1, 2, 3, 4, 5] 2 (Suc 1))"
    by (simp_all add: chunk_count_def div_ceil_def bodies_upto_def body_of_def compress_def chunk_of_def chunk_header_len_def)
  let ?b = "chunked_block (\<lambda>x. x) True [1, 2, 3, 4, 5] 2"
  have "take 2 (drop 38 ?b) = [3, 4]"
    using chunked_payload [of 1 "[1, 2, 3, 4, 5]" 2 "\<lambda>x. x" True]
    by (simp add: chunk_count_def div_ceil_def bodies_upto_def body_of_def compress_def chunk_of_def chunk_header_len_def
        numeral_2_eq_2 [symmetric])
  then have b: "?b ! 38 = 3" "38 < length ?b" by (metis list.sel(1) hd_drop_conv_nth hd_take drop_eq_Nil list.distinct(1) not_le take_eq_Nil zero_less_numeral)+
  then show "blit ?b 38 [9] \<noteq> ?b" using nth_blit [of 38 "[9]" ?b 38] by auto
  show "1 < chunk_count [1, 2, 3, 4, 5 :: byte] 2" by (simp add: chunk_count_def div_ceil_def)
qed simp_all

text \<open>
  C31: Reading a range of bytes that may not be a chunked block at all never
  panics: whatever the bytes, the range lying in the decoded length and the
  buffer having room for it, the read returns, an error or a buffer of the same
  length.
\<close>

theorem read_chunked_no_panic:
  assumes "block_codec deflate inflate" and "a \<le> b" and "b \<le> un" and "un \<le> length dst"
  shows "\<exists>r. read_chunked_range inflate verify blk un a b dst = Some r \<and> (\<forall>d. r = Inr d \<longrightarrow> length d = length dst)"
  using assms by (rule block_codec.read_chunked_safe)

theorem read_chunked_no_panic_witness:
  "\<exists>r. read_chunked_range zlz4_inflate True (replicate 30 1) 5 0 3 (replicate 5 0) = Some r \<and>
    (\<forall>d. r = Inr d \<longrightarrow> length d = length (replicate 5 (0 :: byte)))"
  by (rule read_chunked_no_panic [OF zlz4.block_codec_axioms]) simp_all

end
