(* ===== verification/Block_Table.thy ===== *)
theory Block_Table
  imports Chunks
begin

text \<open>
  The block table of flatindex.rs: a header, one fixed-size entry for each block
  and one row of chunk checksums for each, encoded into a section and read out of
  a mapped one in place, with every bound and the alignment of the mapping checked
  at each access. Integers are little-endian, as on every target of the source
  where the native order is used.
\<close>

subsection \<open>Entries\<close>

definition BLK_MAGIC :: u32 where "BLK_MAGIC = 0x4B4C4253"
definition BLK_HEADER :: nat where "BLK_HEADER = 16"

record block_rec =
  r_off :: nat
  r_stored :: nat
  r_uncompressed :: nat
  r_cap :: nat
  r_crc :: u32
  r_flags :: byte

definition BLK_ENTRY :: nat where "BLK_ENTRY = 8 + 4 + 4 + 4 + 4 + 1 + 7"
definition CRC_ROW :: nat where "CRC_ROW = MAX_CHUNK_CRCS * 4"

definition to_loc :: "block_rec \<Rightarrow> block_loc" where
  "to_loc r = \<lparr>bl_off = r_off r, bl_stored = r_stored r, bl_uncompressed = r_uncompressed r, bl_cap = r_cap r,
     bl_chunked = (r_flags r AND 2 \<noteq> 0), bl_crc = r_crc r, bl_chunk_crc = (r_flags r AND 4 \<noteq> 0),
     bl_solo = (r_flags r AND 1 \<noteq> 0)\<rparr>"

definition rec_of :: "block_loc \<Rightarrow> block_rec" where
  "rec_of b = \<lparr>r_off = bl_off b, r_stored = bl_stored b, r_uncompressed = bl_uncompressed b, r_cap = bl_cap b,
     r_crc = bl_crc b,
     r_flags = of_bool (bl_solo b) OR push_bit 1 (of_bool (bl_chunked b)) OR push_bit 2 (of_bool (bl_chunk_crc b))\<rparr>"

text \<open>The entry as its bytes, its padding explicit.\<close>

definition rec_bytes :: "block_rec \<Rightarrow> bytes" where
  "rec_bytes r = le_bytes 8 (r_off r) @ le_bytes 4 (r_stored r) @ le_bytes 4 (r_uncompressed r) @ le_bytes 4 (r_cap r)
     @ u32_le (r_crc r) @ [r_flags r] @ replicate 7 0"

definition rec_read :: "bytes \<Rightarrow> block_rec" where
  "rec_read b = \<lparr>r_off = le_val (take 8 b), r_stored = le_val (take 4 (drop 8 b)), r_uncompressed = le_val (take 4 (drop 12 b)),
     r_cap = le_val (take 4 (drop 16 b)), r_crc = word_of_nat (le_val (take 4 (drop 20 b))), r_flags = b ! 24\<rparr>"

subsection \<open>Encoding\<close>

definition block_table_len :: "nat \<Rightarrow> nat" where
  "block_table_len n = BLK_HEADER + n * BLK_ENTRY + n * CRC_ROW"

fun encode_entries :: "nat \<Rightarrow> nat \<Rightarrow> block_loc list \<Rightarrow> u32 list list \<Rightarrow> bytes \<Rightarrow> bytes option" where
  "encode_entries crcs_off i [] rows out = Some out"
| "encode_entries crcs_off i (b # bs) rows out =
    do { out \<leftarrow> put out (BLK_HEADER + i * BLK_ENTRY) (rec_bytes (rec_of b));
         out \<leftarrow> (if i < length rows then put_words out (crcs_off + i * CRC_ROW) (rows ! i) else Some out);
         encode_entries crcs_off (i + 1) bs rows out }"

definition encode_blocks :: "block_loc list \<Rightarrow> u32 list list \<Rightarrow> bytes option" where
  "encode_blocks blocks rows =
    do { let crcs_off = BLK_HEADER + length blocks * BLK_ENTRY;
         let out = replicate (block_table_len (length blocks)) 0;
         out \<leftarrow> put out 0 (u32_le BLK_MAGIC);
         out \<leftarrow> put out 4 (le_bytes 4 (as_u32 BLK_ENTRY));
         out \<leftarrow> put out 8 (le_bytes 8 (length blocks));
         encode_entries crcs_off 0 blocks rows out }"

subsection \<open>Reading\<close>

record mapped_blocks =
  mb_off :: nat
  mb_n :: nat

definition is_block_section :: "bytes \<Rightarrow> bool" where
  "is_block_section sec \<longleftrightarrow> rd_u32 sec 0 = Some BLK_MAGIC"

text \<open>The address a section is mapped at decides its entries' alignment.\<close>

definition mapped_parse :: "nat \<Rightarrow> bytes \<Rightarrow> mapped_blocks option" where
  "mapped_parse addr sec =
    do { m \<leftarrow> rd_u32 sec 0; z \<leftarrow> rd_u32 sec 4;
         if m \<noteq> BLK_MAGIC \<or> unat z \<noteq> BLK_ENTRY then None
         else do { w \<leftarrow> rd_u64 sec 8;
                   let n = unat w;
                   k \<leftarrow> checked_mul n BLK_ENTRY;
                   e \<leftarrow> checked_add BLK_HEADER k;
                   bs \<leftarrow> slice sec BLK_HEADER e;
                   if (addr + BLK_HEADER) mod 8 \<noteq> 0 then None
                   else Some \<lparr>mb_off = BLK_HEADER, mb_n = n\<rparr> } }"

definition mapped_len :: "mapped_blocks \<Rightarrow> nat" where
  "mapped_len m = mb_n m"

definition mapped_chunk_crc :: "mapped_blocks \<Rightarrow> bytes \<Rightarrow> nat \<Rightarrow> nat \<Rightarrow> u32 option" where
  "mapped_chunk_crc m sec i j =
    (if mb_n m \<le> i \<or> MAX_CHUNK_CRCS \<le> j then None
     else do { k \<leftarrow> checked_mul (mb_n m) BLK_ENTRY;
               base \<leftarrow> checked_add (mb_off m) k;
               r \<leftarrow> checked_mul i CRC_ROW;
               at \<leftarrow> checked_add base r;
               at \<leftarrow> checked_add at (j * 4);
               rd_u32 sec at })"

definition mapped_get :: "nat \<Rightarrow> mapped_blocks \<Rightarrow> bytes \<Rightarrow> nat \<Rightarrow> block_loc option" where
  "mapped_get addr m sec i =
    (if mb_n m \<le> i then None
     else do { k \<leftarrow> checked_mul i BLK_ENTRY;
               at \<leftarrow> checked_add (mb_off m) k;
               e \<leftarrow> checked_add at BLK_ENTRY;
               bs \<leftarrow> slice sec at e;
               if (addr + at) mod 8 \<noteq> 0 then None else Some (to_loc (rec_read bs)) })"

fun get_all :: "nat \<Rightarrow> mapped_blocks \<Rightarrow> bytes \<Rightarrow> nat list \<Rightarrow> block_loc list option" where
  "get_all addr m sec [] = Some []"
| "get_all addr m sec (i # is) =
    do { b \<leftarrow> mapped_get addr m sec i; bs \<leftarrow> get_all addr m sec is; Some (b # bs) }"

definition decode_blocks :: "nat \<Rightarrow> bytes \<Rightarrow> block_loc list option" where
  "decode_blocks addr sec = do { m \<leftarrow> mapped_parse addr sec; get_all addr m sec [0..<mapped_len m] }"

subsection \<open>An entry is read back\<close>

text \<open>The widths of a location's fields.\<close>

definition loc_ok :: "block_loc \<Rightarrow> bool" where
  "loc_ok b \<longleftrightarrow> bl_off b < 2 ^ 64 \<and> bl_stored b < 2 ^ 32 \<and> bl_uncompressed b < 2 ^ 32 \<and> bl_cap b < 2 ^ 32"

lemma length_rec_bytes [simp]: "length (rec_bytes r) = BLK_ENTRY"
  by (simp add: rec_bytes_def BLK_ENTRY_def)

lemma flag_bits:
  fixes f :: byte
  assumes "f = of_bool a OR push_bit 1 (of_bool b) OR push_bit 2 (of_bool c)"
  shows "f AND 1 \<noteq> 0 \<longleftrightarrow> a" "f AND 2 \<noteq> 0 \<longleftrightarrow> b" "f AND 4 \<noteq> 0 \<longleftrightarrow> c"
  unfolding assms by (cases a; cases b; cases c; simp)+

lemma rec_read_bytes: "loc_ok b \<Longrightarrow> to_loc (rec_read (rec_bytes (rec_of b))) = b"
  by (simp add: rec_read_def rec_bytes_def to_loc_def rec_of_def loc_ok_def le_val_bytes_id flag_bits [OF refl] nth_append)

subsection \<open>The bytes of the table\<close>

definition table_head :: "nat \<Rightarrow> bytes" where
  "table_head n = u32_le BLK_MAGIC @ le_bytes 4 (as_u32 BLK_ENTRY) @ le_bytes 8 n"

abbreviation entry_bytes :: "block_loc list \<Rightarrow> bytes" where
  "entry_bytes bs \<equiv> concat (map (\<lambda>b. rec_bytes (rec_of b)) bs)"

abbreviation row_bytes :: "u32 list list \<Rightarrow> bytes" where
  "row_bytes rows \<equiv> concat (map (\<lambda>r. concat (map u32_le r)) rows)"

definition rows_ok :: "block_loc list \<Rightarrow> u32 list list \<Rightarrow> bool" where
  "rows_ok blocks rows \<longleftrightarrow> length rows = length blocks \<and> (\<forall>r \<in> set rows. length r = MAX_CHUNK_CRCS)"

lemma length_entries: "length (entry_bytes bs) = length bs * BLK_ENTRY"
  by (induction bs) simp_all

lemma length_rows: "\<forall>r \<in> set rows. length r = MAX_CHUNK_CRCS \<Longrightarrow> length (row_bytes rows) = length rows * CRC_ROW"
  by (induction rows) (simp_all add: length_words CRC_ROW_def)

lemma encode_entries_eq:
  assumes "length done = i" "length rdone = i" "length rows = i + length bs" "rdone = take i rows"
    "\<forall>r \<in> set rows. length r = MAX_CHUNK_CRCS" "length h = BLK_HEADER" "co = BLK_HEADER + (i + length bs) * BLK_ENTRY"
  shows "encode_entries co i bs rows
      (h @ entry_bytes done @ replicate (length bs * BLK_ENTRY) 0 @ row_bytes rdone @ replicate (length bs * CRC_ROW) 0)
    = Some (h @ entry_bytes (done @ bs) @ row_bytes rows)"
  using assms
proof (induction bs arbitrary: i "done" rdone)
  case Nil
  then show ?case by simp
next
  case (Cons b bs)
  let ?e = "rec_bytes (rec_of b)" and ?r = "concat (map u32_le (rows ! i))"
  have i: "i < length rows" "length (rows ! i) = MAX_CHUNK_CRCS" using Cons.prems by auto
  have lr: "length ?r = CRC_ROW" using i by (simp add: length_words CRC_ROW_def)
  have ld: "length (entry_bytes done) = i * BLK_ENTRY" "length (row_bytes rdone) = i * CRC_ROW"
    using Cons.prems length_entries [of "done"] length_rows [of rdone] by (auto dest: in_set_takeD)
  let ?z = "replicate (length bs * BLK_ENTRY) (0 :: byte)" and ?y = "replicate (length bs * CRC_ROW) (0 :: byte)"
  have p1: "put ((h @ entry_bytes done) @ replicate BLK_ENTRY 0 @ (?z @ row_bytes rdone @ replicate CRC_ROW 0 @ ?y)) (BLK_HEADER + i * BLK_ENTRY) ?e
      = Some ((h @ entry_bytes done) @ ?e @ (?z @ row_bytes rdone @ replicate CRC_ROW 0 @ ?y))"
    by (rule put_at) (use Cons.prems ld in auto)
  have fit: "co + i * CRC_ROW + 4 * length (rows ! i) \<le> length ((h @ entry_bytes done @ ?e @ ?z @ row_bytes rdone) @ replicate CRC_ROW 0 @ ?y)"
    using Cons.prems ld lr by (simp add: length_words algebra_simps)
  have at: "length (h @ entry_bytes done @ ?e @ ?z @ row_bytes rdone) = co + i * CRC_ROW"
    using Cons.prems ld by (simp add: algebra_simps)
  have "put_words ((h @ entry_bytes done @ ?e @ ?z @ row_bytes rdone) @ replicate CRC_ROW 0 @ ?y) (co + i * CRC_ROW) (rows ! i)
      = put ((h @ entry_bytes done @ ?e @ ?z @ row_bytes rdone) @ replicate CRC_ROW 0 @ ?y) (co + i * CRC_ROW) ?r"
    using put_words_ok [OF fit] fit by (simp only: put_def length_words if_True)
  also have "\<dots> = Some ((h @ entry_bytes done @ ?e @ ?z @ row_bytes rdone) @ ?r @ ?y)"
    by (rule put_at) (use lr at in auto)
  finally have p2: "put_words ((h @ entry_bytes done @ ?e @ ?z @ row_bytes rdone) @ replicate CRC_ROW 0 @ ?y) (co + i * CRC_ROW) (rows ! i)
      = Some ((h @ entry_bytes done @ ?e @ ?z @ row_bytes rdone) @ ?r @ ?y)" .
  have "encode_entries co (i + 1) bs rows (h @ entry_bytes (done @ [b]) @ ?z @ row_bytes (rdone @ [rows ! i]) @ ?y)
      = Some (h @ entry_bytes ((done @ [b]) @ bs) @ row_bytes rows)"
    by (rule Cons.IH) (use Cons.prems i in \<open>auto simp: take_Suc_conv_app_nth\<close>)
  then show ?case using p1 p2 i by (simp add: replicate_add)
qed

definition table_bytes :: "block_loc list \<Rightarrow> u32 list list \<Rightarrow> bytes" where
  "table_bytes blocks rows = table_head (length blocks) @ entry_bytes blocks @ row_bytes rows"

lemma length_table_head [simp]: "length (table_head n) = BLK_HEADER"
  by (simp add: table_head_def BLK_HEADER_def)

lemma encode_blocks_eq:
  assumes "rows_ok blocks rows"
  shows "encode_blocks blocks rows = Some (table_bytes blocks rows)"
proof -
  let ?n = "length blocks"
  let ?rest = "replicate (?n * BLK_ENTRY) (0 :: byte) @ replicate (?n * CRC_ROW) 0"
  have z: "replicate (block_table_len ?n) (0 :: byte) = [] @ replicate 4 0 @ (replicate 4 0 @ replicate 8 0 @ ?rest)"
    by (simp add: block_table_len_def BLK_HEADER_def replicate_add [symmetric])
  have p1: "put (replicate (block_table_len ?n) 0) 0 (u32_le BLK_MAGIC)
      = Some (u32_le BLK_MAGIC @ replicate 4 0 @ replicate 8 0 @ ?rest)"
    unfolding z by (subst put_at) simp_all
  have p2: "put (u32_le BLK_MAGIC @ replicate 4 0 @ replicate 8 0 @ ?rest) 4 (le_bytes 4 (as_u32 BLK_ENTRY))
      = Some (u32_le BLK_MAGIC @ le_bytes 4 (as_u32 BLK_ENTRY) @ replicate 8 0 @ ?rest)"
    by (rule put_at) simp_all
  have p3: "put ((u32_le BLK_MAGIC @ le_bytes 4 (as_u32 BLK_ENTRY)) @ replicate 8 0 @ ?rest) 8 (le_bytes 8 ?n)
      = Some ((u32_le BLK_MAGIC @ le_bytes 4 (as_u32 BLK_ENTRY)) @ le_bytes 8 ?n @ ?rest)"
    by (rule put_at) simp_all
  have "encode_blocks blocks rows = encode_entries (BLK_HEADER + ?n * BLK_ENTRY) 0 blocks rows
      (table_head ?n @ entry_bytes [] @ replicate (?n * BLK_ENTRY) 0 @ row_bytes [] @ replicate (?n * CRC_ROW) 0)"
    using p1 p2 p3 by (simp add: encode_blocks_def table_head_def)
  also have "\<dots> = Some (table_head ?n @ entry_bytes ([] @ blocks) @ row_bytes rows)"
    by (rule encode_entries_eq) (use assms in \<open>auto simp: rows_ok_def\<close>)
  finally show ?thesis by (simp add: table_bytes_def)
qed

lemma concat_const_nth:
  assumes "\<forall>x \<in> set xs. length (f x) = w" "i < length xs"
  shows "take w (drop (i * w) (concat (map f xs) @ post)) = f (xs ! i)"
proof -
  have "xs = take i xs @ xs ! i # drop (Suc i) xs" using assms(2) by (simp add: id_take_nth_drop)
  then have "concat (map f xs) = concat (map f (take i xs)) @ f (xs ! i) @ concat (map f (drop (Suc i) xs))"
    by (metis concat.simps(2) concat_append list.simps(9) map_append)
  moreover have "length (concat (map f (take i xs))) = i * w"
    using assms length_concat_const [of "map f (take i xs)" w] by (auto dest: in_set_takeD)
  moreover have "length (f (xs ! i)) = w" using assms by simp
  ultimately show ?thesis by simp
qed

lemma table_entry:
  assumes "i < length blocks"
  shows "take BLK_ENTRY (drop (BLK_HEADER + i * BLK_ENTRY) (table_bytes blocks rows)) = rec_bytes (rec_of (blocks ! i))"
proof -
  have "drop (BLK_HEADER + i * BLK_ENTRY) (table_bytes blocks rows) = drop (i * BLK_ENTRY) (entry_bytes blocks @ row_bytes rows)"
    by (simp add: table_bytes_def)
  then show ?thesis using concat_const_nth [of blocks "\<lambda>b. rec_bytes (rec_of b)" BLK_ENTRY i "row_bytes rows"] assms by simp
qed

lemma length_table: "rows_ok blocks rows \<Longrightarrow> length (table_bytes blocks rows) = block_table_len (length blocks)"
  by (simp add: table_bytes_def block_table_len_def length_entries length_rows rows_ok_def)

lemma table_parse:
  assumes "rows_ok blocks rows" "addr mod 8 = 0" "block_table_len (length blocks) \<le> USIZE_MAX"
  shows "mapped_parse addr (table_bytes blocks rows) = Some \<lparr>mb_off = BLK_HEADER, mb_n = length blocks\<rparr>"
proof -
  let ?n = "length blocks"
  let ?t = "table_bytes blocks rows"
  have n: "?n < 2 ^ 64" using assms(3) by (simp add: block_table_len_def USIZE_MAX_def BLK_ENTRY_def)
  have t: "?t = u32_le BLK_MAGIC @ le_bytes 4 (as_u32 BLK_ENTRY) @ le_bytes 8 ?n @ entry_bytes blocks @ row_bytes rows"
    by (simp add: table_bytes_def table_head_def)
  have r0: "rd_u32 ?t 0 = Some BLK_MAGIC" by (simp add: t rd_u32_def)
  have r1: "rd_u32 ?t 4 = Some (word_of_nat BLK_ENTRY)"
    by (simp add: t rd_u32_def as_u32_def BLK_ENTRY_def le_val_bytes_id)
  have r2: "rd_u64 ?t 8 = Some (word_of_nat ?n)" using n by (simp add: t rd_u64_def le_val_bytes_id)
  have u: "unat (word_of_nat BLK_ENTRY :: u32) = BLK_ENTRY" "unat (word_of_nat ?n :: u64) = ?n"
    using n by (simp_all add: BLK_ENTRY_def unat_of_nat)
  have ck: "checked_mul ?n BLK_ENTRY = Some (?n * BLK_ENTRY)" "checked_add BLK_HEADER (?n * BLK_ENTRY) = Some (BLK_HEADER + ?n * BLK_ENTRY)"
    using assms(3) by (auto simp: checked_mul_def checked_add_def block_table_len_def)
  have sl: "BLK_HEADER \<le> BLK_HEADER + ?n * BLK_ENTRY" "BLK_HEADER + ?n * BLK_ENTRY \<le> length ?t"
    using length_table [OF assms(1)] by (simp_all add: block_table_len_def)
  have al: "(addr + BLK_HEADER) mod 8 = 0" using assms(2) by (simp add: BLK_HEADER_def mod_add_left_eq [symmetric])
  show ?thesis unfolding mapped_parse_def using r0 r1 r2 u ck sl al by (simp add: Let_def)
qed

lemma table_get:
  assumes "rows_ok blocks rows" "addr mod 8 = 0" "block_table_len (length blocks) \<le> USIZE_MAX" "i < length blocks" "loc_ok (blocks ! i)"
  shows "mapped_get addr \<lparr>mb_off = BLK_HEADER, mb_n = length blocks\<rparr> (table_bytes blocks rows) i = Some (blocks ! i)"
proof -
  have "Suc i * BLK_ENTRY \<le> length blocks * BLK_ENTRY" using assms(4) by (intro mult_le_mono1) simp
  then have le: "BLK_HEADER + i * BLK_ENTRY + BLK_ENTRY \<le> length (table_bytes blocks rows)"
    using length_table [OF assms(1)] by (simp add: block_table_len_def)
  then have "BLK_HEADER + i * BLK_ENTRY + BLK_ENTRY \<le> USIZE_MAX" using assms(3) length_table [OF assms(1)] by simp
  then have ck: "checked_mul i BLK_ENTRY = Some (i * BLK_ENTRY)" "checked_add BLK_HEADER (i * BLK_ENTRY) = Some (BLK_HEADER + i * BLK_ENTRY)"
    "checked_add (BLK_HEADER + i * BLK_ENTRY) BLK_ENTRY = Some (BLK_HEADER + i * BLK_ENTRY + BLK_ENTRY)"
    by (simp_all add: checked_mul_def checked_add_def)
  have "(addr + (BLK_HEADER + i * BLK_ENTRY)) mod 8 = 0"
    using assms(2) by (simp add: BLK_HEADER_def BLK_ENTRY_def mod_0_imp_dvd dvd_imp_mod_0)
  then show ?thesis
    using ck le assms(4,5) table_entry [OF assms(4), of rows] by (simp add: mapped_get_def rec_read_bytes)
qed

lemma table_crc:
  assumes "rows_ok blocks rows" "block_table_len (length blocks) \<le> USIZE_MAX" "i < length blocks" "j < MAX_CHUNK_CRCS"
  shows "mapped_chunk_crc \<lparr>mb_off = BLK_HEADER, mb_n = length blocks\<rparr> (table_bytes blocks rows) i j = Some (rows ! i ! j)"
proof -
  let ?at = "BLK_HEADER + length blocks * BLK_ENTRY + i * CRC_ROW + j * 4"
  have li: "i < length rows" "length (rows ! i) = MAX_CHUNK_CRCS" using assms(1,3) by (auto simp: rows_ok_def)
  have "Suc i * CRC_ROW \<le> length blocks * CRC_ROW" using assms(3) by (intro mult_le_mono1) simp
  moreover have "j * 4 + 4 \<le> CRC_ROW" using assms(4) by (simp add: CRC_ROW_def)
  ultimately have le: "?at + 4 \<le> block_table_len (length blocks)" by (simp add: block_table_len_def)
  have ck: "checked_mul (length blocks) BLK_ENTRY = Some (length blocks * BLK_ENTRY)"
    "checked_add BLK_HEADER (length blocks * BLK_ENTRY) = Some (BLK_HEADER + length blocks * BLK_ENTRY)"
    "checked_mul i CRC_ROW = Some (i * CRC_ROW)"
    "checked_add (BLK_HEADER + length blocks * BLK_ENTRY) (i * CRC_ROW) = Some (BLK_HEADER + length blocks * BLK_ENTRY + i * CRC_ROW)"
    "checked_add (BLK_HEADER + length blocks * BLK_ENTRY + i * CRC_ROW) (j * 4) = Some ?at"
    using le assms(2) by (auto simp: checked_mul_def checked_add_def)
  have "rows = take i rows @ rows ! i # drop (Suc i) rows" using li by (simp add: id_take_nth_drop)
  then have rb: "row_bytes rows = row_bytes (take i rows) @ concat (map u32_le (rows ! i)) @ row_bytes (drop (Suc i) rows)"
    by (metis (no_types, lifting) concat.simps(2) concat_append list.simps(9) map_append)
  have lt: "length (row_bytes (take i rows)) = i * CRC_ROW"
    using length_rows [of "take i rows"] assms(1) li by (auto simp: rows_ok_def dest: in_set_takeD)
  let ?pre = "table_head (length blocks) @ entry_bytes blocks @ row_bytes (take i rows)"
  have "table_bytes blocks rows = ?pre @ concat (map u32_le (rows ! i)) @ row_bytes (drop (Suc i) rows)"
    by (simp add: table_bytes_def rb)
  moreover have "length ?pre = BLK_HEADER + length blocks * BLK_ENTRY + i * CRC_ROW" by (simp add: length_entries lt)
  ultimately have "rd_u32 (table_bytes blocks rows) ?at = Some (rows ! i ! j)"
    using rd_words [of j "rows ! i" ?pre "row_bytes (drop (Suc i) rows)"] li(2) assms(4) by (simp add: mult.commute add.assoc)
  then show ?thesis using ck assms(3,4) by (simp add: mapped_chunk_crc_def)
qed

lemma table_decode:
  assumes "rows_ok blocks rows" "addr mod 8 = 0" "block_table_len (length blocks) \<le> USIZE_MAX" "\<forall>b \<in> set blocks. loc_ok b"
  shows "decode_blocks addr (table_bytes blocks rows) = Some blocks"
proof -
  let ?m = "\<lparr>mb_off = BLK_HEADER, mb_n = length blocks\<rparr>"
  have "get_all addr ?m (table_bytes blocks rows) [k..<length blocks] = Some (drop k blocks)" if "k \<le> length blocks" for k
    using that
  proof (induction rule: inc_induct)
    case base
    then show ?case by simp
  next
    case (step k)
    have "mapped_get addr ?m (table_bytes blocks rows) k = Some (blocks ! k)"
      by (rule table_get [OF assms(1-3)]) (use step assms(4) in auto)
    then show ?case using step by (simp add: upt_conv_Cons Cons_nth_drop_Suc)
  qed
  from this [of 0] show ?thesis using table_parse [OF assms(1-3)] by (simp add: decode_blocks_def mapped_len_def)
qed

text \<open>
  C27: The block table is read back out of the section it is encoded into, by the
  mapped view and by the copying decoder alike: every location with its flags, and
  every chunk checksum, wherever the section is mapped at an eight-byte boundary.
\<close>

theorem block_table_roundtrip:
  assumes "rows_ok blocks rows" and "addr mod 8 = 0" and "block_table_len (length blocks) \<le> USIZE_MAX"
    and "\<forall>b \<in> set blocks. loc_ok b"
  shows "\<exists>sec m. encode_blocks blocks rows = Some sec \<and> length sec = block_table_len (length blocks) \<and>
    is_block_section sec \<and> mapped_parse addr sec = Some m \<and> mapped_len m = length blocks \<and>
    (\<forall>i < length blocks. mapped_get addr m sec i = Some (blocks ! i)) \<and>
    (\<forall>i < length blocks. \<forall>j < MAX_CHUNK_CRCS. mapped_chunk_crc m sec i j = Some (rows ! i ! j)) \<and>
    decode_blocks addr sec = Some blocks"
proof -
  have "is_block_section (table_bytes blocks rows)"
    by (simp add: is_block_section_def table_bytes_def table_head_def rd_u32_def)
  then show ?thesis
    using encode_blocks_eq [OF assms(1)] length_table [OF assms(1)] table_parse [OF assms(1-3)] table_get [OF assms(1-3)]
      table_crc [OF assms(1,3)] table_decode [OF assms] assms(4)
    by (intro exI [of _ "table_bytes blocks rows"] exI [of _ "\<lparr>mb_off = BLK_HEADER, mb_n = length blocks\<rparr>"])
      (simp add: mapped_len_def)
qed

theorem block_table_roundtrip_witness:
  "\<exists>sec m. encode_blocks [\<lparr>bl_off = 4096, bl_stored = 10, bl_uncompressed = 20, bl_cap = 10, bl_chunked = True, bl_crc = 7,
      bl_chunk_crc = False, bl_solo = False\<rparr>] [replicate 16 3] = Some sec \<and>
    length sec = block_table_len (length [\<lparr>bl_off = 4096, bl_stored = 10, bl_uncompressed = 20, bl_cap = 10, bl_chunked = True,
      bl_crc = 7, bl_chunk_crc = False, bl_solo = False\<rparr>]) \<and> is_block_section sec \<and> mapped_parse 8 sec = Some m"
  using block_table_roundtrip [of "[\<lparr>bl_off = 4096, bl_stored = 10, bl_uncompressed = 20, bl_cap = 10, bl_chunked = True,
      bl_crc = 7, bl_chunk_crc = False, bl_solo = False\<rparr>]" "[replicate 16 3]" 8]
  by (auto simp: rows_ok_def MAX_CHUNK_CRCS_def loc_ok_def block_table_len_def BLK_HEADER_def BLK_ENTRY_def CRC_ROW_def USIZE_MAX_def)

end
