(* ===== verification/Block_Store.thy ===== *)
theory Block_Store
  imports Block_Table Runs
begin

text \<open>
  Runs in blocks, end to end: the part of the segment writer (db.rs) that stages a
  key's run in a block, cuts and flushes blocks in one of three forms and, in the
  records-first layout, holds their bytes until the section is written; and the
  part of the reader (blob.rs) that finds an extent's block, fetches the bytes it
  needs from a byte source (bytes.rs), verifies them against the table's checksums
  and hands out the run, remembering what it has verified and what it has decoded.
\<close>

subsection \<open>Byte sources\<close>

datatype blob_error = Corrupt string | Short nat nat nat | Decode block_error

definition slice_read_at :: "bytes \<Rightarrow> nat \<Rightarrow> nat \<Rightarrow> blob_error + bytes" where
  "slice_read_at data at n =
    (case checked_add at n of
       None \<Rightarrow> Inl (Short at n (length data))
     | Some e \<Rightarrow> if length data < e then Inl (Short at n (length data)) else Inr (take n (drop at data)))"

definition slice_slice_at :: "bytes \<Rightarrow> nat \<Rightarrow> nat \<Rightarrow> bytes option" where
  "slice_slice_at data at n =
    (case checked_add at n of None \<Rightarrow> None | Some e \<Rightarrow> if length data < e then None else slice data at e)"

definition take_bytes ::
    "(nat \<Rightarrow> nat \<Rightarrow> bytes option) \<Rightarrow> (nat \<Rightarrow> nat \<Rightarrow> blob_error + bytes) \<Rightarrow> nat \<Rightarrow> nat \<Rightarrow> blob_error + bytes" where
  "take_bytes slice_at read_at at n = (case slice_at at n of Some s \<Rightarrow> Inr s | None \<Rightarrow> read_at at n)"

text \<open>What a source promises: both halves read one object, and a short read is an error.\<close>

locale byte_source =
  fixes slice_at :: "nat \<Rightarrow> nat \<Rightarrow> bytes option" and read_at :: "nat \<Rightarrow> nat \<Rightarrow> blob_error + bytes"
    and object :: bytes
  assumes slice_at_object: "slice_at at n = Some s \<Longrightarrow> slice object at (at + n) = Some s"
    and read_at_object: "length object \<le> USIZE_MAX \<Longrightarrow> slice object at (at + n) = Some s \<Longrightarrow> read_at at n = Inr s"
    and read_at_short: "slice object at (at + n) = None \<Longrightarrow> \<exists>e. read_at at n = Inl e"
begin

lemma take_object:
  "length object \<le> USIZE_MAX \<Longrightarrow> slice object at (at + n) = Some s \<Longrightarrow> take_bytes slice_at read_at at n = Inr s"
  using slice_at_object [of at n] by (auto simp: take_bytes_def read_at_object split: option.splits)

lemma take_short: "slice object at (at + n) = None \<Longrightarrow> \<exists>e. take_bytes slice_at read_at at n = Inl e"
  using slice_at_object [of at n] read_at_short [of at n] by (cases "slice_at at n") (auto simp: take_bytes_def)

end

interpretation slice_bytes: byte_source "slice_slice_at data" "slice_read_at data" data
  by unfold_locales
    (auto simp: slice_slice_at_def slice_read_at_def slice_eq_Some checked_add_def slice_def split: option.splits if_splits)

text \<open>A source that lends nothing, as a file handle behind a host: every take is a read.\<close>

interpretation copying_bytes: byte_source "\<lambda>at n. None" "slice_read_at data" data
  by unfold_locales
    (auto simp: slice_read_at_def slice_eq_Some checked_add_def slice_def split: option.splits if_splits)

subsection \<open>Writing blocks\<close>

record seg_blocks =
  sb_builder :: block_builder
  sb_block_size :: nat
  sb_blocks :: "block_loc list"
  sb_rows :: "u32 list list"
  sb_pos :: nat
  sb_out :: bytes
  sb_compress :: bool
  sb_records_first :: bool
  sb_pending :: "bytes list"

definition write_out :: "bytes \<Rightarrow> seg_blocks \<Rightarrow> seg_blocks" where
  "write_out bs s = s\<lparr>sb_out := sb_out s @ bs, sb_pos := sb_pos s + length bs\<rparr>"

text \<open>The form a payload is stored in: whether chunked, and the bytes.\<close>

definition store_form :: "deflate \<Rightarrow> bool \<Rightarrow> bool \<Rightarrow> bytes \<Rightarrow> (bool \<times> bytes) option" where
  "store_form deflate on lz4 payload =
    do { let chunked = (lz4 \<and> CHUNK < length payload);
         form \<leftarrow> (if chunked
                 then do { c \<leftarrow> write_chunked_sz deflate on payload CHUNK;
                           Some (if length c < length payload then Some c else None) }
                 else Some (if lz4 then compress deflate payload else None));
         Some (chunked \<and> form \<noteq> None, case form of Some c \<Rightarrow> c | None \<Rightarrow> payload) }"

definition flush_block :: "deflate \<Rightarrow> bool \<Rightarrow> seg_blocks \<Rightarrow> seg_blocks option" where
  "flush_block deflate on s =
    (if builder_is_empty (sb_builder s) then Some s
     else let (payload, builder) = builder_take (sb_builder s); uncompressed = as_u32 (length payload)
          in do { (chunked, bs) \<leftarrow> store_form deflate on (sb_compress s) payload;
                  let len = as_u32 (length bs);
                  let row = (if on \<and> len = uncompressed then chunk_crcs bs else None);
                  let crc = (if on then crc32 bs else 0);
                  let loc = \<lparr>bl_off = sb_pos s, bl_stored = len, bl_uncompressed = uncompressed, bl_cap = len,
                             bl_chunked = chunked, bl_crc = crc, bl_chunk_crc = (row \<noteq> None), bl_solo = False\<rparr>;
                  let s = s\<lparr>sb_builder := builder, sb_blocks := sb_blocks s @ [loc],
                            sb_rows := sb_rows s @ [case row of Some r \<Rightarrow> r | None \<Rightarrow> replicate MAX_CHUNK_CRCS 0]\<rparr>;
                  Some (if sb_records_first s then s\<lparr>sb_pending := sb_pending s @ [bs]\<rparr> else write_out bs s) })"

text \<open>A run that is not inline: where it is placed, its block, offset and length.\<close>

definition place_run :: "deflate \<Rightarrow> bool \<Rightarrow> seg_blocks \<Rightarrow> bytes \<Rightarrow> ((nat \<times> nat \<times> nat) \<times> seg_blocks) option" where
  "place_run deflate on s run =
    do { s \<leftarrow> (if would_overflow (sb_builder s) (length run) then flush_block deflate on s else Some s);
         let (off, builder) = builder_push (sb_builder s) run;
         let s = s\<lparr>sb_builder := builder\<rparr>;
         let at = (as_u32 (length (sb_blocks s)), off, as_u32 (length run));
         s \<leftarrow> (if sb_block_size s \<le> builder_len (sb_builder s) then flush_block deflate on s else Some s);
         Some (at, s) }"

text \<open>The blocks held in the records-first layout, each row taking its offset as it lands.\<close>

fun place_pending :: "nat \<Rightarrow> bytes list \<Rightarrow> seg_blocks \<Rightarrow> seg_blocks option" where
  "place_pending i [] s = Some s"
| "place_pending i (bs # held) s =
    do { loc \<leftarrow> index (sb_blocks s) i;
         place_pending (i + 1) held (write_out bs (s\<lparr>sb_blocks := (sb_blocks s)[i := loc\<lparr>bl_off := sb_pos s\<rparr>]\<rparr>)) }"

definition finish_blocks :: "deflate \<Rightarrow> bool \<Rightarrow> seg_blocks \<Rightarrow> seg_blocks option" where
  "finish_blocks deflate on s =
    do { s \<leftarrow> flush_block deflate on s;
         if sb_records_first s then place_pending 0 (sb_pending s) (s\<lparr>sb_pending := []\<rparr>) else Some s }"

fun place_runs :: "deflate \<Rightarrow> bool \<Rightarrow> seg_blocks \<Rightarrow> bytes list \<Rightarrow> ((nat \<times> nat \<times> nat) list \<times> seg_blocks) option" where
  "place_runs deflate on s [] = Some ([], s)"
| "place_runs deflate on s (run # runs) =
    do { (at, s) \<leftarrow> place_run deflate on s run;
         (ats, s) \<leftarrow> place_runs deflate on s runs;
         Some (at # ats, s) }"

subsection \<open>Reading an extent\<close>

record blob =
  b_id :: nat
  b_verify :: bool
  b_addr :: nat
  b_sec :: "bytes option"
  b_meta :: mapped_blocks

record read_state =
  rs_verified :: "u64 list"
  rs_dec :: bytes
  rs_dec_at :: "(nat \<times> nat \<times> nat \<times> nat) option"

definition loc_of :: "blob \<Rightarrow> nat \<Rightarrow> blob_error + block_loc" where
  "loc_of b bid =
    (case do { sec \<leftarrow> b_sec b; mapped_get (b_addr b) (b_meta b) sec bid } of
       None \<Rightarrow> Inl (Corrupt ''an extent names a block the table does not have'')
     | Some loc \<Rightarrow> Inr loc)"

definition is_verified :: "read_state \<Rightarrow> nat \<Rightarrow> nat \<Rightarrow> bool" where
  "is_verified st i j =
    (let slot = i * MAX_CHUNK_CRCS + j
     in case index (rs_verified st) (slot div 64) of
          None \<Rightarrow> False
        | Some cell \<Rightarrow> cell AND push_bit (slot mod 64) 1 \<noteq> 0)"

definition set_verified :: "nat \<Rightarrow> nat \<Rightarrow> read_state \<Rightarrow> read_state" where
  "set_verified i j st =
    (let slot = i * MAX_CHUNK_CRCS + j; w = slot div 64
     in case index (rs_verified st) w of
          None \<Rightarrow> st
        | Some cell \<Rightarrow> st\<lparr>rs_verified := (rs_verified st)[w := cell OR push_bit (slot mod 64) 1]\<rparr>)"

definition dec_at :: "blob \<Rightarrow> read_state \<Rightarrow> (nat \<times> nat \<times> nat) option" where
  "dec_at b st = (case rs_dec_at st of Some (rid, blk, lo, hi) \<Rightarrow> if rid = b_id b then Some (blk, lo, hi) else None | None \<Rightarrow> None)"

definition set_dec_at :: "blob \<Rightarrow> (nat \<times> nat \<times> nat) option \<Rightarrow> read_state \<Rightarrow> read_state" where
  "set_dec_at b at st = st\<lparr>rs_dec_at := map_option (\<lambda>(blk, lo, hi). (b_id b, blk, lo, hi)) at\<rparr>"

definition verify_whole :: "read_state \<Rightarrow> nat \<Rightarrow> block_loc \<Rightarrow> bytes \<Rightarrow> nat \<Rightarrow> read_state \<times> (blob_error, unit) res" where
  "verify_whole st bid loc raw base =
    (if base \<noteq> 0 \<or> length raw \<noteq> bl_stored loc then (st, Err (Corrupt ''a partial block read needs per-chunk checksums''))
     else if is_verified st bid 0 then (st, Ok ())
     else if crc32 raw \<noteq> bl_crc loc then (st, Err (Corrupt ''block checksum mismatch''))
     else (set_verified bid 0 st, Ok ()))"

fun verify_chunks ::
    "blob \<Rightarrow> bytes \<Rightarrow> nat \<Rightarrow> block_loc \<Rightarrow> bytes \<Rightarrow> nat \<Rightarrow> nat list \<Rightarrow> read_state \<Rightarrow> read_state \<times> (blob_error, unit) res" where
  "verify_chunks b sec bid loc raw base [] st = (st, Ok ())"
| "verify_chunks b sec bid loc raw base (j # js) st =
    (let lo = j * CHUNK; hi = min ((j + 1) * CHUNK) (base + length raw)
     in case mapped_chunk_crc (b_meta b) sec bid j of
          None \<Rightarrow> verify_whole st bid loc raw base
        | Some want \<Rightarrow>
            if \<not> (lo < hi \<and> base \<le> lo) then verify_whole st bid loc raw base
            else if is_verified st bid j then verify_chunks b sec bid loc raw base js st
            else (case slice raw (lo - base) (hi - base) of
                    None \<Rightarrow> (st, None)
                  | Some s \<Rightarrow> if crc32 s \<noteq> want then (st, Err (Corrupt ''block checksum mismatch''))
                              else verify_chunks b sec bid loc raw base js (set_verified bid j st)))"

definition verify ::
    "bool \<Rightarrow> blob \<Rightarrow> read_state \<Rightarrow> nat \<Rightarrow> block_loc \<Rightarrow> bytes \<Rightarrow> nat \<Rightarrow> nat \<Rightarrow> nat \<Rightarrow> read_state \<times> (blob_error, unit) res" where
  "verify on b st bid loc raw base lo hi =
    (if \<not> b_verify b \<or> \<not> on then (st, Ok ())
     else if \<not> bl_chunk_crc loc \<or> base + length raw < hi \<or> lo < base \<or> hi \<le> lo then verify_whole st bid loc raw base
     else case b_sec b of
            None \<Rightarrow> verify_whole st bid loc raw base
          | Some sec \<Rightarrow> verify_chunks b sec bid loc raw base [lo div CHUNK..<Suc ((hi - 1) div CHUNK)] st)"

definition chunk_span :: "block_loc \<Rightarrow> nat \<Rightarrow> nat \<Rightarrow> nat \<times> nat" where
  "chunk_span loc eoff elen =
    (if \<not> is_plain loc \<or> \<not> bl_chunk_crc loc then (0, bl_stored loc)
     else let a = eoff div CHUNK * CHUNK;
              b = min (div_ceil (saturating_add eoff elen) CHUNK * CHUNK) USIZE_MAX
          in (min a (bl_stored loc), max (min b (bl_stored loc)) (min a (bl_stored loc))))"

text \<open>The two decoded forms: the state with the run's bytes in the buffer.\<close>

definition read_form ::
    "inflate \<Rightarrow> bool \<Rightarrow> blob \<Rightarrow> nat \<Rightarrow> block_loc \<Rightarrow> bytes \<Rightarrow> nat \<Rightarrow> nat \<Rightarrow> read_state \<Rightarrow> read_state \<times> (blob_error, unit) res" where
  "read_form inflate on b bid loc raw lo hi st =
    (let un = bl_uncompressed loc
     in if bl_chunked loc
        then let l = lo div CHUNK * CHUNK; h = min (div_ceil hi CHUNK * CHUNK) un
             in if (case dec_at b st of Some (blk, l', h') \<Rightarrow> blk = bid \<and> l' \<le> l \<and> h \<le> h' | None \<Rightarrow> False) then (st, Ok ())
                else let st = set_dec_at b None st
                     in case slice (rs_dec st) 0 un of
                          None \<Rightarrow> (st, None)
                        | Some dec \<Rightarrow>
                            (case read_chunked_range inflate (b_verify b) raw un lo hi dec of
                               None \<Rightarrow> (st, None)
                             | Some (Inl e) \<Rightarrow> (st, Err (Decode e))
                             | Some (Inr dec) \<Rightarrow>
                                 (set_dec_at b (Some (bid, l, h)) (st\<lparr>rs_dec := dec @ drop un (rs_dec st)\<rparr>), Ok ()))
        else case verify on b st bid loc raw 0 0 (length raw) of
               (st, None) \<Rightarrow> (st, None)
             | (st, Some (Inl e)) \<Rightarrow> (st, Err e)
             | (st, Some (Inr u)) \<Rightarrow>
                 if (case dec_at b st of Some (blk, l', h') \<Rightarrow> blk = bid \<and> l' = 0 \<and> h' = un | None \<Rightarrow> False) then (st, Ok ())
                 else let st = set_dec_at b None st
                      in case block_decompress_into inflate raw (rs_dec st) un of
                           None \<Rightarrow> (st, None)
                         | Some (Inl e) \<Rightarrow> (st, Err (Decode e))
                         | Some (Inr dec) \<Rightarrow> (set_dec_at b (Some (bid, 0, un)) (st\<lparr>rs_dec := dec\<rparr>), Ok ()))"

text \<open>An extent's bytes, as they are handed to the caller.\<close>

definition with_extent ::
    "inflate \<Rightarrow> bool \<Rightarrow> (nat \<Rightarrow> nat \<Rightarrow> blob_error + bytes) \<Rightarrow> blob \<Rightarrow> read_state \<Rightarrow> nat \<Rightarrow> nat \<Rightarrow> nat
      \<Rightarrow> read_state \<times> (blob_error, bytes) res" where
  "with_extent inflate on src b st bid eoff elen =
    (if bid = unat INLINE then (st, Err (Corrupt ''inline run read without its record''))
     else case loc_of b bid of
            Inl e \<Rightarrow> (st, Err e)
          | Inr loc \<Rightarrow>
              let lo = eoff; hi = saturating_add eoff elen; (c0, c1) = chunk_span loc eoff elen
              in case src (bl_off loc + c0) (c1 - c0) of
                   Inl e \<Rightarrow> (st, Err e)
                 | Inr raw \<Rightarrow>
                     if is_plain loc
                     then if lo < c0 \<or> c0 + length raw < hi then (st, Err (Corrupt ''extent runs past its block''))
                          else (case verify on b st bid loc raw c0 lo hi of
                                  (st, None) \<Rightarrow> (st, None)
                                | (st, Some (Inl e)) \<Rightarrow> (st, Err e)
                                | (st, Some (Inr u)) \<Rightarrow> (st, lift_res (slice raw (lo - c0) (hi - c0))))
                     else let un = bl_uncompressed loc
                          in if un < hi then (st, Err (Corrupt ''extent runs past its block''))
                             else let st = (if length (rs_dec st) < un
                                            then set_dec_at b None (st\<lparr>rs_dec := resize (rs_dec st) un 0\<rparr>) else st)
                                  in case read_form inflate on b bid loc raw lo hi st of
                                       (st, None) \<Rightarrow> (st, None)
                                     | (st, Some (Inl e)) \<Rightarrow> (st, Err e)
                                     | (st, Some (Inr u)) \<Rightarrow> (st, lift_res (slice (rs_dec st) lo hi)))"

definition with_run ::
    "inflate \<Rightarrow> bool \<Rightarrow> (nat \<Rightarrow> nat \<Rightarrow> blob_error + bytes) \<Rightarrow> blob \<Rightarrow> read_state \<Rightarrow> nat \<Rightarrow> nat \<Rightarrow> nat \<Rightarrow> bytes
      \<Rightarrow> read_state \<times> (blob_error, bytes) res" where
  "with_run inflate on src b st bid eoff elen tail =
    (if bid = unat INLINE
     then (case checked_add eoff elen of
             None \<Rightarrow> (st, Err (Corrupt ''inline run runs past its record''))
           | Some e \<Rightarrow> if e \<le> length tail then (st, lift_res (slice tail eoff e))
                       else (st, Err (Corrupt ''inline run runs past its record'')))
     else with_extent inflate on src b st bid eoff elen)"

subsection \<open>What a table entry stands for\<close>

text \<open>A payload, the bytes it is stored as, and the entry and row of the table that describe them.\<close>

definition entry_ok :: "deflate \<Rightarrow> bool \<Rightarrow> block_loc \<Rightarrow> u32 list \<Rightarrow> bytes \<Rightarrow> bytes \<Rightarrow> bool" where
  "entry_ok deflate on loc row bs payload \<longleftrightarrow>
    0 < length payload \<and> length payload < 2 ^ 32 \<and> bl_stored loc = length bs \<and> bl_uncompressed loc = length payload \<and>
    bl_cap loc = length bs \<and> bl_crc loc = (if on then crc32 bs else 0) \<and> length row = MAX_CHUNK_CRCS \<and>
    (bs = payload \<and> \<not> bl_chunked loc \<and> (bl_chunk_crc loc \<longrightarrow> chunk_crcs payload = Some row) \<or>
     length bs < length payload \<and> \<not> bl_chunk_crc loc \<and>
       (if bl_chunked loc then bs = chunked_block deflate on payload CHUNK
        else length payload \<le> CHUNK \<and> bs = deflate payload))"

lemma entry_ok_off: "entry_ok deflate on (loc\<lparr>bl_off := p\<rparr>) row bs payload = entry_ok deflate on loc row bs payload"
  by (simp add: entry_ok_def)

lemma store_form_ok:
  assumes "0 < length payload"
  shows "\<exists>chunked bs. store_form deflate on lz4 payload = Some (chunked, bs) \<and>
    (bs = payload \<and> \<not> chunked \<or>
     length bs < length payload \<and>
       (if chunked then bs = chunked_block deflate on payload CHUNK else length payload \<le> CHUNK \<and> bs = deflate payload))"
proof (cases "lz4 \<and> CHUNK < length payload")
  case True
  have w: "write_chunked_sz deflate on payload CHUNK = Some (chunked_block deflate on payload CHUNK)"
    by (rule write_chunked_eq) (simp add: CHUNK_def)
  show ?thesis
  proof (cases "length (chunked_block deflate on payload CHUNK) < length payload")
    case less: True
    then have "store_form deflate on lz4 payload = Some (True, chunked_block deflate on payload CHUNK)"
      using True w by (simp add: store_form_def Let_def)
    then show ?thesis using less by auto
  next
    case False
    then have "store_form deflate on lz4 payload = Some (False, payload)"
      using True w by (simp add: store_form_def Let_def)
    then show ?thesis by auto
  qed
next
  case False
  then show ?thesis by (auto simp: store_form_def Let_def compress_def)
qed

lemma length_chunk_crcs: "chunk_crcs bs = Some row \<Longrightarrow> length row = MAX_CHUNK_CRCS"
proof -
  assume a: "chunk_crcs bs = Some row"
  let ?n = "div_ceil (length bs) CHUNK"
  have "length (chunks CHUNK bs) = ?n"
  proof (induction "length bs" arbitrary: bs rule: less_induct)
    case less
    show ?case
    proof (cases "bs = []")
      case True
      then show ?thesis by (simp add: chunks.simps div_ceil_def CHUNK_def)
    next
      case False
      have "length (chunks CHUNK (drop CHUNK bs)) = div_ceil (length (drop CHUNK bs)) CHUNK"
        by (rule less) (use False in \<open>auto simp: CHUNK_def\<close>)
      moreover have "div_ceil (length bs) CHUNK = Suc (div_ceil (length bs - CHUNK) CHUNK)"
      proof (cases "length bs \<le> CHUNK")
        case True
        then have "(length bs + CHUNK - 1) div CHUNK = 1" using False by (intro div_nat_eqI) (auto simp: CHUNK_def Suc_le_eq)
        then show ?thesis using True by (simp add: div_ceil_def CHUNK_def)
      next
        case gt: False
        then have "length bs + CHUNK - 1 = (length bs - CHUNK + CHUNK - 1) + CHUNK" by simp
        then show ?thesis unfolding div_ceil_def by (simp add: CHUNK_def)
      qed
      moreover have "CHUNK \<noteq> 0" by (simp add: CHUNK_def)
      ultimately show ?thesis using False by (simp add: chunks.simps [of CHUNK bs])
    qed
  qed
  then show ?thesis using a by (auto simp: chunk_crcs_def Let_def split: if_splits)
qed

subsection \<open>The writer keeps every run\<close>

text \<open>The payloads flushed so far, with the bytes of each where the layout holds them.\<close>

definition writer_ok :: "deflate \<Rightarrow> bool \<Rightarrow> seg_blocks \<Rightarrow> bytes list \<Rightarrow> bool" where
  "writer_ok deflate on s ps \<longleftrightarrow>
    length (sb_blocks s) = length ps \<and> length (sb_rows s) = length ps \<and> sb_pos s = length (sb_out s) \<and>
    bb_cap (sb_builder s) = sb_block_size s \<and>
    (if sb_records_first s
     then length (sb_pending s) = length ps \<and>
       (\<forall>i < length ps. entry_ok deflate on (sb_blocks s ! i) (sb_rows s ! i) (sb_pending s ! i) (ps ! i))
     else (\<forall>i < length ps. bl_off (sb_blocks s ! i) + bl_stored (sb_blocks s ! i) \<le> length (sb_out s) \<and>
       entry_ok deflate on (sb_blocks s ! i) (sb_rows s ! i)
         (take (bl_stored (sb_blocks s ! i)) (drop (bl_off (sb_blocks s ! i)) (sb_out s))) (ps ! i)))"

abbreviation staged :: "seg_blocks \<Rightarrow> bytes" where
  "staged s \<equiv> bb_buf (sb_builder s)"

definition flushed :: "seg_blocks \<Rightarrow> bytes list \<Rightarrow> bytes list" where
  "flushed s ps = (if staged s = [] then ps else ps @ [staged s])"

lemma flush_block_ok:
  assumes w: "writer_ok deflate on s ps" and len: "length (staged s) < 2 ^ 32"
  shows "\<exists>s'. flush_block deflate on s = Some s' \<and> writer_ok deflate on s' (flushed s ps) \<and> staged s' = [] \<and>
    sb_block_size s' = sb_block_size s \<and> sb_records_first s' = sb_records_first s"
proof (cases "staged s = []")
  case True
  then show ?thesis using w by (simp add: flush_block_def builder_is_empty_def flushed_def)
next
  case ne: False
  let ?p = "staged s"
  obtain chunked bs where f: "store_form deflate on (sb_compress s) ?p = Some (chunked, bs)"
    "bs = ?p \<and> \<not> chunked \<or> length bs < length ?p \<and>
       (if chunked then bs = chunked_block deflate on ?p CHUNK else length ?p \<le> CHUNK \<and> bs = deflate ?p)"
    using store_form_ok [of ?p deflate on "sb_compress s"] ne by auto
  have lb: "length bs \<le> length ?p" using f(2) by auto
  have c: "as_u32 (length ?p) = length ?p" "as_u32 (length bs) = length bs" using lb len by (simp_all add: as_u32_def)
  define row where "row = (if on \<and> length bs = length ?p then chunk_crcs bs else None)"
  define r where "r = (case row of Some r \<Rightarrow> r | None \<Rightarrow> replicate MAX_CHUNK_CRCS 0)"
  define loc where "loc = \<lparr>bl_off = sb_pos s, bl_stored = length bs, bl_uncompressed = length ?p, bl_cap = length bs,
     bl_chunked = chunked, bl_crc = (if on then crc32 bs else 0), bl_chunk_crc = (row \<noteq> None), bl_solo = False\<rparr>"
  have lr: "length r = MAX_CHUNK_CRCS" by (auto simp: r_def row_def length_chunk_crcs split: option.splits if_splits)
  have eo: "entry_ok deflate on loc r bs ?p"
    unfolding entry_ok_def using f(2) ne len lr
    by (auto simp: loc_def r_def row_def split: option.splits if_splits)
  define s1 where "s1 = s\<lparr>sb_builder := (sb_builder s)\<lparr>bb_buf := []\<rparr>, sb_blocks := sb_blocks s @ [loc], sb_rows := sb_rows s @ [r]\<rparr>"
  have e: "flush_block deflate on s = Some (if sb_records_first s then s1\<lparr>sb_pending := sb_pending s1 @ [bs]\<rparr> else write_out bs s1)"
    using ne f(1) c by (simp add: flush_block_def builder_is_empty_def builder_take_def Let_def s1_def loc_def r_def row_def)
  show ?thesis
  proof (cases "sb_records_first s")
    case True
    then show ?thesis
      using e w eo ne by (auto simp: writer_ok_def s1_def flushed_def nth_append less_Suc_eq)
  next
    case False
    have old: "take (bl_stored l) (drop (bl_off l) (sb_out s @ bs)) = take (bl_stored l) (drop (bl_off l) (sb_out s))"
      if "bl_off l + bl_stored l \<le> length (sb_out s)" for l using that by simp
    have new: "take (bl_stored loc) (drop (bl_off loc) (sb_out s @ bs)) = bs" "bl_off loc + bl_stored loc = length (sb_out s @ bs)"
      using w by (simp_all add: loc_def writer_ok_def)
    have "writer_ok deflate on (write_out bs s1) (ps @ [?p])"
      using w eo False old new
      by (auto simp: writer_ok_def s1_def write_out_def nth_append less_Suc_eq le_add1 trans_le_add1)
    then show ?thesis using e False ne by (simp add: flushed_def write_out_def s1_def)
  qed
qed

text \<open>Where a run is: its block, flushed or still staged, and its place in it.\<close>

definition placed :: "bytes list \<Rightarrow> nat \<times> nat \<times> nat \<Rightarrow> bytes \<Rightarrow> bool" where
  "placed qs at run \<longleftrightarrow> (case at of (b, off, len) \<Rightarrow>
    b < length qs \<and> off + len \<le> length (qs ! b) \<and> len = length run \<and> take len (drop off (qs ! b)) = run)"

lemma placed_append: "placed qs at run \<Longrightarrow> placed (qs @ rs) at run"
  by (auto simp: placed_def nth_append split: prod.splits)

lemma placed_extend: "placed (ps @ [p]) at run \<Longrightarrow> placed (ps @ [p @ x]) at run"
  by (auto simp: placed_def nth_append split: prod.splits if_splits)

lemma placed_flush:
  "placed (ps @ [staged s]) at run \<Longrightarrow> run \<noteq> [] \<Longrightarrow> placed (flushed s ps) at run"
  by (auto simp: flushed_def placed_def nth_append split: prod.splits if_splits)

lemma length_flushed: "length ps \<le> length (flushed s ps) \<and> length (flushed s ps) \<le> Suc (length ps)"
  by (simp add: flushed_def)

text \<open>A writer in the middle of its runs: those placed so far, and the bounds their places rest on.\<close>

definition placing :: "deflate \<Rightarrow> bool \<Rightarrow> seg_blocks \<Rightarrow> bytes list \<Rightarrow> ((nat \<times> nat \<times> nat) \<times> bytes) list \<Rightarrow> bool" where
  "placing deflate on s ps done \<longleftrightarrow>
    writer_ok deflate on s ps \<and> length (staged s) < 2 ^ 32 \<and> sb_block_size s < 2 ^ 32 \<and>
    length (flushed s ps) \<le> length done \<and>
    (\<forall>(at, r) \<in> set done. r \<noteq> [] \<and> placed (ps @ [staged s]) at r)"

lemma placing_flush:
  assumes "placing deflate on s ps done"
  shows "\<exists>s'. flush_block deflate on s = Some s' \<and> placing deflate on s' (flushed s ps) done \<and> staged s' = [] \<and>
    sb_records_first s' = sb_records_first s \<and> sb_block_size s' = sb_block_size s"
proof -
  obtain s' where s': "flush_block deflate on s = Some s'" "writer_ok deflate on s' (flushed s ps)" "staged s' = []"
    "sb_block_size s' = sb_block_size s" "sb_records_first s' = sb_records_first s"
    using flush_block_ok [of deflate on s ps] assms by (auto simp: placing_def)
  have "\<forall>(at, r) \<in> set done. r \<noteq> [] \<and> placed (flushed s ps @ [staged s']) at r"
    using assms placed_flush [of ps s] placed_append by (fastforce simp: placing_def)
  then show ?thesis using s' assms by (simp add: placing_def flushed_def)
qed

lemma placing_push:
  assumes p: "placing deflate on s ps done" and run: "run \<noteq> []" "length (staged s) + length run < 2 ^ 32" and n: "length done < 2 ^ 32"
  shows "placing deflate on (s\<lparr>sb_builder := (sb_builder s)\<lparr>bb_buf := staged s @ run\<rparr>\<rparr>) ps
    (((as_u32 (length (sb_blocks s)), as_u32 (length (staged s)), as_u32 (length run)), run) # done)"
proof -
  have b: "length (sb_blocks s) = length ps" "length ps \<le> length done"
    using p length_flushed [of ps s] by (auto simp: placing_def writer_ok_def)
  have c: "as_u32 (length (sb_blocks s)) = length ps" "as_u32 (length (staged s)) = length (staged s)" "as_u32 (length run) = length run"
    using b run n by (simp_all add: as_u32_def)
  have "placed (ps @ [staged s @ run]) (length ps, length (staged s), length run) run" by (simp add: placed_def)
  moreover have "\<forall>(at, r) \<in> set done. r \<noteq> [] \<and> placed (ps @ [staged s @ run]) at r"
    using p placed_extend by (fastforce simp: placing_def)
  ultimately show ?thesis using p run c b by (simp add: placing_def writer_ok_def flushed_def)
qed

lemma place_run_ok:
  assumes p: "placing deflate on s ps done" and run: "run \<noteq> []" "length run < 2 ^ 32" and n: "length done < 2 ^ 32"
  shows "\<exists>at s' ps'. place_run deflate on s run = Some (at, s') \<and> placing deflate on s' ps' ((at, run) # done) \<and>
    sb_records_first s' = sb_records_first s"
proof -
  have cap: "bb_cap (sb_builder s) = sb_block_size s" "sb_block_size s < 2 ^ 32" using p by (auto simp: placing_def writer_ok_def)
  obtain s1 ps1 where s1: "(if would_overflow (sb_builder s) (length run) then flush_block deflate on s else Some s) = Some s1"
    "placing deflate on s1 ps1 done" "length (staged s1) + length run < 2 ^ 32" "sb_records_first s1 = sb_records_first s"
  proof (cases "would_overflow (sb_builder s) (length run)")
    case True
    then show ?thesis using placing_flush [OF p] run that by auto
  next
    case False
    then have "length (staged s) + length run < 2 ^ 32" using run cap by (cases "staged s = []") (auto simp: would_overflow_def)
    then show ?thesis using False p that by auto
  qed
  let ?at = "(as_u32 (length (sb_blocks s1)), as_u32 (length (staged s1)), as_u32 (length run))"
  define s2 where "s2 = s1\<lparr>sb_builder := (sb_builder s1)\<lparr>bb_buf := staged s1 @ run\<rparr>\<rparr>"
  have s2: "placing deflate on s2 ps1 ((?at, run) # done)" unfolding s2_def by (rule placing_push [OF s1(2) run(1) s1(3) n])
  obtain s3 ps3 where s3: "(if sb_block_size s2 \<le> builder_len (sb_builder s2) then flush_block deflate on s2 else Some s2) = Some s3"
    "placing deflate on s3 ps3 ((?at, run) # done)" "sb_records_first s3 = sb_records_first s2"
    using s2 placing_flush [OF s2] by (cases "sb_block_size s2 \<le> builder_len (sb_builder s2)") auto
  have "place_run deflate on s run = Some (?at, s3)"
    using s1(1) s3(1)
    by (cases "sb_block_size s2 \<le> builder_len (sb_builder s2)") (simp_all add: place_run_def builder_push_def Let_def s2_def)
  then show ?thesis using s3(2,3) s1(4) by (auto simp: s2_def)
qed

lemma place_runs_ok:
  assumes "placing deflate on s ps done" "\<forall>r \<in> set runs. r \<noteq> [] \<and> length r < 2 ^ 32" "length done + length runs < 2 ^ 32"
  shows "\<exists>ats s' ps' done'. place_runs deflate on s runs = Some (ats, s') \<and> placing deflate on s' ps' done' \<and>
    sb_records_first s' = sb_records_first s \<and> length ats = length runs \<and> length done' = length done + length runs \<and>
    set done' = set done \<union> set (zip ats runs)"
  using assms
proof (induction runs arbitrary: s ps "done")
  case Nil
  then show ?case by auto
next
  case (Cons run runs)
  obtain at s1 ps1 where r: "place_run deflate on s run = Some (at, s1)" "placing deflate on s1 ps1 ((at, run) # done)"
    "sb_records_first s1 = sb_records_first s"
    using place_run_ok [OF Cons.prems(1), of run] Cons.prems by auto
  obtain ats s2 ps2 done2 where rs: "place_runs deflate on s1 runs = Some (ats, s2)" "placing deflate on s2 ps2 done2"
    "sb_records_first s2 = sb_records_first s1" "length ats = length runs" "length done2 = length ((at, run) # done) + length runs"
    "set done2 = set ((at, run) # done) \<union> set (zip ats runs)"
    using Cons.IH [OF r(2)] Cons.prems by auto
  show ?case using r rs by (auto intro!: exI [of _ ps2] exI [of _ done2])
qed

lemma place_pending_ok:
  assumes "length (sb_blocks s) = i + length held" "sb_pos s = length (sb_out s)"
  shows "\<exists>s'. place_pending i held s = Some s' \<and> length (sb_blocks s') = length (sb_blocks s) \<and> sb_rows s' = sb_rows s \<and>
    (\<forall>j < i. sb_blocks s' ! j = sb_blocks s ! j) \<and> (\<exists>x. sb_out s' = sb_out s @ x) \<and>
    (\<forall>j < length held. \<exists>p. sb_blocks s' ! (i + j) = (sb_blocks s ! (i + j))\<lparr>bl_off := p\<rparr> \<and>
       p + length (held ! j) \<le> length (sb_out s') \<and> take (length (held ! j)) (drop p (sb_out s')) = held ! j)"
  using assms
proof (induction i held s rule: place_pending.induct)
  case (1 i s)
  then show ?case by auto
next
  case (2 i bs held s)
  let ?s1 = "write_out bs (s\<lparr>sb_blocks := (sb_blocks s)[i := (sb_blocks s ! i)\<lparr>bl_off := sb_pos s\<rparr>]\<rparr>)"
  have i: "i < length (sb_blocks s)" using 2 by simp
  have o1: "sb_out ?s1 = sb_out s @ bs" by (simp add: write_out_def)
  obtain s' x where s': "place_pending (i + 1) held ?s1 = Some s'" "length (sb_blocks s') = length (sb_blocks ?s1)" "sb_rows s' = sb_rows ?s1"
    "\<forall>j < i + 1. sb_blocks s' ! j = sb_blocks ?s1 ! j" "sb_out s' = sb_out ?s1 @ x"
    "\<forall>j < length held. \<exists>p. sb_blocks s' ! (i + 1 + j) = (sb_blocks ?s1 ! (i + 1 + j))\<lparr>bl_off := p\<rparr> \<and>
       p + length (held ! j) \<le> length (sb_out s') \<and> take (length (held ! j)) (drop p (sb_out s')) = held ! j"
    using "2.IH" [of "sb_blocks s ! i"] i "2.prems" by (fastforce simp: write_out_def)
  have "\<exists>p. sb_blocks s' ! (i + j) = (sb_blocks s ! (i + j))\<lparr>bl_off := p\<rparr> \<and>
       p + length ((bs # held) ! j) \<le> length (sb_out s') \<and> take (length ((bs # held) ! j)) (drop p (sb_out s')) = (bs # held) ! j"
    if "j < length (bs # held)" for j
  proof (cases j)
    case 0
    have "sb_blocks s' ! i = (sb_blocks s ! i)\<lparr>bl_off := sb_pos s\<rparr>" using s'(4) i by (simp add: write_out_def)
    then show ?thesis using 0 s'(5) o1 "2.prems"(2) by (intro exI [of _ "sb_pos s"]) simp
  next
    case (Suc k)
    have "sb_blocks ?s1 ! (i + 1 + k) = sb_blocks s ! (i + 1 + k)" by (simp add: write_out_def)
    moreover obtain p where "sb_blocks s' ! (i + 1 + k) = (sb_blocks ?s1 ! (i + 1 + k))\<lparr>bl_off := p\<rparr>"
      "p + length (held ! k) \<le> length (sb_out s')" "take (length (held ! k)) (drop p (sb_out s')) = held ! k"
      using s'(6) \<open>j < length (bs # held)\<close> Suc by fastforce
    ultimately show ?thesis using Suc by (intro exI [of _ p]) simp
  qed
  moreover have "\<forall>j < i. sb_blocks s' ! j = sb_blocks s ! j" using s'(4) by (simp add: write_out_def)
  ultimately show ?case using s' i o1 by (auto simp: write_out_def)
qed

text \<open>The finished blocks: each entry names bytes of the file that stand for its payload.\<close>

definition store_ok :: "deflate \<Rightarrow> bool \<Rightarrow> bytes \<Rightarrow> block_loc list \<Rightarrow> u32 list list \<Rightarrow> bytes list \<Rightarrow> bool" where
  "store_ok deflate on file blocks rows ps \<longleftrightarrow> length blocks = length ps \<and> length rows = length ps \<and>
    (\<forall>i < length ps. bl_off (blocks ! i) + bl_stored (blocks ! i) \<le> length file \<and>
      entry_ok deflate on (blocks ! i) (rows ! i) (take (bl_stored (blocks ! i)) (drop (bl_off (blocks ! i)) file)) (ps ! i))"

lemma finish_blocks_ok:
  assumes p: "placing deflate on s ps done"
  shows "\<exists>s'. finish_blocks deflate on s = Some s' \<and> store_ok deflate on (sb_out s') (sb_blocks s') (sb_rows s') (flushed s ps) \<and>
    (\<forall>(at, r) \<in> set done. placed (flushed s ps) at r)"
proof -
  obtain s1 where s1: "flush_block deflate on s = Some s1" "placing deflate on s1 (flushed s ps) done" "staged s1 = []"
    "sb_records_first s1 = sb_records_first s"
    using placing_flush [OF p] by blast
  have w: "writer_ok deflate on s1 (flushed s ps)" using s1(2) by (simp add: placing_def)
  have pl: "\<forall>(at, r) \<in> set done. placed (flushed s ps) at r"
    using p placed_flush [of ps s] by (fastforce simp: placing_def)
  show ?thesis
  proof (cases "sb_records_first s1")
    case False
    then show ?thesis using s1 w pl by (auto simp: finish_blocks_def store_ok_def writer_ok_def)
  next
    case True
    let ?s = "s1\<lparr>sb_pending := []\<rparr>"
    have l: "length (sb_blocks ?s) = 0 + length (sb_pending s1)" "sb_pos ?s = length (sb_out ?s)" "length (sb_pending s1) = length (flushed s ps)"
      using w True by (auto simp: writer_ok_def)
    from place_pending_ok [OF l(1,2)] obtain s' where
      s': "place_pending 0 (sb_pending s1) ?s = Some s'" "length (sb_blocks s') = length (sb_blocks s1)" "sb_rows s' = sb_rows s1"
      "\<forall>j < length (sb_pending s1). \<exists>p. sb_blocks s' ! j = (sb_blocks s1 ! j)\<lparr>bl_off := p\<rparr> \<and>
         p + length (sb_pending s1 ! j) \<le> length (sb_out s') \<and> take (length (sb_pending s1 ! j)) (drop p (sb_out s')) = sb_pending s1 ! j"
      by auto
    have "bl_off (sb_blocks s' ! i) + bl_stored (sb_blocks s' ! i) \<le> length (sb_out s') \<and>
        entry_ok deflate on (sb_blocks s' ! i) (sb_rows s' ! i)
          (take (bl_stored (sb_blocks s' ! i)) (drop (bl_off (sb_blocks s' ! i)) (sb_out s'))) (flushed s ps ! i)"
      if i: "i < length (flushed s ps)" for i
    proof -
      obtain p where p: "sb_blocks s' ! i = (sb_blocks s1 ! i)\<lparr>bl_off := p\<rparr>"
        "p + length (sb_pending s1 ! i) \<le> length (sb_out s')" "take (length (sb_pending s1 ! i)) (drop p (sb_out s')) = sb_pending s1 ! i"
        using s'(4) i unfolding l(3) [symmetric] by blast
      have e: "entry_ok deflate on (sb_blocks s1 ! i) (sb_rows s1 ! i) (sb_pending s1 ! i) (flushed s ps ! i)"
        using w True i by (simp add: writer_ok_def)
      then have "bl_stored (sb_blocks s1 ! i) = length (sb_pending s1 ! i)" by (simp add: entry_ok_def)
      then show ?thesis using p e s'(3) by (simp add: entry_ok_off)
    qed
    then have "store_ok deflate on (sb_out s') (sb_blocks s') (sb_rows s') (flushed s ps)"
      using w s'(2,3) by (simp add: store_ok_def writer_ok_def)
    then show ?thesis using s1 s'(1) True pl by (simp add: finish_blocks_def)
  qed
qed


subsection \<open>The reader finds every run\<close>

definition reader_for :: "blob \<Rightarrow> block_loc list \<Rightarrow> u32 list list \<Rightarrow> bool" where
  "reader_for b blocks rows \<longleftrightarrow> (\<exists>sec. b_sec b = Some sec \<and>
    (\<forall>i < length blocks. mapped_get (b_addr b) (b_meta b) sec i = Some (blocks ! i)) \<and>
    (\<forall>i < length blocks. \<forall>j < MAX_CHUNK_CRCS. mapped_chunk_crc (b_meta b) sec i j = Some (rows ! i ! j)))"

text \<open>The buffer holds what the reader remembers decoding.\<close>

definition dec_ok :: "blob \<Rightarrow> bytes list \<Rightarrow> read_state \<Rightarrow> bool" where
  "dec_ok b ps st \<longleftrightarrow> (case dec_at b st of None \<Rightarrow> True | Some (blk, l, h) \<Rightarrow>
    blk < length ps \<and> h \<le> length (ps ! blk) \<and> h \<le> length (rs_dec st) \<and> (\<forall>k. l \<le> k \<and> k < h \<longrightarrow> rs_dec st ! k = ps ! blk ! k))"

definition same_dec :: "read_state \<Rightarrow> read_state \<Rightarrow> bool" where
  "same_dec st st' \<longleftrightarrow> rs_dec st' = rs_dec st \<and> rs_dec_at st' = rs_dec_at st"

lemma same_dec_set [simp]: "same_dec st (set_verified i j st)"
  by (simp add: same_dec_def set_verified_def Let_def split: option.splits)

lemma same_dec_trans: "same_dec st st' \<Longrightarrow> same_dec st' st'' \<Longrightarrow> same_dec st st''"
  by (simp add: same_dec_def)

lemma same_dec_refl [simp]: "same_dec st st"
  by (simp add: same_dec_def)

lemma dec_ok_same: "same_dec st st' \<Longrightarrow> dec_ok b ps st' = dec_ok b ps st"
  unfolding dec_ok_def dec_at_def same_dec_def by (elim conjE) (simp only:)

lemma verify_whole_ok:
  "length raw = bl_stored loc \<Longrightarrow> crc32 raw = bl_crc loc \<Longrightarrow> \<exists>st'. verify_whole st bid loc raw 0 = (st', Ok ()) \<and> same_dec st st'"
  by (auto simp: verify_whole_def)

lemma slice_len: "at + n \<le> length xs \<Longrightarrow> slice xs at (at + n) = Some (take n (drop at xs))"
  by simp

lemma verify_chunks_ok:
  assumes "\<forall>j \<in> set js. base \<le> j * CHUNK \<and> j * CHUNK < min ((j + 1) * CHUNK) (base + length raw) \<and>
    mapped_chunk_crc (b_meta b) sec bid j
      = Some (crc32 (take (min ((j + 1) * CHUNK) (base + length raw) - j * CHUNK) (drop (j * CHUNK - base) raw)))"
  shows "\<exists>st'. verify_chunks b sec bid loc raw base js st = (st', Ok ()) \<and> same_dec st st'"
  using assms
proof (induction js arbitrary: st)
  case (Cons j js)
  let ?lo = "j * CHUNK" and ?hi = "min ((j + 1) * CHUNK) (base + length raw)"
  have j: "base \<le> ?lo" "?lo < ?hi" "mapped_chunk_crc (b_meta b) sec bid j = Some (crc32 (take (?hi - ?lo) (drop (?lo - base) raw)))"
    using Cons.prems by auto
  have "slice raw (?lo - base) (?hi - base) = Some (take (?hi - base - (?lo - base)) (drop (?lo - base) raw))"
    using j by (intro slice_Some) auto
  moreover have "?hi - base - (?lo - base) = ?hi - ?lo" using j by linarith
  ultimately have sl: "slice raw (?lo - base) (?hi - base) = Some (take (?hi - ?lo) (drop (?lo - base) raw))" by simp
  obtain st1 where s1: "verify_chunks b sec bid loc raw base js st = (st1, Ok ())" "same_dec st st1" using Cons by auto
  obtain st2 where s2: "verify_chunks b sec bid loc raw base js (set_verified bid j st) = (st2, Ok ())" "same_dec (set_verified bid j st) st2"
    using Cons.IH [of "set_verified bid j st"] Cons.prems by auto
  have "verify_chunks b sec bid loc raw base (j # js) st =
      (if is_verified st bid j then verify_chunks b sec bid loc raw base js st
       else verify_chunks b sec bid loc raw base js (set_verified bid j st))"
    unfolding verify_chunks.simps Let_def using j(1,2) by (simp only: j(3) sl option.case simp_thms if_True if_False)
  then show ?case
    using s1 s2 same_dec_trans [OF same_dec_set s2(2)] by (cases "is_verified st bid j") auto
qed auto

lemma div_ceil_bounds:
  assumes "0 < hi"
  shows "div_ceil hi CHUNK = Suc ((hi - 1) div CHUNK)" "hi \<le> div_ceil hi CHUNK * CHUNK" "div_ceil hi CHUNK * CHUNK < hi + CHUNK"
proof -
  have "hi + CHUNK - 1 = (hi - 1) + CHUNK" using assms by simp
  then show e: "div_ceil hi CHUNK = Suc ((hi - 1) div CHUNK)" unfolding div_ceil_def by (simp add: CHUNK_def)
  show "hi \<le> div_ceil hi CHUNK * CHUNK"
    unfolding e using dividend_less_div_times [of CHUNK "hi - 1"] by (simp add: CHUNK_def)
  have "(hi - 1) div CHUNK * CHUNK \<le> hi - 1" by (rule div_times_less_eq_dividend)
  then show "div_ceil hi CHUNK * CHUNK < hi + CHUNK" unfolding e mult_Suc using assms by linarith
qed

text \<open>A plain block's span: the chunks of the run, the bytes of the payload there.\<close>

lemma verify_plain_ok:
  assumes e: "entry_ok deflate on loc row payload payload" and ck: "bl_chunk_crc loc"
    and sec: "b_sec b = Some sec" "\<forall>j < MAX_CHUNK_CRCS. mapped_chunk_crc (b_meta b) sec bid j = Some (row ! j)"
    and r: "lo < hi" "hi \<le> length payload" and von: "b_verify b \<longrightarrow> on"
    and c: "c0 = lo div CHUNK * CHUNK" "c1 = min (div_ceil hi CHUNK * CHUNK) (length payload)" "raw = take (c1 - c0) (drop c0 payload)"
  shows "\<exists>st'. verify ron b st bid loc raw c0 lo hi = (st', Ok ()) \<and> same_dec st st'"
proof (cases "b_verify b \<and> ron")
  case False
  then show ?thesis by (auto simp: verify_def)
next
  case True
  have c0: "c0 \<le> lo" unfolding c(1) by (rule div_times_less_eq_dividend)
  have c1: "hi \<le> c1" using div_ceil_bounds(2) [of hi] r c(2) by simp
  have lr: "length raw = c1 - c0" "c0 + length raw = c1" using c0 c1 r c(2,3) by auto
  have row: "chunk_crcs payload = Some row" using e ck by (auto simp: entry_ok_def)
  have dch: "div_ceil hi CHUNK = Suc ((hi - 1) div CHUNK)" using div_ceil_bounds(1) [of hi] r by simp
  have "c0 \<le> j * CHUNK \<and> j * CHUNK < min ((j + 1) * CHUNK) (c0 + length raw) \<and>
      mapped_chunk_crc (b_meta b) sec bid j
        = Some (crc32 (take (min ((j + 1) * CHUNK) (c0 + length raw) - j * CHUNK) (drop (j * CHUNK - c0) raw)))"
    if "j \<in> set [lo div CHUNK..<Suc ((hi - 1) div CHUNK)]" for j
  proof -
    have j: "lo div CHUNK \<le> j" "j \<le> (hi - 1) div CHUNK" using that by auto
    have j0: "c0 \<le> j * CHUNK" unfolding c(1) using j(1) by (rule mult_le_mono1)
    have "j * CHUNK \<le> (hi - 1) div CHUNK * CHUNK" using j(2) by (rule mult_le_mono1)
    also have "\<dots> \<le> hi - 1" by (rule div_times_less_eq_dividend)
    finally have jh: "j * CHUNK < hi" using r by linarith
    then have cnt: "j < chunk_count payload CHUNK" using r by (simp add: chunk_count_less CHUNK_def)
    have "(j + 1) * CHUNK \<le> Suc ((hi - 1) div CHUNK) * CHUNK" using j(2) by (intro mult_le_mono1) simp
    then have m: "min ((j + 1) * CHUNK) c1 = min ((j + 1) * CHUNK) (length payload)" unfolding c(2) dch by (simp only: min.assoc [symmetric] min_absorb1)
    have "take (min ((j + 1) * CHUNK) c1 - j * CHUNK) (drop (j * CHUNK - c0) raw) = chunk_of payload CHUNK j"
    proof -
      have "drop (j * CHUNK - c0) raw = take (c1 - j * CHUNK) (drop (j * CHUNK) payload)"
        unfolding c(3) using j0 by (simp add: drop_take)
      then have "take (min ((j + 1) * CHUNK) c1 - j * CHUNK) (drop (j * CHUNK - c0) raw)
          = take (min (min ((j + 1) * CHUNK) c1 - j * CHUNK) (c1 - j * CHUNK)) (drop (j * CHUNK) payload)" by simp
      also have "min (min ((j + 1) * CHUNK) c1 - j * CHUNK) (c1 - j * CHUNK) = min CHUNK (length (drop (j * CHUNK) payload))"
      proof -
        have "min (min ((j + 1) * CHUNK) c1 - j * CHUNK) (c1 - j * CHUNK) = min ((j + 1) * CHUNK) c1 - j * CHUNK"
          by (rule min_absorb1) (simp add: diff_le_mono)
        then show ?thesis unfolding m by (simp add: min_diff)
      qed
      also have "take (min CHUNK (length (drop (j * CHUNK) payload))) (drop (j * CHUNK) payload) = chunk_of payload CHUNK j"
        unfolding chunk_of_def by (metis take_take take_all order_refl)
      finally show ?thesis .
    qed
    moreover have "mapped_chunk_crc (b_meta b) sec bid j = Some (crc32 (chunk_of payload CHUNK j))"
      using chunk_crcs_nth [OF row cnt] sec(2) by simp
    moreover have "j * CHUNK < min ((j + 1) * CHUNK) c1" using jh c1 by (simp add: CHUNK_def)
    ultimately show ?thesis using j0 lr(2) by simp
  qed
  then obtain st' where "verify_chunks b sec bid loc raw c0 [lo div CHUNK..<Suc ((hi - 1) div CHUNK)] st = (st', Ok ())" "same_dec st st'"
    using verify_chunks_ok [of "[lo div CHUNK..<Suc ((hi - 1) div CHUNK)]" c0 raw b sec bid loc st] by blast
  moreover have "verify ron b st bid loc raw c0 lo hi = verify_chunks b sec bid loc raw c0 [lo div CHUNK..<Suc ((hi - 1) div CHUNK)] st"
    unfolding verify_def using True ck c0 c1 lr r sec(1) by (simp del: upt_Suc)
  ultimately show ?thesis by metis
qed

lemma verify_all_ok:
  assumes "bl_stored loc = length raw" "bl_crc loc = (if on then crc32 raw else 0)" "b_verify b \<longrightarrow> on" "\<not> bl_chunk_crc loc"
  shows "\<exists>st'. verify ron b st bid loc raw 0 lo hi = (st', Ok ()) \<and> same_dec st st'"
  using verify_whole_ok [of raw loc st bid] assms by (cases "b_verify b \<and> ron") (auto simp: verify_def)

lemma dec_ok_clear [simp]: "dec_ok b ps (set_dec_at b None st)"
  by (simp add: dec_ok_def dec_at_def set_dec_at_def)

lemma dec_ok_set:
  assumes "i < length ps" "h \<le> length (ps ! i)" "h \<le> length (rs_dec st)" "\<forall>k. l \<le> k \<and> k < h \<longrightarrow> rs_dec st ! k = ps ! i ! k"
  shows "dec_ok b ps (set_dec_at b (Some (i, l, h)) st)"
  using assms by (simp add: dec_ok_def dec_at_def set_dec_at_def)

lemma slice_agrees:
  assumes "lo \<le> hi" "hi \<le> h" "h \<le> length xs" "h \<le> length ys" "l \<le> lo" "\<forall>k. l \<le> k \<and> k < h \<longrightarrow> xs ! k = ys ! k"
  shows "slice xs lo hi = Some (take (hi - lo) (drop lo ys))"
proof -
  have "take (hi - lo) (drop lo xs) = take (hi - lo) (drop lo ys)"
    using assms by (intro nth_equalityI) auto
  then show ?thesis using assms by simp
qed

context block_codec
begin

lemma read_form_ok:
  assumes e: "entry_ok deflate on loc row raw (ps ! i)" and ne: "length raw < length (ps ! i)" and i: "i < length ps"
    and st: "dec_ok b ps st" "length (ps ! i) \<le> length (rs_dec st)" and r: "lo < hi" "hi \<le> length (ps ! i)" and von: "b_verify b \<longrightarrow> on"
  shows "\<exists>st'. read_form inflate ron b i loc raw lo hi st = (st', Ok ()) \<and> dec_ok b ps st' \<and>
    slice (rs_dec st') lo hi = Some (take (hi - lo) (drop lo (ps ! i)))"
proof -
  let ?p = "ps ! i"
  have un: "bl_uncompressed loc = length ?p" "\<not> bl_chunk_crc loc" "0 < length ?p" "length ?p < 2 ^ 32" using e ne by (auto simp: entry_ok_def)
  show ?thesis
  proof (cases "bl_chunked loc")
    case True
    let ?l = "lo div CHUNK * CHUNK" and ?h = "min (div_ceil hi CHUNK * CHUNK) (length ?p)"
    have raw: "raw = chunked_block deflate on ?p CHUNK" using e ne True by (auto simp: entry_ok_def)
    have lh: "?l \<le> lo" "hi \<le> ?h" using div_ceil_bounds(2) [of hi] r by (auto intro: div_times_less_eq_dividend)
    show ?thesis
    proof (cases "\<exists>l' h'. dec_at b st = Some (i, l', h') \<and> l' \<le> ?l \<and> ?h \<le> h'")
      case hit: True
      then obtain l' h' where d: "dec_at b st = Some (i, l', h')" "l' \<le> ?l" "?h \<le> h'" by blast
      have "read_form inflate ron b i loc raw lo hi st = (st, Ok ())" using True d un by (simp add: read_form_def Let_def)
      moreover have "slice (rs_dec st) lo hi = Some (take (hi - lo) (drop lo ?p))"
        by (rule slice_agrees [where l = l' and h = h'])
          (use d(1,3) le_trans [OF d(2) lh(1)] st(1) lh(2) r in \<open>auto simp: dec_ok_def\<close>)
      ultimately show ?thesis using st(1) by auto
    next
      case miss: False
      let ?st = "set_dec_at b None st" and ?dec = "take (length ?p) (rs_dec st)"
      obtain d where d: "read_chunked_range inflate (b_verify b) raw (length ?p) lo hi ?dec = Ok d" "length d = length ?dec"
        "\<forall>k. ?l \<le> k \<and> k < Suc ((hi - 1) div CHUNK) * CHUNK \<and> k < length ?p \<longrightarrow> d ! k = ?p ! k"
        using read_chunked_good [OF chunkable_CHUNK [OF un(3,4)] von r, of ?dec] st(2) raw by auto
      define dec' where "dec' = d @ drop (length ?p) (rs_dec st)"
      have ld: "length d = length ?p" using d(2) st(2) by simp
      have ag: "\<forall>k. ?l \<le> k \<and> k < ?h \<longrightarrow> dec' ! k = ?p ! k"
        using d(3) ld div_ceil_bounds(1) [of hi] r by (simp add: dec'_def nth_append)
      let ?st' = "set_dec_at b (Some (i, ?l, ?h)) (?st\<lparr>rs_dec := dec'\<rparr>)"
      have m: "\<not> (case dec_at b st of Some (blk, l', h') \<Rightarrow> blk = i \<and> l' \<le> ?l \<and> ?h \<le> h' | None \<Rightarrow> False)"
        using miss by (auto split: option.splits)
      have "slice (rs_dec ?st) 0 (length ?p) = Some ?dec" using st(2) by (simp add: set_dec_at_def)
      moreover have "rs_dec ?st = rs_dec st" by (simp add: set_dec_at_def)
      ultimately have "read_form inflate ron b i loc raw lo hi st = (?st', Ok ())"
        unfolding read_form_def Let_def un(1) using True m d(1) by (simp add: dec'_def)
      moreover have "dec_ok b ps ?st'"
        by (rule dec_ok_set) (use i ag ld in \<open>auto simp: dec'_def\<close>)
      moreover have "slice (rs_dec ?st') lo hi = Some (take (hi - lo) (drop lo ?p))"
        by (rule slice_agrees [where l = ?l and h = ?h]) (use ag lh r ld in \<open>auto simp: dec'_def set_dec_at_def\<close>)
      ultimately show ?thesis by blast
    qed
  next
    case False
    have raw: "raw = deflate ?p" "length ?p \<le> CHUNK" using e ne False by (auto simp: entry_ok_def)
    obtain st1 where v: "verify ron b st i loc raw 0 0 (length raw) = (st1, Ok ())" "same_dec st st1"
      using verify_all_ok [of loc raw on b ron st i 0 "length raw"] e von un(2) by (auto simp: entry_ok_def)
    have st1: "dec_ok b ps st1" "rs_dec st1 = rs_dec st" "dec_at b st1 = dec_at b st"
      using v(2) st(1) dec_ok_same [OF v(2)] by (auto simp: same_dec_def dec_at_def)
    show ?thesis
    proof (cases "dec_at b st1 = Some (i, 0, length ?p)")
      case True
      have "read_form inflate ron b i loc raw lo hi st = (st1, Ok ())"
        unfolding read_form_def Let_def un(1) using False v(1) True by simp
      moreover have "slice (rs_dec st1) lo hi = Some (take (hi - lo) (drop lo ?p))"
        by (rule slice_agrees [where l = 0 and h = "length ?p"]) (use True st1(1) r in \<open>auto simp: dec_ok_def\<close>)
      ultimately show ?thesis using st1(1) by auto
    next
      case miss: False
      have m: "\<not> (case dec_at b st1 of Some (blk, l', h') \<Rightarrow> blk = i \<and> l' = 0 \<and> h' = length ?p | None \<Rightarrow> False)"
        using miss by (auto split: option.splits)
      let ?st = "set_dec_at b None st1"
      have dd: "rs_dec ?st = rs_dec st" using st1(2) by (simp add: set_dec_at_def)
      have "inflate raw (take (length ?p) (rs_dec st)) = Some ?p"
        unfolding raw(1) by (rule inflate_deflate) (use raw(2) st(2) in \<open>auto simp: CHUNK_def MAX_INPUT_def\<close>)
      then have "block_decompress_into inflate raw (rs_dec ?st) (length ?p) = Ok (blit (rs_dec st) 0 ?p)"
        unfolding dd using st(2) by (simp add: block_decompress_into_def inflate_into_def Let_def)
      then have "read_form inflate ron b i loc raw lo hi st
          = (set_dec_at b (Some (i, 0, length ?p)) (?st\<lparr>rs_dec := blit (rs_dec st) 0 ?p\<rparr>), Ok ())" (is "_ = (?st', _)")
        unfolding read_form_def Let_def un(1) using False v(1) m by simp
      moreover have ag: "\<forall>k. 0 \<le> k \<and> k < length ?p \<longrightarrow> blit (rs_dec st) 0 ?p ! k = ?p ! k"
        using st(2) by (auto simp: nth_blit)
      moreover have "dec_ok b ps ?st'" by (rule dec_ok_set) (use i st(2) ag in auto)
      moreover have "slice (rs_dec ?st') lo hi = Some (take (hi - lo) (drop lo ?p))"
        by (rule slice_agrees [where l = 0 and h = "length ?p"]) (use ag r st(2) in \<open>auto simp: set_dec_at_def\<close>)
      ultimately show ?thesis by blast
    qed
  qed
qed

lemma with_extent_ok:
  assumes so: "store_ok deflate on file blocks rows ps" and rd: "reader_for b blocks rows"
    and src: "\<And>at n s. slice file at (at + n) = Some s \<Longrightarrow> src at n = Inr s"
    and st: "dec_ok b ps st" and von: "b_verify b \<longrightarrow> on"
    and i: "i < length ps" "i \<noteq> unat INLINE" and r: "0 < len" "off + len \<le> length (ps ! i)"
  shows "\<exists>st'. with_extent inflate ron src b st i off len = (st', Ok (take len (drop off (ps ! i)))) \<and> dec_ok b ps st'"
proof -
  let ?loc = "blocks ! i" and ?p = "ps ! i"
  let ?bs = "take (bl_stored ?loc) (drop (bl_off ?loc) file)"
  have fit: "bl_off ?loc + bl_stored ?loc \<le> length file" and e: "entry_ok deflate on ?loc (rows ! i) ?bs ?p"
    using so i by (auto simp: store_ok_def)
  have lp: "length ?p < 2 ^ 32" "bl_uncompressed ?loc = length ?p" "bl_stored ?loc = length ?bs" using e by (auto simp: entry_ok_def)
  obtain sec where sec: "b_sec b = Some sec" "mapped_get (b_addr b) (b_meta b) sec i = Some ?loc"
    "\<forall>j < MAX_CHUNK_CRCS. mapped_chunk_crc (b_meta b) sec i j = Some (rows ! i ! j)"
    using rd so i by (auto simp: reader_for_def store_ok_def)
  have loc: "loc_of b i = Inr ?loc" using sec by (simp add: loc_of_def)
  have sat: "saturating_add off len = off + len" using r lp by (simp add: saturating_add_def USIZE_MAX_def)
  have hi: "off < off + len" "off + len - off = len" using r by auto
  show ?thesis
  proof (cases "?bs = ?p")
    case True
    have pl: "is_plain ?loc" using lp True by (simp add: is_plain_def)
    have stl: "bl_stored ?loc = length ?p" using lp True by simp
    show ?thesis
    proof (cases "bl_chunk_crc ?loc")
      case ck: True
      define c0 c1 where "c0 = off div CHUNK * CHUNK" and "c1 = min (div_ceil (off + len) CHUNK * CHUNK) (length ?p)"
      have c0: "c0 \<le> off" unfolding c0_def by (rule div_times_less_eq_dividend)
      have c1: "off + len \<le> c1" "c1 \<le> length ?p" using div_ceil_bounds(2) [of "off + len"] r by (simp_all add: c1_def)
      have "div_ceil (off + len) CHUNK * CHUNK < off + len + CHUNK" using div_ceil_bounds(3) [of "off + len"] r by simp
      then have us: "div_ceil (off + len) CHUNK * CHUNK \<le> USIZE_MAX" using r lp by (simp add: USIZE_MAX_def CHUNK_def)
      have span: "chunk_span ?loc off len = (c0, c1)"
      proof -
        have "min c0 (length ?p) = c0" "max c1 c0 = c1"
          by (rule min_absorb1, use c0 r in linarith, rule max_absorb1, use c0 c1 in linarith)
        then show ?thesis
          unfolding chunk_span_def sat Let_def stl min_absorb1 [OF us] c0_def [symmetric] c1_def [symmetric]
          using pl ck by (simp only: simp_thms if_False)
      qed
      let ?raw = "take (c1 - c0) (drop c0 ?p)"
      have "slice file (bl_off ?loc + c0) (bl_off ?loc + c0 + (c1 - c0)) = Some (take (c1 - c0) (drop (bl_off ?loc + c0) file))"
      proof (rule slice_len)
        have "c0 \<le> c1" "c1 \<le> length ?p" using c0 c1 by linarith+
        then show "bl_off ?loc + c0 + (c1 - c0) \<le> length file" using fit stl by linarith
      qed
      moreover have "take (c1 - c0) (drop (bl_off ?loc + c0) file) = ?raw"
      proof -
        have "drop c0 ?p = take (bl_stored ?loc - c0) (drop (bl_off ?loc + c0) file)"
          by (subst True [symmetric]) (simp add: drop_take add.commute)
        moreover have "c1 - c0 \<le> length ?p - c0" using c1(2) by simp
        ultimately show ?thesis using stl by (simp add: min_def)
      qed
      ultimately have s: "src (bl_off ?loc + c0) (c1 - c0) = Inr ?raw" using src by metis
      have lr: "c0 + length ?raw = c1" using c0 c1 by simp
      obtain st' where v: "verify ron b st i ?loc ?raw c0 off (off + len) = (st', Ok ())" "same_dec st st'"
        using verify_plain_ok [OF e [unfolded True] ck sec(1,3) hi(1) r(2) von c0_def c1_def refl, of ron st] by blast
      have "slice ?raw (off - c0) (off + len - c0) = Some (take len (drop off ?p))"
      proof -
        have k: "off + len - c0 - (off - c0) = len" "c0 + (off - c0) = off" "len \<le> c1 - c0 - (off - c0)"
          "off - c0 \<le> off + len - c0" "off + len - c0 \<le> length ?raw" using c0 c1 lr by linarith+
        have "slice ?raw (off - c0) (off + len - c0) = Some (take (off + len - c0 - (off - c0)) (drop (off - c0) ?raw))"
          using k(4,5) by (rule slice_Some)
        also have "take (off + len - c0 - (off - c0)) (drop (off - c0) ?raw) = take len (drop off ?p)"
          unfolding k(1) drop_take using k(2,3) by (simp add: min_def)
        finally show ?thesis .
      qed
      then have "with_extent inflate ron src b st i off len = (st', Ok (take len (drop off ?p)))"
        unfolding with_extent_def using i(2) loc span s pl c0 c1 lr v(1) by (simp add: Let_def sat)
      then show ?thesis using dec_ok_same [OF v(2)] st by blast
    next
      case ck: False
      have span: "chunk_span ?loc off len = (0, bl_stored ?loc)" using ck by (simp add: chunk_span_def)
      have s: "src (bl_off ?loc) (bl_stored ?loc) = Inr ?p"
        using src [of "bl_off ?loc" "bl_stored ?loc" ?p] fit True by simp
      obtain st' where v: "verify ron b st i ?loc ?p 0 off (off + len) = (st', Ok ())" "same_dec st st'"
        using verify_all_ok [of ?loc ?p on b ron st i off "off + len"] e True von ck by (auto simp: entry_ok_def)
      have "with_extent inflate ron src b st i off len = (st', Ok (take len (drop off ?p)))"
        unfolding with_extent_def using i(2) loc span s pl r v(1) by (simp add: Let_def sat)
      then show ?thesis using dec_ok_same [OF v(2)] st by blast
    qed
  next
    case np: False
    have ne: "length ?bs < length ?p" "\<not> bl_chunk_crc ?loc" using e np by (auto simp: entry_ok_def)
    have pl: "\<not> is_plain ?loc" using lp ne by (simp add: is_plain_def)
    have span: "chunk_span ?loc off len = (0, bl_stored ?loc)" using pl by (simp add: chunk_span_def)
    have s: "src (bl_off ?loc) (bl_stored ?loc) = Inr ?bs" using src [of "bl_off ?loc" "bl_stored ?loc" ?bs] fit by simp
    define st1 where "st1 = (if length (rs_dec st) < length ?p then set_dec_at b None (st\<lparr>rs_dec := resize (rs_dec st) (length ?p) 0\<rparr>) else st)"
    have st1: "dec_ok b ps st1" "length ?p \<le> length (rs_dec st1)"
      using st by (auto simp: st1_def set_dec_at_def resize_def dec_ok_def dec_at_def)
    obtain st' where f: "read_form inflate ron b i ?loc ?bs off (off + len) st1 = (st', Ok ())" "dec_ok b ps st'"
      "slice (rs_dec st') off (off + len) = Some (take (off + len - off) (drop off ?p))"
      using read_form_ok [OF e ne(1) i(1) st1 hi(1) r(2) von, of ron] by blast
    have "with_extent inflate ron src b st i off len = (st', Ok (take len (drop off ?p)))"
      unfolding with_extent_def using i(2) loc span s pl r f(1,3) lp(2) by (simp add: Let_def sat st1_def [symmetric])
    then show ?thesis using f(2) by blast
  qed
qed

end

subsection \<open>Properties\<close>

text \<open>A writer as it is made, with what precedes its data written.\<close>

definition seg_new :: "nat \<Rightarrow> bool \<Rightarrow> bool \<Rightarrow> bytes \<Rightarrow> seg_blocks" where
  "seg_new block_size lz4 records_first out =
    \<lparr>sb_builder = builder_new block_size, sb_block_size = block_size, sb_blocks = [], sb_rows = [], sb_pos = length out,
     sb_out = out, sb_compress = lz4, sb_records_first = records_first, sb_pending = []\<rparr>"

lemma placing_new: "block_size < 2 ^ 32 \<Longrightarrow> placing deflate on (seg_new block_size lz4 rf out) [] []"
  by (simp add: placing_def seg_new_def builder_new_def writer_ok_def flushed_def)

lemma INLINE_val: "unat INLINE = 2 ^ 32 - 1"
  by (simp add: INLINE_def)

lemma entry_ok_loc:
  assumes e: "entry_ok deflate on loc row bs payload" and f: "bl_off loc + bl_stored loc \<le> length file" "length file \<le> USIZE_MAX"
  shows "loc_ok loc"
proof -
  have "length bs \<le> length payload" "length payload < 2 ^ 32" "bl_stored loc = length bs" "bl_cap loc = length bs"
    "bl_uncompressed loc = length payload"
    using e by (auto simp: entry_ok_def)
  then show ?thesis using f by (simp add: loc_ok_def USIZE_MAX_def)
qed

text \<open>A reader over the encoded table finds the entries and the rows.\<close>

lemma reader_for_table:
  assumes so: "store_ok deflate on file blocks rows ps" and n: "length ps < 2 ^ 32" "length file \<le> USIZE_MAX"
    and sec: "encode_blocks blocks rows = Some sec" "b_sec b = Some sec" "mapped_parse (b_addr b) sec = Some (b_meta b)"
  shows "reader_for b blocks rows"
proof -
  have ro: "rows_ok blocks rows" using so by (auto simp: rows_ok_def store_ok_def entry_ok_def in_set_conv_nth)
  have s: "sec = table_bytes blocks rows" using sec(1) encode_blocks_eq [OF ro] by simp
  have lb: "length blocks = length ps" using so by (simp add: store_ok_def)
  have us: "block_table_len (length blocks) \<le> USIZE_MAX"
    using n(1) lb by (simp add: block_table_len_def BLK_HEADER_def BLK_ENTRY_def CRC_ROW_def MAX_CHUNK_CRCS_def USIZE_MAX_def)
  have "(b_addr b + BLK_HEADER) mod 8 = 0" using sec(3)
    by (auto simp: mapped_parse_def Let_def bind_eq_Some_conv split: if_splits)
  then have al: "b_addr b mod 8 = 0" by (simp add: BLK_HEADER_def) presburger
  have meta: "b_meta b = \<lparr>mb_off = BLK_HEADER, mb_n = length blocks\<rparr>" using sec(3) table_parse [OF ro al us] s by simp
  have "loc_ok (blocks ! i)" if i: "i < length blocks" for i
  proof -
    have "bl_off (blocks ! i) + bl_stored (blocks ! i) \<le> length file"
      "entry_ok deflate on (blocks ! i) (rows ! i) (take (bl_stored (blocks ! i)) (drop (bl_off (blocks ! i)) file)) (ps ! i)"
      using so i by (auto simp: store_ok_def)
    then show ?thesis using n(2) entry_ok_loc by fastforce
  qed
  then show ?thesis
    using sec(2) table_get [OF ro al us] table_crc [OF ro us] by (simp add: reader_for_def meta s)
qed

text \<open>
  C5: A run placed in a block is the run read back. Whatever runs are placed, in
  either layout, compressed or not, with any compressor that decodes what it
  encodes: once the blocks are finished and their table encoded, a reader opened
  over that table, which remembers verified chunks and a decoded span from
  earlier reads, hands out exactly each run's bytes from any source that reads the
  file, and what it remembers stays right.
\<close>

theorem block_store_roundtrip:
  assumes codec: "block_codec deflate inflate" and sz: "block_size < 2 ^ 32"
    and runs: "\<forall>r \<in> set runs. r \<noteq> [] \<and> length r < 2 ^ 32" "length runs < 2 ^ 32 - 1"
  shows "\<exists>ats s s' ps sec. place_runs deflate on (seg_new block_size lz4 rf out) runs = Some (ats, s) \<and>
    finish_blocks deflate on s = Some s' \<and> length ats = length runs \<and>
    encode_blocks (sb_blocks s') (sb_rows s') = Some sec \<and>
    (\<forall>b slice_at read_at st ron k. b_sec b = Some sec \<and> mapped_parse (b_addr b) sec = Some (b_meta b) \<and> (b_verify b \<longrightarrow> on) \<and>
       byte_source slice_at read_at (sb_out s') \<and> length (sb_out s') \<le> USIZE_MAX \<and> dec_ok b ps st \<and> k < length runs \<longrightarrow>
       (\<exists>st'. with_extent inflate ron (take_bytes slice_at read_at) b st (fst (ats ! k)) (fst (snd (ats ! k))) (snd (snd (ats ! k)))
          = (st', Ok (runs ! k)) \<and> dec_ok b ps st'))"
proof -
  obtain ats s ps0 dn where p: "place_runs deflate on (seg_new block_size lz4 rf out) runs = Some (ats, s)"
    "placing deflate on s ps0 dn" "length ats = length runs" "length dn = length runs" "set dn = set (zip ats runs)"
    using place_runs_ok [OF placing_new [OF sz], of runs deflate on lz4 rf out] runs by auto
  obtain s' where f: "finish_blocks deflate on s = Some s'"
    "store_ok deflate on (sb_out s') (sb_blocks s') (sb_rows s') (flushed s ps0)"
    "\<forall>(at, r) \<in> set dn. placed (flushed s ps0) at r"
    using finish_blocks_ok [OF p(2)] by blast
  let ?ps = "flushed s ps0"
  have "rows_ok (sb_blocks s') (sb_rows s')" using f(2) by (auto simp: rows_ok_def store_ok_def entry_ok_def in_set_conv_nth)
  then obtain sec where sec: "encode_blocks (sb_blocks s') (sb_rows s') = Some sec" using encode_blocks_eq by blast
  have cnt: "length ?ps < 2 ^ 32 - 1" using p(2,4) runs(2) by (simp add: placing_def)
  have "\<exists>st'. with_extent inflate ron (take_bytes slice_at read_at) b st (fst (ats ! k)) (fst (snd (ats ! k))) (snd (snd (ats ! k)))
          = (st', Ok (runs ! k)) \<and> dec_ok b ?ps st'"
    if h0: "b_sec b = Some sec" "mapped_parse (b_addr b) sec = Some (b_meta b)" and h: "b_verify b \<longrightarrow> on" "byte_source slice_at read_at (sb_out s')"
      "length (sb_out s') \<le> USIZE_MAX" "dec_ok b ?ps st" "k < length runs" for b slice_at read_at st ron k
  proof -
    have rf: "reader_for b (sb_blocks s') (sb_rows s')"
      by (rule reader_for_table [OF f(2) _ h(3) sec h0]) (use cnt in simp)
    have "(ats ! k, runs ! k) \<in> set dn" using h(5) p(3,5) by (auto simp: set_zip)
    then have pl: "placed ?ps (ats ! k) (runs ! k)" using f(3) by blast
    obtain i off len where a: "ats ! k = (i, off, len)" by (metis prod_cases3)
    have i: "i < length ?ps" "off + len \<le> length (?ps ! i)" "take len (drop off (?ps ! i)) = runs ! k" "len = length (runs ! k)"
      using pl a by (auto simp: placed_def)
    have "0 < len" using i(4) runs(1) h(5) by simp
    moreover have "i \<noteq> unat INLINE" using i(1) cnt by (simp add: INLINE_val)
    moreover have "take_bytes slice_at read_at at n = Inr x" if "slice (sb_out s') at (at + n) = Some x" for at n x
      using byte_source.take_object [OF h(2,3) that] .
    ultimately show ?thesis
      using block_codec.with_extent_ok [OF codec f(2) rf _ h(4,1) i(1) _ _ i(2), of "take_bytes slice_at read_at" ron] i(3) a by simp
  qed
  then show ?thesis using p(1,3) f(1) sec by blast
qed

theorem block_store_roundtrip_witness:
  "\<exists>ats s s' ps sec. place_runs zlz4_deflate True (seg_new 64 True False (replicate 8 0)) [replicate 40 1, replicate 40 2] = Some (ats, s) \<and>
    finish_blocks zlz4_deflate True s = Some s' \<and> length ats = length [replicate 40 (1 :: byte), replicate 40 2] \<and>
    encode_blocks (sb_blocks s') (sb_rows s') = Some sec \<and>
    (\<forall>b slice_at read_at st ron k. b_sec b = Some sec \<and> mapped_parse (b_addr b) sec = Some (b_meta b) \<and> (b_verify b \<longrightarrow> True) \<and>
       byte_source slice_at read_at (sb_out s') \<and> length (sb_out s') \<le> USIZE_MAX \<and> dec_ok b ps st \<and>
       k < length [replicate 40 (1 :: byte), replicate 40 2] \<longrightarrow>
       (\<exists>st'. with_extent zlz4_inflate ron (take_bytes slice_at read_at) b st (fst (ats ! k)) (fst (snd (ats ! k))) (snd (snd (ats ! k)))
          = (st', Ok ([replicate 40 1, replicate 40 2] ! k)) \<and> dec_ok b ps st'))"
  by (rule block_store_roundtrip [OF zlz4.block_codec_axioms]) simp_all

text \<open>
  The blocks a writer has or will have once what is staged is flushed. A run never
  lowers the count, and a run with bytes raises it past the blocks there were.
\<close>

definition blocks_due :: "seg_blocks \<Rightarrow> nat" where
  "blocks_due s = length (sb_blocks s) + (if staged s = [] then 0 else 1)"

lemma flush_block_due:
  "flush_block deflate on s = Some s' \<Longrightarrow> staged s' = [] \<and> length (sb_blocks s') = blocks_due s"
  by (auto simp: flush_block_def blocks_due_def builder_is_empty_def builder_take_def write_out_def Let_def bind_eq_Some_conv split: if_splits)

lemma place_run_due:
  assumes "place_run deflate on s run = Some (at, s')"
  shows "blocks_due s \<le> blocks_due s'" and "run \<noteq> [] \<Longrightarrow> length (sb_blocks s) < blocks_due s'"
    and "staged s' = [] \<or> length (staged s') < sb_block_size s'"
proof -
  obtain s1 s2 where s1: "(if would_overflow (sb_builder s) (length run) then flush_block deflate on s else Some s) = Some s1"
    and s2: "s2 = s1\<lparr>sb_builder := (sb_builder s1)\<lparr>bb_buf := staged s1 @ run\<rparr>\<rparr>"
    and s3: "(if sb_block_size s2 \<le> builder_len (sb_builder s2) then flush_block deflate on s2 else Some s2) = Some s'"
    using assms by (auto simp: place_run_def builder_push_def Let_def bind_eq_Some_conv)
  have d1: "blocks_due s1 = blocks_due s" "length (sb_blocks s) \<le> length (sb_blocks s1)"
    using s1 flush_block_due [of deflate on s s1] by (auto simp: blocks_due_def split: if_splits)
  have d2: "blocks_due s1 \<le> blocks_due s2" "run \<noteq> [] \<Longrightarrow> length (sb_blocks s1) < blocks_due s2"
    by (auto simp: blocks_due_def s2)
  have d3: "blocks_due s' = blocks_due s2" using s3 flush_block_due [of deflate on s2 s'] by (auto simp: blocks_due_def split: if_splits)
  show "blocks_due s \<le> blocks_due s'" "run \<noteq> [] \<Longrightarrow> length (sb_blocks s) < blocks_due s'"
    using d1 d2 d3 by simp_all
  show "staged s' = [] \<or> length (staged s') < sb_block_size s'"
    using s3 flush_block_due [of deflate on s2 s'] by (auto simp: builder_len_def split: if_splits)
qed

text \<open>An empty run leaves the writer as it was.\<close>

lemma place_run_empty:
  assumes "placing deflate on s ps done" and "length done < 2 ^ 32" and "staged s = [] \<or> length (staged s) < sb_block_size s"
  shows "place_run deflate on s [] = Some ((length (sb_blocks s), length (staged s), 0), s)"
proof -
  have "length (sb_blocks s) = length ps" "length ps \<le> length done" "length (staged s) < 2 ^ 32" "bb_cap (sb_builder s) = sb_block_size s"
    using assms(1) length_flushed [of ps s] by (auto simp: placing_def writer_ok_def)
  moreover from this have "as_u32 (length (sb_blocks s)) = length (sb_blocks s)" "as_u32 (length (staged s)) = length (staged s)"
    using assms(2) by (simp_all add: as_u32_def)
  ultimately show ?thesis
    using assms(3) by (auto simp: place_run_def would_overflow_def builder_push_def builder_len_def Let_def as_u32_def
        flush_block_def builder_is_empty_def)
qed

lemma place_runs_any:
  assumes "placing deflate on s ps done" and "staged s = [] \<or> length (staged s) < sb_block_size s"
    and "\<forall>r \<in> set runs. length r < 2 ^ 32" and "length done + length runs < 2 ^ 32"
  shows "\<exists>ats s' ps' done'. place_runs deflate on s runs = Some (ats, s') \<and> placing deflate on s' ps' done' \<and>
    (staged s' = [] \<or> length (staged s') < sb_block_size s') \<and> length done' \<le> length done + length runs \<and>
    blocks_due s \<le> blocks_due s' \<and> ((\<exists>r \<in> set runs. r \<noteq> []) \<longrightarrow> length (sb_blocks s) < blocks_due s') \<and>
    ((\<forall>r \<in> set runs. r = []) \<longrightarrow> s' = s)"
  using assms
proof (induction runs arbitrary: s ps "done")
  case Nil
  then show ?case by auto
next
  case (Cons run runs)
  obtain at s1 ps1 done1 where r: "place_run deflate on s run = Some (at, s1)" "placing deflate on s1 ps1 done1"
    "length done1 \<le> Suc (length done)" "run = [] \<longrightarrow> s1 = s"
  proof (cases "run = []")
    case True
    then show ?thesis using place_run_empty [OF Cons.prems(1) _ Cons.prems(2)] Cons.prems(1,4) that by auto
  next
    case False
    then show ?thesis using place_run_ok [OF Cons.prems(1), of run] Cons.prems(3,4) that by auto
  qed
  note d = place_run_due [OF r(1)]
  obtain ats s2 ps2 done2 where rs: "place_runs deflate on s1 runs = Some (ats, s2)" "placing deflate on s2 ps2 done2"
    "staged s2 = [] \<or> length (staged s2) < sb_block_size s2" "length done2 \<le> length done1 + length runs" "blocks_due s1 \<le> blocks_due s2"
    "(\<exists>r \<in> set runs. r \<noteq> []) \<longrightarrow> length (sb_blocks s1) < blocks_due s2" "(\<forall>r \<in> set runs. r = []) \<longrightarrow> s2 = s1"
  proof -
    have "\<forall>r \<in> set runs. length r < 2 ^ 32" "length done1 + length runs < 2 ^ 32" using Cons.prems(3,4) r(3) by simp_all
    from Cons.IH [OF r(2) d(3) this] show ?thesis using that by blast
  qed
  have "length (sb_blocks s) < blocks_due s2" if "\<exists>r \<in> set (run # runs). r \<noteq> []"
    using that d(2) rs(5,6) r(4) by (cases "run = []") auto
  then show ?case
    using r rs d(1) by (intro exI [of _ "at # ats"] exI [of _ s2] exI [of _ ps2] exI [of _ done2]) auto
qed

text \<open>A reader over an encoded table refuses a block past its last.\<close>

lemma reader_refuses:
  assumes so: "store_ok deflate on file blocks rows ps" and n: "length ps < 2 ^ 32 - 1"
    and sec: "encode_blocks blocks rows = Some sec" "b_sec b = Some sec" "mapped_parse (b_addr b) sec = Some (b_meta b)"
    and bid: "length blocks \<le> bid" "bid < 2 ^ 32 - 1"
  shows "with_extent inflate ron src b st bid off len = (st, Err (Corrupt ''an extent names a block the table does not have''))"
proof -
  have ro: "rows_ok blocks rows" using so by (auto simp: rows_ok_def store_ok_def entry_ok_def in_set_conv_nth)
  have s: "sec = table_bytes blocks rows" using sec(1) encode_blocks_eq [OF ro] by simp
  have us: "block_table_len (length blocks) \<le> USIZE_MAX"
    using n so by (simp add: store_ok_def block_table_len_def BLK_HEADER_def BLK_ENTRY_def CRC_ROW_def MAX_CHUNK_CRCS_def USIZE_MAX_def)
  have "(b_addr b + BLK_HEADER) mod 8 = 0" using sec(3) by (auto simp: mapped_parse_def Let_def bind_eq_Some_conv split: if_splits)
  then have al: "b_addr b mod 8 = 0" by (simp add: BLK_HEADER_def) presburger
  have "b_meta b = \<lparr>mb_off = BLK_HEADER, mb_n = length blocks\<rparr>" using sec(3) table_parse [OF ro al us] s by simp
  then have "mb_n (b_meta b) = length blocks" by simp
  then show ?thesis using bid sec(2) by (simp add: with_extent_def loc_of_def mapped_get_def INLINE_val)
qed

text \<open>
  C40: When the place of an empty run exists. Among any runs, an empty run leaves the
  writer as it was, and its extent names the block now staged or the next one. The
  finished table has that block exactly when something was staged or a later run
  has bytes; when neither holds, every reader over the encoded table refuses the
  extent as naming a block the table does not have. A run reaches a block empty
  only where inline runs are off and a key has no values.
\<close>

theorem empty_run_dangles:
  assumes sz: "block_size < 2 ^ 32" and runs: "\<forall>r \<in> set (before @ after). length r < 2 ^ 32" "length before + length after < 2 ^ 32 - 1"
  shows "\<exists>ats s ats' s2 s' sec. place_runs deflate on (seg_new block_size lz4 rf out) before = Some (ats, s) \<and>
    place_run deflate on s [] = Some ((length (sb_blocks s), length (staged s), 0), s) \<and>
    place_runs deflate on s after = Some (ats', s2) \<and> finish_blocks deflate on s2 = Some s' \<and>
    encode_blocks (sb_blocks s') (sb_rows s') = Some sec \<and>
    (length (sb_blocks s) < length (sb_blocks s') \<longleftrightarrow> staged s \<noteq> [] \<or> (\<exists>r \<in> set after. r \<noteq> [])) \<and>
    (staged s = [] \<and> (\<forall>r \<in> set after. r = []) \<longrightarrow>
      (\<forall>inflate ron src b st. b_sec b = Some sec \<and> mapped_parse (b_addr b) sec = Some (b_meta b) \<longrightarrow>
        with_extent inflate ron src b st (length (sb_blocks s)) (length (staged s)) 0 =
          (st, Err (Corrupt ''an extent names a block the table does not have''))))"
proof -
  obtain ats s ps dn where a: "place_runs deflate on (seg_new block_size lz4 rf out) before = Some (ats, s)"
    "placing deflate on s ps dn" "staged s = [] \<or> length (staged s) < sb_block_size s" "length dn \<le> length before"
    using place_runs_any [OF placing_new [OF sz, of deflate on lz4 rf out], of before] runs by (auto simp: seg_new_def builder_new_def)
  obtain ats' s2 ps2 dn2 where b: "place_runs deflate on s after = Some (ats', s2)" "placing deflate on s2 ps2 dn2" "length dn2 \<le> length dn + length after"
    "blocks_due s \<le> blocks_due s2" "(\<exists>r \<in> set after. r \<noteq> []) \<longrightarrow> length (sb_blocks s) < blocks_due s2" "(\<forall>r \<in> set after. r = []) \<longrightarrow> s2 = s"
  proof -
    have "\<forall>r \<in> set after. length r < 2 ^ 32" "length dn + length after < 2 ^ 32" using runs a(4) by simp_all
    from place_runs_any [OF a(2,3) this] show ?thesis using that by blast
  qed
  obtain s' where f: "finish_blocks deflate on s2 = Some s'" "store_ok deflate on (sb_out s') (sb_blocks s') (sb_rows s') (flushed s2 ps2)"
    using finish_blocks_ok [OF b(2)] by blast
  have "rows_ok (sb_blocks s') (sb_rows s')" using f(2) by (auto simp: rows_ok_def store_ok_def entry_ok_def in_set_conv_nth)
  then obtain sec where sec: "encode_blocks (sb_blocks s') (sb_rows s') = Some sec" using encode_blocks_eq by blast
  have n: "length (flushed s2 ps2) < 2 ^ 32 - 1" using b(2,3) a(4) runs(2) by (simp add: placing_def)
  have due: "length (sb_blocks s') = blocks_due s2" using f(2) b(2) by (simp add: store_ok_def placing_def writer_ok_def flushed_def blocks_due_def)
  have e: "place_run deflate on s [] = Some ((length (sb_blocks s), length (staged s), 0), s)"
    by (rule place_run_empty [OF a(2) _ a(3)]) (use a(4) runs(2) in simp)
  have iff: "length (sb_blocks s) < length (sb_blocks s') \<longleftrightarrow> staged s \<noteq> [] \<or> (\<exists>r \<in> set after. r \<noteq> [])"
    using b(4-6) by (auto simp: due blocks_due_def split: if_splits)
  have "length (sb_blocks s) < 2 ^ 32 - 1" using n b(4) due f(2) by (simp add: store_ok_def blocks_due_def split: if_splits)
  then have refused: "with_extent inflate ron src b st (length (sb_blocks s)) (length (staged s)) 0 =
      (st, Err (Corrupt ''an extent names a block the table does not have''))"
    if "staged s = [] \<and> (\<forall>r \<in> set after. r = [])" "b_sec b = Some sec" "mapped_parse (b_addr b) sec = Some (b_meta b)" for inflate ron src b st
    using reader_refuses [OF f(2) n sec that(2,3), of "length (sb_blocks s)"] iff that(1) by auto
  show ?thesis
    by (rule exI [of _ ats], rule exI [of _ s], rule exI [of _ ats'], rule exI [of _ s2], rule exI [of _ s'], rule exI [of _ sec])
      (intro conjI impI allI a(1) b(1) e f(1) sec iff refused, blast+)
qed

theorem empty_run_dangles_witness:
  "\<exists>s' sec. place_run zlz4_deflate True (seg_new 16 True False [0, 0]) [] = Some ((0, 0, 0), seg_new 16 True False [0, 0]) \<and>
    finish_blocks zlz4_deflate True (seg_new 16 True False [0, 0]) = Some s' \<and> encode_blocks (sb_blocks s') (sb_rows s') = Some sec \<and>
    sb_blocks s' = [] \<and>
    (\<forall>inflate ron src b st. b_sec b = Some sec \<and> mapped_parse (b_addr b) sec = Some (b_meta b) \<longrightarrow>
      with_extent inflate ron src b st 0 0 0 = (st, Err (Corrupt ''an extent names a block the table does not have'')))"
proof -
  have "staged (seg_new 16 True False [0, 0]) = []" "sb_blocks (seg_new 16 True False [0, 0]) = []" by (simp_all add: seg_new_def builder_new_def)
  then show ?thesis
    using empty_run_dangles [of 16 "[]" "[]" zlz4_deflate True True False "[0, 0]"] by auto
qed

end
