(* ===== verification/Wal.thy ===== *)
theory Wal
  imports Runs Crc32c
begin

text \<open>
  The write-ahead log (db.rs): frames staged into a batch, the commit frame that
  closes it with the batch's checksum, the writes and barriers of the file, and the
  replay of a file after a crash. A file is its bytes; what a crash leaves of it is
  a prefix of what was written, at least as long as what a barrier covered, with
  zeros behind it where the file had been filled ahead. Counters of type u64 are
  nats that wrap at two to the sixty-fourth.
\<close>

subsection \<open>Varints\<close>

function db_put_uvarint :: "bytes \<Rightarrow> u64 \<Rightarrow> bytes" where
  "db_put_uvarint out v =
    (let b = ucast (v AND 0x7f); v' = drop_bit 7 v
     in if v' = 0 then out @ [b] else db_put_uvarint (out @ [b OR 0x80]) v')"
  by pat_completeness auto
termination
proof (relation "measure (\<lambda>(out, v). unat v)", goal_cases)
  case (2 out v b v')
  then have "unat v div 128 \<noteq> 0" by (metis unat_drop7 unat_eq_zero)
  then show ?case using 2 by (simp add: unat_drop7)
qed simp

declare db_put_uvarint.simps [simp del]

function db_get_uvarint_from :: "bytes \<Rightarrow> nat \<Rightarrow> u64 \<Rightarrow> nat \<Rightarrow> (u64 \<times> nat) option" where
  "db_get_uvarint_from buf p v shift =
    (if p < length buf
     then let b = buf ! p; v = v OR push_bit shift (ucast (b AND 0x7f))
          in if b AND 0x80 = 0 then Some (v, Suc p)
             else if 63 < shift + 7 then None
             else db_get_uvarint_from buf (Suc p) v (shift + 7)
     else None)"
  by pat_completeness auto
termination by (relation "measure (\<lambda>(buf, p, v, shift). length buf - p)") auto

declare db_get_uvarint_from.simps [simp del]

definition db_get_uvarint :: "bytes \<Rightarrow> nat \<Rightarrow> (u64 \<times> nat) option" where
  "db_get_uvarint buf p = db_get_uvarint_from buf p 0 0"

subsection \<open>The file's header and seed\<close>

definition FRAME_HEADER :: nat where "FRAME_HEADER = 8"
definition WAL_HEAD :: bytes where "WAL_HEAD = [0x53, 0x55, 0x50, 0x44, 0x42, 0x57, 0x4C]"
definition WAL_CHAINED :: byte where "WAL_CHAINED = 4"
definition WAL_LOOSE :: byte where "WAL_LOOSE = 5"
definition WAL_MAGIC :: bytes where "WAL_MAGIC = [0x53, 0x55, 0x50, 0x44, 0x42, 0x57, 0x4C, 4]"
definition WAL_PUT :: byte where "WAL_PUT = 0"
definition WAL_DEL :: byte where "WAL_DEL = 1"
definition WAL_COMMIT :: byte where "WAL_COMMIT = 2"

definition wal_header :: "byte \<Rightarrow> bytes" where
  "wal_header kind = (blit (replicate 8 0) 0 WAL_HEAD)[length WAL_HEAD := kind]"

definition wal_kind :: "bytes \<Rightarrow> byte option" where
  "wal_kind header =
    (if length header < length WAL_MAGIC \<or> take (length WAL_HEAD) header \<noteq> WAL_HEAD then None
     else let k = header ! length WAL_HEAD in if k = WAL_CHAINED \<or> k = WAL_LOOSE then Some k else None)"

definition wal_seed :: "u64 \<Rightarrow> u32" where
  "wal_seed i =
    (let z = i + 0x9E3779B97F4A7C15;
         z = (z XOR drop_bit 30 z) * 0xBF58476D1CE4E5B9;
         z = (z XOR drop_bit 27 z) * 0x94D049BB133111EB
     in ucast (z XOR drop_bit 31 z))"

subsection \<open>Writing\<close>

text \<open>The log and the bytes of its file, whose cursor is at what has been written.\<close>

record wal =
  w_file :: bytes
  w_seq :: nat
  w_pending :: bytes
  w_written :: nat
  w_synced :: nat
  w_seed :: u32
  w_loose :: bool

definition wal_create :: "u64 \<Rightarrow> byte \<Rightarrow> wal" where
  "wal_create i kind = \<lparr>w_file = wal_header kind, w_seq = 0, w_pending = [], w_written = length WAL_MAGIC, w_synced = 0,
    w_seed = wal_seed i, w_loose = (kind = WAL_LOOSE)\<rparr>"

function zero_fill :: "bytes \<Rightarrow> nat \<Rightarrow> nat \<Rightarrow> bytes" where
  "zero_fill file at n =
    (if at < n then let k = min 4096 (n - at) in zero_fill (blit file at (replicate k 0)) (at + k) n else file)"
  by pat_completeness auto
termination by (relation "measure (\<lambda>(file, at, n). n - at)") auto

declare zero_fill.simps [simp del]

definition wal_prefill :: "nat \<Rightarrow> wal \<Rightarrow> wal" where
  "wal_prefill n w = w\<lparr>w_file := zero_fill (w_file w) (w_written w) n\<rparr>"

definition wal_recycle :: "bytes \<Rightarrow> u64 \<Rightarrow> byte \<Rightarrow> wal" where
  "wal_recycle spare i kind = \<lparr>w_file = blit spare 0 (wal_header kind), w_seq = 0, w_pending = [], w_written = length WAL_MAGIC,
    w_synced = 0, w_seed = wal_seed i, w_loose = (kind = WAL_LOOSE)\<rparr>"

datatype wal_error = NotAWal | SequenceGap | UnexpectedEof

definition wal_open_append :: "bytes \<Rightarrow> u64 \<Rightarrow> nat \<Rightarrow> wal_error + wal" where
  "wal_open_append file i seq =
    (let mk = (\<lambda>file loose. let written = length file
                in \<lparr>w_file = file, w_seq = seq, w_pending = [], w_written = written,
                    w_synced = (if written = length WAL_MAGIC then 0 else written), w_seed = wal_seed i, w_loose = loose\<rparr>)
     in if file = [] then Inr (mk WAL_MAGIC False)
        else if length file < 8 then Inl UnexpectedEof
        else Inr (mk file (wal_kind (take 8 file) = Some WAL_LOOSE)))"

definition frame :: "byte \<Rightarrow> bytes \<Rightarrow> bytes \<Rightarrow> wal \<Rightarrow> wal option" where
  "frame kind key value w =
    (let batch_crc = (if kind = WAL_COMMIT then crc32 (w_pending w) XOR w_seed w else 0);
         body_at = length (w_pending w) + FRAME_HEADER;
         pending = w_pending w @ replicate FRAME_HEADER 0 @ le_bytes 8 (w_seq w) @ [kind];
         pending = (if kind = WAL_COMMIT then pending @ u32_le batch_crc
                    else let pending = db_put_uvarint pending (word_of_nat (length key)) @ key
                         in if kind = WAL_PUT then pending @ value else pending);
         body_len = length pending - body_at
     in do { body \<leftarrow> slice pending body_at (length pending);
             let crc = (if kind = WAL_COMMIT then crc32 body XOR w_seed w else 0);
             pending \<leftarrow> put pending (body_at - 8) (u32_le (word_of_nat body_len));
             pending \<leftarrow> put pending (body_at - 4) (u32_le crc);
             Some (w\<lparr>w_pending := pending, w_seq := (w_seq w + 1) mod 2 ^ 64\<rparr>) })"

definition wal_append :: "bytes \<Rightarrow> bytes \<Rightarrow> wal \<Rightarrow> wal option" where
  "wal_append key value w = frame WAL_PUT key value w"

definition wal_delete :: "bytes \<Rightarrow> wal \<Rightarrow> wal option" where
  "wal_delete key w = frame WAL_DEL key [] w"

definition mark_commit :: "wal \<Rightarrow> wal option" where
  "mark_commit w = (if w_pending w \<noteq> [] then frame WAL_COMMIT [] [] w else Some w)"

definition wal_write :: "wal \<Rightarrow> wal" where
  "wal_write w =
    (if w_pending w = [] then w
     else w\<lparr>w_file := blit (w_file w) (w_written w) (w_pending w), w_written := w_written w + length (w_pending w), w_pending := []\<rparr>)"

definition wal_sync :: "wal \<Rightarrow> wal" where
  "wal_sync w = w\<lparr>w_synced := w_written w\<rparr>"

definition frames_unsynced :: "wal \<Rightarrow> bool" where
  "frames_unsynced w \<longleftrightarrow> max (w_synced w) (length WAL_MAGIC) < w_written w"

definition chain :: "wal \<Rightarrow> wal" where
  "chain w = (if \<not> w_loose w then w else w\<lparr>w_file := blit (w_file w) (length WAL_HEAD) [WAL_CHAINED], w_loose := False\<rparr>)"

subsection \<open>Replay\<close>

type_synonym wal_op = "byte \<times> bytes \<times> bytes"

record walk_state =
  wk_p :: nat
  wk_next :: nat
  wk_committed :: nat
  wk_valid :: nat
  wk_batch :: "(byte \<times> nat \<times> nat \<times> nat \<times> nat) list"
  wk_start :: nat
  wk_ops :: "wal_op list"

text \<open>A turn of the loop leaves it, goes on, or returns from the function.\<close>

datatype turn = Break | Continue walk_state | Return "wal_op list" "wal_error + nat \<times> nat \<times> bool"

fun check_seqs :: "nat \<Rightarrow> nat list \<Rightarrow> nat \<Rightarrow> nat option" where
  "check_seqs from [] next_seq = Some next_seq"
| "check_seqs from (s # ss) next_seq =
    (if from \<le> s then if s \<noteq> next_seq then None else check_seqs from ss ((s + 1) mod 2 ^ 64)
     else check_seqs from ss next_seq)"

fun apply_batch :: "bytes \<Rightarrow> nat \<Rightarrow> (byte \<times> nat \<times> nat \<times> nat \<times> nat) list \<Rightarrow> wal_op list \<Rightarrow> wal_op list option" where
  "apply_batch buf from [] ops = Some ops"
| "apply_batch buf from ((k, s, ks, ke, ve) # batch) ops =
    (if from \<le> s
     then do { key \<leftarrow> slice buf ks ke; value \<leftarrow> slice buf ke ve; apply_batch buf from batch (ops @ [(k, key, value)]) }
     else apply_batch buf from batch ops)"

definition commit_turn :: "u32 \<Rightarrow> bool \<Rightarrow> nat \<Rightarrow> bytes \<Rightarrow> bytes \<Rightarrow> nat \<Rightarrow> u32 \<Rightarrow> nat \<Rightarrow> walk_state \<Rightarrow> turn option" where
  "commit_turn seed loose from buf body seq crc e wk =
    (if crc32 body XOR seed \<noteq> crc \<or> length body \<noteq> 13 then Some Break
     else do { want \<leftarrow> rd_u32 body 9;
               sofar \<leftarrow> slice buf (wk_start wk) (wk_p wk);
               if crc32 sofar XOR seed \<noteq> want then Some Break
               else let seqs = map (\<lambda>(k, s, ks, ke, ve). s) (wk_batch wk) @ [seq]
                    in if loose \<and> wk_committed wk = from \<and>
                          (case List.find (\<lambda>s. from \<le> s) seqs of Some s \<Rightarrow> s \<noteq> wk_next wk | None \<Rightarrow> False)
                       then Some (Return (wk_ops wk) (Inr (from, length WAL_MAGIC, True)))
                       else (case check_seqs from seqs (wk_next wk) of
                               None \<Rightarrow> Some (Return (wk_ops wk) (Inl SequenceGap))
                             | Some next_seq \<Rightarrow>
                                 do { ops \<leftarrow> apply_batch buf from (wk_batch wk) (wk_ops wk);
                                      Some (Continue \<lparr>wk_p = e, wk_next = next_seq, wk_committed = next_seq, wk_valid = e,
                                                     wk_batch = [], wk_start = e, wk_ops = ops\<rparr>) }) })"

definition record_turn :: "bytes \<Rightarrow> byte \<Rightarrow> nat \<Rightarrow> u32 \<Rightarrow> nat \<Rightarrow> nat \<Rightarrow> walk_state \<Rightarrow> turn" where
  "record_turn body kind seq crc body_at e wk =
    (if crc \<noteq> 0 then Break
     else case db_get_uvarint body 9 of
            None \<Rightarrow> Break
          | Some (klen, q) \<Rightarrow>
              (case checked_add q (unat klen) of
                 None \<Rightarrow> Break
               | Some kend \<Rightarrow>
                   if length body < kend then Break
                   else if kind = WAL_DEL \<and> kend \<noteq> length body then Break
                   else Continue (wk\<lparr>wk_p := e, wk_batch := wk_batch wk @ [(kind, seq, body_at + q, body_at + kend, e)]\<rparr>)))"

definition walk_turn :: "u32 \<Rightarrow> bool \<Rightarrow> nat \<Rightarrow> bytes \<Rightarrow> walk_state \<Rightarrow> turn option" where
  "walk_turn seed loose from buf wk =
    do { len \<leftarrow> map_option unat (rd_u32 buf (wk_p wk));
         crc \<leftarrow> rd_u32 buf (wk_p wk + 4);
         let body_at = wk_p wk + FRAME_HEADER;
         case checked_add body_at len of
           None \<Rightarrow> Some Break
         | Some e \<Rightarrow>
             if length buf < e \<or> len < 9 then Some Break
             else do { body \<leftarrow> slice buf body_at e;
                       seq \<leftarrow> map_option unat (rd_u64 body 0);
                       kind \<leftarrow> index body 8;
                       if kind = WAL_COMMIT then commit_turn seed loose from buf body seq crc e wk
                       else if kind = WAL_PUT \<or> kind = WAL_DEL then Some (record_turn body kind seq crc body_at e wk)
                       else Some Break } }"

lemma commit_turn_continue: "commit_turn seed loose from buf body seq crc e wk = Some (Continue wk') \<Longrightarrow> wk_p wk' = e"
  by (auto simp: commit_turn_def Let_def bind_eq_Some_conv split: option.splits if_splits)

lemma record_turn_continue: "record_turn body kind seq crc body_at e wk = Continue wk' \<Longrightarrow> wk_p wk' = e"
  by (auto simp: record_turn_def split: option.splits if_splits)

lemma walk_turn_progress:
  assumes "walk_turn seed loose from buf wk = Some (Continue wk')"
  shows "wk_p wk < wk_p wk' \<and> wk_p wk' \<le> length buf"
proof -
  obtain len e where "checked_add (wk_p wk + FRAME_HEADER) len = Some e" "e \<le> length buf" "wk_p wk' = e"
    using assms
    by (auto simp: walk_turn_def Let_def bind_eq_Some_conv not_less split: option.splits if_splits
        dest!: commit_turn_continue record_turn_continue)
  then show ?thesis by (auto simp: checked_add_def FRAME_HEADER_def split: if_splits)
qed

function walk :: "u32 \<Rightarrow> bool \<Rightarrow> nat \<Rightarrow> bytes \<Rightarrow> walk_state \<Rightarrow> (wal_op list \<times> (wal_error + nat \<times> nat \<times> bool)) option" where
  "walk seed loose from buf wk =
    (if FRAME_HEADER \<le> length buf - wk_p wk
     then (case walk_turn seed loose from buf wk of
             None \<Rightarrow> None
           | Some Break \<Rightarrow> Some (wk_ops wk, Inr (wk_committed wk, wk_valid wk, False))
           | Some (Return ops r) \<Rightarrow> Some (ops, r)
           | Some (Continue wk') \<Rightarrow> walk seed loose from buf wk')
     else Some (wk_ops wk, Inr (wk_committed wk, wk_valid wk, False)))"
  by pat_completeness auto
termination
  by (relation "measure (\<lambda>(seed, loose, from, buf, wk). length buf - wk_p wk)") (auto dest: walk_turn_progress)

declare walk.simps [simp del]

definition replay :: "bytes option \<Rightarrow> u64 \<Rightarrow> nat \<Rightarrow> bool \<Rightarrow> (wal_op list \<times> (wal_error + nat \<times> nat \<times> bool)) option" where
  "replay file i from first =
    (case file of
       None \<Rightarrow> Some ([], Inr (from, 0, False))
     | Some buf \<Rightarrow>
         if buf = [] then Some ([], Inr (from, 0, False))
         else if length buf < length WAL_MAGIC
         then (if let m = min (length buf) (length WAL_HEAD) in take m WAL_HEAD = take m buf then Some ([], Inr (from, 0, False))
               else Some ([], Inl NotAWal))
         else (case wal_kind (take (length WAL_MAGIC) buf) of
                 None \<Rightarrow> Some ([], Inl NotAWal)
               | Some kind \<Rightarrow>
                   let p = length WAL_MAGIC
                   in walk (wal_seed i) (kind = WAL_LOOSE \<and> \<not> first) from buf
                        \<lparr>wk_p = p, wk_next = from, wk_committed = from, wk_valid = p, wk_batch = [], wk_start = p, wk_ops = []\<rparr>))"

end
