(* ===== verification/Wal_Log.thy ===== *)
theory Wal_Log
  imports Wal
begin

text \<open>
  The write-ahead log proved: the bytes a log of batches is, the walk over them and
  over what a crash leaves of them, and the refinement of a specified log of
  batches, some of them durable, by the file and the buffer across any sequence of
  operations, barriers and crashes.
\<close>

subsection \<open>Varints, proved against the run's\<close>

lemma drop7_eq_0: "drop_bit 7 v = 0 \<longleftrightarrow> v < 0x80" for v :: u64
  using unat_drop7 [of v] by (simp add: word_less_nat_alt unat_eq_zero flip: unat_eq_0) (simp add: div_eq_0_iff)

lemma low_byte: "(ucast (v AND 0x7f) OR 0x80 :: byte) = ucast v OR 0x80" for v :: u64
  unfolding mask7
  by (rule bit_eqI) (auto simp: bit_or_iff bit_and_iff bit_mask_iff bit_ucast_iff bit_push_bit_iff bit_1_iff simp del: push_bit_of_1)

lemma low_byte_small: "v < 0x80 \<Longrightarrow> (ucast (v AND 0x7f) :: byte) = ucast v" for v :: u64
proof -
  assume "v < 0x80"
  then have "unat v < 2 ^ 7" by (simp add: word_less_nat_alt)
  then have b: "bit v i \<Longrightarrow> i < 7" for i by (rule word_bits_below)
  show ?thesis unfolding mask7
    by (rule bit_eqI) (auto simp: bit_and_iff bit_mask_iff bit_ucast_iff dest: b)
qed

lemma db_put_uvarint_eq: "db_put_uvarint out v = out @ uvarint v"
proof (induction v arbitrary: out rule: uvarint_induct)
  case (step v)
  show ?case
  proof (cases "v < 0x80")
    case True
    then have "\<not> 0x80 \<le> v" by simp
    with True show ?thesis by (simp add: db_put_uvarint.simps [of out v] uvarint_rec [of v] Let_def drop7_eq_0 low_byte_small)
  next
    case False
    then show ?thesis
      using step [of "out @ [ucast v OR 0x80]"]
      by (simp add: db_put_uvarint.simps [of out v] uvarint_rec [of v] Let_def drop7_eq_0 low_byte)
  qed
qed

lemma high_bit_byte: "b AND 0x80 = 0 \<longleftrightarrow> b < 0x80" for b :: byte
proof -
  have "b AND 0x80 = 0 \<longleftrightarrow> \<not> bit b 7" using and_exp_eq_0_iff_not_bit [of b 7] by simp
  also have "bit b 7 \<longleftrightarrow> bit (unat b) 7" by (simp add: bit_unsigned_iff)
  also have "\<dots> \<longleftrightarrow> odd (unat b div 128)" by (simp add: bit_iff_odd)
  also have "\<dots> \<longleftrightarrow> \<not> unat b < 128"
  proof -
    have "unat b div 128 < 2" using unat_byte_less [of b] by (simp add: less_mult_imp_div_less)
    then have "unat b div 128 = 0 \<or> unat b div 128 = 1" by linarith
    then show ?thesis by (auto simp: div_eq_0_iff)
  qed
  finally show ?thesis by (simp add: word_less_nat_alt)
qed

lemma db_get_of_get:
  "get_uvarint_from buf p v shift = (w, q) \<Longrightarrow> p < q \<Longrightarrow> buf ! (q - 1) < 0x80 \<Longrightarrow>
    db_get_uvarint_from buf p v shift = Some (w, q)"
proof (induction buf p v shift rule: get_uvarint_from.induct)
  case (1 buf p v shift)
  have p: "p < length buf" using "1.prems"(1,2) by (auto simp: get_uvarint_from.simps [of buf p] split: if_splits)
  show ?case
  proof (cases "buf ! p < 0x80")
    case True
    then show ?thesis using 1 p by (auto simp: get_uvarint_from.simps [of buf p] db_get_uvarint_from.simps [of buf p] Let_def high_bit_byte)
  next
    case False
    note b = this
    have s: "shift + 7 < 64" using "1.prems" p b by (auto simp: get_uvarint_from.simps [of buf p] Let_def split: if_splits)
    let ?v = "v OR push_bit shift (ucast (buf ! p AND 0x7f))"
    have g: "get_uvarint_from buf (Suc p) ?v (shift + 7) = (w, q)"
      using "1.prems"(1) p b s by (simp add: get_uvarint_from.simps [of buf p] Let_def)
    have "Suc p < q"
    proof (rule ccontr)
      assume "\<not> Suc p < q"
      then have "q = Suc p" using "1.prems"(2) by simp
      with "1.prems"(3) b show False by simp
    qed
    then have "db_get_uvarint_from buf (Suc p) ?v (shift + 7) = Some (w, q)"
      using "1.IH" [OF p refl refl b _ g] s "1.prems"(3) by simp
    then show ?thesis using p b s by (simp add: db_get_uvarint_from.simps [of buf p] Let_def high_bit_byte)
  qed
qed

lemma uvarint_last: "last (uvarint v) < 0x80"
proof (induction v rule: uvarint_induct)
  case (step v)
  then show ?case using small_byte by (subst uvarint_rec) (auto simp: not_le)
qed

lemma db_get_uvarint_put:
  "db_get_uvarint (pre @ uvarint v @ post) (length pre) = Some (v, length pre + length (uvarint v))"
proof -
  have "(pre @ uvarint v @ post) ! (length pre + length (uvarint v) - 1) = last (uvarint v)"
    using uvarint_nonempty [of v] by (cases "uvarint v") (auto simp: nth_append last_conv_nth)
  then show ?thesis
    unfolding db_get_uvarint_def
    by (intro db_get_of_get) (use get_uvarint_put [of pre v post] uvarint_last [of v] in \<open>auto simp: get_uvarint_def\<close>)
qed

subsection \<open>The bytes of a log\<close>

fun op_body :: "nat \<Rightarrow> wal_op \<Rightarrow> bytes" where
  "op_body seq (k, key, value) = le_bytes 8 seq @ [k] @ uvarint (word_of_nat (length key)) @ key @ value"

definition framed :: "u32 \<Rightarrow> bytes \<Rightarrow> bytes" where
  "framed crc body = u32_le (word_of_nat (length body)) @ u32_le crc @ body"

abbreviation rec_frame :: "nat \<Rightarrow> wal_op \<Rightarrow> bytes" where
  "rec_frame seq op \<equiv> framed 0 (op_body seq op)"

fun op_ok :: "wal_op \<Rightarrow> bool" where
  "op_ok (k, key, value) \<longleftrightarrow> (k = WAL_PUT \<or> k = WAL_DEL \<and> value = []) \<and> length (op_body 0 (k, key, value)) < 2 ^ 32"

fun rec_frames :: "nat \<Rightarrow> wal_op list \<Rightarrow> bytes" where
  "rec_frames seq [] = []"
| "rec_frames seq (op # ops) = rec_frame seq op @ rec_frames (Suc seq) ops"

definition commit_body :: "u32 \<Rightarrow> nat \<Rightarrow> bytes \<Rightarrow> bytes" where
  "commit_body seed seq recs = le_bytes 8 seq @ [WAL_COMMIT] @ u32_le (crc32 recs XOR seed)"

definition commit_frame :: "u32 \<Rightarrow> nat \<Rightarrow> bytes \<Rightarrow> bytes" where
  "commit_frame seed seq recs = framed (crc32 (commit_body seed seq recs) XOR seed) (commit_body seed seq recs)"

definition batch_bytes :: "u32 \<Rightarrow> nat \<Rightarrow> wal_op list \<Rightarrow> bytes" where
  "batch_bytes seed seq ops = rec_frames seq ops @ commit_frame seed (seq + length ops) (rec_frames seq ops)"

fun log_bytes :: "u32 \<Rightarrow> nat \<Rightarrow> wal_op list list \<Rightarrow> bytes" where
  "log_bytes seed seq [] = []"
| "log_bytes seed seq (b # bs) = batch_bytes seed seq b @ log_bytes seed (seq + length b + 1) bs"

fun log_seq :: "nat \<Rightarrow> wal_op list list \<Rightarrow> nat" where
  "log_seq seq [] = seq"
| "log_seq seq (b # bs) = log_seq (seq + length b + 1) bs"

text \<open>What a replay from a sequence number applies: the records at or past it.\<close>

fun log_ops :: "nat \<Rightarrow> nat \<Rightarrow> wal_op list list \<Rightarrow> wal_op list" where
  "log_ops from seq [] = []"
| "log_ops from seq (b # bs) = drop (from - seq) b @ log_ops from (seq + length b + 1) bs"

lemma op_body_length: "length (op_body seq op) = length (op_body 0 op)"
  by (cases op) simp

lemma length_framed [simp]: "length (framed crc body) = 8 + length body"
  by (simp add: framed_def)

lemma length_commit_body [simp]: "length (commit_body seed seq recs) = 13"
  by (simp add: commit_body_def)

lemma length_commit_frame [simp]: "length (commit_frame seed seq recs) = 21"
  by (simp add: commit_frame_def)

lemma rec_frames_append: "rec_frames seq (xs @ ys) = rec_frames seq xs @ rec_frames (seq + length xs) ys"
  by (induction xs arbitrary: seq) auto

lemma log_bytes_append: "log_bytes seed seq (xs @ ys) = log_bytes seed seq xs @ log_bytes seed (log_seq seq xs) ys"
  by (induction xs arbitrary: seq) auto

lemma log_seq_append: "log_seq seq (xs @ ys) = log_seq (log_seq seq xs) ys"
  by (induction xs arbitrary: seq) auto

lemma log_seq_ge: "seq \<le> log_seq seq bs"
proof (induction bs arbitrary: seq)
  case (Cons b bs)
  have "seq + length b + 1 \<le> log_seq (seq + length b + 1) bs" by (rule Cons)
  then show ?case by simp
qed simp

lemma frame_record:
  assumes "k = WAL_PUT \<or> k = WAL_DEL \<and> value = []"
  shows "frame k key value w =
    Some (w\<lparr>w_pending := w_pending w @ rec_frame (w_seq w) (k, key, value), w_seq := (w_seq w + 1) mod 2 ^ 64\<rparr>)"
proof -
  have k: "k \<noteq> WAL_COMMIT" "k = WAL_PUT \<or> k \<noteq> WAL_PUT \<and> value = []"
    using assms by (auto simp: WAL_PUT_def WAL_DEL_def WAL_COMMIT_def)
  have z: "replicate FRAME_HEADER 0 = replicate 4 0 @ replicate 4 (0 :: byte)" by (simp add: FRAME_HEADER_def flip: replicate_add)
  show ?thesis using k
    by (auto simp: frame_def Let_def db_put_uvarint_eq z FRAME_HEADER_def blit_def framed_def)
qed

lemma frame_commit:
  "frame WAL_COMMIT key value w =
    Some (w\<lparr>w_pending := w_pending w @ commit_frame (w_seed w) (w_seq w) (w_pending w), w_seq := (w_seq w + 1) mod 2 ^ 64\<rparr>)"
proof -
  have z: "replicate FRAME_HEADER 0 = replicate 4 0 @ replicate 4 (0 :: byte)" by (simp add: FRAME_HEADER_def flip: replicate_add)
  show ?thesis
    by (simp add: frame_def Let_def z FRAME_HEADER_def blit_def framed_def commit_frame_def commit_body_def)
qed

subsection \<open>The walk over a log\<close>

fun entry :: "nat \<Rightarrow> nat \<Rightarrow> wal_op \<Rightarrow> byte \<times> nat \<times> nat \<times> nat \<times> nat" where
  "entry at seq (k, key, value) =
    (let a = at + 17 + length (uvarint (word_of_nat (length key)))
     in (k, seq, a, a + length key, a + length key + length value))"

fun entries :: "nat \<Rightarrow> nat \<Rightarrow> wal_op list \<Rightarrow> (byte \<times> nat \<times> nat \<times> nat \<times> nat) list" where
  "entries at seq [] = []"
| "entries at seq (op # ops) = entry at seq op # entries (at + length (rec_frame seq op)) (Suc seq) ops"

lemma rd_u32_mid [simp]: "rd_u32 (pre @ u32_le x @ post) (length pre) = Some x"
  by (simp add: rd_u32_def)

lemma turn_framed:
  assumes buf: "buf = pre @ framed crc body @ post" and p: "wk_p wk = length pre"
    and body: "body = le_bytes 8 seq @ kind # rest" and seq: "seq < 2 ^ 64" and len: "length body < 2 ^ 32" "length buf \<le> USIZE_MAX"
  shows "FRAME_HEADER \<le> length buf - wk_p wk" (is ?fits)
    and "walk_turn seed loose from buf wk =
      (if kind = WAL_COMMIT then commit_turn seed loose from buf body seq crc (length pre + 8 + length body) wk
       else if kind = WAL_PUT \<or> kind = WAL_DEL
       then Some (record_turn body kind seq crc (length pre + 8) (length pre + 8 + length body) wk) else Some Break)" (is ?turn)
proof -
  have bl: "9 \<le> length body" by (simp add: body)
  have l: "length buf = length pre + 8 + length body + length post" by (simp add: buf)
  then show ?fits using p bl by (simp add: FRAME_HEADER_def)
  have r1: "rd_u32 buf (length pre) = Some (word_of_nat (length body))" by (simp add: buf framed_def)
  have u: "unat (word_of_nat (length body) :: u32) = length body" using len by (simp add: unat_of_nat)
  have r2: "rd_u32 buf (length pre + 4) = Some crc"
    using rd_u32_at [of "length pre + 4" "pre @ u32_le (word_of_nat (length body))" crc "body @ post"] by (simp add: buf framed_def)
  have sl: "slice buf (length pre + 8) (length pre + 8 + length body) = Some body"
    by (simp add: slice_def l) (simp add: buf framed_def)
  have c: "checked_add (length pre + 8) (length body) = Some (length pre + 8 + length body)"
    using l len by (simp add: checked_add_def)
  have s: "map_option unat (rd_u64 body 0) = Some seq" using seq by (simp add: rd_u64_def body le_val_bytes unat_of_nat)
  have k: "index body 8 = Some kind" by (simp add: index_def body nth_append)
  have ng: "\<not> (length buf < length pre + 8 + length body \<or> length body < 9)" using l bl by simp
  show ?turn
    unfolding walk_turn_def FRAME_HEADER_def p r1 r2 Let_def bind.bind_lunit option.map u c
    by (simp only: option.case ng if_False sl s k bind.bind_lunit)
qed

lemma record_turn_rec:
  assumes "op_ok op" and "op = (k, key, value)" and "at + length (rec_frame seq op) \<le> USIZE_MAX"
  shows "record_turn (op_body seq op) k seq 0 (at + 8) (at + 8 + length (op_body seq op)) wk =
    Continue (wk\<lparr>wk_p := at + length (rec_frame seq op), wk_batch := wk_batch wk @ [entry at seq op]\<rparr>)"
proof -
  let ?u = "uvarint (word_of_nat (length key))"
  have "length key < 2 ^ 32" using assms(1,2) by simp
  then have kl: "unat (word_of_nat (length key) :: u64) = length key" by (simp add: unat_of_nat)
  have g: "db_get_uvarint (op_body seq op) 9 = Some (word_of_nat (length key), 9 + length ?u)"
    using db_get_uvarint_put [of "le_bytes 8 seq @ [k]" "word_of_nat (length key)" "key @ value"] by (simp add: assms(2))
  have c: "checked_add (9 + length ?u) (length key) = Some (9 + length ?u + length key)"
    using assms(2,3) by (simp add: checked_add_def)
  have d: "k = WAL_DEL \<Longrightarrow> value = []" using assms(1,2) by (auto simp: WAL_DEL_def WAL_PUT_def)
  have lb: "length (op_body seq op) = 9 + length ?u + length key + length value" by (simp add: assms(2))
  show ?thesis
    unfolding record_turn_def g option.case prod.case kl c using d by (auto simp: lb) (simp_all add: assms(2) Let_def ac_simps)
qed

lemma op_kind: "op_ok (k, key, value) \<Longrightarrow> k \<noteq> WAL_COMMIT \<and> (k = WAL_PUT \<or> k = WAL_DEL)"
  by (auto simp: WAL_PUT_def WAL_DEL_def WAL_COMMIT_def)

lemma walk_rec:
  assumes ok: "op_ok op" and buf: "buf = pre @ rec_frame seq op @ post" and p: "wk_p wk = length pre"
    and seq: "seq < 2 ^ 64" and len: "length buf \<le> USIZE_MAX"
  shows "walk seed loose from buf wk =
    walk seed loose from buf (wk\<lparr>wk_p := length pre + length (rec_frame seq op), wk_batch := wk_batch wk @ [entry (length pre) seq op]\<rparr>)"
proof -
  obtain k key v where op: "op = (k, key, v)" by (cases op)
  have b: "op_body seq op = le_bytes 8 seq @ k # uvarint (word_of_nat (length key)) @ key @ v" by (simp add: op)
  have l: "length (op_body seq op) < 2 ^ 32" using ok op op_body_length [of seq op] by simp
  note t = turn_framed [OF buf p b seq l len]
  have "length pre + length (rec_frame seq op) \<le> USIZE_MAX" using len by (simp add: buf)
  then have "walk_turn seed loose from buf wk = Some (Continue
      (wk\<lparr>wk_p := length pre + length (rec_frame seq op), wk_batch := wk_batch wk @ [entry (length pre) seq op]\<rparr>))"
    using record_turn_rec [OF ok op, of "length pre" seq wk] op_kind ok op by (simp add: t(2))
  then show ?thesis using t(1) by (subst walk.simps) simp
qed

lemma walk_recs:
  "\<lbrakk>\<forall>op \<in> set ops. op_ok op; buf = pre @ rec_frames seq ops @ post; wk_p wk = length pre; seq + length ops \<le> 2 ^ 64;
    length buf \<le> USIZE_MAX\<rbrakk> \<Longrightarrow>
   walk seed loose from buf wk =
    walk seed loose from buf (wk\<lparr>wk_p := length pre + length (rec_frames seq ops), wk_batch := wk_batch wk @ entries (length pre) seq ops\<rparr>)"
proof (induction ops arbitrary: pre seq wk)
  case Nil
  then show ?case by (cases wk) simp
next
  case (Cons op ops)
  let ?wk = "wk\<lparr>wk_p := length pre + length (rec_frame seq op), wk_batch := wk_batch wk @ [entry (length pre) seq op]\<rparr>"
  have "walk seed loose from buf wk = walk seed loose from buf ?wk"
    using walk_rec [of op buf pre seq "rec_frames (Suc seq) ops @ post" wk] Cons.prems by simp
  also have "\<dots> = walk seed loose from buf (?wk\<lparr>wk_p := length (pre @ rec_frame seq op) + length (rec_frames (Suc seq) ops),
      wk_batch := wk_batch ?wk @ entries (length (pre @ rec_frame seq op)) (Suc seq) ops\<rparr>)"
    using Cons.prems by (intro Cons.IH) simp_all
  finally show ?case by (simp add: ac_simps)
qed

lemma entry_seq [simp]: "(case entry at seq op of (k, s, a) \<Rightarrow> s) = seq"
  by (cases op) (simp add: Let_def)

lemma entries_seqs: "map (\<lambda>(k, s, ks, ke, ve). s) (entries at seq ops) = [seq..<seq + length ops]"
proof (induction ops arbitrary: at seq)
  case (Cons op ops)
  then show ?case using upt_conv_Cons [of seq "seq + length (op # ops)"] by simp
qed simp

lemma check_seqs_upt: "b < 2 ^ 64 \<Longrightarrow> a \<le> b \<Longrightarrow> check_seqs from [a..<b] (max from a) = Some (max from b)"
proof (induction "b - a" arbitrary: a)
  case 0
  then show ?case by simp
next
  case (Suc n)
  then have ab: "a < b" by simp
  have "check_seqs from [Suc a..<b] (max from (Suc a)) = Some (max from b)" using Suc by simp
  then show ?case using ab Suc.prems
    by (cases "from \<le> a") (auto simp: upt_conv_Cons max_def le_Suc_eq split: if_splits)
qed

lemma find_upt: "List.find (\<lambda>s. from \<le> s) [a..<b] = (if max from a < b then Some (max from a) else None)"
proof (induction "b - a" arbitrary: a)
  case 0
  then show ?case by simp
next
  case (Suc n)
  then have ab: "a < b" by simp
  have "List.find (\<lambda>s. from \<le> s) [Suc a..<b] = (if max from (Suc a) < b then Some (max from (Suc a)) else None)" using Suc by simp
  then show ?case using ab by (cases "from \<le> a") (simp_all add: upt_conv_Cons max_def)
qed

lemma apply_entries:
  "buf = pre @ rec_frames seq ops @ post \<Longrightarrow>
    apply_batch buf from (entries (length pre) seq ops) acc = Some (acc @ drop (from - seq) ops)"
proof (induction ops arbitrary: pre seq acc)
  case Nil
  then show ?case by simp
next
  case (Cons op ops)
  obtain k key v where op: "op = (k, key, v)" by (cases op)
  have b: "buf = (pre @ rec_frame seq op) @ rec_frames (Suc seq) ops @ post" using Cons.prems by simp
  note ih = Cons.IH [OF b]
  let ?u = "uvarint (word_of_nat (length key)) :: bytes"
  let ?h = "pre @ u32_le (word_of_nat (length (op_body seq op))) @ u32_le 0 @ le_bytes 8 seq @ [k] @ ?u"
  have bb: "buf = ?h @ key @ v @ rec_frames (Suc seq) ops @ post" using Cons.prems by (simp add: op framed_def)
  have lh: "length ?h = length pre + 17 + length ?u" by simp
  have s1: "slice buf (length pre + 17 + length ?u) (length pre + 17 + length ?u + length key) = Some key"
    using lh by (simp add: slice_def) (simp add: bb)
  have s2: "slice buf (length pre + 17 + length ?u + length key) (length pre + 17 + length ?u + length key + length v) = Some v"
    using lh by (simp add: slice_def) (simp add: bb)
  show ?case
  proof (cases "from \<le> seq")
    case True
    then show ?thesis using ih [of "acc @ [op]"] s1 s2 by (simp add: op Let_def)
  next
    case False
    then have "from - seq = Suc (from - Suc seq)" by simp
    then show ?thesis using ih [of acc] False by (simp add: op Let_def)
  qed
qed

text \<open>A whole batch: its commit frame verifies, and what is left is the check of its sequence numbers.\<close>

lemma walk_commit:
  assumes ok: "\<forall>op \<in> set ops. op_ok op" and buf: "buf = pre @ batch_bytes seed seq ops @ post" and p: "wk_p wk = length pre"
    and seq: "seq + length ops + 1 < 2 ^ 64" and len: "length buf \<le> USIZE_MAX"
    and wk: "wk_batch wk = []" "wk_start wk = length pre"
  shows "walk seed loose from buf wk =
    (if loose \<and> wk_committed wk = from \<and>
        (case List.find (\<lambda>s. from \<le> s) [seq..<seq + length ops + 1] of Some s \<Rightarrow> s \<noteq> wk_next wk | None \<Rightarrow> False)
     then Some (wk_ops wk, Inr (from, length WAL_MAGIC, True))
     else case check_seqs from [seq..<seq + length ops + 1] (wk_next wk) of
            None \<Rightarrow> Some (wk_ops wk, Inl SequenceGap)
          | Some next_seq \<Rightarrow> walk seed loose from buf
              \<lparr>wk_p = length pre + length (batch_bytes seed seq ops), wk_next = next_seq, wk_committed = next_seq,
               wk_valid = length pre + length (batch_bytes seed seq ops), wk_batch = [],
               wk_start = length pre + length (batch_bytes seed seq ops), wk_ops = wk_ops wk @ drop (from - seq) ops\<rparr>)"
    (is "_ = ?result")
proof -
  let ?r = "rec_frames seq ops" and ?s = "seq + length ops"
  let ?c = "commit_body seed ?s ?r"
  let ?e = "length pre + length (batch_bytes seed seq ops)"
  let ?wk = "wk\<lparr>wk_p := length pre + length ?r, wk_batch := entries (length pre) seq ops\<rparr>"
  have b1: "buf = pre @ ?r @ commit_frame seed ?s ?r @ post" by (simp add: buf batch_bytes_def)
  have w1: "walk seed loose from buf wk = walk seed loose from buf ?wk"
    using walk_recs [OF ok b1 p _ len] seq wk(1) by simp
  have b2: "buf = (pre @ ?r) @ framed (crc32 ?c XOR seed) ?c @ post" by (simp add: b1 commit_frame_def)
  have cb: "?c = le_bytes 8 ?s @ WAL_COMMIT # u32_le (crc32 ?r XOR seed)" by (simp add: commit_body_def)
  have s64: "?s < 2 ^ 64" using seq by simp
  have l32: "length ?c < 2 ^ 32" by simp
  have pp: "wk_p ?wk = length (pre @ ?r)" by simp
  note t = turn_framed [OF b2 pp cb s64 l32 len]
  have e: "length (pre @ ?r) + 8 + length ?c = ?e" by (simp add: batch_bytes_def)
  have want: "rd_u32 ?c 9 = Some (crc32 ?r XOR seed)"
    using rd_u32_at [of 9 "le_bytes 8 ?s @ [WAL_COMMIT]" "crc32 ?r XOR seed" "[]"] by (simp add: commit_body_def)
  have sofar: "slice buf (wk_start ?wk) (wk_p ?wk) = Some ?r" using wk(2) by (simp add: slice_def b1)
  have seqs: "map (\<lambda>(k, s, ks, ke, ve). s) (wk_batch ?wk) @ [?s] = [seq..<?s + 1]"
    by (simp add: entries_seqs)
  have app: "apply_batch buf from (wk_batch ?wk) (wk_ops wk) = Some (wk_ops wk @ drop (from - seq) ops)"
    using apply_entries [OF b1] by simp
  have same: "wk_next ?wk = wk_next wk" "wk_committed ?wk = wk_committed wk" "wk_ops ?wk = wk_ops wk" by simp_all
  have tt: "walk_turn seed loose from buf ?wk =
    (if loose \<and> wk_committed wk = from \<and>
        (case List.find (\<lambda>s. from \<le> s) [seq..<?s + 1] of Some s \<Rightarrow> s \<noteq> wk_next wk | None \<Rightarrow> False)
     then Some (Return (wk_ops wk) (Inr (from, length WAL_MAGIC, True)))
     else case check_seqs from [seq..<?s + 1] (wk_next wk) of
            None \<Rightarrow> Some (Return (wk_ops wk) (Inl SequenceGap))
          | Some next_seq \<Rightarrow> Some (Continue
              \<lparr>wk_p = ?e, wk_next = next_seq, wk_committed = next_seq, wk_valid = ?e, wk_batch = [],
               wk_start = ?e, wk_ops = wk_ops wk @ drop (from - seq) ops\<rparr>))"
    unfolding t(2) e commit_turn_def want sofar seqs app same Let_def bind.bind_lunit by simp
  show ?thesis
    unfolding w1 using t(1) tt by (subst walk.simps) (auto split: option.splits)
qed

lemma walk_batch:
  assumes ok: "\<forall>op \<in> set ops. op_ok op" and buf: "buf = pre @ batch_bytes seed seq ops @ post" and p: "wk_p wk = length pre"
    and seq: "seq + length ops + 1 < 2 ^ 64" and len: "length buf \<le> USIZE_MAX"
    and wk: "wk_batch wk = []" "wk_start wk = length pre" "wk_next wk = max from seq" "wk_committed wk = max from seq"
  shows "walk seed loose from buf wk = walk seed loose from buf
    \<lparr>wk_p = length pre + length (batch_bytes seed seq ops), wk_next = max from (seq + length ops + 1),
     wk_committed = max from (seq + length ops + 1), wk_valid = length pre + length (batch_bytes seed seq ops), wk_batch = [],
     wk_start = length pre + length (batch_bytes seed seq ops), wk_ops = wk_ops wk @ drop (from - seq) ops\<rparr>"
proof -
  have chk: "check_seqs from [seq..<seq + length ops + 1] (max from seq) = Some (max from (seq + length ops + 1))"
    by (rule check_seqs_upt) (use seq in auto)
  have fnd: "(case List.find (\<lambda>s. from \<le> s) [seq..<seq + length ops + 1] of Some s \<Rightarrow> s \<noteq> max from seq | None \<Rightarrow> False) = False"
    by (subst find_upt) simp
  show ?thesis
    unfolding walk_commit [OF ok buf p seq len wk(1,2)] wk(3,4) chk fnd by simp
qed

subsection \<open>Torn tails\<close>

definition stopped :: "walk_state \<Rightarrow> (wal_op list \<times> (wal_error + nat \<times> nat \<times> bool)) option" where
  "stopped wk = Some (wk_ops wk, Inr (wk_committed wk, wk_valid wk, False))"

lemma walk_break:
  "walk_turn seed loose from buf wk = Some Break \<Longrightarrow> walk seed loose from buf wk = stopped wk"
  by (subst walk.simps) (simp add: stopped_def)

lemma le_val_replicate [simp]: "le_val (replicate n 0) = 0"
  by (induction n) auto

lemma walk_short: "length buf < wk_p wk + FRAME_HEADER \<Longrightarrow> walk seed loose from buf wk = stopped wk"
  by (subst walk.simps) (auto simp: stopped_def FRAME_HEADER_def)

lemma walk_zeros:
  assumes "drop (wk_p wk) buf = replicate m 0"
  shows "walk seed loose from buf wk = stopped wk"
proof (cases "length buf < wk_p wk + FRAME_HEADER")
  case False
  have "length (drop (wk_p wk) buf) = m" using assms by simp
  then have m: "length buf = wk_p wk + m" "8 \<le> m" using False by (simp_all add: FRAME_HEADER_def)
  have "rd_u32 buf (wk_p wk) = Some 0" using m assms by (simp add: rd_u32_def)
  moreover obtain x where "rd_u32 buf (wk_p wk + 4) = Some x" using m by (simp add: rd_u32_def)
  ultimately show ?thesis
    by (intro walk_break) (auto simp: walk_turn_def Let_def split: option.splits)
qed (rule walk_short)

lemma record_turn_cases:
  "record_turn body kind seq crc body_at e wk = Break \<or> (\<exists>b. record_turn body kind seq crc body_at e wk = Continue (wk\<lparr>wk_p := e, wk_batch := b\<rparr>))"
  by (auto simp: record_turn_def split: option.splits)

lemma walk_quiet:
  assumes d: "drop (wk_p wk) buf = x @ replicate m 0" and len: "length x \<le> 8 + le_val (take 4 (x @ replicate m 0))"
    and kind: "16 < length x + m \<Longrightarrow> (x @ replicate m 0) ! 16 \<noteq> WAL_COMMIT"
  shows "walk seed loose from buf wk = stopped wk"
proof (cases "length buf < wk_p wk + FRAME_HEADER")
  case False
  let ?p = "wk_p wk" and ?r = "x @ replicate m 0"
  define L where "L = le_val (take 4 ?r)"
  let ?e = "?p + 8 + L"
  have len: "length x \<le> 8 + L" using len by (simp add: L_def)
  have fit: "8 \<le> length buf - ?p" "?p \<le> length buf" using False by (simp_all add: FRAME_HEADER_def)
  have l: "length buf = ?p + length x + m" using arg_cong [OF d, of length] fit by simp
  have "le_val (take 4 (drop ?p buf)) = L" using d by (simp add: L_def)
  moreover have "L < 2 ^ 32"
  proof -
    have "length (take 4 ?r) = 4" using l fit by simp
    then have "L < 256 ^ 4" using le_val_less [of "take 4 ?r"] by (simp only: L_def)
    then show ?thesis by simp
  qed
  ultimately have r1: "map_option unat (rd_u32 buf ?p) = Some L"
    using l fit by (simp add: rd_u32_def unat_of_nat flip: L_def)
  obtain crc where r2: "rd_u32 buf (?p + 4) = Some crc" using l fit by (simp add: rd_u32_def)
  show ?thesis
  proof (cases "?e \<le> USIZE_MAX \<and> ?e \<le> length buf \<and> 9 \<le> L")
    case False
    then have "walk_turn seed loose from buf wk = Some Break"
      unfolding walk_turn_def FRAME_HEADER_def r1 r2 Let_def bind.bind_lunit by (auto simp: checked_add_def)
    then show ?thesis by (rule walk_break)
  next
    case True
    define e where "e = ?e"
    have e: "e \<le> USIZE_MAX" "e \<le> length buf" "9 \<le> L" using True by (simp_all add: e_def)
    have c: "checked_add (?p + 8) L = Some e" using e by (simp add: checked_add_def e_def)
    have ng: "\<not> (length buf < e \<or> L < 9)" using e by simp
    obtain body where b: "slice buf (?p + 8) e = Some body" "body = take L (drop (?p + 8) buf)" using e by (simp add: slice_def e_def)
    have lb: "length body = L" using b(2) e by (simp add: e_def)
    obtain seq where s: "map_option unat (rd_u64 body 0) = Some seq" using lb e(3) by (simp add: rd_u64_def)
    have k: "index body 8 = Some (?r ! 16)"
    proof -
      have "body ! 8 = buf ! (?p + 16)" using b(2) e lb l by (simp add: add.commute)
      also have "\<dots> = drop ?p buf ! 16" using fit by simp
      finally show ?thesis using lb e(3) by (simp add: index_def d)
    qed
    have nc: "?r ! 16 \<noteq> WAL_COMMIT" using kind e(2,3) l by (simp add: e_def)
    let ?t = "record_turn body (?r ! 16) seq crc (?p + 8) e wk"
    have t: "walk_turn seed loose from buf wk = (if ?r ! 16 = WAL_PUT \<or> ?r ! 16 = WAL_DEL then Some ?t else Some Break)"
      unfolding walk_turn_def FRAME_HEADER_def r1 r2 Let_def bind.bind_lunit c
      by (simp only: option.case ng if_False b(1) s k bind.bind_lunit nc)
    show ?thesis
    proof (cases "walk_turn seed loose from buf wk = Some Break")
      case False
      then obtain bt where w: "walk_turn seed loose from buf wk = Some (Continue (wk\<lparr>wk_p := e, wk_batch := bt\<rparr>))"
        using record_turn_cases [of body "?r ! 16" seq crc "?p + 8" e wk] by (auto simp: t split: if_splits)
      have "drop e buf = drop (e - ?p) (drop ?p buf)" by (simp add: e_def ac_simps)
      also have "\<dots> = replicate (length buf - e) 0" unfolding d using len l by (simp add: e_def)
      finally have "walk seed loose from buf (wk\<lparr>wk_p := e, wk_batch := bt\<rparr>) = stopped (wk\<lparr>wk_p := e, wk_batch := bt\<rparr>)"
        by (intro walk_zeros) simp
      then show ?thesis using w fit by (subst walk.simps) (simp add: stopped_def FRAME_HEADER_def)
    qed (rule walk_break)
  qed
qed (rule walk_short)

text \<open>A frame cut short: either it is taken for a record and nothing follows, or the walk ends there.\<close>

lemma walk_cut_frame:
  assumes d: "drop (wk_p wk) buf = take c (framed crc body) @ replicate m 0" and c: "c < length (framed crc body)"
    and b: "8 < length body" "length body < 2 ^ 32" and k: "c \<le> 16 \<or> body ! 8 \<noteq> WAL_COMMIT"
  shows "walk seed loose from buf wk = stopped wk"
proof (rule walk_quiet [OF d])
  let ?F = "framed crc body"
  have cl: "length (take c ?F) = c" using c by simp
  show "length (take c ?F) \<le> 8 + le_val (take 4 (take c ?F @ replicate m 0))"
  proof (cases "c < 4")
    case False
    then have "take 4 (take c ?F @ replicate m 0) = u32_le (word_of_nat (length body))" using c by (simp add: framed_def)
    moreover have "le_val (u32_le (word_of_nat (length body))) = length body"
      using b by (simp add: u32_le_def le_val_bytes unat_of_nat)
    ultimately show ?thesis using c cl by simp
  qed (use cl in simp)
  show "(take c ?F @ replicate m 0) ! 16 \<noteq> WAL_COMMIT" if "16 < length (take c ?F) + m"
  proof (cases "c \<le> 16")
    case True
    then show ?thesis using that cl by (simp add: nth_append WAL_COMMIT_def del: length_take)
  next
    case False
    then have "(take c ?F @ replicate m 0) ! 16 = body ! 8" using cl by (simp add: nth_append framed_def del: length_take)
    then show ?thesis using k False by simp
  qed
qed

lemma walk_cut_recs:
  "\<lbrakk>\<forall>op \<in> set ops. op_ok op; buf = pre @ take c (rec_frames seq ops) @ replicate m 0; c < length (rec_frames seq ops);
    wk_p wk = length pre; seq + length ops \<le> 2 ^ 64; length buf \<le> USIZE_MAX\<rbrakk> \<Longrightarrow>
   walk seed loose from buf wk = stopped wk"
proof (induction ops arbitrary: pre seq wk c)
  case Nil
  then show ?case by simp
next
  case (Cons op ops)
  let ?F = "rec_frame seq op"
  show ?case
  proof (cases "c < length ?F")
    case True
    obtain k key v where op: "op = (k, key, v)" by (cases op)
    have l: "length (op_body seq op) < 2 ^ 32" "op_ok op" using Cons.prems(1) op_body_length [of seq op] by (simp_all add: op)
    have "drop (wk_p wk) buf = take c ?F @ replicate m 0" using Cons.prems(2,4) True by simp
    moreover have "8 < length (op_body seq op)" "op_body seq op ! 8 \<noteq> WAL_COMMIT"
      using op_kind [of k key v] l(2) by (simp_all add: op nth_append)
    ultimately show ?thesis using walk_cut_frame True l(1) by blast
  next
    case False
    let ?wk = "wk\<lparr>wk_p := length pre + length ?F, wk_batch := wk_batch wk @ [entry (length pre) seq op]\<rparr>"
    have b: "buf = (pre @ ?F) @ take (c - length ?F) (rec_frames (Suc seq) ops) @ replicate m 0" using Cons.prems(2) False by simp
    have "walk seed loose from buf wk = walk seed loose from buf ?wk"
      by (rule walk_rec [where post = "take (c - length ?F) (rec_frames (Suc seq) ops) @ replicate m 0"]) (use Cons.prems b in simp_all)
    also have "\<dots> = stopped ?wk"
      by (rule Cons.IH [OF _ b]) (use Cons.prems False in simp_all)
    finally show ?thesis by (simp add: stopped_def)
  qed
qed

lemma walk_past_end:
  assumes d: "drop (wk_p wk) buf = u32_le (word_of_nat n) @ rest" and n: "n < 2 ^ 32" and r: "length rest < 4 + n"
  shows "walk seed loose from buf wk = stopped wk"
proof (cases "length buf < wk_p wk + FRAME_HEADER")
  case False
  then have l: "wk_p wk + 8 \<le> length buf" by (simp add: FRAME_HEADER_def)
  have e: "length buf < wk_p wk + 8 + n" using arg_cong [OF d, of length] l r by simp
  have r1: "map_option unat (rd_u32 buf (wk_p wk)) = Some n" using d n l by (simp add: rd_u32_def unat_of_nat)
  obtain crc where r2: "rd_u32 buf (wk_p wk + 4) = Some crc" using l by (simp add: rd_u32_def)
  have "walk_turn seed loose from buf wk = Some Break"
    unfolding walk_turn_def r1 r2 bind.bind_lunit Let_def using e by (simp add: FRAME_HEADER_def checked_add_def)
  then show ?thesis by (rule walk_break)
qed (rule walk_short)

lemma walk_bad_commit:
  assumes buf: "buf = pre @ framed crc body @ post" and p: "wk_p wk = length pre"
    and body: "body = le_bytes 8 seq @ WAL_COMMIT # rest" and b: "seq < 2 ^ 64" "length body < 2 ^ 32" "length buf \<le> USIZE_MAX"
    and bad: "crc32 body XOR seed \<noteq> crc"
  shows "walk seed loose from buf wk = stopped wk"
  by (rule walk_break) (simp add: turn_framed(2) [OF buf p body b] commit_turn_def bad)

lemma cut_commit_body:
  fixes recs :: bytes and seed :: u32
  assumes c: "16 < c" "c < 21" and m: "21 - c \<le> m"
  defines "w \<equiv> take (c - 17) (u32_le (crc32 recs XOR seed)) @ replicate (21 - c) 0"
  shows "take c (commit_frame seed seq recs) @ replicate m 0 =
      framed (crc32 (commit_body seed seq recs) XOR seed) (blit (commit_body seed seq recs) 9 w) @ replicate (m - (21 - c)) 0"
    and "blit (commit_body seed seq recs) 9 w = le_bytes 8 seq @ WAL_COMMIT # w" and "length w = 4"
proof -
  show w: "length w = 4" using c by (simp add: w_def)
  show bl: "blit (commit_body seed seq recs) 9 w = le_bytes 8 seq @ WAL_COMMIT # w"
    by (simp add: blit_def commit_body_def w)
  have z: "replicate m (0 :: byte) = replicate (21 - c) 0 @ replicate (m - (21 - c)) 0" using m by (simp flip: replicate_add)
  have "take (c - 8) (commit_body seed seq recs) = le_bytes 8 seq @ WAL_COMMIT # take (c - 17) (u32_le (crc32 recs XOR seed))"
    using c by (simp add: commit_body_def take_Cons')
  then show "take c (commit_frame seed seq recs) @ replicate m 0 =
      framed (crc32 (commit_body seed seq recs) XOR seed) (blit (commit_body seed seq recs) 9 w) @ replicate (m - (21 - c)) 0"
    unfolding bl using c by (simp add: commit_frame_def framed_def w_def z)
qed

lemma walk_cut_batch:
  assumes ok: "\<forall>op \<in> set ops. op_ok op" and buf: "buf = pre @ take c (batch_bytes seed seq ops) @ replicate m 0"
    and c: "c < length (batch_bytes seed seq ops)" and p: "wk_p wk = length pre"
    and seq: "seq + length ops + 1 < 2 ^ 64" and len: "length buf \<le> USIZE_MAX"
  shows "walk seed loose from buf wk = stopped wk \<or> (\<exists>m'. buf = pre @ batch_bytes seed seq ops @ replicate m' 0)"
proof (cases "c < length (rec_frames seq ops)")
  case True
  then have "buf = pre @ take c (rec_frames seq ops) @ replicate m 0" by (simp add: buf batch_bytes_def)
  from walk_cut_recs [OF ok this True p _ len] seq show ?thesis by simp
next
  case False
  let ?r = "rec_frames seq ops" and ?s = "seq + length ops"
  define d where "d = c - length (rec_frames seq ops)"
  let ?F = "commit_frame seed ?s ?r" and ?B = "commit_body seed ?s ?r"
  have d: "d < 21" "take c (batch_bytes seed seq ops) = ?r @ take d ?F" using c False by (simp_all add: batch_bytes_def d_def)
  have b1: "buf = pre @ ?r @ take d ?F @ replicate m 0" by (simp add: buf d)
  let ?wk = "wk\<lparr>wk_p := length pre + length ?r, wk_batch := wk_batch wk @ entries (length pre) seq ops\<rparr>"
  have w1: "walk seed loose from buf wk = walk seed loose from buf ?wk"
    by (rule walk_recs [OF ok b1 p _ len]) (use seq in simp)
  have st: "stopped ?wk = stopped wk" by (simp add: stopped_def)
  have dr: "drop (wk_p ?wk) buf = take d ?F @ replicate m 0" by (simp add: b1)
  consider "d \<le> 16" | "16 < d" "m < 21 - d" | "16 < d" "21 - d \<le> m" by linarith
  then show ?thesis
  proof cases
    case 1
    have "walk seed loose from buf ?wk = stopped ?wk"
      by (rule walk_cut_frame [OF dr [unfolded commit_frame_def]]) (use d(1) 1 in simp_all)
    then show ?thesis using w1 st by simp
  next
    case 2
    have "take d ?F @ replicate m 0 = u32_le (word_of_nat 13) @ (take (d - 4) (u32_le (crc32 ?B XOR seed) @ ?B) @ replicate m 0)"
      using 2 by (simp add: commit_frame_def framed_def)
    then have "walk seed loose from buf ?wk = stopped ?wk"
      using walk_past_end [of ?wk buf 13] dr 2 d(1) by simp
    then show ?thesis using w1 st by simp
  next
    case 3
    define w where "w = take (d - 17) (u32_le (crc32 ?r XOR seed)) @ replicate (21 - d) 0"
    note cb = cut_commit_body [OF 3(1) d(1) 3(2), where recs = ?r and seed = seed, folded w_def]
    have b2: "buf = (pre @ ?r) @ framed (crc32 ?B XOR seed) (blit ?B 9 w) @ replicate (m - (21 - d)) 0"
      using cb(1) by (simp add: b1)
    show ?thesis
    proof (cases "blit ?B 9 w = ?B")
      case True
      then have "buf = pre @ batch_bytes seed seq ops @ replicate (m - (21 - d)) 0" using b2 by (simp add: batch_bytes_def commit_frame_def)
      then show ?thesis by blast
    next
      case False
      have "crc32 (blit ?B 9 w) \<noteq> crc32 ?B" by (rule crc.blit_noticed) (use False cb(3) in simp_all)
      then have bad: "crc32 (blit ?B 9 w) XOR seed \<noteq> crc32 ?B XOR seed" using xor_right_cancel by blast
      have "walk seed loose from buf ?wk = stopped ?wk"
        by (rule walk_bad_commit [OF b2 _ cb(2) _ _ len bad]) (use seq cb(2,3) in simp_all)
      then show ?thesis using w1 st by simp
    qed
  qed
qed

subsection \<open>The whole log\<close>

definition walk_at :: "nat \<Rightarrow> nat \<Rightarrow> nat \<Rightarrow> wal_op list \<Rightarrow> walk_state" where
  "walk_at from seq at ops = \<lparr>wk_p = at, wk_next = max from seq, wk_committed = max from seq, wk_valid = at, wk_batch = [],
    wk_start = at, wk_ops = ops\<rparr>"

definition recovered :: "u32 \<Rightarrow> nat \<Rightarrow> nat \<Rightarrow> nat \<Rightarrow> wal_op list \<Rightarrow> wal_op list list \<Rightarrow> (wal_op list \<times> (wal_error + nat \<times> nat \<times> bool)) option" where
  "recovered seed from seq at ops bs =
    Some (ops @ log_ops from seq bs, Inr (max from (log_seq seq bs), at + length (log_bytes seed seq bs), False))"

text \<open>A log cut anywhere, with zeros behind the cut: whole batches are replayed, at least those before the cut.\<close>

lemma walk_log:
  "\<lbrakk>\<forall>b \<in> set bs. \<forall>op \<in> set b. op_ok op; log_seq seq bs < 2 ^ 64; length buf \<le> USIZE_MAX;
    buf = pre @ take c (log_bytes seed seq bs) @ replicate m 0\<rbrakk> \<Longrightarrow>
   \<exists>k \<le> length bs. (\<forall>j \<le> length bs. length (log_bytes seed seq (take j bs)) \<le> c \<longrightarrow> j \<le> k) \<and>
    (\<exists>rest. buf = pre @ log_bytes seed seq (take k bs) @ rest) \<and>
    walk seed loose from buf (walk_at from seq (length pre) ops) = recovered seed from seq (length pre) ops (take k bs)"
proof (induction bs arbitrary: seq pre c m ops)
  case Nil
  have "walk seed loose from buf (walk_at from seq (length pre) ops) = stopped (walk_at from seq (length pre) ops)"
    by (rule walk_zeros [of _ _ m]) (use Nil in \<open>simp add: walk_at_def\<close>)
  then show ?case using Nil by (simp add: recovered_def walk_at_def stopped_def)
next
  case (Cons b bs)
  let ?B = "batch_bytes seed seq b" and ?s = "seq + length b + 1" and ?wk = "walk_at from seq (length pre) ops"
  have ok: "\<forall>op \<in> set b. op_ok op" using Cons.prems(1) by simp
  have s: "?s < 2 ^ 64" using Cons.prems(2) log_seq_ge [of ?s bs] by simp
  have go: "\<exists>k \<le> length (b # bs). (\<forall>j \<le> length (b # bs). length (log_bytes seed seq (take j (b # bs))) \<le> c \<longrightarrow> j \<le> k) \<and>
      (\<exists>rest. buf = pre @ log_bytes seed seq (take k (b # bs)) @ rest) \<and>
      walk seed loose from buf ?wk = recovered seed from seq (length pre) ops (take k (b # bs))"
    if h: "buf = pre @ ?B @ take c' (log_bytes seed ?s bs) @ replicate m' 0" "c \<le> length ?B + c'" for c' m'
  proof -
    have h1: "buf = (pre @ ?B) @ take c' (log_bytes seed ?s bs) @ replicate m' 0" using h(1) by simp
    have ok2: "\<forall>b \<in> set bs. \<forall>op \<in> set b. op_ok op" and s2: "log_seq ?s bs < 2 ^ 64" using Cons.prems(1,2) by simp_all
    have "walk seed loose from buf ?wk =
      walk seed loose from buf (walk_at from ?s (length (pre @ ?B)) (ops @ drop (from - seq) b))"
      using walk_batch [OF ok h(1) _ s Cons.prems(3), of ?wk "from"] by (simp add: walk_at_def)
    moreover obtain k where k: "k \<le> length bs" "\<forall>j \<le> length bs. length (log_bytes seed ?s (take j bs)) \<le> c' \<longrightarrow> j \<le> k"
      "\<exists>rest. buf = (pre @ ?B) @ log_bytes seed ?s (take k bs) @ rest"
      "walk seed loose from buf (walk_at from ?s (length (pre @ ?B)) (ops @ drop (from - seq) b)) =
        recovered seed from ?s (length (pre @ ?B)) (ops @ drop (from - seq) b) (take k bs)"
      using Cons.IH [OF ok2 s2 Cons.prems(3) h1, of "ops @ drop (from - seq) b"] by blast
    moreover have "j \<le> Suc k" if "j \<le> length (b # bs)" "length (log_bytes seed seq (take j (b # bs))) \<le> c" for j
      using that k(2) h(2) by (cases j) auto
    ultimately show ?thesis by (intro exI [of _ "Suc k"]) (auto simp: recovered_def)
  qed
  show ?case
  proof (cases "length ?B \<le> c")
    case True
    then show ?thesis using go [of "c - length ?B" m] Cons.prems(4) by simp
  next
    case False
    have b: "buf = pre @ take c ?B @ replicate m 0" using Cons.prems(4) False by simp
    from walk_cut_batch [OF ok b _ _ s Cons.prems(3), of ?wk loose "from"]
    consider "walk seed loose from buf ?wk = stopped ?wk" | m' where "buf = pre @ ?B @ replicate m' 0"
      using False by (auto simp: walk_at_def)
    then show ?thesis
    proof cases
      case 1
      have "j = 0" if "j \<le> length (b # bs)" "length (log_bytes seed seq (take j (b # bs))) \<le> c" for j
        using that False by (cases j) auto
      then show ?thesis using 1 b by (intro exI [of _ 0]) (auto simp: recovered_def stopped_def walk_at_def)
    next
      case 2
      then show ?thesis using go [of 0 m'] False by simp
    qed
  qed
qed

subsection \<open>Replay of a file\<close>

lemma wal_header_eq: "wal_header kind = WAL_HEAD @ [kind]"
  by (simp add: wal_header_def WAL_HEAD_def blit_def numeral_eq_Suc)

lemma length_header [simp]: "length (wal_header kind) = 8" "length WAL_MAGIC = 8" "length WAL_HEAD = 7"
  by (simp_all add: wal_header_eq WAL_HEAD_def WAL_MAGIC_def)

lemma wal_header_nonempty [simp]: "wal_header kind \<noteq> []"
  by (simp add: wal_header_eq)

lemma wal_kind_header: "kind = WAL_CHAINED \<or> kind = WAL_LOOSE \<Longrightarrow> wal_kind (wal_header kind) = Some kind"
  by (auto simp: wal_kind_def wal_header_eq nth_append)

lemma log_ops_all: "from \<le> seq \<Longrightarrow> log_ops from seq bs = concat bs"
  by (induction bs arbitrary: seq) auto

lemma replay_walk:
  assumes "kind = WAL_CHAINED \<or> kind = WAL_LOOSE" and "buf = wal_header kind @ rest"
  shows "replay (Some buf) i from first =
    walk (wal_seed i) (kind = WAL_LOOSE \<and> \<not> first) from buf
      \<lparr>wk_p = 8, wk_next = from, wk_committed = from, wk_valid = 8, wk_batch = [], wk_start = 8, wk_ops = []\<rparr>"
proof -
  have "buf \<noteq> []" "\<not> length buf < 8" "take 8 buf = wal_header kind" using assms(2) by (auto simp flip: length_0_conv)
  then show ?thesis using wal_kind_header [OF assms(1)] by (simp add: replay_def Let_def)
qed

lemma replay_torn_header:
  assumes "n < 8"
  shows "replay (Some (take n (wal_header kind))) i from first = Some ([], Inr (from, 0, False))"
proof -
  have "take n (wal_header kind) = take n WAL_HEAD" using assms by (simp add: wal_header_eq)
  moreover have "take n (wal_header kind) = [] \<longleftrightarrow> n = 0" by (simp add: min_def flip: length_0_conv)
  ultimately show ?thesis using assms by (simp add: replay_def Let_def min_def)
qed

definition log_ok :: "nat \<Rightarrow> wal_op list list \<Rightarrow> bool" where
  "log_ok seq bs \<longleftrightarrow> (\<forall>b \<in> set bs. \<forall>op \<in> set b. op_ok op) \<and> log_seq seq bs < 2 ^ 64"

text \<open>What a crash may leave: the first bytes of the file, and zeros that were written ahead.\<close>

definition crash_image :: "nat \<Rightarrow> nat \<Rightarrow> bytes \<Rightarrow> bytes" where
  "crash_image n m file = take n file @ replicate m 0"

lemma replay_crash:
  assumes kind: "kind = WAL_CHAINED \<or> kind = WAL_LOOSE" and ok: "log_ok seq bs" "seq \<le> from"
    and n: "8 \<le> n \<or> m = 0" "length (crash_image n m (wal_header kind @ log_bytes (wal_seed i) seq bs)) \<le> USIZE_MAX"
  shows "\<exists>k \<le> length bs. (\<forall>j \<le> length bs. 8 + length (log_bytes (wal_seed i) seq (take j bs)) \<le> n \<longrightarrow> j \<le> k) \<and>
    (if n < 8 then k = 0 else \<exists>rest. crash_image n m (wal_header kind @ log_bytes (wal_seed i) seq bs) =
      wal_header kind @ log_bytes (wal_seed i) seq (take k bs) @ rest) \<and>
    replay (Some (crash_image n m (wal_header kind @ log_bytes (wal_seed i) seq bs))) i from first =
      Some (log_ops from seq (take k bs),
        Inr (max from (log_seq seq (take k bs)), if n < 8 then 0 else 8 + length (log_bytes (wal_seed i) seq (take k bs)), False))"
proof (cases "n < 8")
  case True
  then show ?thesis using n(1) ok(2) replay_torn_header [OF True, of kind i "from" first]
    by (intro exI [of _ 0]) (simp add: crash_image_def max_def)
next
  case False
  let ?L = "log_bytes (wal_seed i) seq bs"
  define buf where "buf = crash_image n m (wal_header kind @ ?L)"
  have b: "buf = wal_header kind @ take (n - 8) ?L @ replicate m 0" using False by (simp add: buf_def crash_image_def)
  have "length buf \<le> USIZE_MAX" using n(2) by (simp add: buf_def)
  from walk_log [OF _ _ this b, of "kind = WAL_LOOSE \<and> \<not> first" "from" "[]"] ok
  obtain k where k: "k \<le> length bs" "\<forall>j \<le> length bs. length (log_bytes (wal_seed i) seq (take j bs)) \<le> n - 8 \<longrightarrow> j \<le> k"
    "\<exists>rest. buf = wal_header kind @ log_bytes (wal_seed i) seq (take k bs) @ rest"
    "walk (wal_seed i) (kind = WAL_LOOSE \<and> \<not> first) from buf (walk_at from seq 8 []) = recovered (wal_seed i) from seq 8 [] (take k bs)"
    by (auto simp: log_ok_def)
  have "replay (Some buf) i from first = recovered (wal_seed i) from seq 8 [] (take k bs)"
    using k(4) ok(2) by (simp add: replay_walk [OF kind b] walk_at_def max_absorb1)
  then show ?thesis using k(1,2,3) False unfolding buf_def by (intro exI [of _ k]) (auto simp: recovered_def)
qed

lemma replay_whole:
  assumes kind: "kind = WAL_CHAINED \<or> kind = WAL_LOOSE" and ok: "log_ok seq bs"
    and len: "length (wal_header kind @ log_bytes (wal_seed i) seq bs @ replicate m 0) \<le> USIZE_MAX"
  shows "replay (Some (wal_header kind @ log_bytes (wal_seed i) seq bs @ replicate m 0)) i seq first =
    Some (concat bs, Inr (log_seq seq bs, 8 + length (log_bytes (wal_seed i) seq bs), False))"
proof -
  let ?f = "wal_header kind @ log_bytes (wal_seed i) seq bs"
  have c: "crash_image (length ?f) m ?f = ?f @ replicate m 0" by (simp add: crash_image_def)
  have k: "k = length bs" if "k \<le> length bs" "\<forall>j \<le> length bs. 8 + length (log_bytes (wal_seed i) seq (take j bs)) \<le> length ?f \<longrightarrow> j \<le> k" for k
    using that(1) spec [OF that(2), of "length bs"] by simp
  from replay_crash [OF kind ok order_refl, of "length ?f" m i first] len
  show ?thesis unfolding c using k log_seq_ge [of seq bs] by (auto simp: log_ops_all max_absorb2)
qed

subsection \<open>No input makes replay panic\<close>

definition walk_ok :: "bytes \<Rightarrow> walk_state \<Rightarrow> bool" where
  "walk_ok buf wk \<longleftrightarrow> wk_start wk \<le> wk_p wk \<and> wk_p wk \<le> length buf \<and>
    (\<forall>(k, s, ks, ke, ve) \<in> set (wk_batch wk). ks \<le> ke \<and> ke \<le> ve \<and> ve \<le> length buf)"

lemma apply_batch_total:
  "\<forall>(k, s, ks, ke, ve) \<in> set batch. ks \<le> ke \<and> ke \<le> ve \<and> ve \<le> length buf \<Longrightarrow> \<exists>r. apply_batch buf from batch ops = Some r"
proof (induction batch arbitrary: ops)
  case (Cons a batch)
  obtain k s ks ke ve where a: "a = (k, s, ks, ke, ve)" by (cases a)
  then have "ks \<le> ke" "ke \<le> ve" "ve \<le> length buf" using Cons.prems by auto
  then show ?case using Cons by (simp add: a)
qed simp

lemma commit_turn_total:
  assumes ok: "walk_ok buf wk" and e: "wk_p wk \<le> e" "e \<le> length buf"
  shows "\<exists>t. commit_turn seed loose from buf body seq crc e wk = Some t \<and> (\<forall>wk'. t = Continue wk' \<longrightarrow> walk_ok buf wk')"
proof (cases "crc32 body XOR seed \<noteq> crc \<or> length body \<noteq> 13")
  case False
  obtain want where w: "rd_u32 body 9 = Some want" using False by (simp add: rd_u32_def)
  obtain sofar where s: "slice buf (wk_start wk) (wk_p wk) = Some sofar" using ok by (simp add: walk_ok_def)
  obtain ops where a: "apply_batch buf from (wk_batch wk) (wk_ops wk) = Some ops"
    using apply_batch_total ok unfolding walk_ok_def by blast
  have ok': "walk_ok buf \<lparr>wk_p = e, wk_next = x, wk_committed = y, wk_valid = e, wk_batch = [], wk_start = e, wk_ops = z\<rparr>" for x y z
    using e by (simp add: walk_ok_def)
  show ?thesis
    unfolding commit_turn_def w s Let_def bind.bind_lunit using a ok' by (auto split: option.splits)
qed (auto simp: commit_turn_def)

lemma record_turn_safe:
  assumes ok: "walk_ok buf wk" and e: "e = body_at + length body" "wk_p wk \<le> e" "e \<le> length buf"
    and r: "record_turn body kind seq crc body_at e wk = Continue wk'"
  shows "walk_ok buf wk'"
proof -
  obtain q kend where "wk' = wk\<lparr>wk_p := e, wk_batch := wk_batch wk @ [(kind, seq, body_at + q, body_at + kend, e)]\<rparr>"
    "q \<le> kend" "kend \<le> length body"
    using r by (auto simp: record_turn_def checked_add_def split: option.splits if_splits)
  then show ?thesis using ok e(2,3) e(1) [symmetric] by (auto simp: walk_ok_def)
qed

lemma walk_turn_total:
  assumes ok: "walk_ok buf wk" and fit: "FRAME_HEADER \<le> length buf - wk_p wk"
  shows "\<exists>t. walk_turn seed loose from buf wk = Some t \<and> (\<forall>wk'. t = Continue wk' \<longrightarrow> walk_ok buf wk')"
proof -
  let ?p = "wk_p wk"
  have p: "?p + 8 \<le> length buf" using fit ok by (simp add: FRAME_HEADER_def walk_ok_def)
  obtain len where r1: "map_option unat (rd_u32 buf ?p) = Some len" using p by (simp add: rd_u32_def)
  obtain crc where r2: "rd_u32 buf (?p + 4) = Some crc" using p by (simp add: rd_u32_def)
  show ?thesis
  proof (cases "?p + 8 + len \<le> USIZE_MAX \<and> ?p + 8 + len \<le> length buf \<and> 9 \<le> len")
    case False
    then show ?thesis unfolding walk_turn_def FRAME_HEADER_def r1 r2 Let_def bind.bind_lunit by (auto simp: checked_add_def)
  next
    case True
    define e where "e = ?p + 8 + len"
    have c: "checked_add (?p + 8) len = Some e" using True by (simp add: checked_add_def e_def)
    have ng: "\<not> (length buf < e \<or> len < 9)" using True by (simp add: e_def)
    have "len \<le> length buf - (?p + 8)" using True by linarith
    then obtain body where b: "slice buf (?p + 8) e = Some body" "length body = len" using True by (simp add: slice_def e_def min_absorb2)
    obtain seq where s: "map_option unat (rd_u64 body 0) = Some seq" using b True by (simp add: rd_u64_def)
    obtain kind where k: "index body 8 = Some kind" using b True by (simp add: index_def)
    have e: "e = ?p + 8 + length body" "?p \<le> e" "e \<le> length buf" using b True by (simp_all add: e_def)
    show ?thesis
      unfolding walk_turn_def FRAME_HEADER_def r1 r2 Let_def bind.bind_lunit c
      using commit_turn_total [OF ok e(2,3), of seed loose "from" body seq crc] record_turn_safe [OF ok e, of kind seq crc]
      by (simp only: option.case ng if_False b(1) s k bind.bind_lunit) simp
  qed
qed

lemma walk_total: "walk_ok buf wk \<Longrightarrow> \<exists>r. walk seed loose from buf wk = Some r"
proof (induction seed loose "from" buf wk rule: walk.induct)
  case (1 seed loose "from" buf wk)
  show ?case
  proof (cases "FRAME_HEADER \<le> length buf - wk_p wk")
    case True
    obtain t where "walk_turn seed loose from buf wk = Some t" "\<forall>wk'. t = Continue wk' \<longrightarrow> walk_ok buf wk'"
      using walk_turn_total [OF "1.prems" True] by blast
    then show ?thesis using 1 True by (subst walk.simps) (auto split: turn.splits)
  qed (simp add: walk.simps)
qed

subsection \<open>A log across crashes\<close>

text \<open>The open of a store with one log file: replay it, cut it to what replayed, append to it.\<close>

definition wal_recover :: "u64 \<Rightarrow> nat \<Rightarrow> bytes \<Rightarrow> wal option" where
  "wal_recover i from img =
    (case replay (Some img) i from True of
       Some (ops, Inr (next_seq, valid_len, ended)) \<Rightarrow>
         (case wal_open_append (if valid_len < length img then take valid_len img else img) i next_seq of
            Inr w \<Rightarrow> Some w | Inl e \<Rightarrow> None)
     | _ \<Rightarrow> None)"

datatype wal_event = Append bytes bytes | Delete bytes | Commit | Sync | Crash nat nat

definition wal_sync_by_policy :: "wal \<Rightarrow> wal" where
  "wal_sync_by_policy w = wal_sync (chain w)"

fun wal_run :: "u64 \<Rightarrow> nat \<Rightarrow> wal_event \<Rightarrow> wal \<Rightarrow> wal option" where
  "wal_run i from (Append key value) w = wal_append key value w"
| "wal_run i from (Delete key) w = wal_delete key w"
| "wal_run i from Commit w = map_option wal_write (mark_commit w)"
| "wal_run i from Sync w = Some (wal_sync_by_policy w)"
| "wal_run i from (Crash n m) w = wal_recover i from (crash_image n m (w_file w))"

fun wal_runs :: "u64 \<Rightarrow> nat \<Rightarrow> wal_event list \<Rightarrow> wal \<Rightarrow> wal option" where
  "wal_runs i from [] w = Some w"
| "wal_runs i from (ev # evs) w = do { w \<leftarrow> wal_run i from ev w; wal_runs i from evs w }"

text \<open>
  What can happen: operations that fit a frame, sequence numbers that do not run
  out, and a crash that keeps what a barrier covered. A crash that cuts the file
  inside its eight-byte header leaves no zeros behind the cut.
\<close>

fun event_ok :: "wal_event \<Rightarrow> wal \<Rightarrow> bool" where
  "event_ok (Append key value) w \<longleftrightarrow> op_ok (WAL_PUT, key, value) \<and> w_seq w + 2 < 2 ^ 64"
| "event_ok (Delete key) w \<longleftrightarrow> op_ok (WAL_DEL, key, []) \<and> w_seq w + 2 < 2 ^ 64"
| "event_ok Commit w \<longleftrightarrow> w_seq w + 2 < 2 ^ 64"
| "event_ok Sync w \<longleftrightarrow> True"
| "event_ok (Crash n m) w \<longleftrightarrow> w_synced w \<le> n \<and> n \<le> w_written w \<and> (8 \<le> n \<or> m = 0) \<and> n + m \<le> USIZE_MAX"

fun events_ok :: "u64 \<Rightarrow> nat \<Rightarrow> wal_event list \<Rightarrow> wal \<Rightarrow> bool" where
  "events_ok i from [] w \<longleftrightarrow> length (w_file w) \<le> USIZE_MAX"
| "events_ok i from (ev # evs) w \<longleftrightarrow> event_ok ev w \<and>
    (case wal_run i from ev w of Some w' \<Rightarrow> events_ok i from evs w' | None \<Rightarrow> True)"

text \<open>The log a client sees: batches, an open batch, and how many batches no crash can take.\<close>

record wal_log =
  wl_batches :: "wal_op list list"
  wl_open :: "wal_op list"
  wl_durable :: nat

inductive log_step :: "wal_event \<Rightarrow> wal_log \<Rightarrow> wal_log \<Rightarrow> bool" where
  append: "log_step (Append key v) l (l\<lparr>wl_open := wl_open l @ [(WAL_PUT, key, v)]\<rparr>)"
| delete: "log_step (Delete key) l (l\<lparr>wl_open := wl_open l @ [(WAL_DEL, key, [])]\<rparr>)"
| commit: "wl_open l \<noteq> [] \<Longrightarrow> log_step Commit l (l\<lparr>wl_batches := wl_batches l @ [wl_open l], wl_open := []\<rparr>)"
| nothing: "wl_open l = [] \<Longrightarrow> log_step Commit l l"
| sync: "log_step Sync l (l\<lparr>wl_durable := length (wl_batches l)\<rparr>)"
| crash: "wl_durable l \<le> k \<Longrightarrow> k \<le> length (wl_batches l) \<Longrightarrow>
    log_step (Crash n m) l \<lparr>wl_batches = take k (wl_batches l), wl_open = [], wl_durable = k\<rparr>"

inductive_cases log_stepE: "log_step ev l l'"

inductive log_run :: "wal_event list \<Rightarrow> wal_log \<Rightarrow> wal_log \<Rightarrow> bool" where
  none: "log_run [] l l"
| more: "log_step ev l l' \<Longrightarrow> log_run evs l' l'' \<Longrightarrow> log_run (ev # evs) l l''"

inductive_cases log_runE: "log_run evs l l'"

text \<open>The bytes of the log and of its open batch, as the file and the buffer hold them.\<close>

definition wal_rel :: "u64 \<Rightarrow> nat \<Rightarrow> wal \<Rightarrow> wal_log \<Rightarrow> bool" where
  "wal_rel i seq w l \<longleftrightarrow>
    w_seed w = wal_seed i \<and>
    (\<exists>z. w_file w = wal_header (if w_loose w then WAL_LOOSE else WAL_CHAINED) @
       log_bytes (wal_seed i) seq (wl_batches l) @ replicate z 0) \<and>
    w_written w = 8 + length (log_bytes (wal_seed i) seq (wl_batches l)) \<and> w_synced w \<le> w_written w \<and>
    w_pending w = rec_frames (log_seq seq (wl_batches l)) (wl_open l) \<and>
    w_seq w = log_seq seq (wl_batches l) + length (wl_open l) \<and> w_seq w + 1 < 2 ^ 64 \<and>
    (\<forall>b \<in> set (wl_batches l). \<forall>op \<in> set b. op_ok op) \<and> (\<forall>op \<in> set (wl_open l). op_ok op) \<and>
    wl_durable l \<le> length (wl_batches l) \<and>
    (wl_durable l = 0 \<or> 8 + length (log_bytes (wal_seed i) seq (take (wl_durable l) (wl_batches l))) \<le> w_synced w)"

lemma zero_fill_eq: "at = length file \<Longrightarrow> zero_fill file at n = file @ replicate (n - at) 0"
proof (induction "file" "at" "n" rule: zero_fill.induct)
  case (1 "file" "at" n)
  show ?case
  proof (cases "at < n")
    case True
    define k where "k = min 4096 (n - length file)"
    then have k: "k = min 4096 (n - at)" using "1.prems" by simp
    have "blit file at (replicate k 0) = file @ replicate k 0" using "1.prems" by (simp add: blit_def)
    then have "zero_fill file at n = (file @ replicate k 0) @ replicate (n - (at + k)) 0"
      using True "1.prems" 1(1) [OF True k] by (subst zero_fill.simps) (simp add: Let_def flip: k_def)
    also have "\<dots> = file @ replicate (n - at) 0"
    proof -
      have "k + (n - (at + k)) = n - at" using k by (simp add: min_def)
      then show ?thesis by (simp flip: replicate_add)
    qed
    finally show ?thesis .
  qed (simp add: zero_fill.simps [of "file" "at" n])
qed

lemma header_chain: "blit (wal_header kind @ rest) 7 [WAL_CHAINED] = wal_header WAL_CHAINED @ rest"
  by (simp add: blit_def wal_header_eq)

lemma wal_rel_created:
  assumes "kind = WAL_CHAINED \<or> kind = WAL_LOOSE" and "seq + 1 < 2 ^ 64"
  shows "wal_rel i seq ((wal_prefill n (wal_create i kind))\<lparr>w_seq := seq\<rparr>) \<lparr>wl_batches = [], wl_open = [], wl_durable = 0\<rparr>"
  using assms by (auto simp: wal_rel_def wal_prefill_def wal_create_def zero_fill_eq)

lemma wal_rel_record:
  assumes r: "wal_rel i seq w l" and ok: "op_ok (k, key, v)" "w_seq w + 2 < 2 ^ 64"
  shows "\<exists>w'. frame k key v w = Some w' \<and> wal_rel i seq w' (l\<lparr>wl_open := wl_open l @ [(k, key, v)]\<rparr>)"
proof -
  have "k = WAL_PUT \<or> k = WAL_DEL \<and> v = []" using ok(1) by simp
  from frame_record [OF this, of key w] show ?thesis
    using r ok by (auto simp: wal_rel_def rec_frames_append)
qed

lemma batch_bytes_nonempty: "batch_bytes seed seq ops \<noteq> []"
  by (simp add: batch_bytes_def flip: length_0_conv)

lemma wal_rel_commit:
  assumes r: "wal_rel i seq w l" and ok: "w_seq w + 2 < 2 ^ 64"
  shows "\<exists>w' l'. map_option wal_write (mark_commit w) = Some w' \<and> log_step Commit l l' \<and> wal_rel i seq w' l'"
proof (cases "wl_open l = []")
  case True
  then have "w_pending w = []" using r by (simp add: wal_rel_def)
  then have "map_option wal_write (mark_commit w) = Some w" by (simp add: mark_commit_def wal_write_def)
  then show ?thesis using r log_step.nothing [OF True] by blast
next
  case False
  let ?bs = "wl_batches l" and ?o = "wl_open l" and ?S = "wal_seed i"
  let ?l = "l\<lparr>wl_batches := ?bs @ [?o], wl_open := []\<rparr>"
  obtain op ops where "?o = op # ops" using False by (cases "?o") auto
  then have np: "rec_frames (log_seq seq ?bs) ?o \<noteq> []" by (simp flip: length_0_conv)
  then have m: "mark_commit w = Some (w\<lparr>w_pending := batch_bytes ?S (log_seq seq ?bs) ?o, w_seq := w_seq w + 1\<rparr>)"
    using r ok by (simp add: mark_commit_def frame_commit batch_bytes_def wal_rel_def)
  obtain z where f: "w_file w = wal_header (if w_loose w then WAL_LOOSE else WAL_CHAINED) @ log_bytes ?S seq ?bs @ replicate z 0"
    using r by (auto simp: wal_rel_def)
  have wr: "w_written w = 8 + length (log_bytes ?S seq ?bs)" using r by (simp add: wal_rel_def)
  have b: "blit (w_file w) (8 + length (log_bytes ?S seq ?bs)) xs = wal_header (if w_loose w then WAL_LOOSE else WAL_CHAINED) @
      (log_bytes ?S seq ?bs @ xs) @ replicate (z - length xs) 0" for xs
    by (simp add: blit_def f wr)
  define w' where "w' = wal_write (w\<lparr>w_pending := batch_bytes ?S (log_seq seq ?bs) ?o, w_seq := w_seq w + 1\<rparr>)"
  have w': "w' = w\<lparr>w_file := wal_header (if w_loose w then WAL_LOOSE else WAL_CHAINED) @
        log_bytes ?S seq (?bs @ [?o]) @ replicate (z - length (batch_bytes ?S (log_seq seq ?bs) ?o)) 0,
      w_written := 8 + length (log_bytes ?S seq (?bs @ [?o])), w_pending := [], w_seq := w_seq w + 1\<rparr>"
    by (rule wal.equality) (simp_all add: w'_def wal_write_def batch_bytes_nonempty b log_bytes_append wr)
  have "log_seq seq (?bs @ [?o]) = w_seq w + 1" using r by (simp add: wal_rel_def log_seq_append)
  moreover have "w_synced w \<le> 8 + length (log_bytes ?S seq (?bs @ [?o]))" using r by (simp add: wal_rel_def log_bytes_append)
  ultimately have "wal_rel i seq w' ?l"
    unfolding w' using r ok by (auto simp: wal_rel_def)
  then show ?thesis using m log_step.commit [OF False] by (auto simp: w'_def)
qed

lemma wal_rel_sync:
  assumes r: "wal_rel i seq w l"
  shows "wal_rel i seq (wal_sync_by_policy w) (l\<lparr>wl_durable := length (wl_batches l)\<rparr>)"
proof -
  have "wal_rel i seq (chain w) l" using r by (auto simp: wal_rel_def chain_def header_chain)
  then show ?thesis by (auto simp: wal_rel_def wal_sync_by_policy_def wal_sync_def)
qed

lemma wal_rel_crash:
  assumes r: "wal_rel i seq w l" and ok: "event_ok (Crash n m) w"
  shows "\<exists>w' l'. wal_recover i seq (crash_image n m (w_file w)) = Some w' \<and> log_step (Crash n m) l l' \<and> wal_rel i seq w' l'"
proof -
  let ?bs = "wl_batches l" and ?S = "wal_seed i"
  define kind where "kind = (if w_loose w then WAL_LOOSE else WAL_CHAINED)"
  have kd: "kind = WAL_CHAINED \<or> kind = WAL_LOOSE" by (simp add: kind_def)
  have kl: "w_loose w \<longleftrightarrow> kind = WAL_LOOSE" by (simp add: kind_def WAL_LOOSE_def WAL_CHAINED_def)
  let ?f = "wal_header kind @ log_bytes ?S seq ?bs"
  obtain z where f: "w_file w = ?f @ replicate z 0" using r by (auto simp: wal_rel_def kind_def)
  have n: "n \<le> length ?f" "8 \<le> n \<or> m = 0" "n + m \<le> USIZE_MAX" using ok r by (simp_all add: wal_rel_def)
  have img: "crash_image n m (w_file w) = crash_image n m ?f" using n(1) by (simp add: crash_image_def f)
  have lok: "log_ok seq ?bs" using r log_seq_ge [of seq ?bs] by (auto simp: log_ok_def wal_rel_def)
  have len: "length (crash_image n m ?f) \<le> USIZE_MAX" using n by (simp add: crash_image_def)
  obtain k where k: "k \<le> length ?bs" "\<forall>j \<le> length ?bs. 8 + length (log_bytes ?S seq (take j ?bs)) \<le> n \<longrightarrow> j \<le> k"
    "if n < 8 then k = 0 else \<exists>rest. crash_image n m ?f = wal_header kind @ log_bytes ?S seq (take k ?bs) @ rest" "replay (Some (crash_image n m ?f)) i seq True = Some (log_ops seq seq (take k ?bs),
      Inr (max seq (log_seq seq (take k ?bs)), if n < 8 then 0 else 8 + length (log_bytes ?S seq (take k ?bs)), False))"
    using replay_crash [OF kd lok order_refl n(2) len, of True] by blast
  have dk: "wl_durable l \<le> k" using k(2) r ok by (auto simp: wal_rel_def)
  let ?l = "\<lparr>wl_batches = take k ?bs, wl_open = [], wl_durable = k\<rparr>"
  have st: "log_step (Crash n m) l ?l" by (rule log_step.crash [OF dk k(1)])
  have sq: "log_seq seq (take k ?bs) + 1 < 2 ^ 64"
    using r log_seq_append [of seq "take k ?bs" "drop k ?bs"] log_seq_ge [of "log_seq seq (take k ?bs)" "drop k ?bs"]
    by (simp add: wal_rel_def)
  have opk: "\<forall>b \<in> set (take k ?bs). \<forall>op \<in> set b. op_ok op" using r set_take_subset by (fastforce simp: wal_rel_def)
  have sg: "max seq (log_seq seq (take k ?bs)) = log_seq seq (take k ?bs)" using log_seq_ge by (simp add: max_absorb2)
  show ?thesis
  proof (cases "n < 8")
    case True
    then have c: "k = 0" "m = 0" using k(3) n(2) by auto
    have "wal_recover i seq (crash_image n m (w_file w)) = Some \<lparr>w_file = WAL_MAGIC, w_seq = seq, w_pending = [],
       w_written = 8, w_synced = 0, w_seed = ?S, w_loose = False\<rparr>"
      unfolding img wal_recover_def k(4) using True c by (simp add: wal_open_append_def Let_def)
    moreover have "WAL_MAGIC = wal_header WAL_CHAINED" by (simp add: wal_header_eq WAL_MAGIC_def WAL_HEAD_def WAL_CHAINED_def)
    ultimately show ?thesis using st c sq by (intro exI conjI) (assumption, assumption, simp add: wal_rel_def)
  next
    case False
    let ?g = "wal_header kind @ log_bytes ?S seq (take k ?bs)"
    obtain rest where pre: "crash_image n m ?f = ?g @ rest" using k(3) False by auto
    have cut: "(if length ?g < length (?g @ rest) then take (length ?g) (?g @ rest) else ?g @ rest) = ?g" by simp
    have gk: "take 8 ?g = wal_header kind" "?g \<noteq> []" "\<not> length ?g < 8" by (simp_all flip: length_0_conv)
    have "wal_recover i seq (crash_image n m (w_file w)) = Some \<lparr>w_file = ?g, w_seq = log_seq seq (take k ?bs), w_pending = [],
       w_written = length ?g, w_synced = (if length ?g = 8 then 0 else length ?g), w_seed = ?S, w_loose = (kind = WAL_LOOSE)\<rparr>"
      unfolding img wal_recover_def k(4) unfolding pre sg using False wal_kind_header [OF kd]
      by (simp add: wal_open_append_def Let_def)
    moreover have "wal_rel i seq \<lparr>w_file = ?g, w_seq = log_seq seq (take k ?bs), w_pending = [],
       w_written = length ?g, w_synced = (if length ?g = 8 then 0 else length ?g), w_seed = ?S, w_loose = (kind = WAL_LOOSE)\<rparr> ?l"
    proof -
      have "k = 0" if "log_bytes ?S seq (take k ?bs) = []"
        using that k(1) batch_bytes_nonempty by (cases k; cases "?bs") auto
      then show ?thesis using sq opk k(1) kd by (auto simp: wal_rel_def)
    qed
    ultimately show ?thesis using st by blast
  qed
qed

lemma wal_simulates:
  assumes r: "wal_rel i seq w l" and ok: "event_ok ev w"
  shows "\<exists>w' l'. wal_run i seq ev w = Some w' \<and> log_step ev l l' \<and> wal_rel i seq w' l'"
proof (cases ev)
  case (Append key v)
  then show ?thesis using wal_rel_record [OF r, of WAL_PUT key v] ok log_step.append by (fastforce simp: wal_append_def)
next
  case (Delete key)
  then show ?thesis using wal_rel_record [OF r, of WAL_DEL key "[]"] ok log_step.delete by (fastforce simp: wal_delete_def)
next
  case Commit
  then show ?thesis using wal_rel_commit [OF r] ok by simp
next
  case Sync
  then show ?thesis using wal_rel_sync [OF r] log_step.sync by auto
next
  case (Crash n m)
  then show ?thesis using wal_rel_crash [OF r] ok by simp
qed

lemma wal_runs_simulate:
  "wal_rel i seq w l \<Longrightarrow> events_ok i seq (evs @ evs') w \<Longrightarrow>
    \<exists>w' l'. wal_runs i seq evs w = Some w' \<and> log_run evs l l' \<and> wal_rel i seq w' l' \<and> events_ok i seq evs' w'"
proof (induction evs arbitrary: w l)
  case Nil
  then show ?case using log_run.none by auto
next
  case (Cons ev evs)
  obtain w1 l1 where 1: "wal_run i seq ev w = Some w1" "log_step ev l l1" "wal_rel i seq w1 l1"
    using wal_simulates Cons.prems by fastforce
  obtain w' l' where "wal_runs i seq evs w1 = Some w'" "log_run evs l1 l'" "wal_rel i seq w' l'" "events_ok i seq evs' w'"
    using Cons.IH [OF 1(3)] Cons.prems(2) 1(1) by auto
  then show ?case using 1 log_run.more by fastforce
qed

lemma wal_rel_replay:
  assumes r: "wal_rel i seq w l" and len: "length (w_file w) \<le> USIZE_MAX"
  shows "replay (Some (w_file w)) i seq first = Some (concat (wl_batches l), Inr (log_seq seq (wl_batches l), w_written w, False))"
proof -
  define kind where "kind = (if w_loose w then WAL_LOOSE else WAL_CHAINED)"
  obtain z where f: "w_file w = wal_header kind @ log_bytes (wal_seed i) seq (wl_batches l) @ replicate z 0"
    using r by (auto simp: wal_rel_def kind_def)
  have "log_ok seq (wl_batches l)" using r by (auto simp: log_ok_def wal_rel_def)
  then show ?thesis
    unfolding f using replay_whole [of kind seq "wl_batches l" i z first] len f r by (simp add: kind_def wal_rel_def)
qed

lemma log_step_durable: "log_step ev l l' \<Longrightarrow> wl_durable l \<le> length (wl_batches l) \<Longrightarrow>
  wl_durable l \<le> wl_durable l' \<and> wl_durable l' \<le> length (wl_batches l') \<and>
  take (wl_durable l) (wl_batches l') = take (wl_durable l) (wl_batches l)"
  by (erule log_stepE) auto

lemma log_run_durable: "log_run evs l l' \<Longrightarrow> wl_durable l \<le> length (wl_batches l) \<Longrightarrow>
  wl_durable l \<le> length (wl_batches l') \<and> take (wl_durable l) (wl_batches l') = take (wl_durable l) (wl_batches l)"
proof (induction rule: log_run.induct)
  case (more ev l l' evs l'')
  have s: "wl_durable l \<le> wl_durable l'" "wl_durable l' \<le> length (wl_batches l')"
    "take (wl_durable l) (wl_batches l') = take (wl_durable l) (wl_batches l)"
    using log_step_durable [OF more.hyps(1) more.prems] by auto
  have "take (wl_durable l') (wl_batches l'') = take (wl_durable l') (wl_batches l')" "wl_durable l' \<le> length (wl_batches l'')"
    using more.IH s(2) by auto
  then have "take (wl_durable l) (take (wl_durable l') (wl_batches l'')) = take (wl_durable l) (take (wl_durable l') (wl_batches l'))"
    by simp
  then show ?case using s \<open>wl_durable l' \<le> length (wl_batches l'')\<close> by (simp add: min_absorb1)
qed simp

lemma wal_runs_append: "wal_runs i from (xs @ ys) w = do { w \<leftarrow> wal_runs i from xs w; wal_runs i from ys w }"
  by (induction xs arbitrary: w) (auto split: bind_splits)

lemma wal_open_append_length: "wal_open_append f i seq = Inr w \<Longrightarrow> length (w_file w) \<le> max 8 (length f)"
  by (auto simp: wal_open_append_def Let_def split: if_splits)

lemma wal_recover_length:
  assumes "wal_recover i from img = Some w"
  shows "length (w_file w) \<le> max 8 (length img)"
proof -
  obtain k s where "wal_open_append (if k < length img then take k img else img) i s = Inr w"
    using assms by (auto simp: wal_recover_def split: option.splits sum.splits)
  from wal_open_append_length [OF this] show ?thesis by (simp add: max_def split: if_splits)
qed

lemma framed_nonempty [simp]: "framed crc body \<noteq> []"
  by (simp flip: length_0_conv)

lemma events_ok_crash: "event_ok (Crash n m) w \<Longrightarrow> events_ok i from [Crash n m] w"
  by (auto split: option.splits dest!: wal_recover_length simp: crash_image_def max_def USIZE_MAX_def split: if_splits)

lemmas wal_runs_simps = wal_append_def wal_delete_def mark_commit_def wal_write_def wal_sync_by_policy_def chain_def wal_sync_def
  wal_create_def frame_record frame_commit

lemma wal_prefill_0 [simp]: "wal_prefill 0 w = w"
  by (simp add: wal_prefill_def zero_fill.simps)

lemma uvarint_1 [simp]: "uvarint 1 = [1]"
  by (simp add: uvarint_rec [of 1] word_le_nat_alt)

text \<open>
  C3: The log refines its specification across crashes. Whatever is appended,
  deleted, committed and synced, and wherever crashes cut the file (no earlier than
  what a barrier covered, with zeros behind the cut or not, save that a cut inside the
  eight-byte header has none behind it), every operation and
  every reopening succeeds, and replaying the file yields exactly the records of
  the committed batches of the specified log, in which a crash keeps a prefix of
  the batches that includes all durable ones and never a part of one.
\<close>

theorem wal_refines_log:
  assumes "kind = WAL_CHAINED \<or> kind = WAL_LOOSE" and "seq + 1 < 2 ^ 64"
    and "w0 = (wal_prefill n (wal_create i kind))\<lparr>w_seq := seq\<rparr>" and "events_ok i seq evs w0"
  shows "\<exists>w l. wal_runs i seq evs w0 = Some w \<and> log_run evs \<lparr>wl_batches = [], wl_open = [], wl_durable = 0\<rparr> l \<and>
    (\<forall>first. replay (Some (w_file w)) i seq first =
      Some (concat (wl_batches l), Inr (log_seq seq (wl_batches l), w_written w, False)))"
proof -
  have "wal_rel i seq w0 \<lparr>wl_batches = [], wl_open = [], wl_durable = 0\<rparr>"
    unfolding assms(3) by (rule wal_rel_created [OF assms(1,2)])
  from wal_runs_simulate [OF this, of evs "[]"] assms(4) wal_rel_replay show ?thesis by fastforce
qed

theorem wal_refines_log_witness:
  "\<exists>w l. wal_runs 7 5 [Append [1] [2], Commit, Sync, Append [3] [4], Commit, Crash 50 3]
      ((wal_prefill 0 (wal_create 7 WAL_CHAINED))\<lparr>w_seq := 5\<rparr>) = Some w \<and>
    log_run [Append [1] [2], Commit, Sync, Append [3] [4], Commit, Crash 50 3]
      \<lparr>wl_batches = [], wl_open = [], wl_durable = 0\<rparr> l \<and>
    (\<forall>first. replay (Some (w_file w)) 7 5 first =
      Some (concat (wl_batches l), Inr (log_seq 5 (wl_batches l), w_written w, False)))"
  by (rule wal_refines_log [OF _ _ refl])
    (simp_all add: wal_runs_simps USIZE_MAX_def del: events_ok.simps add: events_ok.simps(2) [of _ _ _ "_ # _"] events_ok_crash)

text \<open>
  C12: What a sync has covered survives. The records a replay yields when a sync by
  policy has run are the first records every later replay yields, whatever happens
  after it, crashes included, which cut the file as in the log's refinement: at or
  past what a barrier covered, and without zeros behind a cut inside the header.
\<close>

theorem wal_sync_survives:
  assumes "kind = WAL_CHAINED \<or> kind = WAL_LOOSE" and "seq + 1 < 2 ^ 64"
    and "w0 = (wal_prefill n (wal_create i kind))\<lparr>w_seq := seq\<rparr>" and "events_ok i seq (evs @ Sync # evs') w0"
    and "wal_runs i seq (evs @ [Sync]) w0 = Some w" and "length (w_file w) \<le> USIZE_MAX"
  shows "\<exists>w' ops ops' r r'. wal_runs i seq (evs @ Sync # evs') w0 = Some w' \<and> replay (Some (w_file w)) i seq True = Some (ops, r) \<and>
    replay (Some (w_file w')) i seq True = Some (ops @ ops', r')"
proof -
  have "wal_rel i seq w0 \<lparr>wl_batches = [], wl_open = [], wl_durable = 0\<rparr>"
    unfolding assms(3) by (rule wal_rel_created [OF assms(1,2)])
  then obtain w1 l1 where 1: "wal_runs i seq evs w0 = Some w1" "wal_rel i seq w1 l1" "events_ok i seq (Sync # evs') w1"
    using wal_runs_simulate assms(4) by blast
  let ?l = "l1\<lparr>wl_durable := length (wl_batches l1)\<rparr>"
  have w: "w = wal_sync_by_policy w1" using assms(5) 1(1) by (simp add: wal_runs_append)
  have 2: "wal_rel i seq w ?l" unfolding w by (rule wal_rel_sync [OF 1(2)])
  obtain w' l' where 3: "wal_runs i seq evs' w = Some w'" "log_run evs' ?l l'" "wal_rel i seq w' l'" "length (w_file w') \<le> USIZE_MAX"
    using wal_runs_simulate [OF 2, of evs' "[]"] 1(3) w by auto
  have "take (length (wl_batches l1)) (wl_batches l') = wl_batches l1"
    using log_run_durable [OF 3(2)] by simp
  then have "concat (wl_batches l') = concat (wl_batches l1) @ concat (drop (length (wl_batches l1)) (wl_batches l'))"
    by (metis append_take_drop_id concat_append)
  moreover have "wal_runs i seq (evs @ Sync # evs') w0 = Some w'" using 1(1) 3(1) w by (simp add: wal_runs_append)
  ultimately show ?thesis
    using wal_rel_replay [OF 2 assms(6), of True] wal_rel_replay [OF 3(3,4), of True] by auto
qed

theorem wal_sync_survives_witness:
  "\<exists>w w' ops ops' r r'. wal_runs 7 5 ([Append [1] [2], Commit] @ [Sync]) ((wal_prefill 0 (wal_create 7 WAL_CHAINED))\<lparr>w_seq := 5\<rparr>) = Some w \<and>
    wal_runs 7 5 ([Append [1] [2], Commit] @ Sync # [Append [3] [4], Commit, Crash 50 3])
      ((wal_prefill 0 (wal_create 7 WAL_CHAINED))\<lparr>w_seq := 5\<rparr>) = Some w' \<and>
    replay (Some (w_file w)) 7 5 True = Some (ops, r) \<and> replay (Some (w_file w')) 7 5 True = Some (ops @ ops', r')"
proof -
  let ?w0 = "(wal_prefill 0 (wal_create 7 WAL_CHAINED))\<lparr>w_seq := 5\<rparr>"
  obtain w where w: "wal_runs 7 5 ([Append [1] [2], Commit] @ [Sync]) ?w0 = Some w" "length (w_file w) \<le> USIZE_MAX"
    by (simp add: wal_runs_simps blit_def USIZE_MAX_def)
  have "events_ok 7 5 ([Append [1] [2], Commit] @ Sync # [Append [3] [4], Commit, Crash 50 3]) ?w0"
    by (simp add: wal_runs_simps USIZE_MAX_def del: events_ok.simps add: events_ok.simps(2) [of _ _ _ "_ # _"] events_ok_crash)
  from wal_sync_survives [OF _ _ refl this w] w(1) show ?thesis by auto
qed

text \<open>
  C21: A gap at a file's start is found. Where the first whole batch of a file begins
  past the record the replay is to continue from, a file whose predecessor was left
  loose ends the log there, with nothing of it applied, and any other is refused.
\<close>

theorem wal_gap_found:
  assumes kind: "kind = WAL_CHAINED \<or> kind = WAL_LOOSE" and gap: "from < seq" and ok: "\<forall>op \<in> set b. op_ok op"
    and s: "seq + length b + 1 < 2 ^ 64" and buf: "buf = wal_header kind @ batch_bytes (wal_seed i) seq b @ rest"
    and len: "length buf \<le> USIZE_MAX"
  shows "replay (Some buf) i from first =
    Some ([], if kind = WAL_LOOSE \<and> \<not> first then Inr (from, length WAL_MAGIC, True) else Inl SequenceGap)"
proof -
  have u: "[seq..<seq + length b + 1] = seq # [Suc seq..<seq + length b + 1]" by (rule upt_conv_Cons) simp
  define wk where "wk = \<lparr>wk_p = 8, wk_next = from, wk_committed = from, wk_valid = 8, wk_batch = [], wk_start = 8, wk_ops = []\<rparr>"
  have wk: "wk_p wk = length (wal_header kind)" "wk_batch wk = []" "wk_start wk = length (wal_header kind)"
    "wk_next wk = from" "wk_committed wk = from" "wk_ops wk = []" by (simp_all add: wk_def)
  have chk: "check_seqs from [seq..<seq + length b + 1] from = None" unfolding u using gap by simp
  have fnd: "(case List.find (\<lambda>s. from \<le> s) [seq..<seq + length b + 1] of Some s \<Rightarrow> s \<noteq> from | None \<Rightarrow> False) = True"
    unfolding u using gap by simp
  have "walk (wal_seed i) loose from buf wk = Some ([], if loose then Inr (from, length WAL_MAGIC, True) else Inl SequenceGap)" for loose
    using walk_commit [OF ok buf wk(1) s len wk(2,3), of loose "from"] unfolding wk(4-6) chk fnd by simp
  then show ?thesis unfolding replay_walk [OF kind buf] by (simp add: wk_def)
qed

theorem wal_gap_found_witness:
  "replay (Some (wal_header WAL_LOOSE @ batch_bytes (wal_seed 3) 9 [] @ [])) 3 8 False =
    Some ([], if WAL_LOOSE = WAL_LOOSE \<and> \<not> False then Inr (8, length WAL_MAGIC, True) else Inl SequenceGap)"
  by (rule wal_gap_found [OF _ _ _ _ refl]) (simp_all add: batch_bytes_def USIZE_MAX_def)

text \<open>
  C30: Replay of any bytes returns: no file makes it panic, whatever it holds.
\<close>

theorem replay_no_panic: "\<exists>ops r. replay f i from first = Some (ops, r)"
proof -
  have "\<exists>r. walk (wal_seed i) loose from buf \<lparr>wk_p = 8, wk_next = from, wk_committed = from, wk_valid = 8, wk_batch = [],
      wk_start = 8, wk_ops = []\<rparr> = Some r" if "\<not> length buf < 8" for buf loose
    by (rule walk_total) (use that in \<open>simp add: walk_ok_def\<close>)
  then show ?thesis by (auto simp: replay_def Let_def split: option.splits)
qed

end
