(* ===== verification/Manifest.thy ===== *)
theory Manifest
  imports Crc32c "HOL-Library.Char_ord"
begin

text \<open>
  The manifest (db.rs): which segments are live and which log records they cover.
  Its bytes and their parser, over the three versions of the format, and the slot
  files a publish alternates between, written in place over whatever the slot held.
  A directory is a map from file names to their bytes; a string is its bytes.
\<close>

subsection \<open>Strings\<close>

definition str :: "string \<Rightarrow> bytes" where
  "str s = map of_char s"

text \<open>The bytes String::from_utf8 accepts: the well-formed sequences of one to four bytes.\<close>

definition cont_byte :: "byte \<Rightarrow> bool" where
  "cont_byte b \<longleftrightarrow> 0x80 \<le> b \<and> b \<le> 0xBF"

fun utf8 :: "bytes \<Rightarrow> bool" where
  "utf8 [] \<longleftrightarrow> True"
| "utf8 (a # bs) \<longleftrightarrow>
    (if a < 0x80 then utf8 bs
     else case bs of
       [] \<Rightarrow> False
     | b # bs \<Rightarrow>
         if 0xC2 \<le> a \<and> a \<le> 0xDF then cont_byte b \<and> utf8 bs
         else (case bs of
           [] \<Rightarrow> False
         | c # bs \<Rightarrow>
             if 0xE0 \<le> a \<and> a \<le> 0xEF
             then cont_byte b \<and> cont_byte c \<and> (a = 0xE0 \<longrightarrow> 0xA0 \<le> b) \<and> (a = 0xED \<longrightarrow> b \<le> 0x9F) \<and> utf8 bs
             else (case bs of
               [] \<Rightarrow> False
             | d # bs \<Rightarrow>
                 0xF0 \<le> a \<and> a \<le> 0xF4 \<and> cont_byte b \<and> cont_byte c \<and> cont_byte d \<and>
                 (a = 0xF0 \<longrightarrow> 0x90 \<le> b) \<and> (a = 0xF4 \<longrightarrow> b \<le> 0x8F) \<and> utf8 bs)))"

subsection \<open>Bytes\<close>

definition MANIFEST_MAGIC :: bytes where "MANIFEST_MAGIC = str ''SUPDBMAN'' @ [3]"
definition MANIFEST_MAGIC_V2 :: bytes where "MANIFEST_MAGIC_V2 = str ''SUPDBMAN'' @ [2]"
definition MANIFEST_MAGIC_V1 :: bytes where "MANIFEST_MAGIC_V1 = str ''SUPDBMAN'' @ [1]"
definition MANIFEST_PENDING :: byte where "MANIFEST_PENDING = 1"

fun encode_names :: "bytes list \<Rightarrow> bytes list \<Rightarrow> bytes" where
  "encode_names [] pending = []"
| "encode_names (n # names) pending =
    u16_le (word_of_nat (length n)) @ n @ [if n \<in> set pending then MANIFEST_PENDING else 0] @ encode_names names pending"

definition manifest_encode :: "u64 \<Rightarrow> u64 \<Rightarrow> bytes list \<Rightarrow> bytes list \<Rightarrow> bytes" where
  "manifest_encode seq covered_seq names pending =
    (let body = u64_le covered_seq @ u32_le (word_of_nat (length names)) @ encode_names names pending;
         crc = crc32_resume (crc32 (u64_le seq)) body
     in MANIFEST_MAGIC @ u64_le seq @ u32_le (word_of_nat (length body)) @ u32_le crc @ body)"

record manifest =
  m_version :: byte
  m_seq :: u64
  m_covered :: u64
  m_names :: "bytes list"
  m_pending :: "bytes list"

datatype manifest_error = WrongMagic | Truncated | BadChecksum | NotUtf8

fun parse_names :: "byte \<Rightarrow> bytes \<Rightarrow> nat \<Rightarrow> nat \<Rightarrow> bytes list \<Rightarrow> bytes list \<Rightarrow> manifest_error + bytes list \<times> bytes list" where
  "parse_names version body 0 p names pending = Inr (names, pending)"
| "parse_names version body (Suc n) p names pending =
    (case rd_u16 body p of
       None \<Rightarrow> Inl Truncated
     | Some l \<Rightarrow>
         (case slice body (p + 2) (p + 2 + unat l) of
            None \<Rightarrow> Inl Truncated
          | Some raw \<Rightarrow>
              let p = p + 2 + unat l
              in if \<not> utf8 raw then Inl NotUtf8
                 else if 3 \<le> version
                 then (case index body p of
                         None \<Rightarrow> Inl Truncated
                       | Some flags \<Rightarrow>
                           parse_names version body n (p + 1) (names @ [raw])
                             (if flags AND MANIFEST_PENDING \<noteq> 0 then pending @ [raw] else pending))
                 else parse_names version body n p (names @ [raw]) pending))"

definition manifest_parse :: "bytes \<Rightarrow> (manifest_error, manifest) res" where
  "manifest_parse buf =
    bind_res
      (if 25 \<le> length buf \<and> take 9 buf = MANIFEST_MAGIC then lift_res (map_option (\<lambda>seq. (3, seq, 17)) (rd_u64 buf 9))
       else if 25 \<le> length buf \<and> take 9 buf = MANIFEST_MAGIC_V2 then lift_res (map_option (\<lambda>seq. (2, seq, 17)) (rd_u64 buf 9))
       else if 17 \<le> length buf \<and> take 9 buf = MANIFEST_MAGIC_V1 then Ok (1, 0, 9)
       else Err WrongMagic)
      (\<lambda>(version, seq, at).
        do { len \<leftarrow> rd_u32 buf at;
             crc \<leftarrow> rd_u32 buf (at + 4);
             case slice buf (at + 8) (at + 8 + unat len) of
               None \<Rightarrow> Err Truncated
             | Some body \<Rightarrow>
                 let want = (if at = 17 then crc32_resume (crc32 (u64_le seq)) body else crc32 body)
                 in if want \<noteq> crc then Err BadChecksum
                    else if length body < 12 then Err Truncated
                    else do { covered \<leftarrow> rd_u64 body 0;
                              n \<leftarrow> rd_u32 body 8;
                              case parse_names version body (unat n) 12 [] [] of
                                Inl e \<Rightarrow> Err e
                              | Inr (names, pending) \<Rightarrow>
                                  Ok \<lparr>m_version = version, m_seq = seq, m_covered = covered, m_names = names, m_pending = pending\<rparr> } })"

subsection \<open>Slots\<close>

type_synonym dir = "bytes \<Rightarrow> bytes option"

definition MANIFEST_SLOTS :: "bytes list" where
  "MANIFEST_SLOTS = [str ''manifest'', str ''manifest.alt'']"

definition manifest_slot :: "u64 \<Rightarrow> bytes" where
  "manifest_slot seq = MANIFEST_SLOTS ! unat (seq mod 2)"

definition is_manifest_spare :: "bytes \<Rightarrow> bool" where
  "is_manifest_spare name \<longleftrightarrow> (let p = str ''manifest.prev-'' in take (length p) name = p)"

definition sweep_manifest_spares :: "dir \<Rightarrow> dir" where
  "sweep_manifest_spares d = (\<lambda>name. if is_manifest_spare name then None else d name)"

text \<open>A write at the start of a file that is made if missing and never cut.\<close>

definition write_all_at0 :: "bytes option \<Rightarrow> bytes \<Rightarrow> bytes" where
  "write_all_at0 old out = blit (case old of Some f \<Rightarrow> f | None \<Rightarrow> []) 0 out"

definition manifest_write_slot :: "u64 \<Rightarrow> u64 \<Rightarrow> bytes list \<Rightarrow> bytes list \<Rightarrow> dir \<Rightarrow> dir" where
  "manifest_write_slot seq covered_seq names pending d =
    d(manifest_slot seq \<mapsto> write_all_at0 (d (manifest_slot seq)) (manifest_encode seq covered_seq names pending))"

fun make_slots :: "bytes list \<Rightarrow> dir \<Rightarrow> dir" where
  "make_slots [] d = d"
| "make_slots (slot # slots) d = make_slots slots (if d slot = None then d(slot \<mapsto> []) else d)"

definition manifest_make_slots :: "dir \<Rightarrow> dir" where
  "manifest_make_slots d = make_slots MANIFEST_SLOTS d"

text \<open>The shape before the slots: a temporary name renamed over the first slot, the old file kept under a spare name.\<close>

definition manifest_write :: "bytes option \<Rightarrow> u64 \<Rightarrow> u64 \<Rightarrow> bytes list \<Rightarrow> dir \<Rightarrow> dir" where
  "manifest_write spare seq covered_seq names d =
    (let out = manifest_encode seq covered_seq names [];
         tmp = str ''manifest.tmp'';
         cur = MANIFEST_SLOTS ! 0;
         d = d(tmp \<mapsto> out);
         d = (case spare of None \<Rightarrow> d | Some name \<Rightarrow> (case d cur of None \<Rightarrow> d | Some old \<Rightarrow> d(name \<mapsto> old)))
     in (d(cur := d tmp))(tmp := None))"

definition manifest_write_shape :: "bool \<Rightarrow> u64 \<Rightarrow> u64 \<Rightarrow> bytes list \<Rightarrow> dir \<Rightarrow> dir" where
  "manifest_write_shape slots seq covered_seq names d =
    (if slots then manifest_write_slot seq covered_seq names [] d else manifest_write None seq covered_seq names d)"

fun read_slots :: "dir \<Rightarrow> bytes list \<Rightarrow> manifest list \<Rightarrow> manifest_error option \<Rightarrow> (manifest list \<times> manifest_error option) option" where
  "read_slots d [] valid torn = Some (valid, torn)"
| "read_slots d (slot # slots) valid torn =
    (case d slot of
       None \<Rightarrow> read_slots d slots valid torn
     | Some buf \<Rightarrow>
         if buf = [] then read_slots d slots valid torn
         else (case manifest_parse buf of
                 None \<Rightarrow> None
               | Some (Inr m) \<Rightarrow> read_slots d slots (valid @ [m]) torn
               | Some (Inl e) \<Rightarrow> read_slots d slots valid (Some e)))"

definition manifest_read_all :: "dir \<Rightarrow> (manifest_error, manifest list) res" where
  "manifest_read_all d =
    (case read_slots d MANIFEST_SLOTS [] None of
       None \<Rightarrow> None
     | Some (valid, torn) \<Rightarrow>
         let valid = sort_key (\<lambda>m. - uint (m_seq m)) valid
         in (case torn of Some e \<Rightarrow> if valid = [] then Err e else Ok valid | None \<Rightarrow> Ok valid))"

subsection \<open>What is written is read\<close>

lemma length_str [simp]: "length (str s) = length s"
  by (simp add: str_def)

lemma length_magic [simp]: "length MANIFEST_MAGIC = 9" "length MANIFEST_MAGIC_V2 = 9" "length MANIFEST_MAGIC_V1 = 9"
  by (simp_all add: MANIFEST_MAGIC_def MANIFEST_MAGIC_V2_def MANIFEST_MAGIC_V1_def)

definition name_ok :: "bytes \<Rightarrow> bool" where
  "name_ok n \<longleftrightarrow> length n < 2 ^ 16 \<and> utf8 n"

lemma parse_encoded:
  "\<lbrakk>body = pre @ encode_names names pending; p = length pre; \<forall>n \<in> set names. name_ok n\<rbrakk> \<Longrightarrow>
    parse_names 3 body (length names) p acc acc' = Inr (acc @ names, acc' @ filter (\<lambda>n. n \<in> set pending) names)"
proof (induction names arbitrary: pre p acc acc')
  case Nil
  then show ?case by simp
next
  case (Cons n names)
  let ?flag = "if n \<in> set pending then MANIFEST_PENDING else 0"
  have n: "length n < 2 ^ 16" "utf8 n" using Cons.prems(3) by (simp_all add: name_ok_def)
  have u: "unat (word_of_nat (length n) :: u16) = length n" using n by (simp add: unat_of_nat)
  have b: "body = pre @ u16_le (word_of_nat (length n)) @ n @ [?flag] @ encode_names names pending" using Cons.prems(1) by simp
  have r1: "rd_u16 body p = Some (word_of_nat (length n))" using Cons.prems(2) by (simp add: b rd_u16_def)
  have r2: "slice body (p + 2) (p + 2 + length n) = Some n" using Cons.prems(2) by (simp add: b slice_def)
  have r3: "index body (p + 2 + length n) = Some ?flag" using Cons.prems(2) by (simp add: b index_def nth_append)
  have b': "body = (pre @ u16_le (word_of_nat (length n)) @ n @ [?flag]) @ encode_names names pending" using b by simp
  have p': "p + 2 + length n + 1 = length (pre @ u16_le (word_of_nat (length n)) @ n @ [?flag])" using Cons.prems(2) by simp
  have ok: "\<forall>n \<in> set names. name_ok n" using Cons.prems(3) by simp
  note ih = Cons.IH [OF b' p' ok]
  have "(?flag AND MANIFEST_PENDING \<noteq> 0) = (n \<in> set pending)" by (simp add: MANIFEST_PENDING_def)
  then show ?case
    unfolding length_Cons parse_names.simps(2) r1 option.case u r2 Let_def r3
    using ih [of "acc @ [n]" "if n \<in> set pending then acc' @ [n] else acc'"] n by simp
qed

definition manifest_body :: "u64 \<Rightarrow> bytes list \<Rightarrow> bytes list \<Rightarrow> bytes" where
  "manifest_body covered names pending = u64_le covered @ u32_le (word_of_nat (length names)) @ encode_names names pending"

definition manifest_of :: "u64 \<Rightarrow> u64 \<Rightarrow> bytes list \<Rightarrow> bytes list \<Rightarrow> manifest" where
  "manifest_of seq covered names pending = \<lparr>m_version = 3, m_seq = seq, m_covered = covered, m_names = names,
    m_pending = filter (\<lambda>n. n \<in> set pending) names\<rparr>"

definition manifest_ok :: "bytes list \<Rightarrow> bytes list \<Rightarrow> bool" where
  "manifest_ok names pending \<longleftrightarrow> (\<forall>n \<in> set names. name_ok n) \<and> length names < 2 ^ 32 \<and> length (manifest_body 0 names pending) < 2 ^ 32"

lemma length_manifest_body: "length (manifest_body covered names pending) = length (manifest_body 0 names pending)"
  by (simp add: manifest_body_def)

lemma manifest_encode_eq:
  "manifest_encode seq covered names pending = MANIFEST_MAGIC @ u64_le seq @
    u32_le (word_of_nat (length (manifest_body covered names pending))) @
    u32_le (crc32 (u64_le seq @ manifest_body covered names pending)) @ manifest_body covered names pending"
  by (simp add: manifest_encode_def manifest_body_def Let_def crc32_resume_eq)

text \<open>What the parser makes of a file that begins with the magic of version three.\<close>

lemma parse_v3:
  assumes buf: "buf = MANIFEST_MAGIC @ u64_le seq @ u32_le (word_of_nat (length body)) @ u32_le crc @ body @ tail"
    and len: "length body < 2 ^ 32" "12 \<le> length body"
  shows "manifest_parse buf =
    (if crc32 (u64_le seq @ body) \<noteq> crc then Err BadChecksum
     else do { covered \<leftarrow> rd_u64 body 0; n \<leftarrow> rd_u32 body 8;
               case parse_names 3 body (unat n) 12 [] [] of
                 Inl e \<Rightarrow> Err e
               | Inr (names, pending) \<Rightarrow>
                   Ok \<lparr>m_version = 3, m_seq = seq, m_covered = covered, m_names = names, m_pending = pending\<rparr> })"
proof -
  have h: "25 \<le> length buf \<and> take 9 buf = MANIFEST_MAGIC" by (simp add: buf)
  have r0: "rd_u64 buf 9 = Some seq" by (simp add: rd_u64_def buf)
  have r1: "rd_u32 buf 17 = Some (word_of_nat (length body))" by (simp add: rd_u32_def buf)
  have u: "unat (word_of_nat (length body) :: u32) = length body" using len by (simp add: unat_of_nat)
  have r2: "rd_u32 buf (17 + 4) = Some crc" by (simp add: rd_u32_def buf)
  have r3: "slice buf (17 + 8) (17 + 8 + length body) = Some body" by (simp add: slice_def buf)
  have nl: "(length body < 12) = False" using len by simp
  have first: "(if 25 \<le> length buf \<and> take 9 buf = MANIFEST_MAGIC then lift_res (map_option (\<lambda>seq. (3 :: byte, seq, 17 :: nat)) (rd_u64 buf 9))
       else if 25 \<le> length buf \<and> take 9 buf = MANIFEST_MAGIC_V2 then lift_res (map_option (\<lambda>seq. (2, seq, 17)) (rd_u64 buf 9))
       else if 17 \<le> length buf \<and> take 9 buf = MANIFEST_MAGIC_V1 then Ok (1, 0, 9)
       else Err WrongMagic) = Ok (3, seq, 17)"
    unfolding r0 if_P [OF h] by simp
  show ?thesis
    unfolding manifest_parse_def first bind_res_simps prod.case r1 r2 bind.bind_lunit u r3 option.case Let_def nl
    by (simp add: crc32_resume_eq)
qed

lemma manifest_parse_encode:
  assumes ok: "manifest_ok names pending"
  shows "manifest_parse (manifest_encode seq covered names pending @ tail) = Ok (manifest_of seq covered names pending)"
proof -
  define body where "body = manifest_body covered names pending"
  have len: "length body < 2 ^ 32" "12 \<le> length body" using ok length_manifest_body [of covered names pending]
    by (simp_all add: manifest_ok_def body_def) (simp add: manifest_body_def)
  have "rd_u64 body 0 = Some covered" by (simp add: body_def manifest_body_def rd_u64_def)
  moreover have "rd_u32 body 8 = Some (word_of_nat (length names))" by (simp add: body_def manifest_body_def rd_u32_def)
  moreover have "unat (word_of_nat (length names) :: u32) = length names" using ok by (simp add: manifest_ok_def unat_of_nat)
  moreover have "parse_names 3 body (length names) 12 [] [] = Inr ([] @ names, [] @ filter (\<lambda>n. n \<in> set pending) names)"
    using ok by (intro parse_encoded [of _ "u64_le covered @ u32_le (word_of_nat (length names))"])
      (simp_all add: body_def manifest_body_def manifest_ok_def)
  ultimately show ?thesis
    using parse_v3 [of "manifest_encode seq covered names pending @ tail" seq body "crc32 (u64_le seq @ body)" tail] len
    by (simp add: manifest_encode_eq manifest_of_def flip: body_def)
qed

subsection \<open>Slots\<close>

lemma rd_total: "at + 2 \<le> length b \<Longrightarrow> \<exists>x. rd_u16 b at = Some x" "at + 4 \<le> length b \<Longrightarrow> \<exists>x. rd_u32 b at = Some x"
  "at + 8 \<le> length b \<Longrightarrow> \<exists>x. rd_u64 b at = Some x"
  by (simp_all add: rd_u16_def rd_u32_def rd_u64_def)

lemma manifest_parse_total: "\<exists>r. manifest_parse buf = Some r"
proof -
  let ?head = "if 25 \<le> length buf \<and> take 9 buf = MANIFEST_MAGIC then lift_res (map_option (\<lambda>seq. (3 :: byte, seq, 17 :: nat)) (rd_u64 buf 9))
       else if 25 \<le> length buf \<and> take 9 buf = MANIFEST_MAGIC_V2 then lift_res (map_option (\<lambda>seq. (2, seq, 17)) (rd_u64 buf 9))
       else if 17 \<le> length buf \<and> take 9 buf = MANIFEST_MAGIC_V1 then Ok (1, 0, 9)
       else Err WrongMagic"
  have "?head = Err WrongMagic \<or> (\<exists>version seq at. ?head = Ok (version, seq, at) \<and> at + 8 \<le> length buf)"
    using rd_total(3) [of 9 buf] by auto
  then consider "?head = Err WrongMagic" | version seq p where "?head = Ok (version, seq, p)" "p + 8 \<le> length buf" by blast
  then show ?thesis
  proof cases
    case 1
    then show ?thesis unfolding manifest_parse_def by (simp only: bind_res_simps) simp
  next
    case (2 version seq p)
    obtain len crc where r: "rd_u32 buf p = Some len" "rd_u32 buf (p + 4) = Some crc"
      using rd_total(2) [of p buf] rd_total(2) [of "p + 4" buf] 2(2) by auto
    have b: "\<exists>covered n. rd_u64 body 0 = Some covered \<and> rd_u32 body 8 = Some n" if "\<not> length body < 12" for body
      using that rd_total(3) [of 0 body] rd_total(2) [of 8 body] by auto
    show ?thesis
      unfolding manifest_parse_def 2(1) bind_res_simps prod.case r bind.bind_lunit
      by (auto simp: Let_def split: option.splits sum.splits dest!: b)
  qed
qed

lemma slot_parity: "unat ((seq + 1) mod 2) = 1 - unat (seq mod 2)" "unat (seq mod 2) < 2" for seq :: u64
proof -
  have "unat (seq + 1) = (unat seq + 1) mod 2 ^ 64" by (simp add: unat_word_ariths)
  then have "unat (seq + 1) mod 2 = (unat seq + 1) mod 2" by (simp add: mod_mod_cancel)
  then show "unat ((seq + 1) mod 2) = 1 - unat (seq mod 2)" by (simp add: unat_mod) presburger
  show "unat (seq mod 2) < 2" by (simp add: unat_mod)
qed

lemma slots_differ: "str ''manifest'' \<noteq> str ''manifest.alt''"
proof -
  have "length (str ''manifest'') \<noteq> length (str ''manifest.alt'')" by simp
  then show ?thesis by metis
qed

lemma sort_two: "sort_key f [a] = [a]" "sort_key f [a, b] = (if f a \<le> f b then [a, b] else [b, a])"
  by simp_all

text \<open>What a slot contributes: a manifest when its bytes parse.\<close>

definition slot_manifest :: "bytes option \<Rightarrow> manifest option" where
  "slot_manifest t = (case t of None \<Rightarrow> None | Some buf \<Rightarrow> (case manifest_parse buf of Some (Inr m) \<Rightarrow> Some m | _ \<Rightarrow> None))"

lemma parse_empty: "manifest_parse [] = Err WrongMagic"
  by (simp add: manifest_parse_def)

lemma read_slots_step:
  "\<exists>torn'. read_slots d (slot # slots) valid torn =
    read_slots d slots (valid @ (case slot_manifest (d slot) of Some m \<Rightarrow> [m] | None \<Rightarrow> [])) torn'"
proof (cases "d slot")
  case (Some buf)
  obtain r where "manifest_parse buf = Some r" using manifest_parse_total by blast
  then show ?thesis using Some parse_empty by (cases r) (auto simp: slot_manifest_def)
qed (auto simp: slot_manifest_def)

lemma read_all_slots:
  "\<exists>torn. manifest_read_all d =
    (let valid = sort_key (\<lambda>m. - uint (m_seq m)) ((case slot_manifest (d (MANIFEST_SLOTS ! 0)) of Some m \<Rightarrow> [m] | None \<Rightarrow> []) @
       (case slot_manifest (d (MANIFEST_SLOTS ! 1)) of Some m \<Rightarrow> [m] | None \<Rightarrow> []))
     in (case torn of Some e \<Rightarrow> if valid = [] then Err e else Ok valid | None \<Rightarrow> Ok valid))"
proof -
  let ?s0 = "str ''manifest''" and ?s1 = "str ''manifest.alt''"
  obtain t1 where 1: "read_slots d [?s0, ?s1] [] None =
      read_slots d [?s1] ([] @ (case slot_manifest (d ?s0) of Some m \<Rightarrow> [m] | None \<Rightarrow> [])) t1"
    using read_slots_step by blast
  obtain t2 where "read_slots d [?s1] ([] @ (case slot_manifest (d ?s0) of Some m \<Rightarrow> [m] | None \<Rightarrow> [])) t1 =
      read_slots d [] (([] @ (case slot_manifest (d ?s0) of Some m \<Rightarrow> [m] | None \<Rightarrow> [])) @
        (case slot_manifest (d ?s1) of Some m \<Rightarrow> [m] | None \<Rightarrow> [])) t2"
    using read_slots_step by blast
  with 1 have "read_slots d MANIFEST_SLOTS [] None =
      Some ((case slot_manifest (d (MANIFEST_SLOTS ! 0)) of Some m \<Rightarrow> [m] | None \<Rightarrow> []) @
       (case slot_manifest (d (MANIFEST_SLOTS ! 1)) of Some m \<Rightarrow> [m] | None \<Rightarrow> []), t2)"
    by (simp add: MANIFEST_SLOTS_def)
  then show ?thesis by (intro exI [of _ t2]) (simp add: manifest_read_all_def)
qed

definition newest_first :: "manifest \<Rightarrow> manifest option \<Rightarrow> manifest list \<Rightarrow> bool" where
  "newest_first m other ms \<longleftrightarrow>
    (case other of None \<Rightarrow> ms = [m]
     | Some m' \<Rightarrow> ms = [m, m'] \<and> m_seq m' \<le> m_seq m \<or> ms = [m', m] \<and> m_seq m \<le> m_seq m')"

lemma sort_newest: "newest_first m (Some m') (sort_key (\<lambda>m. - uint (m_seq m)) [m, m'])"
  "newest_first m (Some m') (sort_key (\<lambda>m. - uint (m_seq m)) [m', m])"
  unfolding sort_two newest_first_def option.case neg_le_iff_le word_le_def by auto

lemma read_all_pair:
  assumes "slot_manifest (d (MANIFEST_SLOTS ! 0)) = Some m \<and> slot_manifest (d (MANIFEST_SLOTS ! 1)) = other \<or>
    slot_manifest (d (MANIFEST_SLOTS ! 1)) = Some m \<and> slot_manifest (d (MANIFEST_SLOTS ! 0)) = other"
  shows "\<exists>ms. manifest_read_all d = Ok ms \<and> newest_first m other ms"
proof -
  let ?valid = "(case slot_manifest (d (MANIFEST_SLOTS ! 0)) of Some m \<Rightarrow> [m] | None \<Rightarrow> []) @
     (case slot_manifest (d (MANIFEST_SLOTS ! 1)) of Some m \<Rightarrow> [m] | None \<Rightarrow> [])"
  let ?f = "\<lambda>m. - uint (m_seq m)"
  define valid where "valid = ?valid"
  consider "other = None" "valid = [m]" | m' where "other = Some m'" "valid = [m, m'] \<or> valid = [m', m]"
    using assms unfolding valid_def by (cases other) auto
  then have "newest_first m other (sort_key ?f valid) \<and> valid \<noteq> []"
  proof cases
    case 1
    show ?thesis unfolding 1 sort_two newest_first_def option.case by simp
  next
    case 2
    then show ?thesis using sort_newest [of m m'] by (elim disjE; simp only:) simp_all
  qed
  then have v: "newest_first m other (sort_key ?f valid)" "valid \<noteq> []" by blast+
  obtain torn where "manifest_read_all d = (let valid = sort_key ?f valid
     in (case torn of Some e \<Rightarrow> if valid = [] then Err e else Ok valid | None \<Rightarrow> Ok valid))"
    unfolding valid_def using read_all_slots by blast
  moreover have "sort_key ?f valid \<noteq> []" using v(2) by (metis length_0_conv length_sort)
  ultimately have "manifest_read_all d = Ok (sort_key ?f valid)" unfolding Let_def by (cases torn) simp_all
  then show ?thesis using v(1) by blast
qed

text \<open>
  C10: A publish survives whatever the next one leaves. Once a manifest is in its
  slot, over whatever the slot held before, the other slot being missing, empty,
  torn or any bytes at all, the read of both slots succeeds and has it; the manifest
  read first has the highest sequence of those read. It is the published one when the
  other slot holds no valid manifest or one of a lower sequence, and the other slot's
  when that has a higher one; of two equal sequences it is one of the two.
\<close>

theorem manifest_slot_survives:
  assumes ok: "manifest_ok names pending"
  shows "\<exists>ms. manifest_read_all ((manifest_write_slot seq covered names pending d)(manifest_slot (seq + 1) := t)) = Ok ms \<and>
    manifest_of seq covered names pending \<in> set ms \<and> (\<forall>m \<in> set ms. m_seq m \<le> m_seq (hd ms)) \<and>
    (\<forall>m. slot_manifest t = Some m \<and> seq < m_seq m \<longrightarrow> hd ms = m) \<and>
    ((\<forall>m. slot_manifest t = Some m \<longrightarrow> m_seq m < seq) \<longrightarrow> hd ms = manifest_of seq covered names pending)"
proof -
  let ?m = "manifest_of seq covered names pending"
  define d' where "d' = (manifest_write_slot seq covered names pending d)(manifest_slot (seq + 1) := t)"
  have seq: "m_seq ?m = seq" by (simp add: manifest_of_def)
  have sm: "slot_manifest (Some (write_all_at0 old (manifest_encode seq covered names pending))) = Some ?m" for old
    using manifest_parse_encode [OF ok] by (simp add: slot_manifest_def write_all_at0_def blit_def)
  have nth: "MANIFEST_SLOTS ! 0 \<noteq> MANIFEST_SLOTS ! 1" using slots_differ by (simp add: MANIFEST_SLOTS_def)
  consider "unat (seq mod 2) = 0" | "unat (seq mod 2) = 1" using slot_parity(2) [of seq] by linarith
  then have "slot_manifest (d' (MANIFEST_SLOTS ! 0)) = Some ?m \<and> slot_manifest (d' (MANIFEST_SLOTS ! 1)) = slot_manifest t \<or>
      slot_manifest (d' (MANIFEST_SLOTS ! 1)) = Some ?m \<and> slot_manifest (d' (MANIFEST_SLOTS ! 0)) = slot_manifest t"
    by cases (use nth slot_parity(1) [of seq] sm in \<open>simp_all add: d'_def manifest_write_slot_def manifest_slot_def\<close>)
  then have "\<exists>ms. manifest_read_all d' = Ok ms \<and> newest_first ?m (slot_manifest t) ms" by (rule read_all_pair)
  then obtain ms where "manifest_read_all d' = Ok ms" "newest_first ?m (slot_manifest t) ms" by blast
  then show ?thesis
    unfolding d'_def [symmetric] using seq by (intro exI [of _ ms]) (cases "slot_manifest t"; auto simp: newest_first_def)
qed

theorem manifest_slot_survives_witness:
  "\<exists>ms. manifest_read_all ((manifest_write_slot 4 7 [str ''seg-1''] [] (\<lambda>f. None))(manifest_slot (4 + 1) := Some [1, 2, 3])) = Ok ms \<and>
    manifest_of 4 7 [str ''seg-1''] [] \<in> set ms"
  using manifest_slot_survives [of "[str ''seg-1'']" "[]" 4 7 "\<lambda>f. None" "Some [1, 2, 3]"]
  by (auto simp: manifest_ok_def name_ok_def manifest_body_def str_def)





end
