(* ===== verification/Records.thy ===== *)
theory Records
  imports Runs
begin

text \<open>
  The records of the key index (flatindex.rs): a key, its extents or the four-byte
  header that stands for one short inline extent, and the inline bytes, each part
  padded to four. How a record is laid out in a slice, how it is parsed back out of
  any buffer, and how the compact header's extent is rebuilt from the run. An
  extent array is borrowed in place, so a reader is given the address its buffer is
  mapped at.
\<close>

subsection \<open>Layout\<close>

definition REC_ALIGN :: nat where "REC_ALIGN = 4"
definition EXT_BYTES :: nat where "EXT_BYTES = 20"
definition COMPACT :: u16 where "COMPACT = 0x8000"
definition COMPACT_RUN :: nat where "COMPACT_RUN = 2 ^ 14"
definition C_FIXED :: u16 where "C_FIXED = push_bit 14 1"
definition C_TOMB :: u16 where "C_TOMB = push_bit 15 1"
definition RECORD_KEY_AT :: nat where "RECORD_KEY_AT = 4"

text \<open>Rounding up to a power of two, which the code does with a mask.\<close>

definition align_up :: "nat \<Rightarrow> nat \<Rightarrow> nat" where
  "align_up n to = (n + to - 1) div to * to"

definition record_len :: "nat \<Rightarrow> nat \<Rightarrow> nat" where
  "record_len klen n = align_up (4 + klen) REC_ALIGN + n * EXT_BYTES"

definition record_len_tail :: "nat \<Rightarrow> nat \<Rightarrow> nat \<Rightarrow> nat" where
  "record_len_tail klen n tail = record_len klen n + align_up tail REC_ALIGN"

definition compacts :: "ext list \<Rightarrow> bool" where
  "compacts exts = (case exts of [e] \<Rightarrow> is_inline e \<and> e_off e = 0 \<and> unat (e_len e) < COMPACT_RUN | _ \<Rightarrow> False)"

definition record_len_compact :: "nat \<Rightarrow> nat \<Rightarrow> nat" where
  "record_len_compact klen run = align_up (4 + klen) REC_ALIGN + 4 + align_up run REC_ALIGN"

definition record_len_exts :: "nat \<Rightarrow> ext list \<Rightarrow> nat \<Rightarrow> nat" where
  "record_len_exts klen exts tail =
    (if compacts exts then record_len_compact klen tail else record_len_tail klen (length exts) tail)"

definition segment_record_len :: "nat \<Rightarrow> nat \<Rightarrow> bool \<Rightarrow> bool \<Rightarrow> nat" where
  "segment_record_len klen run inline compact =
    (if compact \<and> inline \<and> run < COMPACT_RUN then record_len_compact klen run
     else record_len_tail klen 1 (if inline then run else 0))"

definition compact_header :: "ext \<Rightarrow> bytes" where
  "compact_header e =
    (let c = ucast (records e);
         c = (if is_fixed e then c OR C_FIXED else c);
         c = (if is_tombstone e then c OR C_TOMB else c)
     in u16_le (ucast (e_len e)) @ u16_le c)"

text \<open>The prefixes of a run walked: where the record after the next ones starts.\<close>

fun walk_prefixes :: "bytes \<Rightarrow> nat \<Rightarrow> nat \<Rightarrow> nat \<Rightarrow> nat option" where
  "walk_prefixes run len 0 p = Some p"
| "walk_prefixes run len (Suc k) p =
    (case get_uvarint run p of (l, p) \<Rightarrow>
      do { p \<leftarrow> checked_add p (unat l); if len \<le> p then None else walk_prefixes run len k p })"

definition compact_ext :: "bytes \<Rightarrow> bytes \<Rightarrow> ext option" where
  "compact_ext h run =
    (let len = le_val (take 2 h);
         c = (word_of_nat (le_val (take 2 (drop 2 h))) :: u16);
         recs = (ucast (c AND NOT (C_FIXED OR C_TOMB)) :: u32);
         fixed = (c AND C_FIXED \<noteq> 0)
     in if length run \<noteq> len \<or> max len 1 < unat recs then None
        else do { lst \<leftarrow> (if recs \<le> 1 then Some 0
                         else if fixed
                         then let n = unat recs in if len mod n \<noteq> 0 then None else Some (word_of_nat ((n - 1) * (len div n)))
                         else map_option word_of_nat (walk_prefixes run len (unat (recs - 1)) 0));
                  Some \<lparr>e_block = INLINE, e_off = 0, e_len = word_of_nat len, e_last = lst,
                        e_count = recs OR (if fixed then FIXED else 0) OR (if c AND C_TOMB \<noteq> 0 then TOMBSTONE else 0)\<rparr> })"

definition record_len_for :: "nat \<Rightarrow> ext list \<Rightarrow> nat \<Rightarrow> bool \<Rightarrow> nat option" where
  "record_len_for klen exts tail compact =
    (if U16_MAX < klen \<or> unat COMPACT \<le> length exts then None
     else Some (if compact \<and> compacts exts then record_len_compact klen tail else record_len_tail klen (length exts) tail))"

definition record_tail_at :: "nat \<Rightarrow> ext list \<Rightarrow> bool \<Rightarrow> nat" where
  "record_tail_at klen exts compact =
    (let at = align_up (4 + klen) REC_ALIGN
     in if compact \<and> compacts exts then at + 4 else at + length exts * EXT_BYTES)"

text \<open>A range of a slice filled with zeros; an inverted range panics.\<close>

definition fill_zero :: "bytes \<Rightarrow> nat \<Rightarrow> nat \<Rightarrow> bytes option" where
  "fill_zero rec a b = (if a \<le> b then put rec a (replicate (b - a) 0) else None)"

fun put_exts :: "bytes \<Rightarrow> nat \<Rightarrow> ext list \<Rightarrow> (bytes \<times> nat) option" where
  "put_exts rec at [] = Some (rec, at)"
| "put_exts rec at (e # exts) =
    do { rec \<leftarrow> put rec at (u32_le (e_block e));
         rec \<leftarrow> put rec (at + 4) (u32_le (e_off e));
         rec \<leftarrow> put rec (at + 8) (u32_le (e_len e));
         rec \<leftarrow> put rec (at + 12) (u32_le (e_last e));
         rec \<leftarrow> put rec (at + 16) (u32_le (e_count e));
         put_exts rec (at + EXT_BYTES) exts }"

definition record_into :: "bytes \<Rightarrow> bytes \<Rightarrow> ext list \<Rightarrow> bytes \<Rightarrow> bool \<Rightarrow> (bytes \<times> nat) option" where
  "record_into rec key exts tail compact =
    do { rec \<leftarrow> put rec 0 (u16_le (word_of_nat (length key)));
         rec \<leftarrow> put rec RECORD_KEY_AT key;
         let at = align_up (4 + length key) REC_ALIGN;
         rec \<leftarrow> fill_zero rec (4 + length key) at;
         if compact \<and> compacts exts
         then do { rec \<leftarrow> put rec 2 (u16_le COMPACT);
                   rec \<leftarrow> put rec at (compact_header (exts ! 0));
                   rec \<leftarrow> put rec (at + 4) tail;
                   rec \<leftarrow> fill_zero rec (at + 4 + length tail) (length rec);
                   Some (rec, at + 4) }
         else do { rec \<leftarrow> put rec 2 (u16_le (word_of_nat (length exts)));
                   (rec, at) \<leftarrow> put_exts rec at exts;
                   rec \<leftarrow> put rec at tail;
                   rec \<leftarrow> fill_zero rec (at + length tail) (length rec);
                   Some (rec, at) } }"

text \<open>None is the panic; Some None the refusal; else the buffer, the record's length and where its tail begins.\<close>

definition stream_record_tail_at :: "bytes \<Rightarrow> bytes \<Rightarrow> ext list \<Rightarrow> bytes \<Rightarrow> bool \<Rightarrow> (bytes \<times> nat \<times> nat) option option" where
  "stream_record_tail_at out key exts tail compact =
    (case record_len_for (length key) exts (length tail) compact of
       None \<Rightarrow> Some None
     | Some len \<Rightarrow>
         map_option (\<lambda>(rec, tail_at). Some (out @ rec, len, tail_at)) (record_into (replicate len 0) key exts tail compact))"

definition stream_record_as :: "bytes \<Rightarrow> bytes \<Rightarrow> ext list \<Rightarrow> bytes \<Rightarrow> bool \<Rightarrow> (bytes \<times> nat) option option" where
  "stream_record_as out key exts tail compact =
    map_option (map_option (\<lambda>(out, len, tail_at). (out, len))) (stream_record_tail_at out key exts tail compact)"

definition stream_record :: "bytes \<Rightarrow> bytes \<Rightarrow> ext list \<Rightarrow> bytes \<Rightarrow> (bytes \<times> nat) option option" where
  "stream_record out key exts tail = stream_record_as out key exts tail True"

subsection \<open>Parsing\<close>

definition record_key :: "bytes \<Rightarrow> nat \<Rightarrow> bytes option" where
  "record_key buf off =
    do { klen \<leftarrow> rd_u16 buf off;
         n \<leftarrow> rd_u16 buf (off + 2);
         if n AND COMPACT \<noteq> 0 \<and> n \<noteq> COMPACT then None else slice buf (off + 4) (off + 4 + unat klen) }"

text \<open>The extents where they lie: five little-endian words each.\<close>

definition rd_ext :: "bytes \<Rightarrow> nat \<Rightarrow> ext option" where
  "rd_ext b at =
    do { a \<leftarrow> rd_u32 b at; f \<leftarrow> rd_u32 b (at + 4); l \<leftarrow> rd_u32 b (at + 8); la \<leftarrow> rd_u32 b (at + 12); c \<leftarrow> rd_u32 b (at + 16);
         Some \<lparr>e_block = a, e_off = f, e_len = l, e_last = la, e_count = c\<rparr> }"

fun rd_exts :: "bytes \<Rightarrow> nat \<Rightarrow> nat \<Rightarrow> ext list option" where
  "rd_exts b 0 at = Some []"
| "rd_exts b (Suc n) at = do { e \<leftarrow> rd_ext b at; es \<leftarrow> rd_exts b n (at + EXT_BYTES); Some (e # es) }"

fun inline_tail_len :: "ext list \<Rightarrow> nat \<Rightarrow> nat option" where
  "inline_tail_len [] n = Some n"
| "inline_tail_len (e # exts) n =
    (if is_inline e then do { m \<leftarrow> checked_add (unat (e_off e)) (unat (e_len e)); inline_tail_len exts (max n m) }
     else inline_tail_len exts n)"

definition parse_record_tail :: "nat \<Rightarrow> bytes \<Rightarrow> bytes \<Rightarrow> (exts \<times> bytes \<times> nat) option" where
  "parse_record_tail addr header rest =
    (let n = (word_of_nat (le_val (drop 2 header)) :: u16)
     in if n AND COMPACT \<noteq> 0
        then if n \<noteq> COMPACT then None
             else do { h \<leftarrow> slice rest 0 4;
                       let len = le_val (take 2 h);
                       tail \<leftarrow> slice rest 4 (4 + len);
                       e \<leftarrow> compact_ext h tail;
                       Some (OneExt e, tail, 4 + len) }
        else let n = unat n
             in do { bs \<leftarrow> slice rest 0 (n * EXT_BYTES);
                     if addr mod 4 \<noteq> 0 then None
                     else do { exts \<leftarrow> rd_exts bs n 0;
                               tail_len \<leftarrow> inline_tail_len exts 0;
                               let t_at = n * EXT_BYTES;
                               e \<leftarrow> checked_add t_at tail_len;
                               tail \<leftarrow> slice rest t_at e;
                               Some (Borrowed exts, tail, t_at + tail_len) } })"

definition parse_record :: "nat \<Rightarrow> bytes \<Rightarrow> nat \<Rightarrow> (bytes \<times> exts \<times> bytes \<times> nat) option" where
  "parse_record addr buf off =
    do { klen \<leftarrow> rd_u16 buf off;
         e \<leftarrow> checked_add off 4;
         header \<leftarrow> slice buf off e;
         key \<leftarrow> slice buf (off + 4) (off + 4 + unat klen);
         e_at \<leftarrow> checked_add off (align_up (4 + unat klen) REC_ALIGN);
         rest \<leftarrow> slice buf e_at (length buf);
         (exts, tail, used) \<leftarrow> parse_record_tail (addr + e_at) header rest;
         Some (key, exts, tail, align_up (e_at + used - off) REC_ALIGN) }"

definition record_key_next :: "nat \<Rightarrow> bytes \<Rightarrow> nat \<Rightarrow> (bytes \<times> nat) option" where
  "record_key_next addr buf off =
    (if length buf < off then None
     else do { klen \<leftarrow> rd_u16 buf off;
               n \<leftarrow> rd_u16 buf (off + 2);
               if n = COMPACT
               then do { key \<leftarrow> slice buf (off + 4) (off + 4 + unat klen);
                         run \<leftarrow> rd_u16 buf (off + align_up (4 + unat klen) REC_ALIGN);
                         nxt \<leftarrow> checked_add off (record_len_compact (unat klen) (unat run));
                         if nxt \<le> length buf then Some (key, nxt) else None }
               else do { (key, exts, tail, len) \<leftarrow> parse_record addr buf off;
                         nxt \<leftarrow> checked_add off len;
                         if nxt \<le> length buf then Some (key, nxt) else None } })"


subsection \<open>Writes that tile a slice\<close>

declare put_Some [simp del]

lemma fill_at: "length x = q - p \<Longrightarrow> p \<le> q \<Longrightarrow> p = length a \<Longrightarrow> fill_zero (a @ x @ b) p q = Some (a @ replicate (q - p) 0 @ b)"
  by (simp add: fill_zero_def put_at)

lemma split_lengths: "length xs = sum_list ns \<Longrightarrow> \<exists>xss. xs = concat xss \<and> map length xss = ns"
proof (induction ns arbitrary: xs)
  case (Cons n ns)
  obtain xss where "drop n xs = concat xss" "map length xss = ns" using Cons.IH [of "drop n xs"] Cons.prems by auto
  then show ?case using Cons.prems by (intro exI [of _ "take n xs # xss"]) (simp flip: \<open>drop n xs = concat xss\<close>)
qed simp

lemma align_up_ge [simp]: "n \<le> align_up n REC_ALIGN"
  by (simp add: align_up_def REC_ALIGN_def)

lemma align_up_mod [simp]: "align_up n REC_ALIGN mod 4 = 0"
  by (simp add: align_up_def REC_ALIGN_def)

lemma align_up_less: "align_up n REC_ALIGN < n + 4"
  by (simp add: align_up_def REC_ALIGN_def)

lemma align_up_add: "a mod 4 = 0 \<Longrightarrow> align_up (a + b) REC_ALIGN = a + align_up b REC_ALIGN"
  unfolding align_up_def REC_ALIGN_def by presburger

definition ext_bytes :: "ext \<Rightarrow> bytes" where
  "ext_bytes e = u32_le (e_block e) @ u32_le (e_off e) @ u32_le (e_len e) @ u32_le (e_last e) @ u32_le (e_count e)"

lemma length_ext_bytes [simp]: "length (ext_bytes e) = EXT_BYTES"
  by (simp add: ext_bytes_def EXT_BYTES_def)

lemma length_exts_bytes: "length (concat (map ext_bytes exts)) = length exts * EXT_BYTES"
  by (induction exts) (auto simp: EXT_BYTES_def)

lemma put_exts_eq:
  "length x = length exts * EXT_BYTES \<Longrightarrow> p = length a \<Longrightarrow>
    put_exts (a @ x @ b) p exts = Some (a @ concat (map ext_bytes exts) @ b, p + length exts * EXT_BYTES)"
proof (induction exts arbitrary: a x p)
  case Nil
  then show ?case by simp
next
  case (Cons e exts)
  have "length x = sum_list [4, 4, 4, 4, 4, length exts * EXT_BYTES]" using Cons.prems(1) by (simp add: EXT_BYTES_def)
  from split_lengths [OF this] obtain xss where
    xss: "x = concat xss" "map length xss = [4, 4, 4, 4, 4, length exts * EXT_BYTES]" by (elim exE conjE)
  obtain x1 x2 x3 x4 x5 y5 where xs: "xss = [x1, x2, x3, x4, x5, y5]" and
    l: "length x1 = 4" "length x2 = 4" "length x3 = 4" "length x4 = 4" "length x5 = 4" "length y5 = length exts * EXT_BYTES"
    using xss(2) by (auto simp: map_eq_Cons_conv)
  let ?B = "u32_le (e_block e)" and ?O = "u32_le (e_off e)" and ?L = "u32_le (e_len e)" and ?A = "u32_le (e_last e)" and ?C = "u32_le (e_count e)"
  have x: "a @ x @ b = a @ x1 @ (x2 @ x3 @ x4 @ x5 @ y5 @ b)" by (simp add: xss(1) xs)
  have p1: "put (a @ x @ b) p ?B = Some (a @ ?B @ x2 @ x3 @ x4 @ x5 @ y5 @ b)"
    unfolding x by (rule put_at) (use Cons.prems l in simp_all)
  have p2: "put (a @ ?B @ x2 @ x3 @ x4 @ x5 @ y5 @ b) (p + 4) ?O = Some (a @ ?B @ ?O @ x3 @ x4 @ x5 @ y5 @ b)"
    using put_at [of x2 ?O "p + 4" "a @ ?B" "x3 @ x4 @ x5 @ y5 @ b"] Cons.prems l by simp
  have p3: "put (a @ ?B @ ?O @ x3 @ x4 @ x5 @ y5 @ b) (p + 8) ?L = Some (a @ ?B @ ?O @ ?L @ x4 @ x5 @ y5 @ b)"
    using put_at [of x3 ?L "p + 8" "a @ ?B @ ?O" "x4 @ x5 @ y5 @ b"] Cons.prems l by simp
  have p4: "put (a @ ?B @ ?O @ ?L @ x4 @ x5 @ y5 @ b) (p + 12) ?A = Some (a @ ?B @ ?O @ ?L @ ?A @ x5 @ y5 @ b)"
    using put_at [of x4 ?A "p + 12" "a @ ?B @ ?O @ ?L" "x5 @ y5 @ b"] Cons.prems l by simp
  have p5: "put (a @ ?B @ ?O @ ?L @ ?A @ x5 @ y5 @ b) (p + 16) ?C = Some (a @ ?B @ ?O @ ?L @ ?A @ ?C @ y5 @ b)"
    using put_at [of x5 ?C "p + 16" "a @ ?B @ ?O @ ?L @ ?A" "y5 @ b"] Cons.prems l by simp
  have "put_exts ((a @ ext_bytes e) @ y5 @ b) (p + EXT_BYTES) exts =
      Some ((a @ ext_bytes e) @ concat (map ext_bytes exts) @ b, p + EXT_BYTES + length exts * EXT_BYTES)"
    using Cons.prems(2) l by (intro Cons.IH) simp_all
  then show ?case unfolding put_exts.simps p1 bind.bind_lunit p2 p3 p4 p5 by (simp add: ext_bytes_def [of e])
qed

definition key_pad :: "bytes \<Rightarrow> bytes" where
  "key_pad key = replicate (align_up (4 + length key) REC_ALIGN - (4 + length key)) 0"

definition tail_pad :: "bytes \<Rightarrow> bytes" where
  "tail_pad tail = replicate (align_up (length tail) REC_ALIGN - length tail) 0"

text \<open>A record's bytes.\<close>

definition record_bytes :: "bytes \<Rightarrow> ext list \<Rightarrow> bytes \<Rightarrow> bool \<Rightarrow> bytes" where
  "record_bytes key exts tail compact =
    u16_le (word_of_nat (length key)) @ u16_le (if compact \<and> compacts exts then COMPACT else word_of_nat (length exts)) @
    key @ key_pad key @ (if compact \<and> compacts exts then compact_header (exts ! 0) else concat (map ext_bytes exts)) @ tail @ tail_pad tail"

lemma length_key_pad: "4 + length key + length (key_pad key) = align_up (4 + length key) REC_ALIGN"
  by (simp add: key_pad_def)

lemma length_tail_pad: "length tail + length (tail_pad tail) = align_up (length tail) REC_ALIGN"
  by (simp add: tail_pad_def)

lemma length_compact_header [simp]: "length (compact_header e) = 4"
  by (simp add: compact_header_def Let_def)

lemma length_record_bytes:
  "length (record_bytes key exts tail compact) =
    (if compact \<and> compacts exts then record_len_compact (length key) (length tail) else record_len_tail (length key) (length exts) (length tail))"
  using length_key_pad [of key] length_tail_pad [of tail]
  by (simp add: record_bytes_def record_len_compact_def record_len_tail_def record_len_def length_exts_bytes)

lemma record_into_eq:
  assumes len: "length rec = length (record_bytes key exts tail compact)"
  shows "record_into rec key exts tail compact = Some (record_bytes key exts tail compact, record_tail_at (length key) exts compact)"
proof -
  let ?k = "u16_le (word_of_nat (length key))" and ?at = "align_up (4 + length key) REC_ALIGN"
  define n where "n = u16_le (if compact \<and> compacts exts then COMPACT else word_of_nat (length exts))"
  define m where "m = (if compact \<and> compacts exts then compact_header (exts ! 0) else concat (map ext_bytes exts))"
  have n2: "length n = 2" by (simp add: n_def)
  have bytes: "record_bytes key exts tail compact = ?k @ n @ key @ key_pad key @ m @ tail @ tail_pad tail"
    by (simp add: record_bytes_def n_def m_def)
  have len: "length rec = 4 + length key + length (key_pad key) + length m + length tail + length (tail_pad tail)"
    using len by (simp add: bytes n2)
  let ?ns = "[2, 2, length key, length (key_pad key), length m, length tail, length (tail_pad tail)]"
  have "length rec = sum_list ?ns" using len by simp
  from split_lengths [OF this] obtain xss where xss: "rec = concat xss" "map length xss = ?ns" by (elim exE conjE)
  obtain r1 r2 r3 r4 r5 r6 r7 where xs: "xss = [r1, r2, r3, r4, r5, r6, r7]" and
    l: "length r1 = 2" "length r2 = 2" "length r3 = length key" "length r4 = length (key_pad key)" "length r5 = length m"
    "length r6 = length tail" "length r7 = length (tail_pad tail)"
    using xss(2) by (auto simp: map_eq_Cons_conv)
  have rec: "rec = r1 @ r2 @ r3 @ r4 @ r5 @ r6 @ r7" by (simp add: xss(1) xs)
  have p1: "put rec 0 ?k = Some (?k @ r2 @ r3 @ r4 @ r5 @ r6 @ r7)" using put_at [of r1 ?k 0 "[]"] l  by (simp add: rec)
  have p2: "put (?k @ r2 @ r3 @ r4 @ r5 @ r6 @ r7) RECORD_KEY_AT key = Some (?k @ r2 @ key @ r4 @ r5 @ r6 @ r7)"
    using put_at [of r3 key RECORD_KEY_AT "?k @ r2" "r4 @ r5 @ r6 @ r7"] l  by (simp add: RECORD_KEY_AT_def)
  have p3: "fill_zero (?k @ r2 @ key @ r4 @ r5 @ r6 @ r7) (4 + length key) ?at = Some (?k @ r2 @ key @ key_pad key @ r5 @ r6 @ r7)"
    using fill_at [of r4 ?at "4 + length key" "?k @ r2 @ key" "r5 @ r6 @ r7"] l  by (simp add: key_pad_def)
  define h where "h = ?k @ n @ key @ key_pad key"
  have lh: "length h = ?at" using length_key_pad [of key] n2 by (simp add: h_def)
  have "put (?k @ r2 @ key @ key_pad key @ r5 @ r6 @ r7) 2 n = Some (?k @ n @ key @ key_pad key @ r5 @ r6 @ r7)"
    by (rule put_at) (simp_all only: l n2 length_scalar_le)
  then have p4: "put (?k @ r2 @ key @ key_pad key @ r5 @ r6 @ r7) 2 n = Some (h @ r5 @ r6 @ r7)" by (simp add: h_def)
  define t where "t = ?at + length m"
  have p5: "put (h @ m @ r6 @ r7) t tail = Some (h @ m @ tail @ r7)"
    using put_at [of r6 tail t "h @ m" r7] l lh by (simp add: t_def)
  have p6: "fill_zero (h @ m @ tail @ r7) (t + length tail) (length (h @ m @ tail @ r7)) = Some (h @ m @ tail @ tail_pad tail)"
    using fill_at [of r7 "length (h @ m @ tail @ r7)" "t + length tail" "h @ m @ tail" "[]"] l lh by (simp add: t_def tail_pad_def)
  have bytes: "record_bytes key exts tail compact = h @ m @ tail @ tail_pad tail" by (simp add: bytes h_def)
  show ?thesis
  proof (cases "compact \<and> compacts exts")
    case True
    have m: "m = compact_header (exts ! 0)" "n = u16_le COMPACT" using True by (simp_all add: m_def n_def)
    have t: "t = ?at + 4" by (simp add: t_def m)
    have p: "put (h @ r5 @ r6 @ r7) ?at m = Some (h @ m @ r6 @ r7)" by (rule put_at) (simp_all add: l lh)
    have "record_tail_at (length key) exts compact = t" using True by (simp add: record_tail_at_def Let_def t)
    then show ?thesis
      unfolding record_into_def p1 bind.bind_lunit p2 Let_def p3 if_P [OF True] m(1) [symmetric] m(2) [symmetric] p4 p t [symmetric] p5 p6 bytes
      by simp
  next
    case False
    have m: "m = concat (map ext_bytes exts)" "n = u16_le (word_of_nat (length exts))" using False by (auto simp: m_def n_def)
    have t: "t = ?at + length exts * EXT_BYTES" by (simp add: t_def m length_exts_bytes)
    have p: "put_exts (h @ r5 @ r6 @ r7) ?at exts = Some (h @ m @ r6 @ r7, t)"
      using put_exts_eq [of r5 exts ?at h "r6 @ r7"] l lh by (simp add: m length_exts_bytes t)
    have "record_tail_at (length key) exts compact = t" using False by (auto simp: record_tail_at_def Let_def t)
    then show ?thesis
      unfolding record_into_def p1 bind.bind_lunit p2 Let_def p3 if_not_P [OF False] m(2) [symmetric] p4 p prod.case p5 p6 bytes
      by simp
  qed
qed

lemma stream_record_eq:
  assumes "record_len_for (length key) exts (length tail) compact = Some len"
  shows "stream_record_tail_at out key exts tail compact =
    Some (Some (out @ record_bytes key exts tail compact, len, record_tail_at (length key) exts compact))"
    and "len = length (record_bytes key exts tail compact)"
proof -
  show l: "len = length (record_bytes key exts tail compact)"
    using assms by (auto simp: record_len_for_def length_record_bytes split: if_splits)
  show "stream_record_tail_at out key exts tail compact =
    Some (Some (out @ record_bytes key exts tail compact, len, record_tail_at (length key) exts compact))"
    unfolding stream_record_tail_at_def assms option.case
    by (subst record_into_eq) (simp_all add: l)
qed

subsection \<open>Parsing what was written\<close>

lemma COMPACT_eq: "COMPACT = 2 ^ 15"
  by (simp add: COMPACT_def)

lemma count_not_compact: "unat n < 2 ^ 15 \<Longrightarrow> n AND COMPACT = 0" for n :: u16
  unfolding COMPACT_eq and_exp_eq_0_iff_not_bit using word_bits_below [of n 15 15] by auto

lemma rd_ext_at: "p = length a \<Longrightarrow> rd_ext (a @ ext_bytes e @ b) p = Some e"
proof -
  assume p: "p = length a"
  let ?B = "u32_le (e_block e)" and ?O = "u32_le (e_off e)" and ?L = "u32_le (e_len e)" and ?A = "u32_le (e_last e)" and ?C = "u32_le (e_count e)"
  have "rd_u32 (a @ ext_bytes e @ b) p = Some (e_block e)" "rd_u32 (a @ ext_bytes e @ b) (p + 4) = Some (e_off e)"
    "rd_u32 (a @ ext_bytes e @ b) (p + 8) = Some (e_len e)" "rd_u32 (a @ ext_bytes e @ b) (p + 12) = Some (e_last e)"
    "rd_u32 (a @ ext_bytes e @ b) (p + 16) = Some (e_count e)"
    using rd_u32_at [of p a "e_block e" "?O @ ?L @ ?A @ ?C @ b"] rd_u32_at [of "p + 4" "a @ ?B" "e_off e" "?L @ ?A @ ?C @ b"]
      rd_u32_at [of "p + 8" "a @ ?B @ ?O" "e_len e" "?A @ ?C @ b"] rd_u32_at [of "p + 12" "a @ ?B @ ?O @ ?L" "e_last e" "?C @ b"]
      rd_u32_at [of "p + 16" "a @ ?B @ ?O @ ?L @ ?A" "e_count e" b] p
    by (simp_all add: ext_bytes_def)
  then show ?thesis by (simp add: rd_ext_def)
qed

lemma rd_exts_at: "p = length a \<Longrightarrow> rd_exts (a @ concat (map ext_bytes exts) @ b) (length exts) p = Some exts"
proof (induction exts arbitrary: a p)
  case (Cons e exts)
  then show ?case
    using rd_ext_at [of p a e "concat (map ext_bytes exts) @ b"] Cons.IH [of "p + EXT_BYTES" "a @ ext_bytes e"] by simp
qed simp

subsection \<open>The compact header\<close>

definition compact_word :: "nat \<Rightarrow> bool \<Rightarrow> bool \<Rightarrow> u16" where
  "compact_word n fixed tomb = (let c = word_of_nat n; c = (if fixed then c OR C_FIXED else c) in if tomb then c OR C_TOMB else c)"

lemma compact_word_bits:
  assumes "n < 2 ^ 14"
  shows "compact_word n fixed tomb AND NOT (C_FIXED OR C_TOMB) = word_of_nat n"
    and "compact_word n fixed tomb AND C_FIXED \<noteq> 0 \<longleftrightarrow> fixed"
    and "compact_word n fixed tomb AND C_TOMB \<noteq> 0 \<longleftrightarrow> tomb"
proof -
  let ?n = "word_of_nat n :: u16"
  have "unat ?n < 2 ^ 14" using assms(1) by (simp add: unat_of_nat)
  then have b: "bit ?n i \<Longrightarrow> i < 14" for i by (rule word_bits_below)
  have F: "bit C_FIXED i \<longleftrightarrow> i = 14" and T: "bit C_TOMB i \<longleftrightarrow> i = 15" for i
    by (auto simp: C_FIXED_def C_TOMB_def bit_push_bit_iff bit_1_iff simp del: push_bit_of_1)
  note B = bit_and_iff bit_or_iff bit_not_iff F T
  have n14: "\<not> bit ?n 14" "\<not> bit ?n 15" using b [of 14] b [of 15] by auto
  show "compact_word n fixed tomb AND NOT (C_FIXED OR C_TOMB) = ?n"
    unfolding compact_word_def Let_def by (rule bit_eqI) (auto simp: B dest: b split: if_splits)
  have "x AND C_FIXED \<noteq> 0 \<longleftrightarrow> bit x 14" and "x AND C_TOMB \<noteq> 0 \<longleftrightarrow> bit x 15" for x
    by (simp_all add: C_FIXED_def C_TOMB_def bit_iff_and_push_bit_not_eq_0 [of x 14] bit_iff_and_push_bit_not_eq_0 [of x 15]
        del: push_bit_of_1)
  then show "compact_word n fixed tomb AND C_FIXED \<noteq> 0 \<longleftrightarrow> fixed" "compact_word n fixed tomb AND C_TOMB \<noteq> 0 \<longleftrightarrow> tomb"
    using n14 by (auto simp: compact_word_def Let_def B)
qed

lemma walk_prefixes_concat:
  assumes "\<forall>v \<in> set (xs @ ys). length v < 2 ^ 32" and "ys \<noteq> []" and "run = pre @ concat (map prefixed (xs @ ys))" and "length run \<le> USIZE_MAX"
  shows "walk_prefixes run (length run) (length xs) (length pre) = Some (length pre + length (concat (map prefixed xs)))"
  using assms
proof (induction xs arbitrary: pre)
  case Nil
  then show ?case by simp
next
  case (Cons x xs)
  let ?u = "uvarint (word_of_nat (length x))"
  have r: "run = pre @ ?u @ (x @ concat (map prefixed (xs @ ys)))" using Cons.prems(3) by (simp add: prefixed_def [of x])
  have r2: "run = (pre @ prefixed x) @ concat (map prefixed (xs @ ys))" using Cons.prems(3) by simp
  have g: "get_uvarint run (length pre) = (word_of_nat (length x), length pre + length ?u)" unfolding r by (rule get_uvarint_put)
  have l: "unat (word_of_nat (length x) :: u64) = length x" using Cons.prems(1) by (intro unat_len64) auto
  have c: "checked_add (length pre + length ?u) (length x) = Some (length (pre @ prefixed x))"
    using Cons.prems(4) r by (simp add: checked_add_def prefixed_def)
  obtain y yr where "xs @ ys = y # yr" using Cons.prems(2) by (cases "xs @ ys") auto
  then have "0 < length (concat (map prefixed (xs @ ys)))" by (simp add: prefixed_def)
  then have lt: "\<not> length run \<le> length (pre @ prefixed x)" using arg_cong [OF r2, of length] by simp
  have "walk_prefixes run (length run) (length xs) (length (pre @ prefixed x)) =
      Some (length (pre @ prefixed x) + length (concat (map prefixed xs)))"
    by (rule Cons.IH [OF _ Cons.prems(2) r2 Cons.prems(4)]) (use Cons.prems(1) in simp)
  then show ?case
    unfolding length_Cons walk_prefixes.simps g prod.case l c bind.bind_lunit using lt by simp
qed

lemma prefixed_count: "length vs \<le> length (concat (map prefixed vs))"
proof (induction vs)
  case (Cons v vs)
  have "Suc 0 \<le> length (prefixed v)" by (simp add: prefixed_def Suc_le_eq)
  then show ?case using Cons unfolding list.map concat.simps length_append length_Cons by linarith
qed simp

lemma compact_ext_run:
  assumes v: "\<forall>v \<in> set vs. length v < 2 ^ 32" and r: "encode_run (concat vs) (lens_of vs) = Some (run, lst, flag)"
    and len: "length run < COMPACT_RUN" and e: "e = run_ext INLINE 0 run (length vs) lst flag tomb"
  shows "compact_ext (compact_header e) run = Some e" and "compacts [e]" and "length run = unat (e_len e)"
proof -
  define n where "n = length vs"
  have cases: "one_width vs \<and> run = concat vs \<and> lst = (word_of_nat n - 1) * word_of_nat (length (vs ! 0)) \<and> flag = FIXED \<or>
    \<not> one_width vs \<and> run = concat (map prefixed vs) \<and>
      lst = (if vs = [] then 0 else word_of_nat (length (concat (map prefixed (butlast vs))))) \<and> flag = 0"
    using r unfolding encode_run_cases [OF v] n_def
    by (cases "one_width vs") (simp_all only: if_True if_False option.inject prod.inject simp_thms)
  have wd: "length (concat vs) = n * length (vs ! 0)" "vs \<noteq> []" "0 < length (vs ! 0)" if "one_width vs"
  proof -
    have w: "vs \<noteq> []" "vs ! 0 \<noteq> []" "\<forall>v \<in> set vs. length v = length (vs ! 0)" using that unfolding one_width_def by blast+
    show "length (concat vs) = n * length (vs ! 0)" unfolding n_def by (rule length_concat_const [OF w(3)])
    show "vs \<noteq> []" "0 < length (vs ! 0)" using w(1,2) by simp_all
  qed
  have nl: "n \<le> length run"
  proof (cases "one_width vs")
    case True
    then show ?thesis using wd [OF True] cases by (simp add: Suc_le_eq)
  next
    case False
    then show ?thesis using prefixed_count [of vs] cases by (simp add: n_def)
  qed
  have n14: "n < 2 ^ 14" using nl len by (simp add: COMPACT_RUN_def)
  have l32: "length run < 2 ^ 32" using len by (simp add: COMPACT_RUN_def)
  show el: "length run = unat (e_len e)" using l32 by (simp add: e run_ext_def unat_of_nat)
  have "is_inline e" "e_off e = 0" by (simp_all add: e run_ext_def is_inline_def)
  then show "compacts [e]" using len el by (simp add: compacts_def)
  have fl: "flag = FIXED \<or> flag = 0" using cases by blast
  have n30: "n < 2 ^ 30" using n14 by simp
  have cw: "records e = word_of_nat n" "is_fixed e \<longleftrightarrow> flag = FIXED" "is_tombstone e \<longleftrightarrow> tomb"
    using count_word_bits [OF n30 fl, of tomb] by (simp_all add: e run_ext_def records_def is_fixed_def is_tombstone_def n_def)
  have "(ucast (word_of_nat n :: u32) :: u16) = word_of_nat n"
    using n14 by (simp add: word_unat_eq_iff unsigned_ucast_eq unat_of_nat take_bit_eq_mod)
  then have h: "compact_header e = u16_le (ucast (e_len e)) @ u16_le (compact_word n (flag = FIXED) tomb)"
    by (simp add: compact_header_def cw compact_word_def Let_def)
  have "unat (ucast (e_len e) :: u16) = length run"
    using el len by (simp add: unsigned_ucast_eq take_bit_eq_mod COMPACT_RUN_def)
  then have lv: "le_val (take 2 (compact_header e)) = length run"
    using len by (simp add: h u16_le_def le_val_bytes COMPACT_RUN_def)
  have cv: "(word_of_nat (le_val (take 2 (drop 2 (compact_header e)))) :: u16) = compact_word n (flag = FIXED) tomb"
    by (simp add: h)
  have rc: "(ucast (word_of_nat n :: u16) :: u32) = word_of_nat n"
    using n14 by (simp add: word_unat_eq_iff unsigned_ucast_eq unat_of_nat take_bit_eq_mod)
  have un: "unat (word_of_nat n :: u32) = n" using n30 by (simp add: unat_of_nat)
  have le1: "(word_of_nat n :: u32) \<le> 1 \<longleftrightarrow> n \<le> 1" by (simp add: word_le_nat_alt un)
  let ?lst = "if (word_of_nat n :: u32) \<le> 1 then Some 0
     else if flag = FIXED
     then if length run mod n \<noteq> 0 then None else Some (word_of_nat ((n - 1) * (length run div n)))
     else map_option word_of_nat (walk_prefixes run (length run) (unat ((word_of_nat n :: u32) - 1)) 0)"
  have lst: "?lst = Some lst"
  proof (cases "n \<le> 1")
    case True
    then have "n = 0 \<or> n = 1" by linarith
    then show ?thesis using cases True by (auto simp: n_def one_width_def length_Suc_conv)
  next
    case False
    then have n1: "unat ((word_of_nat n :: u32) - 1) = n - 1" using un by (simp add: unat_sub word_le_nat_alt)
    show ?thesis
    proof (cases "one_width vs")
      case True
      then have f: "flag = FIXED" "length run = n * length (vs ! 0)" "lst = (word_of_nat n - 1) * word_of_nat (length (vs ! 0))"
        using cases wd by auto
      have "(word_of_nat ((n - 1) * length (vs ! 0)) :: u32) = (word_of_nat n - 1) * word_of_nat (length (vs ! 0))"
        using False by (simp add: of_nat_diff)
      then show ?thesis using f False by (simp add: le1)
    next
      case nf: False
      then have f: "flag = 0" "run = concat (map prefixed vs)" "lst = word_of_nat (length (concat (map prefixed (butlast vs))))"
        using cases False by (auto simp: n_def)
      have vs: "vs = butlast vs @ [last vs]" using False by (simp add: n_def append_butlast_last_id flip: length_0_conv)
      have "walk_prefixes run (length run) (length (butlast vs)) (length ([] :: bytes)) = Some (length ([] :: bytes) + length (concat (map prefixed (butlast vs))))"
        by (rule walk_prefixes_concat [of _ "[last vs]"]) (use v f(2) l32 vs in \<open>simp_all add: USIZE_MAX_def\<close>)
      then show ?thesis using f(1,3) False n1 by (simp add: le1 [unfolded n_def] FIXED_def n_def)
    qed
  qed
  have g: "(max (length run) 1 < n) = False" using nl by simp
  have ct: "word_of_nat n OR (if flag = FIXED then FIXED else 0) OR (if tomb then TOMBSTONE else 0) = e_count e"
    using fl by (auto simp: e run_ext_def count_word_def n_def or.assoc)
  have le: "word_of_nat (length run) = e_len e" by (simp add: el)
  have rb: "\<lparr>e_block = INLINE, e_off = 0, e_len = e_len e, e_last = lst, e_count = e_count e\<rparr> = e" by (simp add: e run_ext_def)
  show "compact_ext (compact_header e) run = Some e"
    unfolding compact_ext_def Let_def lv cv compact_word_bits [OF n14] rc un
    by (simp only: g if_False lst bind.bind_lunit ct le rb simp_thms)
qed

subsection \<open>Records read back\<close>

text \<open>
  The records the engine writes. The inline bytes of full extents reach to where the
  last inline run ends. A single inline extent that takes the compact header is the
  extent of a run encoded from values, as the segment writer makes it.
\<close>

definition inline_end :: "ext list \<Rightarrow> nat" where
  "inline_end exts = foldr (\<lambda>e. max (unat (e_off e) + unat (e_len e))) (filter is_inline exts) 0"

definition encoded_run :: "ext \<Rightarrow> bytes \<Rightarrow> bool" where
  "encoded_run e run \<longleftrightarrow>
    (\<exists>vs lst flag tomb. (\<forall>v \<in> set vs. length v < 2 ^ 32) \<and> encode_run (concat vs) (lens_of vs) = Some (run, lst, flag) \<and>
      length run < 2 ^ 32 \<and> e = run_ext INLINE 0 run (length vs) lst flag tomb)"

definition record_ok :: "ext list \<Rightarrow> bytes \<Rightarrow> bool \<Rightarrow> bool" where
  "record_ok exts tail compact \<longleftrightarrow>
    (if compact \<and> compacts exts then encoded_run (exts ! 0) tail else length tail = inline_end exts)"

lemma inline_tail_len_end: "inline_tail_len exts n = Some (max n (inline_end exts))"
proof (induction exts arbitrary: n)
  case (Cons e exts)
  have "unat (e_off e) < 2 ^ 32" "unat (e_len e) < 2 ^ 32" using unsigned_less [of "e_off e"] unsigned_less [of "e_len e"] by simp_all
  then have "checked_add (unat (e_off e)) (unat (e_len e)) = Some (unat (e_off e) + unat (e_len e))"
    by (simp add: checked_add_def USIZE_MAX_def)
  then show ?case using Cons by (simp add: inline_end_def max.assoc)
qed (simp add: inline_end_def)

lemma record_ok_full: "record_ok exts tail compact \<Longrightarrow> \<not> (compact \<and> compacts exts) \<Longrightarrow> inline_tail_len exts 0 = Some (length tail)"
  unfolding inline_tail_len_end record_ok_def by (simp only: if_False max_0L)

lemma record_ok_compact:
  assumes "record_ok exts tail compact" and "compact \<and> compacts exts"
  shows "compact_ext (compact_header (exts ! 0)) tail = Some (exts ! 0)" and "length tail = unat (e_len (exts ! 0))"
proof -
  obtain vs lst flag tomb where r: "\<forall>v \<in> set vs. length v < 2 ^ 32" "encode_run (concat vs) (lens_of vs) = Some (tail, lst, flag)"
      "length tail < 2 ^ 32" and e: "exts ! 0 = run_ext INLINE 0 tail (length vs) lst flag tomb"
    using assms unfolding record_ok_def encoded_run_def by (simp only: if_True simp_thms) blast
  have "unat (e_len (exts ! 0)) = length tail" using r(3) by (simp add: e run_ext_def unat_of_nat)
  moreover have "unat (e_len (exts ! 0)) < COMPACT_RUN" using assms(2) by (auto simp: compacts_def split: list.splits)
  ultimately have "length tail < COMPACT_RUN" by simp
  note c = compact_ext_run [OF r(1,2) this e]
  show "compact_ext (compact_header (exts ! 0)) tail = Some (exts ! 0)" "length tail = unat (e_len (exts ! 0))" by (rule c)+
qed

lemma parse_tail_full:
  assumes n: "length exts < 2 ^ 15" and addr: "addr mod 4 = 0" and k: "length k = 2" and t: "inline_tail_len exts 0 = Some (length tail)"
    and fit: "length exts * EXT_BYTES + length tail \<le> USIZE_MAX"
  shows "parse_record_tail addr (k @ u16_le (word_of_nat (length exts))) (concat (map ext_bytes exts) @ tail @ post) =
    Some (Borrowed exts, tail, length exts * EXT_BYTES + length tail)"
proof -
  let ?n = "word_of_nat (length exts) :: u16"
  have u: "unat ?n = length exts" using n by (simp add: unat_of_nat)
  have c: "(?n AND COMPACT \<noteq> 0) = False" using count_not_compact [of ?n] n u by simp
  have h: "(word_of_nat (le_val (drop 2 (k @ u16_le ?n))) :: u16) = ?n" using k by simp
  have s1: "slice (concat (map ext_bytes exts) @ tail @ post) 0 (length exts * EXT_BYTES) = Some (concat (map ext_bytes exts))"
    by (simp add: slice_def length_exts_bytes)
  have r: "rd_exts (concat (map ext_bytes exts)) (length exts) 0 = Some exts" using rd_exts_at [of 0 "[]" exts "[]"] by simp
  have ca: "checked_add (length exts * EXT_BYTES) (length tail) = Some (length exts * EXT_BYTES + length tail)"
    using fit by (simp add: checked_add_def)
  have s2: "slice (concat (map ext_bytes exts) @ tail @ post) (length exts * EXT_BYTES) (length exts * EXT_BYTES + length tail) = Some tail"
    by (simp add: slice_def length_exts_bytes)
  show ?thesis
    unfolding parse_record_tail_def Let_def h c if_False u s1 bind.bind_lunit r t ca s2 using addr by simp
qed

lemma parse_tail_compact:
  assumes k: "length k = 2" and e: "compact_ext (compact_header e) tail = Some e" and l: "length tail = unat (e_len e)"
    and s: "unat (e_len e) < COMPACT_RUN"
  shows "parse_record_tail addr (k @ u16_le COMPACT) (compact_header e @ tail @ post) = Some (OneExt e, tail, 4 + length tail)"
proof -
  have h: "(word_of_nat (le_val (drop 2 (k @ u16_le COMPACT))) :: u16) = COMPACT" using k by simp
  have c: "(COMPACT AND COMPACT \<noteq> 0) = True" by (simp add: COMPACT_def)
  have s1: "slice (compact_header e @ tail @ post) 0 4 = Some (compact_header e)" by (simp add: slice_def)
  have "unat (ucast (e_len e) :: u16) = unat (e_len e)" using s by (simp add: unsigned_ucast_eq take_bit_eq_mod COMPACT_RUN_def)
  then have lv: "le_val (take 2 (compact_header e)) = length tail"
    using s l by (simp add: compact_header_def Let_def u16_le_def le_val_bytes COMPACT_RUN_def)
  have s2: "slice (compact_header e @ tail @ post) 4 (4 + length tail) = Some tail" by (simp add: slice_def)
  show ?thesis
    unfolding parse_record_tail_def Let_def h c if_True s1 bind.bind_lunit lv s2 e by simp
qed

lemma parse_record_bytes:
  assumes ok: "record_ok exts tail compact" and key: "length key \<le> U16_MAX" and n: "length exts < 2 ^ 15"
    and buf: "buf = pre @ record_bytes key exts tail compact @ post" and off: "off = length pre"
    and al: "(addr + off) mod 4 = 0" and len: "length buf \<le> USIZE_MAX"
  shows "parse_record addr buf off =
    Some (key, if compact \<and> compacts exts then OneExt (exts ! 0) else Borrowed exts, tail, length (record_bytes key exts tail compact))"
proof -
  let ?k = "u16_le (word_of_nat (length key))" and ?at = "align_up (4 + length key) REC_ALIGN"
  define n' where "n' = u16_le (if compact \<and> compacts exts then COMPACT else word_of_nat (length exts))"
  define m where "m = (if compact \<and> compacts exts then compact_header (exts ! 0) else concat (map ext_bytes exts))"
  define x where "x = (if compact \<and> compacts exts then OneExt (exts ! 0) else Borrowed exts)"
  have bytes: "record_bytes key exts tail compact = ?k @ n' @ key @ key_pad key @ m @ tail @ tail_pad tail"
    by (simp add: record_bytes_def n'_def m_def)
  have n2: "length n' = 2" by (simp add: n'_def)
  have b: "buf = pre @ ?k @ n' @ key @ key_pad key @ m @ tail @ tail_pad tail @ post" by (simp add: buf bytes)
  have ku: "unat (word_of_nat (length key) :: u16) = length key" using key by (simp add: unat_of_nat U16_MAX_def)
  have lenb: "length buf = off + ?at + length m + length tail + length (tail_pad tail) + length post"
    using length_key_pad [of key] n2 by (simp add: b off)
  have r1: "rd_u16 buf off = Some (word_of_nat (length key))" unfolding b by (rule rd_u16_at) (rule off)
  have "4 \<le> ?at" using align_up_ge [of "4 + length key"] by linarith
  then have c1: "checked_add off 4 = Some (off + 4)" using lenb len by (simp add: checked_add_def)
  have s1: "slice buf off (off + 4) = Some (?k @ n')" by (simp add: slice_def b off n2)
  have s2: "slice buf (off + 4) (off + 4 + length key) = Some key" by (simp add: slice_def b off n2)
  have c2: "checked_add off ?at = Some (off + ?at)" using lenb len by (simp add: checked_add_def)
  have "drop (off + ?at) buf = m @ tail @ tail_pad tail @ post"
    using length_key_pad [of key] by (simp add: b off n2 flip: length_key_pad)
  then have s3: "slice buf (off + ?at) (length buf) = Some (m @ tail @ (tail_pad tail @ post))" using lenb by (simp add: slice_def)
  have a4: "(addr + (off + ?at)) mod 4 = 0" using al align_up_mod [of "4 + length key"] by presburger
  have pt: "parse_record_tail (addr + (off + ?at)) (?k @ n') (m @ tail @ (tail_pad tail @ post)) = Some (x, tail, length m + length tail)"
  proof (cases "compact \<and> compacts exts")
    case True
    then have c: "compacts exts" by blast
    then have "unat (e_len (exts ! 0)) < COMPACT_RUN" by (auto simp: compacts_def split: list.splits)
    then show ?thesis using True parse_tail_compact [of ?k "exts ! 0" tail] record_ok_compact [OF ok True] by (simp add: n'_def m_def x_def)
  next
    case False
    have "length exts * EXT_BYTES + length tail \<le> USIZE_MAX" using lenb len False length_exts_bytes [of exts] by (auto simp: m_def)
    moreover have "inline_tail_len exts 0 = Some (length tail)" using record_ok_full [OF ok False] .
    moreover have e: "n' = u16_le (word_of_nat (length exts))" "m = concat (map ext_bytes exts)" "x = Borrowed exts"
      using False by (auto simp: n'_def m_def x_def)
    ultimately show ?thesis
      using parse_tail_full [OF n a4, of ?k tail "tail_pad tail @ post"] unfolding e by (simp add: length_exts_bytes)
  qed
  have "length m mod 4 = 0" by (auto simp: m_def length_exts_bytes EXT_BYTES_def)
  then have "(?at + length m) mod 4 = 0" using align_up_mod [of "4 + length key"] by presburger
  then have "align_up (off + ?at + (length m + length tail) - off) REC_ALIGN = ?at + length m + align_up (length tail) REC_ALIGN"
    using align_up_add [of "?at + length m" "length tail"] by (simp add: ac_simps)
  also have "\<dots> = length (record_bytes key exts tail compact)"
    using length_key_pad [of key] length_tail_pad [of tail] by (simp add: bytes n2)
  finally have total: "align_up (off + ?at + (length m + length tail) - off) REC_ALIGN = length (record_bytes key exts tail compact)" .
  show ?thesis
    unfolding parse_record_def r1 bind.bind_lunit c1 s1 ku s2 c2 s3 pt prod.case total x_def ..
qed

subsection \<open>Properties\<close>

lemma drop_record_tail: "drop (record_tail_at (length key) exts compact) (record_bytes key exts tail compact) = tail @ tail_pad tail"
proof -
  define h where "h = u16_le (word_of_nat (length key)) @ u16_le (if compact \<and> compacts exts then COMPACT else word_of_nat (length exts)) @
    key @ key_pad key @ (if compact \<and> compacts exts then compact_header (exts ! 0) else concat (map ext_bytes exts))"
  have r: "record_bytes key exts tail compact = h @ tail @ tail_pad tail" by (simp add: record_bytes_def h_def)
  have "length h = record_tail_at (length key) exts compact"
    using length_key_pad [of key] by (simp add: h_def record_tail_at_def Let_def length_exts_bytes)
  then show ?thesis by (simp add: r)
qed

lemma record_key_next_parse:
  assumes p: "parse_record addr buf off = Some (key, exts, tail, len)" and fit: "off + len \<le> length buf" "length buf \<le> USIZE_MAX"
  shows "record_key buf off = Some key" and "record_key_next addr buf off = Some (key, off + len)"
proof -
  obtain klen header e_at rest used where r: "rd_u16 buf off = Some klen" "slice buf off (off + 4) = Some header"
    "slice buf (off + 4) (off + 4 + unat klen) = Some key" "e_at = off + align_up (4 + unat klen) REC_ALIGN"
    "slice buf e_at (length buf) = Some rest" "parse_record_tail (addr + e_at) header rest = Some (exts, tail, used)"
    "len = align_up (e_at + used - off) REC_ALIGN"
    using p by (auto simp: parse_record_def bind_eq_Some_conv checked_add_def split: if_splits)
  have hd: "off + 4 \<le> length buf" "header = take 4 (drop off buf)" using r(2) by (auto simp: slice_eq_Some)
  define n where "n = (word_of_nat (le_val (drop 2 header)) :: u16)"
  have "drop 2 header = take 2 (drop (off + 2) buf)" using hd by (simp add: drop_take add.commute)
  then have rn: "rd_u16 buf (off + 2) = Some n" using hd by (simp add: rd_u16_def n_def)
  have nc: "\<not> (n AND COMPACT \<noteq> 0 \<and> n \<noteq> COMPACT)" using r(6) unfolding parse_record_tail_def n_def [symmetric] Let_def by (auto split: if_splits)
  show "record_key buf off = Some key" using r(1,3) rn nc by (simp add: record_key_def)
  have ca: "checked_add off len = Some (off + len)" using fit by (simp add: checked_add_def)
  show "record_key_next addr buf off = Some (key, off + len)"
  proof (cases "n = COMPACT")
    case False
    then show ?thesis using r(1) rn p ca fit(1) hd(1) by (simp add: record_key_next_def)
  next
    case True
    have "COMPACT AND COMPACT \<noteq> 0" by (simp add: COMPACT_def)
    then obtain h e where h: "slice rest 0 4 = Some h" "used = 4 + le_val (take 2 h)"
      using r(6) True unfolding parse_record_tail_def n_def [symmetric] Let_def by (auto simp: bind_eq_Some_conv)
    have rest: "e_at \<le> length buf" "rest = drop e_at buf" "e_at + 4 \<le> length buf" "h = take 4 rest"
      using r(5) h(1) by (auto simp: slice_eq_Some)
    then have th: "take 2 h = take 2 (drop e_at buf)" by simp
    have "le_val (take 2 h) < 256 ^ length (take 2 h)" by (rule le_val_less)
    also have "length (take 2 h) = 2" using rest by simp
    finally have u: "unat (word_of_nat (le_val (take 2 h)) :: u16) = le_val (take 2 h)" by (simp add: unat_of_nat)
    have rr: "rd_u16 buf (off + align_up (4 + unat klen) REC_ALIGN) = Some (word_of_nat (le_val (take 2 h)))"
      using rest th r(4) by (simp add: rd_u16_def)
    let ?A = "align_up (4 + unat klen) REC_ALIGN"
    have "(?A + 4) mod 4 = 0" using align_up_mod [of "4 + unat klen"] by presburger
    then have "len = record_len_compact (unat klen) (le_val (take 2 h))"
      using align_up_add [of "?A + 4" "le_val (take 2 h)"] r(4,7) h(2) by (simp add: record_len_compact_def ac_simps)
    then show ?thesis using r(1,3) rn True rr u ca fit(1) hd(1) by (simp add: record_key_next_def)
  qed
qed

text \<open>
  C14: A record is read back. Streamed behind any bytes and followed by any, with
  full extents or the compact header, a record parses to its key, its extents, its
  inline bytes and its own length, from any address that keeps it four-aligned; the
  key-only readers agree with the parser about its key and where the next begins.
\<close>

theorem record_roundtrip:
  assumes ok: "record_ok exts tail compact" and key: "length key \<le> U16_MAX" and n: "length exts < 2 ^ 15"
    and al: "(addr + length out) mod 4 = 0" and len: "length out + length (record_bytes key exts tail compact) + length post \<le> USIZE_MAX"
  shows "\<exists>buf l t x. stream_record_tail_at out key exts tail compact = Some (Some (buf, l, t)) \<and> length buf = length out + l \<and>
    parse_record addr (buf @ post) (length out) = Some (key, x, tail, l) \<and> exts_deref x = exts \<and>
    take (length tail) (drop (length out + t) buf) = tail \<and>
    record_key (buf @ post) (length out) = Some key \<and> record_key_next addr (buf @ post) (length out) = Some (key, length buf)"
proof -
  let ?r = "record_bytes key exts tail compact"
  let ?x = "if compact \<and> compacts exts then OneExt (exts ! 0) else Borrowed exts"
  obtain l where l: "record_len_for (length key) exts (length tail) compact = Some l"
    using key n by (auto simp: record_len_for_def COMPACT_def)
  note s = stream_record_eq [OF l]
  have lb: "length (out @ ?r @ post) \<le> USIZE_MAX" using len by simp
  have p: "parse_record addr (out @ ?r @ post) (length out) = Some (key, ?x, tail, length ?r)"
    by (rule parse_record_bytes [OF ok key n refl refl al lb])
  have k: "record_key (out @ ?r @ post) (length out) = Some key" "record_key_next addr (out @ ?r @ post) (length out) = Some (key, length out + length ?r)"
    using record_key_next_parse [OF p _ lb] by simp_all
  have "exts = [exts ! 0]" if "compacts exts" using that by (auto simp: compacts_def split: list.splits)
  then have x: "exts_deref ?x = exts" by auto
  have "drop (record_tail_at (length key) exts compact) ?r = tail @ tail_pad tail"
    by (rule drop_record_tail)
  then have t: "take (length tail) (drop (length out + record_tail_at (length key) exts compact) (out @ ?r)) = tail" by simp
  show ?thesis using s p k x t by auto
qed

text \<open>The tombstoned run of two values of one width, whose record takes the compact header.\<close>

definition two_run :: ext where "two_run = run_ext INLINE 0 [1, 2, 3, 4] (length [[1, 2], [3, 4 :: byte]]) 2 FIXED True"

lemma two_run_encoded: "encoded_run two_run [1, 2, 3, 4]"
  unfolding encoded_run_def two_run_def
  by (rule exI [of _ "[[1, 2], [3, 4]]"], rule exI [of _ 2], rule exI [of _ FIXED], rule exI [of _ True])
    (simp_all add: encode_run_def lens_of_def)

lemma two_run_compacts: "compacts [two_run]"
  by (simp add: compacts_def two_run_def run_ext_def is_inline_def COMPACT_RUN_def)

lemma two_run_ok: "record_ok [two_run] [1, 2, 3, 4] True"
  using two_run_encoded two_run_compacts by (simp add: record_ok_def)

theorem record_roundtrip_witness:
  "\<exists>buf l t x. stream_record_tail_at [0, 0, 0, 0] [7, 8, 9] [two_run] [1, 2, 3, 4] True = Some (Some (buf, l, t)) \<and>
    length buf = length [0, 0, 0, 0 :: byte] + l \<and>
    parse_record 8 (buf @ [1]) (length [0, 0, 0, 0 :: byte]) = Some ([7, 8, 9], x, [1, 2, 3, 4], l) \<and>
    exts_deref x = [two_run] \<and>
    take (length [1, 2, 3, 4 :: byte]) (drop (length [0, 0, 0, 0 :: byte] + t) buf) = [1, 2, 3, 4] \<and>
    record_key (buf @ [1]) (length [0, 0, 0, 0 :: byte]) = Some [7, 8, 9] \<and>
    record_key_next 8 (buf @ [1]) (length [0, 0, 0, 0 :: byte]) = Some ([7, 8, 9], length buf)"
  by (rule record_roundtrip [OF two_run_ok])
    (simp_all add: two_run_compacts U16_MAX_def USIZE_MAX_def length_record_bytes record_len_compact_def align_up_def REC_ALIGN_def)

text \<open>
  C35: The compact header loses nothing. For the values of any key, in whichever
  encoding they are stored, a short run's extent is rebuilt exactly from its four
  header bytes and the run: its length, its count, its flags and where its last
  value begins.
\<close>

theorem compact_ext_exact:
  assumes "\<forall>v \<in> set vs. length v < 2 ^ 32" and "encode_run (concat vs) (lens_of vs) = Some (run, lst, flag)" and "length run < COMPACT_RUN"
  shows "compacts [run_ext INLINE 0 run (length vs) lst flag tomb] \<and>
    compact_ext (compact_header (run_ext INLINE 0 run (length vs) lst flag tomb)) run = Some (run_ext INLINE 0 run (length vs) lst flag tomb)"
  using compact_ext_run [OF assms refl] by simp

theorem compact_ext_exact_witness:
  "compact_ext (compact_header (run_ext INLINE 0 [1, 2, 3, 4] 2 2 FIXED True)) [1, 2, 3, 4] = Some (run_ext INLINE 0 [1, 2, 3, 4] 2 2 FIXED True)"
proof -
  have "encode_run (concat [[1, 2], [3, 4]]) (lens_of [[1, 2], [3, 4]]) = Some ([1, 2, 3, 4], 2, FIXED)"
    by (simp add: encode_run_def lens_of_def)
  then have "compacts [run_ext INLINE 0 [1, 2, 3, 4] (length [[1, 2], [3, 4 :: byte]]) 2 FIXED True] \<and>
      compact_ext (compact_header (run_ext INLINE 0 [1, 2, 3, 4] (length [[1, 2], [3, 4 :: byte]]) 2 FIXED True)) [1, 2, 3, 4] =
        Some (run_ext INLINE 0 [1, 2, 3, 4] (length [[1, 2], [3, 4 :: byte]]) 2 FIXED True)"
    by (intro compact_ext_exact) (simp_all add: COMPACT_RUN_def)
  moreover have "length [[1, 2], [3, 4 :: byte]] = 2" by simp
  ultimately show ?thesis by metis
qed

end
