(* ===== verification/Hash_Table.thy ===== *)
theory Hash_Table
  imports Prelude
begin

text \<open>
  The open-addressed hash table of a key section (flatindex.rs): how many slots a
  key count takes, the fill by linear probing, plain and with lookahead, and the
  probe the readers share. A slot is eight little-endian bytes: a tag of the hash in
  the top eight bits, a record offset below, all zero when empty. The writer's
  probe has no bound of its own, so it is a partial function whose None is the
  endless walk of a full table (or an index out of the slice).
\<close>

subsection \<open>An array of words, abstractly\<close>

text \<open>
  What the probing proofs need of a table of words: a store changes one word and
  keeps the number of them.
\<close>

locale slot_array =
  fixes get :: "'t \<Rightarrow> nat \<Rightarrow> u64" and upd :: "'t \<Rightarrow> nat \<Rightarrow> u64 \<Rightarrow> 't" and slots :: "'t \<Rightarrow> nat"
  assumes get_upd: "i < slots t \<Longrightarrow> j < slots t \<Longrightarrow> get (upd t i v) j = (if j = i then v else get t j)"
    and slots_upd: "i < slots t \<Longrightarrow> slots (upd t i v) = slots t"
begin

text \<open>The walk from a home slot: the first empty slot of it, and a word it meets before any.\<close>

definition free_at :: "'t \<Rightarrow> nat \<Rightarrow> nat \<Rightarrow> bool" where
  "free_at t h j \<longleftrightarrow> get t ((h + j) mod slots t) = 0 \<and> (\<forall>i < j. get t ((h + i) mod slots t) \<noteq> 0)"

definition reach :: "'t \<Rightarrow> nat \<Rightarrow> u64 \<Rightarrow> bool" where
  "reach t h v \<longleftrightarrow> (\<exists>j < slots t. get t ((h + j) mod slots t) = v \<and> (\<forall>i < j. get t ((h + i) mod slots t) \<noteq> 0))"

definition used :: "'t \<Rightarrow> nat set" where
  "used t = {s. s < slots t \<and> get t s \<noteq> 0}"

text \<open>The table holds exactly these words, each on the walk from its home.\<close>

definition filled :: "'t \<Rightarrow> (nat \<times> u64) list \<Rightarrow> bool" where
  "filled t ps \<longleftrightarrow> card (used t) = length ps \<and> (\<forall>s \<in> used t. get t s \<in> snd ` set ps) \<and> (\<forall>p \<in> set ps. snd p \<noteq> 0 \<and> reach t (fst p) (snd p))"

lemma used_finite [simp]: "finite (used t)"
  by (simp add: used_def)

lemma free_exists:
  assumes "card (used t) < slots t"
  obtains j where "j < slots t" and "free_at t h j"
proof -
  have "\<not> (\<forall>s < slots t. get t s \<noteq> 0)"
  proof
    assume "\<forall>s < slots t. get t s \<noteq> 0"
    then have "used t = {..< slots t}" unfolding used_def by blast
    then show False using assms by simp
  qed
  then obtain z where z: "z < slots t" "get t z = 0" by blast
  let ?j = "(z + (slots t - h mod slots t)) mod slots t"
  have "(h + ?j) mod slots t = (h mod slots t + (z + (slots t - h mod slots t))) mod slots t"
    by (simp add: mod_add_left_eq mod_add_right_eq)
  also have "h mod slots t + (z + (slots t - h mod slots t)) = z + slots t"
    using z(1) mod_less_divisor [of "slots t" h] by linarith
  also have "(z + slots t) mod slots t = z" using z(1) by simp
  finally have e: "get t ((h + ?j) mod slots t) = 0" using z(2) by simp
  define j where "j = (LEAST j. get t ((h + j) mod slots t) = 0)"
  have "get t ((h + j) mod slots t) = 0" unfolding j_def using e by (rule LeastI [of "\<lambda>j. get t ((h + j) mod slots t) = 0"])
  moreover have "get t ((h + i) mod slots t) \<noteq> 0" if "i < j" for i using not_less_Least [OF that [unfolded j_def]] .
  moreover have "j \<le> ?j" unfolding j_def using e by (rule Least_le [of "\<lambda>j. get t ((h + j) mod slots t) = 0"])
  then have "j < slots t" using z(1) mod_less_divisor [of "slots t" "z + (slots t - h mod slots t)"] by linarith
  ultimately show ?thesis using that by (simp add: free_at_def)
qed

lemma filled_empty: "(\<And>s. s < slots t \<Longrightarrow> get t s = 0) \<Longrightarrow> filled t []"
  by (auto simp: filled_def used_def)

lemma filled_claim:
  assumes f: "filled t ps" and j: "j < slots t" "free_at t h j" and v: "v \<noteq> 0"
  shows "filled (upd t ((h + j) mod slots t) v) (ps @ [(h, v)])"
proof -
  define z where "z = (h + j) mod slots t"
  define t' where "t' = upd t z v"
  have z: "z < slots t" "get t z = 0" using j by (auto simp: z_def free_at_def intro!: mod_less_divisor)
  have sl: "slots t' = slots t" using z by (simp add: t'_def slots_upd)
  have g: "get t' s = (if s = z then v else get t s)" if "s < slots t" for s using get_upd [OF z(1) that] by (simp add: t'_def)
  have m: "a mod slots t < slots t" for a using j by (intro mod_less_divisor) simp
  have keep: "get t' (a mod slots t) \<noteq> 0" if "get t (a mod slots t) \<noteq> 0" for a using that v g [OF m] by simp
  have u: "used t' = insert z (used t)" using z v by (auto simp: used_def sl g split: if_splits)
  have zu: "z \<notin> used t" using z by (simp add: used_def)
  have "card (used t') = length (ps @ [(h, v)])" using f zu by (simp add: u filled_def)
  moreover have "get t' s \<in> snd ` set (ps @ [(h, v)])" if "s \<in> used t'" for s
  proof (cases "s = z")
    case True
    then show ?thesis using g [OF z(1)] by simp
  next
    case False
    then have "s \<in> used t" using that u by simp
    then show ?thesis using f False g [of s] by (simp add: filled_def used_def)
  qed
  moreover have "reach t' a w" if "(a, w) \<in> set ps" for a w
  proof -
    have "reach t a w" using f that by (force simp: filled_def)
    then obtain i where i: "i < slots t" "get t ((a + i) mod slots t) = w" "\<And>k. k < i \<Longrightarrow> get t ((a + k) mod slots t) \<noteq> 0"
      by (auto simp: reach_def)
    have pre: "get t' ((a + k) mod slots t) \<noteq> 0" if "k < i" for k using keep i(3) [OF that] .
    have "w \<noteq> 0" using f that by (force simp: filled_def)
    then have "(a + i) mod slots t \<noteq> z" using i(2) z(2) by auto
    then show ?thesis using i pre g [OF m] unfolding reach_def sl by (intro exI [of _ i]) simp
  qed
  moreover have "reach t' h v"
    unfolding reach_def sl using j g [OF m] keep by (intro exI [of _ j]) (auto simp: free_at_def z_def)
  ultimately show ?thesis using v f unfolding filled_def t'_def z_def by auto
qed

end

subsection \<open>The table\<close>

definition SLOT :: nat where "SLOT = 8"
definition HASH_LOAD_NUM :: nat where "HASH_LOAD_NUM = 3"
definition HASH_LOAD_DEN :: nat where "HASH_LOAD_DEN = 4"
definition FILL_AHEAD :: nat where "FILL_AHEAD = 16"

partial_function (option) double_to :: "nat \<Rightarrow> nat \<Rightarrow> nat option" where
  "double_to want cap = (if cap < want then do { cap \<leftarrow> checked_mul cap 2; double_to want cap } else Some cap)"

definition hash_cap_for :: "nat \<Rightarrow> nat option" where
  "hash_cap_for keys =
    do { m \<leftarrow> checked_mul keys HASH_LOAD_DEN;
         let want = div_ceil m HASH_LOAD_NUM;
         cap \<leftarrow> double_to want 1;
         Some (max cap 16) }"

text \<open>The tag is odd, so an occupied slot is never zero.\<close>

definition hash_tag :: "u64 \<Rightarrow> u64" where
  "hash_tag h = (drop_bit 56 h OR 1) AND 0xff"

definition slot_word :: "u64 \<Rightarrow> u32 \<Rightarrow> u64" where
  "slot_word h off = push_bit 56 (hash_tag h) OR ucast off"

definition home_slot :: "nat \<Rightarrow> u64 \<Rightarrow> nat" where
  "home_slot msk h = unat h AND msk"

partial_function (option) place_loop :: "bytes \<Rightarrow> nat \<Rightarrow> u64 \<Rightarrow> nat \<Rightarrow> bytes option" where
  "place_loop t msk packed s =
    do { w \<leftarrow> slice t (s * SLOT) (s * SLOT + 8);
         if w = replicate 8 0 then put t (s * SLOT) (u64_le packed)
         else place_loop t msk packed ((s + 1) AND msk) }"

definition place :: "bytes \<Rightarrow> nat \<Rightarrow> u64 \<Rightarrow> u32 \<Rightarrow> bytes option" where
  "place t msk h off = place_loop t msk (slot_word h off) (home_slot msk h)"

text \<open>
  The keys are asked for through a closure with a state of its own (the writer's
  writes each key's directory word as it answers).
\<close>

type_synonym 's asker = "nat \<Rightarrow> 's \<Rightarrow> ((u64 \<times> u32) \<times> 's) option"

fun fill_plain :: "bytes \<Rightarrow> nat \<Rightarrow> 's asker \<Rightarrow> 's \<Rightarrow> nat list \<Rightarrow> (bytes \<times> 's) option" where
  "fill_plain t msk at st [] = Some (t, st)"
| "fill_plain t msk at st (i # is) =
    do { ((h, off), st) \<leftarrow> at i st; t \<leftarrow> place t msk h off; fill_plain t msk at st is }"

fun ring_fill :: "(u64 \<times> u32) list \<Rightarrow> 's asker \<Rightarrow> 's \<Rightarrow> nat list \<Rightarrow> ((u64 \<times> u32) list \<times> 's) option" where
  "ring_fill ring at st [] = Some (ring, st)"
| "ring_fill ring at st (i # is) = do { (k, st) \<leftarrow> at i st; ring \<leftarrow> store ring i k; ring_fill ring at st is }"

fun fill_ahead :: "bytes \<Rightarrow> nat \<Rightarrow> nat \<Rightarrow> (u64 \<times> u32) list \<Rightarrow> 's asker \<Rightarrow> 's \<Rightarrow> nat list \<Rightarrow> (bytes \<times> 's) option" where
  "fill_ahead t msk n ring at st [] = Some (t, st)"
| "fill_ahead t msk n ring at st (i # is) =
    do { (h, off) \<leftarrow> index ring (i mod FILL_AHEAD);
         (ring, st) \<leftarrow> (if i + FILL_AHEAD < n
                       then do { (nxt, st) \<leftarrow> at (i + FILL_AHEAD) st; ring \<leftarrow> store ring (i mod FILL_AHEAD) nxt; Some (ring, st) }
                       else Some (ring, st));
         t \<leftarrow> place t msk h off;
         fill_ahead t msk n ring at st is }"

definition fill_hash :: "bytes \<Rightarrow> nat \<Rightarrow> nat \<Rightarrow> 's asker \<Rightarrow> 's \<Rightarrow> bool \<Rightarrow> (bytes \<times> 's) option" where
  "fill_hash t msk n at st lookahead =
    (if \<not> lookahead then fill_plain t msk at st [0..<n]
     else do { (ring, st) \<leftarrow> ring_fill (replicate FILL_AHEAD (0, 0)) at st [0..<min n FILL_AHEAD];
               fill_ahead t msk n ring at st [0..<n] })"

text \<open>FNV-1a.\<close>

definition key_hash :: "bytes \<Rightarrow> u64" where
  "key_hash key = fold (\<lambda>b h. (h XOR ucast b) * 0x1000000001b3) key 0xcbf29ce484222325"

text \<open>
  The readers' probe: from the home slot on, at most as many slots as the table has,
  to the first empty one or the first whose tag agrees and whose record the caller
  takes. A slot that cannot be read ends it as the bound does.
\<close>

datatype 'r probe_end = Empty_At nat | Hit_At nat 'r | No_End

fun probe :: "bytes \<Rightarrow> nat \<Rightarrow> u64 \<Rightarrow> (nat \<Rightarrow> 'r option) \<Rightarrow> nat \<Rightarrow> nat \<Rightarrow> 'r probe_end" where
  "probe hash msk tag hit 0 s = No_End"
| "probe hash msk tag hit (Suc n) s =
    (case rd_u64 hash (s * SLOT) of
       None \<Rightarrow> No_End
     | Some packed \<Rightarrow>
         if packed = 0 then Empty_At (s * SLOT)
         else case (if drop_bit 56 packed = tag then hit (unat (packed AND 0x00ffffffffffffff)) else None) of
                Some r \<Rightarrow> Hit_At (s * SLOT) r
              | None \<Rightarrow> probe hash msk tag hit n ((s + 1) AND msk))"

subsection \<open>The slice as an array of words\<close>

definition word_at :: "bytes \<Rightarrow> nat \<Rightarrow> u64" where
  "word_at t s = word_of_nat (le_val (take 8 (drop (s * 8) t)))"

definition word_put :: "bytes \<Rightarrow> nat \<Rightarrow> u64 \<Rightarrow> bytes" where
  "word_put t s v = blit t (s * 8) (u64_le v)"

definition word_count :: "bytes \<Rightarrow> nat" where
  "word_count t = length t div 8"

lemma word_count_fits: "s < word_count t \<Longrightarrow> s * 8 + 8 \<le> length t"
  by (simp add: word_count_def)

lemma word_chunk_blit:
  assumes "i * 8 + 8 \<le> length t" and "j * 8 + 8 \<le> length t" and "length w = 8"
  shows "take 8 (drop (j * 8) (blit t (i * 8) w)) = (if j = i then w else take 8 (drop (j * 8) t))"
proof (rule nth_equalityI)
  show "length (take 8 (drop (j * 8) (blit t (i * 8) w))) = length (if j = i then w else take 8 (drop (j * 8) t))"
    using assms by auto
next
  fix k
  assume "k < length (take 8 (drop (j * 8) (blit t (i * 8) w)))"
  then have k: "k < 8" by simp
  have c: "i * 8 \<le> j * 8 + k \<and> j * 8 + k < i * 8 + 8 \<longleftrightarrow> j = i" using k by (cases "j < i"; cases "i < j") auto
  have "take 8 (drop (j * 8) (blit t (i * 8) w)) ! k = blit t (i * 8) w ! (j * 8 + k)" using k assms by simp
  also have "\<dots> = (if j = i then w ! k else t ! (j * 8 + k))"
    using nth_blit [of "i * 8" w t "j * 8 + k"] assms k c by auto
  finally show "take 8 (drop (j * 8) (blit t (i * 8) w)) ! k = (if j = i then w else take 8 (drop (j * 8) t)) ! k"
    using k assms by simp
qed

interpretation tab: slot_array word_at word_put word_count
proof
  fix i j t v
  assume i: "i < word_count t"
  show "word_count (word_put t i v) = word_count t" using word_count_fits [OF i] by (simp add: word_count_def word_put_def)
  assume "j < word_count t"
  then show "word_at (word_put t i v) j = (if j = i then v else word_at t j)"
    using i by (simp add: word_at_def word_put_def word_chunk_blit word_count_fits)
qed

lemma length_word_put [simp]: "s < word_count t \<Longrightarrow> length (word_put t s v) = length t"
  using word_count_fits by (simp add: word_put_def)

lemma rd_word_at: "s < word_count t \<Longrightarrow> rd_u64 t (s * SLOT) = Some (word_at t s)"
  using word_count_fits [of s t] by (simp add: rd_u64_def word_at_def SLOT_def)

lemma le_val_replicate_0 [simp]: "le_val (replicate n 0) = 0"
  by (induction n) simp_all

lemma slice_word:
  assumes "s < word_count t"
  obtains w where "slice t (s * SLOT) (s * SLOT + 8) = Some w" and "w = replicate 8 0 \<longleftrightarrow> word_at t s = 0"
proof
  let ?w = "take 8 (drop (s * 8) t)"
  have l: "length ?w = 8" using word_count_fits [OF assms] by simp
  show "slice t (s * SLOT) (s * SLOT + 8) = Some ?w" using word_count_fits [OF assms] by (simp add: SLOT_def)
  have "le_val ?w < 256 ^ length ?w" by (rule le_val_less)
  then have "unat (word_at t s) = le_val ?w" using l by (simp add: word_at_def unat_of_nat)
  moreover have "?w = le_bytes 8 (le_val ?w)" using le_bytes_val [of ?w] l by simp
  moreover have "le_bytes n 0 = replicate n (0 :: byte)" for n by (induction n) simp_all
  ultimately have e: "unat (word_at t s) = le_val ?w" "?w = le_bytes 8 (le_val ?w)" "\<And>n. le_bytes n 0 = replicate n (0 :: byte)" by blast+
  show "?w = replicate 8 0 \<longleftrightarrow> word_at t s = 0"
  proof
    assume "?w = replicate 8 0"
    then have "le_val ?w = 0" using le_val_replicate_0 by metis
    then show "word_at t s = 0" by (simp add: word_at_def)
  next
    assume "word_at t s = 0"
    then have "le_val ?w = 0" using e(1) by simp
    then show "?w = replicate 8 0" using e(2) e(3) [of 8] by argo
  qed
qed

subsection \<open>Slots\<close>

lemma and_msk: "(a :: nat) AND (2 ^ k - 1) = a mod 2 ^ k"
  by (simp only: flip: mask_eq_exp_minus_1 take_bit_eq_mask take_bit_eq_mod)

lemma home_slot_less: "home_slot (2 ^ k - 1) h < 2 ^ k"
  unfolding home_slot_def and_msk by simp

lemma bit_hash_tag: "bit (hash_tag h) i \<longleftrightarrow> i < 8 \<and> (i = 0 \<or> bit h (56 + i))"
proof -
  have m: "(0xff :: u64) = mask 8" by (simp add: mask_eq_exp_minus_1)
  show ?thesis unfolding hash_tag_def m by (auto simp: bit_simps bit_1_iff)
qed

lemma drop_slot_word: "drop_bit 56 (slot_word h off) = hash_tag h"
  by (rule bit_word_eqI) (auto simp: slot_word_def bit_simps bit_hash_tag dest: bit_imp_le_length)

lemma and_slot_word: "unat (slot_word h off AND 0x00ffffffffffffff) = unat off"
proof -
  have m: "(0x00ffffffffffffff :: u64) = mask 56" by (simp add: mask_eq_exp_minus_1)
  have "slot_word h off AND 0x00ffffffffffffff = ucast off"
    unfolding m by (rule bit_word_eqI) (auto simp: slot_word_def bit_simps dest: bit_imp_le_length)
  moreover have "unat off < 2 ^ 32" using unsigned_less [of off, where 'a = nat] by simp
  ultimately show ?thesis by (simp add: unsigned_ucast_eq take_bit_eq_mod)
qed

lemma slot_word_nonzero [simp]: "slot_word h off \<noteq> 0"
proof
  assume "slot_word h off = 0"
  then have "hash_tag h = 0" using drop_slot_word [of h off] by simp
  then show False using bit_hash_tag [of h 0] by simp
qed
subsection \<open>Placing\<close>

lemma place_loop_free:
  assumes "word_count t = 2 ^ k" and "tab.free_at t s j" and "s < 2 ^ k"
  shows "place_loop t (2 ^ k - 1) p s = Some (word_put t ((s + j) mod 2 ^ k) p)"
  using assms(2,3)
proof (induction j arbitrary: s)
  case 0
  then have "s < word_count t" "word_at t s = 0" using assms(1) by (simp_all add: tab.free_at_def)
  moreover obtain w where "slice t (s * SLOT) (s * SLOT + 8) = Some w" "w = replicate 8 0 \<longleftrightarrow> word_at t s = 0"
    using slice_word [OF calculation(1)] .
  ultimately show ?case
    using 0(2) word_count_fits [of s t] by (subst place_loop.simps) (simp add: SLOT_def word_put_def)
next
  case (Suc j)
  let ?s = "(s + 1) mod 2 ^ k"
  have s: "s < word_count t" "word_at t s \<noteq> 0" using Suc.prems assms(1) by (force simp: tab.free_at_def)+
  obtain w where w: "slice t (s * SLOT) (s * SLOT + 8) = Some w" "w = replicate 8 0 \<longleftrightarrow> word_at t s = 0"
    using slice_word [OF s(1)] .
  have "tab.free_at t ?s j"
    unfolding tab.free_at_def assms(1) mod_add_left_eq
  proof (intro conjI allI impI)
    show "word_at t ((s + 1 + j) mod 2 ^ k) = 0" using Suc.prems(1) by (simp add: tab.free_at_def assms(1))
    show "word_at t ((s + 1 + i) mod 2 ^ k) \<noteq> 0" if "i < j" for i
      using Suc.prems(1) that unfolding tab.free_at_def assms(1) by (metis Suc_less_eq add.assoc plus_1_eq_Suc)
  qed
  then have "place_loop t (2 ^ k - 1) p ?s = Some (word_put t ((?s + j) mod 2 ^ k) p)" by (intro Suc.IH) simp_all
  moreover have "(?s + j) mod 2 ^ k = (s + Suc j) mod 2 ^ k" by (simp add: mod_add_left_eq)
  ultimately show ?case
    using w s(2) by (subst place_loop.simps) (simp only: and_msk bind.bind_lunit if_False)
qed

text \<open>What a fill of keys, as (hash, offset), leaves: each key's word, reached from its home.\<close>

definition home_words :: "nat \<Rightarrow> (u64 \<times> u32) list \<Rightarrow> (nat \<times> u64) list" where
  "home_words k = map (\<lambda>(h, off). (home_slot (2 ^ k - 1) h, slot_word h off))"

definition hash_table :: "nat \<Rightarrow> bytes \<Rightarrow> (u64 \<times> u32) list \<Rightarrow> bool" where
  "hash_table k t ks \<longleftrightarrow> length t = 2 ^ k * 8 \<and> tab.filled t (home_words k ks)"

lemma hash_table_count: "hash_table k t ks \<Longrightarrow> word_count t = 2 ^ k"
  by (simp add: hash_table_def word_count_def)

lemma hash_table_zero: "hash_table k (replicate (2 ^ k * 8) 0) []"
proof -
  have "take 8 (drop (s * 8) (replicate (2 ^ k * 8) (0 :: byte))) = replicate (min 8 (2 ^ k * 8 - s * 8)) 0" for s
    by (simp add: min.commute)
  then show ?thesis by (auto simp: hash_table_def home_words_def word_at_def intro!: tab.filled_empty)
qed

lemma place_ok:
  assumes t: "hash_table k t ks" and room: "length ks < 2 ^ k"
  obtains t' where "place t (2 ^ k - 1) h off = Some t'" and "hash_table k t' (ks @ [(h, off)])"
proof -
  let ?h = "home_slot (2 ^ k - 1) h"
  have n: "word_count t = 2 ^ k" by (rule hash_table_count [OF t])
  have f: "tab.filled t (home_words k ks)" using t by (simp add: hash_table_def)
  have "card (tab.used t) < word_count t" using f room n by (simp add: tab.filled_def home_words_def)
  then obtain j where j: "j < word_count t" "tab.free_at t ?h j" by (rule tab.free_exists)
  show ?thesis
  proof
    show "place t (2 ^ k - 1) h off = Some (word_put t ((?h + j) mod 2 ^ k) (slot_word h off))"
      unfolding place_def by (rule place_loop_free [OF n j(2) home_slot_less])
    have "tab.filled (word_put t ((?h + j) mod 2 ^ k) (slot_word h off)) (home_words k ks @ [(?h, slot_word h off)])"
      using tab.filled_claim [OF f j slot_word_nonzero] n by simp
    then show "hash_table k (word_put t ((?h + j) mod 2 ^ k) (slot_word h off)) (ks @ [(h, off)])"
      using t n by (simp add: hash_table_def home_words_def)
  qed
qed

fun place_all :: "bytes \<Rightarrow> nat \<Rightarrow> (u64 \<times> u32) list \<Rightarrow> bytes option" where
  "place_all t msk [] = Some t"
| "place_all t msk ((h, off) # ks) = do { t \<leftarrow> place t msk h off; place_all t msk ks }"

lemma place_all_ok:
  assumes "hash_table k t ks" and "length ks + length ms < 2 ^ k"
  obtains t' where "place_all t (2 ^ k - 1) ms = Some t'" and "hash_table k t' (ks @ ms)"
  using assms
proof (induction ms arbitrary: t ks thesis)
  case Nil
  then show ?case by simp
next
  case (Cons m ms)
  obtain h off where m: "m = (h, off)" by force
  have room: "length ks < 2 ^ k" using Cons.prems(3) by simp
  obtain t1 where t1: "place t (2 ^ k - 1) h off = Some t1" "hash_table k t1 (ks @ [(h, off)])"
    using place_ok [OF Cons.prems(2) room, of h off] .
  obtain t2 where "place_all t1 (2 ^ k - 1) ms = Some t2" "hash_table k t2 ((ks @ [(h, off)]) @ ms)"
    by (rule Cons.IH [OF _ t1(2)]) (use Cons.prems(3) in auto)
  then show ?case using t1(1) m by (intro Cons.prems(1) [of t2]) simp_all
qed

subsection \<open>The fill with lookahead is the plain fill\<close>

fun ask_all :: "'s asker \<Rightarrow> 's \<Rightarrow> nat list \<Rightarrow> ((u64 \<times> u32) list \<times> 's) option" where
  "ask_all at st [] = Some ([], st)"
| "ask_all at st (i # is) = do { (k, st) \<leftarrow> at i st; (ks, st) \<leftarrow> ask_all at st is; Some (k # ks, st) }"

lemma ask_all_append:
  "ask_all at st (is @ js) = do { (a, st) \<leftarrow> ask_all at st is; (b, st) \<leftarrow> ask_all at st js; Some (a @ b, st) }"
  by (induction "is" arbitrary: st) (auto simp: bind_assoc split: Option.bind_split)

lemma fill_plain_eq:
  "fill_plain t msk at st is = do { (ks, st) \<leftarrow> ask_all at st is; t \<leftarrow> place_all t msk ks; Some (t, st) }"
proof (induction "is" arbitrary: t st)
  case Nil
  then show ?case by simp
next
  case (Cons i "is")
  show ?case
  proof (cases "at i st")
    case (Some a)
    obtain h off st' where a: "a = ((h, off), st')" by (metis prod.exhaust)
    show ?thesis using Some a Cons by (cases "place t msk h off"; cases "ask_all at st' is") auto
  qed simp
qed

lemma ring_fill_eq:
  "a \<le> m \<Longrightarrow> m \<le> length ring \<Longrightarrow>
    ring_fill ring at st [a..<m] = do { (ks, st) \<leftarrow> ask_all at st [a..<m]; Some (take a ring @ ks @ drop m ring, st) }"
proof (induction "m - a" arbitrary: a ring st)
  case 0
  then have "a = m" by simp
  then show ?case by simp
next
  case (Suc d)
  then have u: "[a..<m] = a # [Suc a..<m]" by (simp add: upt_conv_Cons)
  show ?case
  proof (cases "at a st")
    case (Some x)
    obtain k st' where x: "x = (k, st')" by (cases x)
    have t: "take (Suc a) (ring[a := k]) = take a ring @ [k]" "drop m (ring[a := k]) = drop m ring"
      using Suc by (simp_all add: take_Suc_conv_app_nth)
    have "ring_fill (ring[a := k]) at st' [Suc a..<m] =
        do { (ks, st) \<leftarrow> ask_all at st' [Suc a..<m]; Some (take (Suc a) (ring[a := k]) @ ks @ drop m (ring[a := k]), st) }"
      by (rule Suc.hyps(1)) (use Suc in simp_all)
    then show ?thesis using Some x Suc t by (cases "ask_all at st' [Suc a..<m]") (auto simp: u)
  qed (simp add: u)
qed

lemma ask_all_length: "ask_all at st is = Some (ks, st') \<Longrightarrow> length ks = length is"
  by (induction "is" arbitrary: st ks) (auto simp: bind_eq_Some_conv)

lemma ring_take:
  assumes "i < n" and "length ring = 16"
  shows "map (\<lambda>j. ring ! (j mod 16)) [i..<min n (i + 16)] = ring ! (i mod 16) # map (\<lambda>j. ring ! (j mod 16)) [Suc i..<min n (i + 16)]"
  using assms by (simp add: upt_conv_Cons)

lemma ring_push:
  assumes "i + 16 < n" and "length ring = 16"
  shows "map (\<lambda>j. ring[i mod 16 := k] ! (j mod 16)) [Suc i..<min n (Suc i + 16)] =
    map (\<lambda>j. ring ! (j mod 16)) [Suc i..<min n (i + 16)] @ [k]"
proof -
  have m: "min n (Suc i + 16) = Suc (i + 16)" "min n (i + 16) = i + 16" using assms by simp_all
  have "ring[i mod 16 := k] ! (j mod 16) = ring ! (j mod 16)" if "j \<in> set [Suc i..<i + 16]" for j
  proof -
    have "j mod 16 \<noteq> i mod 16"
    proof
      assume "j mod 16 = i mod 16"
      then have "16 dvd j - i" using that by (subst (asm) mod_eq_dvd_iff_nat) auto
      then show False using that dvd_imp_le [of 16 "j - i"] by auto
    qed
    then show ?thesis by simp
  qed
  then have e: "map (\<lambda>j. ring[i mod 16 := k] ! (j mod 16)) [Suc i..<i + 16] = map (\<lambda>j. ring ! (j mod 16)) [Suc i..<i + 16]"
    by (intro map_cong) simp_all
  have l: "ring[i mod 16 := k] ! ((i + 16) mod 16) = k" using assms by simp
  have u: "[Suc i..<Suc (i + 16)] = [Suc i..<i + 16] @ [i + 16]" by (rule upt_Suc_append) simp
  show ?thesis unfolding m u map_append e by (simp only: list.map l)
qed

lemma fill_ahead_eq:
  assumes "length ring = 16"
  shows "fill_ahead t msk n ring at st [i..<n] =
    do { (ks, st) \<leftarrow> ask_all at st [i + 16..<n];
         t \<leftarrow> place_all t msk (map (\<lambda>j. ring ! (j mod 16)) [i..<min n (i + 16)] @ ks); Some (t, st) }"
  using assms
proof (induction "n - i" arbitrary: i ring t st)
  case 0
  then show ?case by simp
next
  case (Suc d)
  then have i: "i < n" "d = n - Suc i" by simp_all
  then have u: "[i..<n] = i # [Suc i..<n]" by (simp add: upt_conv_Cons)
  obtain h off where r: "ring ! (i mod 16) = (h, off)" by force
  have x: "index ring (i mod 16) = Some (h, off)" using Suc.prems r by simp
  note IH = Suc.hyps(1) [OF i(2)]
  show ?case
  proof (cases "i + 16 < n")
    case True
    then have v: "[i + 16..<n] = (i + 16) # [Suc i + 16..<n]" by (simp add: upt_conv_Cons)
    show ?thesis
    proof (cases "at (i + 16) st")
      case None
      then show ?thesis using True by (simp add: u v x FILL_AHEAD_def)
    next
      case (Some a)
      obtain k st' where a: "a = (k, st')" by (cases a)
      define pend where "pend = map (\<lambda>j. ring ! (j mod 16)) [Suc i..<min n (i + 16)]"
      have p: "map (\<lambda>j. ring ! (j mod 16)) [i..<min n (i + 16)] = (h, off) # pend"
        using ring_take [OF i(1) Suc.prems] r by (simp add: pend_def)
      have q: "map (\<lambda>j. ring[i mod 16 := k] ! (j mod 16)) [Suc i..<min n (Suc i + 16)] = pend @ [k]"
        using ring_push [OF True Suc.prems] by (simp add: pend_def)
      have s: "store ring (i mod FILL_AHEAD) k = Some (ring[i mod 16 := k])" using Suc.prems by (simp add: FILL_AHEAD_def)
      have l: "fill_ahead t msk n ring at st [i..<n] = do { t \<leftarrow> place t msk h off; fill_ahead t msk n (ring[i mod 16 := k]) at st' [Suc i..<n] }"
        using True Some a s by (simp add: u x FILL_AHEAD_def)
      have "fill_ahead t' msk n (ring[i mod 16 := k]) at st' [Suc i..<n] =
          do { (ks, st) \<leftarrow> ask_all at st' [Suc i + 16..<n]; t \<leftarrow> place_all t' msk ((pend @ [k]) @ ks); Some (t, st) }" for t'
        using IH [of "ring[i mod 16 := k]" t' st'] Suc.prems unfolding q by simp
      then show ?thesis
        unfolding l p v using Some a by (cases "place t msk h off"; cases "ask_all at st' [Suc i + 16..<n]") auto
    qed
  next
    case False
    have e: "[i + 16..<n] = []" "[Suc i + 16..<n] = []" "min n (i + 16) = n" "min n (Suc i + 16) = n" using False by simp_all
    have p: "map (\<lambda>j. ring ! (j mod 16)) [i..<n] = (h, off) # map (\<lambda>j. ring ! (j mod 16)) [Suc i..<n]"
      using ring_take [OF i(1) Suc.prems] r e by simp
    have l: "fill_ahead t msk n ring at st [i..<n] = do { t \<leftarrow> place t msk h off; fill_ahead t msk n ring at st [Suc i..<n] }"
      using False by (simp add: u x FILL_AHEAD_def)
    show ?thesis unfolding l e p IH [OF Suc.prems] by simp
  qed
qed

lemma fill_hash_eq:
  "fill_hash t msk n at st lookahead = do { (ks, st) \<leftarrow> ask_all at st [0..<n]; t \<leftarrow> place_all t msk ks; Some (t, st) }"
proof (cases lookahead)
  case False
  then show ?thesis by (simp add: fill_hash_def fill_plain_eq)
next
  case True
  let ?m = "min n 16"
  have a: "ask_all at st [0..<n] = do { (a, st) \<leftarrow> ask_all at st [0..<?m]; (b, st) \<leftarrow> ask_all at st [16..<n]; Some (a @ b, st) }"
  proof -
    have "[0..<n] = [0..<?m] @ [16..<n]" using upt_add_eq_append [of 0 16 "n - 16"] by (cases "n \<le> 16") simp_all
    then show ?thesis by (simp only: ask_all_append)
  qed
  have rf: "ring_fill (replicate FILL_AHEAD (0, 0)) at st [0..<min n FILL_AHEAD] =
      do { (ks, st) \<leftarrow> ask_all at st [0..<?m]; Some (ks @ replicate (16 - ?m) (0, 0), st) }"
    using ring_fill_eq [of 0 ?m "replicate 16 (0, 0)" at st] by (simp add: FILL_AHEAD_def)
  show ?thesis
  proof (cases "ask_all at st [0..<?m]")
    case None
    then show ?thesis using True by (simp add: fill_hash_def rf a)
  next
    case (Some x)
    obtain ks st' where x: "x = (ks, st')" by (cases x)
    have lk: "length ks = ?m" using ask_all_length [OF Some [unfolded x]] by simp
    define ring where "ring = ks @ replicate (16 - ?m) (0 :: u64, 0 :: u32)"
    have lr: "length ring = 16" using lk by (simp add: ring_def)
    have "map (\<lambda>j. ring ! (j mod 16)) [0..<min n (0 + 16)] = ks"
      by (rule nth_equalityI) (use lk in \<open>auto simp: ring_def nth_append\<close>)
    then have "fill_ahead t msk n ring at st' [0..<n] =
        do { (bs, st) \<leftarrow> ask_all at st' [16..<n]; t \<leftarrow> place_all t msk (ks @ bs); Some (t, st) }"
      using fill_ahead_eq [OF lr, of t msk n at st' 0] by simp
    then show ?thesis
      using True Some x unfolding fill_hash_def rf a ring_def by (cases "ask_all at st' [16..<n]") auto
  qed
qed

subsection \<open>Probing a filled table\<close>

definition hit_at :: "bytes \<Rightarrow> u64 \<Rightarrow> (nat \<Rightarrow> 'r option) \<Rightarrow> nat \<Rightarrow> 'r option" where
  "hit_at t tag hit s =
    (if drop_bit 56 (word_at t s) = tag then hit (unat (word_at t s AND 0x00ffffffffffffff)) else None)"

lemma probe_step:
  assumes "word_count t = 2 ^ k" and "s < 2 ^ k"
  shows "probe t (2 ^ k - 1) tag hit (Suc n) s =
    (if word_at t s = 0 then Empty_At (s * SLOT)
     else case hit_at t tag hit s of Some r \<Rightarrow> Hit_At (s * SLOT) r
            | None \<Rightarrow> probe t (2 ^ k - 1) tag hit n ((s + 1) mod 2 ^ k))"
  using rd_word_at [of s t] assms unfolding probe.simps hit_at_def and_msk by simp

lemma probe_walk:
  assumes n: "word_count t = 2 ^ k" and s: "s < 2 ^ k"
    and w: "\<And>i. i < j \<Longrightarrow> word_at t ((s + i) mod 2 ^ k) \<noteq> 0 \<and> hit_at t tag hit ((s + i) mod 2 ^ k) = None"
  shows "probe t (2 ^ k - 1) tag hit (j + m) s = probe t (2 ^ k - 1) tag hit m ((s + j) mod 2 ^ k)"
  using s w
proof (induction j arbitrary: s)
  case 0
  then show ?case by simp
next
  case (Suc j)
  have "probe t (2 ^ k - 1) tag hit (Suc j + m) s = probe t (2 ^ k - 1) tag hit (j + m) ((s + 1) mod 2 ^ k)"
    using Suc.prems(2) [of 0] Suc.prems(1) unfolding add_Suc probe_step [OF n Suc.prems(1)] by simp
  also have "\<dots> = probe t (2 ^ k - 1) tag hit m (((s + 1) mod 2 ^ k + j) mod 2 ^ k)"
  proof (rule Suc.IH)
    fix i
    assume "i < j"
    then show "word_at t (((s + 1) mod 2 ^ k + i) mod 2 ^ k) \<noteq> 0 \<and> hit_at t tag hit (((s + 1) mod 2 ^ k + i) mod 2 ^ k) = None"
      using Suc.prems(2) [of "Suc i"] unfolding mod_add_left_eq by simp
  qed simp
  also have "((s + 1) mod 2 ^ k + j) mod 2 ^ k = (s + Suc j) mod 2 ^ k" unfolding mod_add_left_eq by simp
  finally show ?case .
qed

lemma hash_table_word:
  assumes "hash_table k t ks" and "s < 2 ^ k" and "word_at t s \<noteq> 0"
  obtains h off where "(h, off) \<in> set ks" and "word_at t s = slot_word h off"
proof -
  have "s \<in> tab.used t" using assms hash_table_count [OF assms(1)] by (simp add: tab.used_def)
  then have "word_at t s \<in> snd ` set (home_words k ks)" using assms(1) by (simp add: hash_table_def tab.filled_def)
  then show ?thesis using that by (auto simp: home_words_def)
qed

lemma hit_at_slot_word: "word_at t s = slot_word h off \<Longrightarrow> hit_at t (hash_tag g) hit s = (if hash_tag h = hash_tag g then hit (unat off) else None)"
  by (simp only: hit_at_def drop_slot_word and_slot_word)

text \<open>
  A key of the table is met, by its own record or by another the caller takes: it
  is enough that the caller's answers agree.
\<close>

lemma probe_found:
  assumes t: "hash_table k t ks" and m: "(h, off) \<in> set ks" and hit: "hit (unat off) = Some r"
    and uniq: "\<And>h' off' r'. (h', off') \<in> set ks \<Longrightarrow> hit (unat off') = Some r' \<Longrightarrow> r' = r"
  obtains s where "s < 2 ^ k" and "hit_at t (hash_tag h) hit s = Some r"
    and "probe t (2 ^ k - 1) (hash_tag h) hit (2 ^ k) (home_slot (2 ^ k - 1) h) = Hit_At (s * SLOT) r"
proof -
  let ?h = "home_slot (2 ^ k - 1) h" and ?N = "(2 :: nat) ^ k"
  let ?hit = "hit_at t (hash_tag h) hit"
  have n: "word_count t = ?N" by (rule hash_table_count [OF t])
  have "(?h, slot_word h off) \<in> set (home_words k ks)" using m by (force simp: home_words_def)
  then have "tab.reach t ?h (slot_word h off)" using t by (force simp: hash_table_def tab.filled_def)
  then obtain j where j: "j < ?N" "word_at t ((?h + j) mod ?N) = slot_word h off" "\<And>i. i < j \<Longrightarrow> word_at t ((?h + i) mod ?N) \<noteq> 0"
    by (auto simp: tab.reach_def n)
  have jh: "?hit ((?h + j) mod ?N) = Some r" by (simp only: hit_at_slot_word [OF j(2)] refl if_True hit)
  have jn: "?hit ((?h + j) mod ?N) \<noteq> None" unfolding jh by simp
  define i where "i = (LEAST i. ?hit ((?h + i) mod ?N) \<noteq> None)"
  have ih: "?hit ((?h + i) mod ?N) \<noteq> None" unfolding i_def using jn by (rule LeastI [of "\<lambda>i. ?hit ((?h + i) mod ?N) \<noteq> None"])
  have ij: "i \<le> j" unfolding i_def using jn by (rule Least_le [of "\<lambda>i. ?hit ((?h + i) mod ?N) \<noteq> None"])
  have before: "?hit ((?h + l) mod ?N) = None" if "l < i" for l
    using not_less_Least [OF that [unfolded i_def]] by simp
  let ?s = "(?h + i) mod ?N"
  have nz: "word_at t ?s \<noteq> 0" using ij j by (cases "i = j") auto
  have sl: "?s < ?N" by simp
  obtain g o' where g: "(g, o') \<in> set ks" "word_at t ?s = slot_word g o'" using hash_table_word [OF t sl nz] .
  have hs: "?hit ?s = Some r" using ih hit_at_slot_word [OF g(2), of h hit] uniq [OF g(1)] by (auto split: if_splits)
  have "probe t (?N - 1) (hash_tag h) hit (i + (?N - i)) ?h = probe t (?N - 1) (hash_tag h) hit (?N - i) ?s"
    by (rule probe_walk [OF n home_slot_less]) (use before j(3) ij in auto)
  moreover have "?N - i = Suc (?N - Suc i)" "i + (?N - i) = ?N" using ij j(1) by simp_all
  ultimately have "probe t (?N - 1) (hash_tag h) hit ?N ?h = probe t (?N - 1) (hash_tag h) hit (Suc (?N - Suc i)) ?s" by argo
  also have "\<dots> = Hit_At (?s * SLOT) r" by (simp only: probe_step [OF n sl] nz if_False hs option.case)
  finally show ?thesis by (rule that [OF sl hs])
qed

lemma probe_absent:
  assumes t: "hash_table k t ks" and room: "length ks < 2 ^ k"
    and miss: "\<And>h' off'. (h', off') \<in> set ks \<Longrightarrow> hit (unat off') = None"
  obtains s where "s < 2 ^ k" and "word_at t s = 0"
    and "probe t (2 ^ k - 1) (hash_tag h) hit (2 ^ k) (home_slot (2 ^ k - 1) h) = Empty_At (s * SLOT)"
proof -
  let ?h = "home_slot (2 ^ k - 1) h" and ?N = "(2 :: nat) ^ k"
  have n: "word_count t = ?N" by (rule hash_table_count [OF t])
  have "card (tab.used t) < word_count t" using t room n by (simp add: hash_table_def tab.filled_def home_words_def)
  then obtain j where j: "j < word_count t" "tab.free_at t ?h j" by (rule tab.free_exists)
  let ?s = "(?h + j) mod ?N"
  have sl: "?s < ?N" by simp
  have z: "word_at t ?s = 0" "\<And>i. i < j \<Longrightarrow> word_at t ((?h + i) mod ?N) \<noteq> 0" using j(2) by (auto simp: tab.free_at_def n)
  have none: "hit_at t (hash_tag h) hit ((?h + i) mod ?N) = None" if i: "i < j" for i
  proof -
    obtain g o' where g: "(g, o') \<in> set ks" "word_at t ((?h + i) mod ?N) = slot_word g o'"
      using hash_table_word [OF t _ z(2) [OF i]] by auto
    show ?thesis by (simp only: hit_at_slot_word [OF g(2)] miss [OF g(1)] if_cancel)
  qed
  have "probe t (?N - 1) (hash_tag h) hit (j + (?N - j)) ?h = probe t (?N - 1) (hash_tag h) hit (?N - j) ?s"
    by (rule probe_walk [OF n home_slot_less]) (use z none in auto)
  moreover have "?N - j = Suc (?N - Suc j)" "j + (?N - j) = ?N" using j(1) n by simp_all
  ultimately have "probe t (?N - 1) (hash_tag h) hit ?N ?h = probe t (?N - 1) (hash_tag h) hit (Suc (?N - Suc j)) ?s" by argo
  also have "\<dots> = Empty_At (?s * SLOT)" by (simp only: probe_step [OF n sl] z(1) if_True refl)
  finally show ?thesis by (rule that [OF sl z(1)])
qed

subsection \<open>The capacity\<close>

lemma double_to_pow:
  assumes "want \<le> 2 ^ 63" and "k \<le> 63"
  obtains m where "double_to want (2 ^ k) = Some (2 ^ m)" and "want \<le> 2 ^ m" and "k \<le> m" and "m \<le> 63" and "m = k \<or> 2 ^ (m - 1) < want"
  using assms
proof (induction "want - 2 ^ k" arbitrary: k thesis rule: less_induct)
  case less
  show ?case
  proof (cases "2 ^ k < want")
    case False
    then show ?thesis using less.prems(3) by (intro less.prems(1) [of k]) (simp_all add: double_to.simps)
  next
    case True
    have k: "k < 63"
    proof (rule ccontr)
      assume "\<not> k < 63"
      then have "k = 63" using less.prems(3) by simp
      then show False using True less.prems(2) by simp
    qed
    have "(2 :: nat) ^ Suc k \<le> 2 ^ 63" using k by (intro power_increasing) simp_all
    then have d: "double_to want (2 ^ k) = double_to want (2 ^ Suc k)"
      using True by (subst double_to.simps) (simp add: checked_mul_def USIZE_MAX_def mult.commute)
    have dec: "want - 2 ^ Suc k < want - 2 ^ k" using True by (intro diff_less_mono2) simp_all
    obtain m where m: "double_to want (2 ^ Suc k) = Some (2 ^ m)" "want \<le> 2 ^ m" "Suc k \<le> m" "m \<le> 63" "m = Suc k \<or> 2 ^ (m - 1) < want"
      by (rule less.hyps [of "Suc k", OF dec]) (use less.prems(2) k in auto)
    then show ?thesis using d True by (intro less.prems(1) [of m]) auto
  qed
qed

lemma hash_cap_pow:
  assumes "keys < 2 ^ 62"
  obtains k where "hash_cap_for keys = Some (2 ^ k)" and "keys < 2 ^ k" and "4 \<le> k" and "k \<le> 63" and "keys * 4 \<le> 3 * 2 ^ k"
    and "k = 4 \<or> 3 * 2 ^ (k - 1) < keys * 4"
proof -
  define want where "want = div_ceil (keys * 4) 3"
  have w: "want \<le> 2 ^ 63" "keys * 4 \<le> 3 * want" "3 * want < keys * 4 + 3" using assms by (simp_all add: want_def div_ceil_def)
  obtain m where m: "double_to want (2 ^ 0) = Some (2 ^ m)" "want \<le> 2 ^ m" "m \<le> 63" "m = 0 \<or> 2 ^ (m - 1) < want"
    using double_to_pow [OF w(1), of 0] by auto
  have cap: "hash_cap_for keys = Some (max (2 ^ m) (2 ^ 4))"
    using assms m(1) by (simp add: hash_cap_for_def checked_mul_def USIZE_MAX_def HASH_LOAD_DEN_def HASH_LOAD_NUM_def want_def)
  have mx: "max ((2 :: nat) ^ m) (2 ^ 4) = 2 ^ max m 4"
  proof (cases "m \<le> 4")
    case True
    then have "(2 :: nat) ^ m \<le> 2 ^ 4" by (intro power_increasing) simp_all
    then show ?thesis using True by (simp only: max_absorb2)
  next
    case False
    then have "(2 :: nat) ^ 4 \<le> 2 ^ m" by (intro power_increasing) simp_all
    then show ?thesis using False by (simp only: max_absorb1 not_le less_imp_le)
  qed
  have le: "(2 :: nat) ^ m \<le> 2 ^ max m 4" by (rule power_increasing) simp_all
  have load: "keys * 4 \<le> 3 * 2 ^ max m 4" using w(2) m(2) le by linarith
  show ?thesis
  proof
    show "hash_cap_for keys = Some (2 ^ max m 4)" using cap mx by simp
    show "keys * 4 \<le> 3 * 2 ^ max m 4" by (rule load)
    have "(0 :: nat) < 2 ^ max m 4" by simp
    then show "keys < 2 ^ max m 4" using load by linarith
    show "4 \<le> max m 4" "max m 4 \<le> 63" using m(3) by simp_all
    show "max m 4 = 4 \<or> 3 * 2 ^ (max m 4 - 1) < keys * 4"
    proof (cases "m \<le> 4")
      case False
      then have "2 ^ (m - 1) + 1 \<le> want" using m(4) by auto
      then have "3 * 2 ^ (m - 1) + 3 \<le> 3 * want" by linarith
      then show ?thesis using w(3) False by simp
    qed simp
  qed
qed

lemma fill_hash_ok:
  assumes n: "length ks < 2 ^ 62" and asked: "ask_all at st [0..<length ks] = Some (ks, st')"
  obtains k t where "hash_cap_for (length ks) = Some (2 ^ k)" and "length ks < 2 ^ k" and "k \<le> 63"
    and "fill_hash (replicate (2 ^ k * SLOT) 0) (2 ^ k - 1) (length ks) at st lookahead = Some (t, st')" and "hash_table k t ks"
proof -
  obtain k where k: "hash_cap_for (length ks) = Some (2 ^ k)" "length ks < 2 ^ k" "k \<le> 63" by (rule hash_cap_pow [OF n])
  obtain t where t: "place_all (replicate (2 ^ k * 8) 0) (2 ^ k - 1) ks = Some t" "hash_table k t ([] @ ks)"
    by (rule place_all_ok [OF hash_table_zero, of ks]) (use k(2) in simp_all)
  have "fill_hash (replicate (2 ^ k * SLOT) 0) (2 ^ k - 1) (length ks) at st lookahead = Some (t, st')"
    unfolding fill_hash_eq asked SLOT_def by (simp only: bind.bind_lunit prod.case t(1))
  then show ?thesis using that [OF k] t(2) by simp
qed

lemma ask_all_pure:
  assumes "\<And>i st. i < length ks \<Longrightarrow> at i st = Some (ks ! i, st)"
  shows "ask_all at st [0..<length ks] = Some (ks, st)"
proof -
  have "ask_all at st [i..<length ks] = Some (drop i ks, st)" if "i \<le> length ks" for i
    using that
  proof (induction "length ks - i" arbitrary: i)
    case 0
    then show ?case by simp
  next
    case (Suc d)
    then have i: "i < length ks" by simp
    have "ask_all at st [Suc i..<length ks] = Some (drop (Suc i) ks, st)" using Suc by simp
    then show ?case using assms [OF i] i by (simp add: upt_conv_Cons Cons_nth_drop_Suc)
  qed
  from this [of 0] show ?thesis by simp
qed

subsection \<open>Properties\<close>

text \<open>
  C36: The fill with lookahead writes the plain fill's bytes and asks for the keys in
  the same order: whatever the closure that answers for the keys does to its own
  state, table and state are the same, and where one panics the other does.
\<close>

theorem lookahead_fill_plain: "fill_hash t msk n at st True = fill_hash t msk n at st False"
  by (simp only: fill_hash_eq)

text \<open>
  The capacity is a power of two, at least sixteen, that keeps the table at or
  under three quarters, so a slot stays empty; and no smaller one above sixteen does.
\<close>

theorem hash_cap_load:
  assumes "keys < 2 ^ 62"
  shows "\<exists>k. hash_cap_for keys = Some (2 ^ k) \<and> 16 \<le> (2 :: nat) ^ k \<and> keys < 2 ^ k \<and> keys * HASH_LOAD_DEN \<le> HASH_LOAD_NUM * 2 ^ k \<and>
    (2 ^ k = (16 :: nat) \<or> HASH_LOAD_NUM * 2 ^ (k - 1) < keys * HASH_LOAD_DEN)"
proof -
  obtain k where k: "hash_cap_for keys = Some (2 ^ k)" "keys < 2 ^ k" "4 \<le> k" "keys * 4 \<le> 3 * 2 ^ k" "k = 4 \<or> 3 * 2 ^ (k - 1) < keys * 4"
    using hash_cap_pow [OF assms] .
  have "(2 :: nat) ^ 4 \<le> 2 ^ k" using k(3) by (intro power_increasing) simp_all
  then show ?thesis using k by (intro exI [of _ k]) (auto simp: HASH_LOAD_DEN_def HASH_LOAD_NUM_def)
qed

theorem hash_cap_load_witness:
  "\<exists>k. hash_cap_for 290000 = Some (2 ^ k) \<and> 16 \<le> (2 :: nat) ^ k \<and> 290000 < (2 :: nat) ^ k \<and> 290000 * HASH_LOAD_DEN \<le> HASH_LOAD_NUM * 2 ^ k \<and>
    (2 ^ k = (16 :: nat) \<or> HASH_LOAD_NUM * 2 ^ (k - 1) < 290000 * HASH_LOAD_DEN)"
  by (rule hash_cap_load) simp

text \<open>
  C15: The fill ends, and a probe of what it wrote meets every key. A table of the
  capacity for its keys takes them all without spinning; the reader's bounded probe,
  from a key's hash, ends at a slot whose record the reader takes, whichever keys
  share its tag or its walk; and for a key whose record none of the slots holds it
  ends at an empty slot, never at the bound.
\<close>

theorem hash_fill_find:
  fixes hit :: "nat \<Rightarrow> 'r option"
  assumes "length ks < 2 ^ 62"
  shows "\<exists>cap t. hash_cap_for (length ks) = Some cap \<and>
    fill_hash (replicate (cap * SLOT) 0) (cap - 1) (length ks) (\<lambda>i st. Some (ks ! i, st)) () lookahead = Some (t, ()) \<and> length t = cap * SLOT \<and>
    (\<forall>(h, off) \<in> set ks. \<forall>r. hit (unat off) = Some r \<longrightarrow> (\<forall>(h', off') \<in> set ks. hit (unat off') \<in> {None, Some r}) \<longrightarrow>
      (\<exists>s < cap. probe t (cap - 1) (hash_tag h) hit cap (home_slot (cap - 1) h) = Hit_At (s * SLOT) r)) \<and>
    (\<forall>h. (\<forall>(h', off') \<in> set ks. hit (unat off') = None) \<longrightarrow>
      (\<exists>s < cap. probe t (cap - 1) (hash_tag h) hit cap (home_slot (cap - 1) h) = Empty_At (s * SLOT)))"
proof -
  have "ask_all (\<lambda>i st. Some (ks ! i, st)) () [0..<length ks] = Some (ks, ())" by (rule ask_all_pure) simp
  then obtain k t where t: "hash_cap_for (length ks) = Some (2 ^ k)" "length ks < 2 ^ k"
      "fill_hash (replicate (2 ^ k * SLOT) 0) (2 ^ k - 1) (length ks) (\<lambda>i st. Some (ks ! i, st)) () lookahead = Some (t, ())" "hash_table k t ks"
    by (rule fill_hash_ok [OF assms, where lookahead = lookahead])
  have found: "\<exists>s < 2 ^ k. probe t (2 ^ k - 1) (hash_tag h) hit (2 ^ k) (home_slot (2 ^ k - 1) h) = Hit_At (s * SLOT) r"
    if m: "(h, off) \<in> set ks" and r: "hit (unat off) = Some r" and u: "\<forall>(h', off') \<in> set ks. hit (unat off') \<in> {None, Some r}" for h off r
  proof -
    obtain s where "s < 2 ^ k" "probe t (2 ^ k - 1) (hash_tag h) hit (2 ^ k) (home_slot (2 ^ k - 1) h) = Hit_At (s * SLOT) r"
      by (rule probe_found [where hit = hit, OF t(4) m r]) (use u in force)+
    then show ?thesis by blast
  qed
  have absent: "\<exists>s < 2 ^ k. probe t (2 ^ k - 1) (hash_tag h) hit (2 ^ k) (home_slot (2 ^ k - 1) h) = Empty_At (s * SLOT)"
    if u: "\<forall>(h', off') \<in> set ks. hit (unat off') = None" for h
  proof -
    obtain s where "s < 2 ^ k" "probe t (2 ^ k - 1) (hash_tag h) hit (2 ^ k) (home_slot (2 ^ k - 1) h) = Empty_At (s * SLOT)"
      by (rule probe_absent [where hit = hit and h = h, OF t(4,2)]) (use u in blast)+
    then show ?thesis by blast
  qed
  show ?thesis
  proof (rule exI [of _ "2 ^ k"], rule exI [of _ t], intro conjI)
    show "length t = 2 ^ k * SLOT" using t(4) by (simp add: hash_table_def SLOT_def)
    show "\<forall>(h, off) \<in> set ks. \<forall>r. hit (unat off) = Some r \<longrightarrow> (\<forall>(h', off') \<in> set ks. hit (unat off') \<in> {None, Some r}) \<longrightarrow>
        (\<exists>s < 2 ^ k. probe t (2 ^ k - 1) (hash_tag h) hit (2 ^ k) (home_slot (2 ^ k - 1) h) = Hit_At (s * SLOT) r)"
      by (intro ballI, clarify) (rule found; assumption)
    show "\<forall>h. (\<forall>(h', off') \<in> set ks. hit (unat off') = None) \<longrightarrow>
        (\<exists>s < 2 ^ k. probe t (2 ^ k - 1) (hash_tag h) hit (2 ^ k) (home_slot (2 ^ k - 1) h) = Empty_At (s * SLOT))"
      by (intro allI impI) (rule absent)
  qed (rule t)+
qed

theorem hash_fill_find_witness:
  "\<exists>cap t. hash_cap_for (length [(5 :: u64, 0 :: u32), (21, 64)]) = Some cap \<and>
    fill_hash (replicate (cap * SLOT) 0) (cap - 1) (length [(5 :: u64, 0 :: u32), (21, 64)]) (\<lambda>i st. Some ([(5 :: u64, 0 :: u32), (21, 64)] ! i, st)) () True = Some (t, ()) \<and> length t = cap * SLOT \<and>
    (\<forall>(h, off) \<in> set [(5 :: u64, 0 :: u32), (21, 64)]. \<forall>r. (\<lambda>off. if off = 64 then Some off else None) (unat off) = Some r \<longrightarrow> (\<forall>(h', off') \<in> set [(5 :: u64, 0 :: u32), (21, 64)]. (\<lambda>off. if off = 64 then Some off else None) (unat off') \<in> {None, Some r}) \<longrightarrow>
      (\<exists>s < cap. probe t (cap - 1) (hash_tag h) (\<lambda>off. if off = 64 then Some off else None) cap (home_slot (cap - 1) h) = Hit_At (s * SLOT) r)) \<and>
    (\<forall>h. (\<forall>(h', off') \<in> set [(5 :: u64, 0 :: u32), (21, 64)]. (\<lambda>off. if off = 64 then Some off else None) (unat off') = None) \<longrightarrow>
      (\<exists>s < cap. probe t (cap - 1) (hash_tag h) (\<lambda>off. if off = 64 then Some off else None) cap (home_slot (cap - 1) h) = Empty_At (s * SLOT)))"
  by (rule hash_fill_find) simp

end
