(* ===== verification/Bloom.thy ===== *)
theory Bloom
  imports Hash_Table
begin

text \<open>
  The blocked Bloom filter of a segment (db.rs): blocks of eight words, four probe
  bits of one block a key, built from the hashes the index's writer has already
  computed, plain or with a ring of hashes held back while their blocks are fetched,
  and stored as little-endian words. A filter with no blocks divides by zero, which is
  a panic.
\<close>

definition BLOOM_PROBES :: nat where "BLOOM_PROBES = 4"
definition BLOOM_BITS_PER_KEY :: nat where "BLOOM_BITS_PER_KEY = 10"
definition BLOOM_AHEAD :: nat where "BLOOM_AHEAD = 16"

record blocked_bloom =
  bl_blocks :: "u64 list list"

text \<open>The product of a filter's bits wraps, as a release build's does.\<close>

definition blocks_for :: "nat \<Rightarrow> nat" where
  "blocks_for n = max (div_ceil (n * BLOOM_BITS_PER_KEY mod 2 ^ 64) 512) 1"

definition with_capacity :: "nat \<Rightarrow> blocked_bloom" where
  "with_capacity n = \<lparr>bl_blocks = replicate (blocks_for n) (replicate 8 0)\<rparr>"

definition fnv :: "bytes \<Rightarrow> u64" where
  "fnv key = key_hash key"

definition finalize :: "u64 \<Rightarrow> u64" where
  "finalize h = (let h = (h XOR drop_bit 30 h) * 0xbf58476d1ce4e5b9 in h XOR drop_bit 31 h)"

definition bloom_hash :: "bytes \<Rightarrow> u64" where
  "bloom_hash key = finalize (fnv key)"

fun probe_walk_bits :: "nat \<Rightarrow> u64 \<Rightarrow> (nat \<times> u64) list" where
  "probe_walk_bits 0 x = []"
| "probe_walk_bits (Suc n) x =
    (let x = x * 0x9e3779b97f4a7c15 + 1;
         b = unat (drop_bit 55 x) AND 511
     in (drop_bit 6 b, push_bit (b AND 63) 1) # probe_walk_bits n x)"

definition slots_of :: "blocked_bloom \<Rightarrow> u64 \<Rightarrow> (nat \<times> (nat \<times> u64) list) option" where
  "slots_of b h =
    (if bl_blocks b = [] then None
     else Some (unat (drop_bit 32 h) mod length (bl_blocks b), probe_walk_bits BLOOM_PROBES h))"

definition slots :: "blocked_bloom \<Rightarrow> bytes \<Rightarrow> (nat \<times> (nat \<times> u64) list) option" where
  "slots b key = slots_of b (bloom_hash key)"

fun set_probes :: "u64 list list \<Rightarrow> nat \<Rightarrow> (nat \<times> u64) list \<Rightarrow> u64 list list option" where
  "set_probes blocks bi [] = Some blocks"
| "set_probes blocks bi ((w, m) # ps) =
    do { row \<leftarrow> index blocks bi;
         x \<leftarrow> index row w;
         row \<leftarrow> store row w (x OR m);
         blocks \<leftarrow> store blocks bi row;
         set_probes blocks bi ps }"

definition add_fnv :: "blocked_bloom \<Rightarrow> u64 \<Rightarrow> blocked_bloom option" where
  "add_fnv b h =
    do { (bi, probes) \<leftarrow> slots_of b (finalize h);
         blocks \<leftarrow> set_probes (bl_blocks b) bi probes;
         Some \<lparr>bl_blocks = blocks\<rparr> }"

definition bloom_insert :: "blocked_bloom \<Rightarrow> bytes \<Rightarrow> blocked_bloom option" where
  "bloom_insert b key =
    do { (bi, probes) \<leftarrow> slots b key;
         blocks \<leftarrow> set_probes (bl_blocks b) bi probes;
         Some \<lparr>bl_blocks = blocks\<rparr> }"

fun all_set :: "u64 list \<Rightarrow> (nat \<times> u64) list \<Rightarrow> bool option" where
  "all_set row [] = Some True"
| "all_set row ((w, m) # ps) = do { x \<leftarrow> index row w; if x AND m \<noteq> 0 then all_set row ps else Some False }"

definition maybe_contains :: "blocked_bloom \<Rightarrow> bytes \<Rightarrow> bool option" where
  "maybe_contains b key =
    do { (bi, probes) \<leftarrow> slots b key;
         row \<leftarrow> index (bl_blocks b) bi;
         all_set row probes }"

subsection \<open>The fill\<close>

record bloom_fill =
  bf_bloom :: blocked_bloom
  bf_lookahead :: bool
  bf_ring :: "u64 list"
  bf_n :: nat

definition fill_new :: "blocked_bloom \<Rightarrow> bool \<Rightarrow> bloom_fill" where
  "fill_new b lookahead = \<lparr>bf_bloom = b, bf_lookahead = lookahead, bf_ring = replicate BLOOM_AHEAD 0, bf_n = 0\<rparr>"

definition fill_add :: "bloom_fill \<Rightarrow> u64 \<Rightarrow> bloom_fill option" where
  "fill_add f h =
    (if \<not> bf_lookahead f then do { b \<leftarrow> add_fnv (bf_bloom f) h; Some (f\<lparr>bf_bloom := b\<rparr>) }
     else if bl_blocks (bf_bloom f) = [] then None
     else do { let at = bf_n f mod BLOOM_AHEAD;
               b \<leftarrow> (if BLOOM_AHEAD \<le> bf_n f then do { due \<leftarrow> index (bf_ring f) at; add_fnv (bf_bloom f) due } else Some (bf_bloom f));
               ring \<leftarrow> store (bf_ring f) at h;
               Some (f\<lparr>bf_bloom := b, bf_ring := ring, bf_n := bf_n f + 1\<rparr>) })"

fun fill_held :: "blocked_bloom \<Rightarrow> u64 list \<Rightarrow> nat \<Rightarrow> nat list \<Rightarrow> blocked_bloom option" where
  "fill_held b ring base [] = Some b"
| "fill_held b ring base (k # ks) =
    do { h \<leftarrow> index ring ((base + k) mod BLOOM_AHEAD); b \<leftarrow> add_fnv b h; fill_held b ring base ks }"

definition fill_finish :: "bloom_fill \<Rightarrow> blocked_bloom option" where
  "fill_finish f =
    (if bf_lookahead f
     then let held = min (bf_n f) BLOOM_AHEAD in fill_held (bf_bloom f) (bf_ring f) (bf_n f - held) [0..<held]
     else Some (bf_bloom f))"

fun fill_adds :: "bloom_fill \<Rightarrow> u64 list \<Rightarrow> bloom_fill option" where
  "fill_adds f [] = Some f"
| "fill_adds f (h # hs) = do { f \<leftarrow> fill_add f h; fill_adds f hs }"

definition from_fnv :: "u64 list \<Rightarrow> bool \<Rightarrow> blocked_bloom option" where
  "from_fnv hashes lookahead =
    do { f \<leftarrow> fill_adds (fill_new (with_capacity (length hashes)) lookahead) hashes; fill_finish f }"

subsection \<open>The stored words\<close>

definition bloom_words :: "blocked_bloom \<Rightarrow> bytes" where
  "bloom_words b = concat (map (\<lambda>blk. concat (map u64_le blk)) (bl_blocks b))"

fun chunks8 :: "nat \<Rightarrow> bytes \<Rightarrow> u64 list" where
  "chunks8 0 c = []"
| "chunks8 (Suc n) c = word_of_nat (le_val (take 8 c)) # chunks8 n (drop 8 c)"

function chunks64 :: "bytes \<Rightarrow> u64 list list" where
  "chunks64 bs = (if length bs < 64 then [] else chunks8 8 (take 64 bs) # chunks64 (drop 64 bs))"
  by auto
termination
  by (relation "measure length") auto

declare chunks64.simps [simp del]

definition from_words :: "bytes \<Rightarrow> blocked_bloom option" where
  "from_words bs = (if bs = [] \<or> length bs mod 64 \<noteq> 0 then None else Some \<lparr>bl_blocks = chunks64 bs\<rparr>)"


subsection \<open>No key added is missed\<close>

text \<open>A filter of whole blocks; one that holds every bit another holds.\<close>

definition bloom_ok :: "blocked_bloom \<Rightarrow> bool" where
  "bloom_ok b \<longleftrightarrow> bl_blocks b \<noteq> [] \<and> (\<forall>row \<in> set (bl_blocks b). length row = 8)"

definition grows :: "u64 list list \<Rightarrow> u64 list list \<Rightarrow> bool" where
  "grows bs bs' \<longleftrightarrow> length bs' = length bs \<and>
    (\<forall>i < length bs. \<forall>w < 8. \<forall>m. bs ! i ! w AND m \<noteq> 0 \<longrightarrow> bs' ! i ! w AND m \<noteq> 0)"

lemma grows_refl [simp]: "grows bs bs"
  by (simp add: grows_def)

lemma grows_trans: "grows a b \<Longrightarrow> grows b c \<Longrightarrow> grows a c"
  by (simp add: grows_def)

lemma or_and_nonzero: "x AND m \<noteq> 0 \<Longrightarrow> (x OR y) AND m \<noteq> 0" for x y m :: u64
  by (simp add: bit_eq_iff bit_simps) blast

lemma or_and_self: "m \<noteq> 0 \<Longrightarrow> (x OR m) AND m \<noteq> 0" for x m :: u64
  by (simp add: bit_eq_iff bit_simps)

lemma set_one_grows:
  assumes "bi < length bs" "length (bs ! bi) = 8" "w < 8"
  shows "grows bs (bs[bi := (bs ! bi)[w := bs ! bi ! w OR m]])"
  using assms by (auto simp: grows_def nth_list_update or_and_nonzero)

lemma set_probes_ok:
  assumes "bi < length bs" "\<forall>row \<in> set bs. length row = 8" "\<forall>p \<in> set ps. fst p < 8 \<and> snd p \<noteq> 0"
  shows "\<exists>bs'. set_probes bs bi ps = Some bs' \<and> (\<forall>row \<in> set bs'. length row = 8) \<and> grows bs bs'
    \<and> (\<forall>p \<in> set ps. bs' ! bi ! fst p AND snd p \<noteq> 0)"
  using assms
proof (induction ps arbitrary: bs)
  case Nil
  then show ?case by simp
next
  case (Cons p ps)
  obtain w m where p: "p = (w, m)" by fastforce
  have l: "length (bs ! bi) = 8" "w < 8" "m \<noteq> 0" using Cons.prems p by auto
  define bs1 where "bs1 = bs[bi := (bs ! bi)[w := bs ! bi ! w OR m]]"
  have g: "grows bs bs1" unfolding bs1_def using Cons.prems(1) l by (intro set_one_grows)
  have rows: "\<forall>row \<in> set bs1. length row = 8"
    using Cons.prems(2) l set_update_subset_insert [of bs bi "(bs ! bi)[w := bs ! bi ! w OR m]"] by (auto simp: bs1_def)
  obtain bs' where bs': "set_probes bs1 bi ps = Some bs'" "\<forall>row \<in> set bs'. length row = 8" "grows bs1 bs'"
    "\<forall>p \<in> set ps. bs' ! bi ! fst p AND snd p \<noteq> 0"
    using Cons.IH [of bs1] Cons.prems rows by (auto simp: bs1_def)
  have "bs1 ! bi ! w AND m \<noteq> 0" using Cons.prems(1) l by (simp add: bs1_def or_and_self)
  then have "bs' ! bi ! w AND m \<noteq> 0" using bs'(3) Cons.prems(1) l by (simp add: grows_def bs1_def)
  moreover have "set_probes bs bi (p # ps) = Some bs'" using Cons.prems(1) l bs'(1) by (simp add: p bs1_def)
  moreover have "grows bs bs'" using g bs'(3) by (rule grows_trans)
  ultimately show ?case using bs'(2,4) p by (intro exI [of _ bs']) simp
qed

lemma probe_in_block: "p \<in> set (probe_walk_bits n x) \<Longrightarrow> fst p < 8 \<and> snd p \<noteq> 0"
proof (induction n arbitrary: x)
  case (Suc n)
  define b where "b = unat (drop_bit 55 (x * 0x9e3779b97f4a7c15 + 1)) AND 511"
  have "b = take_bit 9 (unat (drop_bit 55 (x * 0x9e3779b97f4a7c15 + 1)))" unfolding b_def by (simp add: take_bit_eq_mask mask_eq_exp_minus_1)
  then have b: "b < 512" using take_bit_nat_less_exp [of 9] by simp
  have "drop_bit 6 b < 8" using b by (simp add: drop_bit_eq_div)
  moreover have "b AND 63 < 64" using take_bit_nat_less_exp [of 6 b] by (simp add: take_bit_eq_mask mask_eq_exp_minus_1)
  then have "bit (push_bit (b AND 63) 1 :: u64) (b AND 63)" by (simp add: bit_simps)
  then have "push_bit (b AND 63) 1 \<noteq> (0 :: u64)" by (metis bit_0_eq bot_apply bot_bool_def)
  moreover have "probe_walk_bits (Suc n) x = (drop_bit 6 b, push_bit (b AND 63) 1) # probe_walk_bits n (x * 0x9e3779b97f4a7c15 + 1)"
    unfolding b_def by (simp only: probe_walk_bits.simps Let_def)
  ultimately show ?case using Suc.prems Suc.IH [of "x * 0x9e3779b97f4a7c15 + 1"]
    by (simp only: list.set insert_iff) (metis fst_conv snd_conv)
qed simp

lemma all_set_iff:
  "\<forall>p \<in> set ps. fst p < length row \<Longrightarrow> all_set row ps = Some (\<forall>p \<in> set ps. row ! fst p AND snd p \<noteq> 0)"
  by (induction row ps rule: all_set.induct) auto

text \<open>The bits of a hash: set by its add, and kept by every later one.\<close>

definition holds :: "blocked_bloom \<Rightarrow> u64 \<Rightarrow> bool" where
  "holds b h \<longleftrightarrow> (\<forall>p \<in> set (probe_walk_bits BLOOM_PROBES (finalize h)).
    bl_blocks b ! (unat (drop_bit 32 (finalize h)) mod length (bl_blocks b)) ! fst p AND snd p \<noteq> 0)"

lemma holds_grows: "bloom_ok b \<Longrightarrow> grows (bl_blocks b) (bl_blocks b') \<Longrightarrow> holds b h \<Longrightarrow> holds b' h"
  using probe_in_block unfolding holds_def grows_def bloom_ok_def by (auto simp: mod_less_divisor)

lemma add_fnv_ok:
  assumes "bloom_ok b"
  obtains b' where "add_fnv b h = Some b'" "bloom_ok b'" "grows (bl_blocks b) (bl_blocks b')" "holds b' h"
proof -
  let ?bi = "unat (drop_bit 32 (finalize h)) mod length (bl_blocks b)"
  let ?ps = "probe_walk_bits BLOOM_PROBES (finalize h)"
  have "?bi < length (bl_blocks b)" using assms by (simp add: bloom_ok_def)
  then obtain bs' where bs': "set_probes (bl_blocks b) ?bi ?ps = Some bs'" "\<forall>row \<in> set bs'. length row = 8"
    "grows (bl_blocks b) bs'" "\<forall>p \<in> set ?ps. bs' ! ?bi ! fst p AND snd p \<noteq> 0"
    using set_probes_ok [of ?bi "bl_blocks b" ?ps] assms probe_in_block by (auto simp: bloom_ok_def)
  show thesis
  proof (rule that)
    show "add_fnv b h = Some \<lparr>bl_blocks = bs'\<rparr>" using assms bs'(1) by (simp add: add_fnv_def slots_of_def bloom_ok_def)
    show "bloom_ok \<lparr>bl_blocks = bs'\<rparr>" using assms bs' by (auto simp: bloom_ok_def grows_def)
    show "grows (bl_blocks b) (bl_blocks \<lparr>bl_blocks = bs'\<rparr>)" using bs' by simp
    show "holds \<lparr>bl_blocks = bs'\<rparr> h" using bs' by (simp add: holds_def grows_def)
  qed
qed

text \<open>The hashes added one after another, which is what a fill amounts to.\<close>

fun add_all :: "blocked_bloom \<Rightarrow> u64 list \<Rightarrow> blocked_bloom option" where
  "add_all b [] = Some b"
| "add_all b (h # hs) = do { b \<leftarrow> add_fnv b h; add_all b hs }"

lemma add_all_ok:
  "bloom_ok b \<Longrightarrow> \<exists>b'. add_all b hs = Some b' \<and> bloom_ok b' \<and> grows (bl_blocks b) (bl_blocks b') \<and> (\<forall>h \<in> set hs. holds b' h)"
proof (induction hs arbitrary: b)
  case (Cons h hs)
  obtain b1 where b1: "add_fnv b h = Some b1" "bloom_ok b1" "grows (bl_blocks b) (bl_blocks b1)" "holds b1 h"
    using add_fnv_ok [OF Cons.prems] .
  obtain b2 where "add_all b1 hs = Some b2" "bloom_ok b2" "grows (bl_blocks b1) (bl_blocks b2)" "\<forall>h \<in> set hs. holds b2 h"
    using Cons.IH [OF b1(2)] by blast
  then show ?case using b1 holds_grows grows_trans by fastforce
qed simp

lemma maybe_contains_iff: "bloom_ok b \<Longrightarrow> maybe_contains b key = Some (holds b (key_hash key))"
  unfolding maybe_contains_def slots_def slots_of_def bloom_hash_def fnv_def holds_def bloom_ok_def
  by (simp, subst all_set_iff) (auto simp: probe_in_block)

lemma add_all_append: "add_all b (xs @ ys) = do { b \<leftarrow> add_all b xs; add_all b ys }"
  by (induction xs arbitrary: b) (auto split: bind_splits)

lemma with_capacity_ok: "bloom_ok (with_capacity n)"
  by (simp add: bloom_ok_def with_capacity_def blocks_for_def)

subsection \<open>The ring gives the hashes back in order\<close>

definition ring_inv :: "blocked_bloom \<Rightarrow> u64 list \<Rightarrow> bloom_fill \<Rightarrow> bool" where
  "ring_inv b hs f \<longleftrightarrow> bf_lookahead f \<and> bf_n f = length hs \<and> length (bf_ring f) = BLOOM_AHEAD
    \<and> add_all b (take (length hs - BLOOM_AHEAD) hs) = Some (bf_bloom f) \<and> bloom_ok (bf_bloom f)
    \<and> (\<forall>k < length hs. length hs \<le> k + BLOOM_AHEAD \<longrightarrow> bf_ring f ! (k mod BLOOM_AHEAD) = hs ! k)"

lemma ring_new: "bloom_ok b \<Longrightarrow> ring_inv b [] (fill_new b True)"
  by (simp add: ring_inv_def fill_new_def)

lemma fill_add_due:
  assumes "ring_inv b hs f" "BLOOM_AHEAD \<le> length hs"
  shows "bf_ring f ! (length hs mod BLOOM_AHEAD) = hs ! (length hs - BLOOM_AHEAD)"
proof -
  have "length hs mod BLOOM_AHEAD = (length hs - BLOOM_AHEAD) mod BLOOM_AHEAD" using assms(2) by (simp add: le_mod_geq)
  moreover have "0 < BLOOM_AHEAD" by (simp add: BLOOM_AHEAD_def)
  ultimately show ?thesis using assms unfolding ring_inv_def by simp
qed

lemma ring_slot_apart:
  assumes "k < n" "n < k + BLOOM_AHEAD"
  shows "k mod BLOOM_AHEAD \<noteq> n mod BLOOM_AHEAD"
proof
  assume "k mod BLOOM_AHEAD = n mod BLOOM_AHEAD"
  then have "BLOOM_AHEAD dvd n - k" using assms(1) by (metis mod_eq_dvd_iff_nat less_imp_le)
  then show False using assms dvd_imp_le [of BLOOM_AHEAD "n - k"] by linarith
qed

lemma ring_add:
  assumes inv: "ring_inv b hs f"
  obtains f' where "fill_add f h = Some f'" "ring_inv b (hs @ [h]) f'"
proof -
  let ?n = "length hs"
  have A: "?n mod BLOOM_AHEAD < BLOOM_AHEAD" by (simp add: BLOOM_AHEAD_def)
  have ok: "bloom_ok (bf_bloom f)" "bf_n f = ?n" "length (bf_ring f) = BLOOM_AHEAD" "bf_lookahead f" using inv by (auto simp: ring_inv_def)
  obtain b1 where b1: "(if BLOOM_AHEAD \<le> ?n then do { due \<leftarrow> index (bf_ring f) (?n mod BLOOM_AHEAD); add_fnv (bf_bloom f) due } else Some (bf_bloom f)) = Some b1"
      "add_all b (take (?n + 1 - BLOOM_AHEAD) (hs @ [h])) = Some b1" "bloom_ok b1"
  proof (cases "BLOOM_AHEAD \<le> ?n")
    case True
    let ?d = "hs ! (?n - BLOOM_AHEAD)"
    obtain b1 where d: "add_fnv (bf_bloom f) ?d = Some b1" "bloom_ok b1" using add_fnv_ok [OF ok(1)] .
    have "take (?n + 1 - BLOOM_AHEAD) (hs @ [h]) = take (?n - BLOOM_AHEAD) hs @ [?d]"
    proof -
      have "?n + 1 - BLOOM_AHEAD = Suc (?n - BLOOM_AHEAD)" "?n - BLOOM_AHEAD < ?n" using True by (auto simp: BLOOM_AHEAD_def)
      then show ?thesis by (simp add: take_Suc_conv_app_nth)
    qed
    then have "add_all b (take (?n + 1 - BLOOM_AHEAD) (hs @ [h])) = Some b1"
      using inv d by (simp add: add_all_append ring_inv_def)
    then show ?thesis using that True d A ok fill_add_due [OF inv True] by simp
  next
    case False
    then show ?thesis using that inv by (simp add: ring_inv_def)
  qed
  let ?f = "f\<lparr>bf_bloom := b1, bf_ring := (bf_ring f)[?n mod BLOOM_AHEAD := h], bf_n := ?n + 1\<rparr>"
  have "fill_add f h = Some ?f" using ok b1(1) A by (simp add: fill_add_def bloom_ok_def)
  moreover have "(bf_ring f)[?n mod BLOOM_AHEAD := h] ! (k mod BLOOM_AHEAD) = (hs @ [h]) ! k"
    if "k < ?n + 1" "?n + 1 \<le> k + BLOOM_AHEAD" for k
  proof (cases "k = ?n")
    case True
    then show ?thesis using A ok by simp
  next
    case False
    then show ?thesis using that inv ring_slot_apart [of k ?n] by (simp add: ring_inv_def nth_append)
  qed
  then have "ring_inv b (hs @ [h]) ?f" using ok b1 by (simp add: ring_inv_def)
  ultimately show thesis using that by blast
qed

lemma ring_adds: "ring_inv b hs f \<Longrightarrow> \<exists>f'. fill_adds f hs' = Some f' \<and> ring_inv b (hs @ hs') f'"
proof (induction hs' arbitrary: f hs)
  case (Cons h hs')
  obtain f1 where "fill_add f h = Some f1" "ring_inv b (hs @ [h]) f1" using ring_add [OF Cons.prems] .
  then show ?case using Cons.IH [of "hs @ [h]" f1] by simp
qed simp

lemma fill_held_eq:
  "length ring = BLOOM_AHEAD \<Longrightarrow> fill_held b ring base ks = add_all b (map (\<lambda>k. ring ! ((base + k) mod BLOOM_AHEAD)) ks)"
  by (induction ks arbitrary: b) (simp_all add: BLOOM_AHEAD_def)

lemma ring_finish: "ring_inv b hs f \<Longrightarrow> fill_finish f = add_all b hs"
proof -
  assume inv: "ring_inv b hs f"
  let ?held = "min (length hs) BLOOM_AHEAD"
  let ?base = "length hs - ?held"
  have base: "?base = length hs - BLOOM_AHEAD" by linarith
  have "map (\<lambda>k. bf_ring f ! ((?base + k) mod BLOOM_AHEAD)) [0..<?held] = drop ?base hs"
  proof (rule nth_equalityI)
    fix i assume "i < length (map (\<lambda>k. bf_ring f ! ((?base + k) mod BLOOM_AHEAD)) [0..<?held])"
    then have i: "i < ?held" by simp
    then have "?base + i < length hs" "length hs \<le> ?base + i + BLOOM_AHEAD" by linarith+
    then show "map (\<lambda>k. bf_ring f ! ((?base + k) mod BLOOM_AHEAD)) [0..<?held] ! i = drop ?base hs ! i"
      using inv i unfolding ring_inv_def by simp
  qed simp
  then have "fill_finish f = add_all (bf_bloom f) (drop ?base hs)"
    using inv by (simp add: fill_finish_def ring_inv_def fill_held_eq)
  also have "\<dots> = add_all b (take ?base hs @ drop ?base hs)"
    unfolding add_all_append using inv by (simp add: ring_inv_def base)
  finally show ?thesis by simp
qed

lemma fill_no_ring: "\<not> bf_lookahead f \<Longrightarrow>
  do { f \<leftarrow> fill_adds f hs; fill_finish f } = add_all (bf_bloom f) hs"
  by (induction hs arbitrary: f) (auto simp: fill_add_def fill_finish_def split: bind_splits)

lemma from_fnv_eq: "from_fnv hs lookahead = add_all (with_capacity (length hs)) hs"
proof (cases lookahead)
  case True
  obtain f where "fill_adds (fill_new (with_capacity (length hs)) True) hs = Some f" "ring_inv (with_capacity (length hs)) hs f"
    using ring_adds [OF ring_new [OF with_capacity_ok [of "length hs"]], of hs] by auto
  then show ?thesis using True ring_finish by (simp add: from_fnv_def)
next
  case False
  then show ?thesis using fill_no_ring [of "fill_new (with_capacity (length hs)) False" hs] by (simp add: from_fnv_def fill_new_def)
qed

subsection \<open>The words read back\<close>

lemma chunks8_words: "chunks8 (length ws) (concat (map u64_le ws) @ rest) = ws"
  by (induction ws) simp_all

lemma chunks64_words:
  "\<forall>row \<in> set bs. length row = 8 \<Longrightarrow> chunks64 (concat (map (\<lambda>blk. concat (map u64_le blk)) bs)) = bs"
proof (induction bs)
  case Nil
  then show ?case by (simp add: chunks64.simps)
next
  case (Cons row bs)
  then have l: "length row = 8" by simp
  show ?case using Cons l chunks8_words [of row "[]"] by (subst chunks64.simps) simp
qed

lemma words_back:
  assumes "bloom_ok b"
  shows "from_words (bloom_words b) = Some b"
proof -
  have len: "length (concat (map (\<lambda>blk. concat (map u64_le blk)) bs)) = 64 * length bs" if "\<forall>row \<in> set bs. length row = 8" for bs :: "u64 list list"
    using that by (induction bs) simp_all
  have "length (bloom_words b) = 64 * length (bl_blocks b)" using assms len by (simp add: bloom_words_def bloom_ok_def)
  moreover have "bl_blocks b \<noteq> []" using assms by (simp add: bloom_ok_def)
  ultimately have "bloom_words b \<noteq> []" "length (bloom_words b) mod 64 = 0" by auto
  moreover have "chunks64 (bloom_words b) = bl_blocks b" using assms chunks64_words by (simp add: bloom_words_def bloom_ok_def)
  ultimately show ?thesis by (simp add: from_words_def)
qed

subsection \<open>Properties\<close>

fun inserts :: "blocked_bloom \<Rightarrow> bytes list \<Rightarrow> blocked_bloom option" where
  "inserts b [] = Some b"
| "inserts b (k # ks) = do { b \<leftarrow> bloom_insert b k; inserts b ks }"

lemma inserts_eq: "inserts b ks = add_all b (map key_hash ks)"
  by (induction ks arbitrary: b) (auto simp: bloom_insert_def add_fnv_def slots_def bloom_hash_def fnv_def split: bind_splits)

text \<open>
  C17: the filter the segment writer builds from the hashes it kept, with lookahead or
  without it, is the one that inserting the keys in order builds; it says of every key
  added that it may be there, it answers for every other key, and the words a form
  file stores of it are read back as the same filter.
\<close>

theorem bloom_no_misses:
  "\<exists>b. from_fnv (map key_hash keys) lookahead = Some b
    \<and> inserts (with_capacity (length keys)) keys = Some b
    \<and> (\<forall>key \<in> set keys. maybe_contains b key = Some True)
    \<and> maybe_contains b other \<noteq> None
    \<and> from_words (bloom_words b) = Some b"
proof -
  obtain b where "add_all (with_capacity (length keys)) (map key_hash keys) = Some b" "bloom_ok b" "\<forall>h \<in> set (map key_hash keys). holds b h"
    using add_all_ok [OF with_capacity_ok] by blast
  then show ?thesis by (intro exI [of _ b]) (simp add: from_fnv_eq inserts_eq maybe_contains_iff words_back)
qed

theorem bloom_no_misses_witness:
  "\<exists>b. from_fnv (map key_hash [[1, 2], [7]]) True = Some b \<and> maybe_contains b [7] = Some True
    \<and> from_words (bloom_words b) = Some b"
  using bloom_no_misses [of "[[1, 2], [7]]" True "[]"] by auto

end
