(* ===== verification/Pieces.thy ===== *)
theory Pieces
  imports Crc32c
begin

text \<open>
  The checksum row of a key section (flatindex.rs): one CRC-32C per piece, where a
  piece is the section's part of one page of the object it lies in, so the first is
  short by the section's offset in its page. The row follows the section's content;
  two header words name where it begins and the size of a piece.
\<close>

definition PIECE_SHIFT :: nat where "PIECE_SHIFT = 14"
definition W_CRC_OFF :: nat where "W_CRC_OFF = 160"
definition W_PIECE_SHIFT :: nat where "W_PIECE_SHIFT = 168"

definition piece_count :: "nat \<Rightarrow> nat \<Rightarrow> nat \<Rightarrow> nat" where
  "piece_count len shift base = div_ceil (base mod 2 ^ shift + len) (2 ^ shift)"

definition checksum_row_len :: "nat \<Rightarrow> nat \<Rightarrow> nat \<Rightarrow> nat" where
  "checksum_row_len len shift base = piece_count len shift base * 4"

text \<open>Where the piece that begins at an offset ends: the iterator's step.\<close>

definition piece_end :: "nat \<Rightarrow> nat \<Rightarrow> nat \<Rightarrow> nat \<Rightarrow> nat" where
  "piece_end len shift base at =
    (if at = 0 then min (2 ^ shift - base mod 2 ^ shift) len else min (at + 2 ^ shift) len)"

lemma piece_end_gt: "at < len \<Longrightarrow> at < piece_end len shift base at"
  by (simp add: piece_end_def)

function pieces_from :: "nat \<Rightarrow> nat \<Rightarrow> nat \<Rightarrow> nat \<Rightarrow> (nat \<times> nat) list" where
  "pieces_from len shift base at =
    (if len \<le> at then []
     else (at, piece_end len shift base at) # pieces_from len shift base (piece_end len shift base at))"
  by auto
termination
  by (relation "measure (\<lambda>(len, shift, base, at). len - at)") (simp_all add: piece_end_gt diff_less_mono2)

declare pieces_from.simps [simp del]

definition pieces :: "nat \<Rightarrow> nat \<Rightarrow> nat \<Rightarrow> (nat \<times> nat) list" where
  "pieces len shift base = pieces_from len shift base 0"

fun row_of :: "bytes \<Rightarrow> (nat \<times> nat) list \<Rightarrow> bytes option" where
  "row_of sec [] = Some []"
| "row_of sec ((a, b) # ps) = do { s \<leftarrow> slice sec a b; row \<leftarrow> row_of sec ps; Some (u32_le (crc32 s) @ row) }"

definition checksum_row :: "bytes \<Rightarrow> nat \<Rightarrow> nat \<Rightarrow> bytes option" where
  "checksum_row sec shift base = row_of sec (pieces (length sec) shift base)"

definition set_checksum_words :: "bytes \<Rightarrow> nat \<Rightarrow> bytes option" where
  "set_checksum_words header len =
    do { header \<leftarrow> put header W_CRC_OFF (u64_le (word_of_nat len));
         put header W_PIECE_SHIFT (u64_le (word_of_nat PIECE_SHIFT)) }"

definition with_checksums :: "bytes \<Rightarrow> nat \<Rightarrow> bytes option" where
  "with_checksums sec base =
    do { let len = length sec;
         sec \<leftarrow> set_checksum_words sec len;
         row \<leftarrow> checksum_row sec PIECE_SHIFT base;
         Some (sec @ row) }"

text \<open>None is a damaged word, Some None a section without a row.\<close>

definition checksum_words :: "bytes \<Rightarrow> (nat \<times> nat) option option" where
  "checksum_words sec =
    (case rd_u64 sec W_CRC_OFF of
       None \<Rightarrow> None
     | Some crc_off \<Rightarrow>
         if crc_off = 0 then Some None
         else case rd_u64 sec W_PIECE_SHIFT of
                None \<Rightarrow> None
              | Some shift \<Rightarrow> if 10 \<le> unat shift \<and> unat shift \<le> 24 then Some (Some (unat crc_off, unat shift)) else None)"

definition piece_crc :: "bytes \<Rightarrow> nat \<Rightarrow> u32 option" where
  "piece_crc row i = rd_u32 row (i * 4)"

fun verify_from :: "bytes \<Rightarrow> bytes \<Rightarrow> nat \<Rightarrow> (nat \<times> nat) list \<Rightarrow> (nat, unit) res" where
  "verify_from sec row i [] = Ok ()"
| "verify_from sec row i ((a, b) # ps) =
    bind_res (lift_res (slice sec a b)) (\<lambda>s.
      case piece_crc row i of
        None \<Rightarrow> Err USIZE_MAX
      | Some c \<Rightarrow> if crc32 s \<noteq> c then Err i else verify_from sec row (i + 1) ps)"

definition verify_pieces :: "bytes \<Rightarrow> nat \<Rightarrow> nat \<Rightarrow> nat \<Rightarrow> (nat, unit) res" where
  "verify_pieces sec crc_off shift base =
    (case checked_add crc_off (checksum_row_len crc_off shift base) of
       None \<Rightarrow> Err USIZE_MAX
     | Some e \<Rightarrow>
         (case slice sec crc_off e of
            None \<Rightarrow> Err USIZE_MAX
          | Some row \<Rightarrow> verify_from sec row 0 (pieces crc_off shift base)))"

subsection \<open>The pieces tile the content\<close>

lemma pieces_from_bounds: "(a, b) \<in> set (pieces_from len shift base at) \<Longrightarrow> at \<le> a \<and> a < b \<and> b \<le> len"
proof (induction len shift base at rule: pieces_from.induct)
  case (1 len shift base at)
  show ?case
  proof (cases "len \<le> at")
    case True
    then show ?thesis using 1(2) by (simp add: pieces_from.simps)
  next
    case False
    have e: "piece_end len shift base at \<le> len" by (simp add: piece_end_def)
    have g: "at < piece_end len shift base at" using False by (intro piece_end_gt) simp
    have "(a, b) = (at, piece_end len shift base at) \<or> (a, b) \<in> set (pieces_from len shift base (piece_end len shift base at))"
      using 1(2) False by (subst (asm) pieces_from.simps) simp
    then show ?thesis using 1(1) [OF False] e g by fastforce
  qed
qed

lemma pieces_from_cover: "at \<le> x \<Longrightarrow> x < len \<Longrightarrow> \<exists>(a, b) \<in> set (pieces_from len shift base at). a \<le> x \<and> x < b"
proof (induction len shift base at rule: pieces_from.induct)
  case (1 len shift base at)
  then have n: "\<not> len \<le> at" by simp
  show ?case
  proof (cases "x < piece_end len shift base at")
    case True
    then show ?thesis using 1(2) n by (subst pieces_from.simps) auto
  next
    case False
    then show ?thesis using 1(1) [OF n _ 1(3)] n by (subst pieces_from.simps) auto
  qed
qed

lemma div_ceil_add: "0 < P \<Longrightarrow> div_ceil (P + d) P = Suc (div_ceil d P)"
proof -
  assume P: "0 < P"
  then have "P + d + P - 1 = (d + P - 1) + P" by simp
  then show ?thesis unfolding div_ceil_def using div_add_self2 [of P "d + P - 1"] P by (simp only:)
qed

lemma div_ceil_one: "0 < d \<Longrightarrow> d \<le> P \<Longrightarrow> div_ceil d P = Suc 0"
  by (simp add: div_ceil_def div_nat_eqI)

lemma pieces_from_count: "0 < at \<Longrightarrow> at \<le> len \<Longrightarrow> length (pieces_from len shift base at) = div_ceil (len - at) (2 ^ shift)"
proof (induction len shift base at rule: pieces_from.induct)
  case (1 len shift base at)
  let ?P = "(2 :: nat) ^ shift"
  have P: "0 < ?P" by simp
  show ?case
  proof (cases "len \<le> at")
    case True
    then show ?thesis by (subst pieces_from.simps) (simp add: div_ceil_def)
  next
    case n: False
    have IH: "length (pieces_from len shift base (piece_end len shift base at)) = div_ceil (len - piece_end len shift base at) ?P"
      by (rule 1(1) [OF n]) (use 1(2) n in \<open>auto simp: piece_end_def\<close>)
    have l: "length (pieces_from len shift base at) = Suc (div_ceil (len - piece_end len shift base at) ?P)"
      using n IH by (subst pieces_from.simps) simp
    show ?thesis
    proof (cases "at + ?P \<le> len")
      case True
      then have "piece_end len shift base at = at + ?P" "len - at = ?P + (len - (at + ?P))" using 1(2) by (simp_all add: piece_end_def)
      then show ?thesis using l div_ceil_add [OF P] by metis
    next
      case False
      then have "piece_end len shift base at = len" using 1(2) by (simp add: piece_end_def)
      then show ?thesis using l div_ceil_one [of "len - at" ?P] n False by (simp add: div_ceil_def)
    qed
  qed
qed

lemma pieces_count:
  assumes "0 < len"
  shows "length (pieces len shift base) = piece_count len shift base"
proof -
  let ?P = "(2 :: nat) ^ shift" and ?r = "base mod 2 ^ shift" and ?e = "piece_end len shift base 0"
  have r: "?r < ?P" by simp
  have P: "0 < ?P" by simp
  have e: "0 < ?e" "?e \<le> len" "?e = min (?P - ?r) len" using assms r by (auto simp: piece_end_def)
  have l: "length (pieces len shift base) = Suc (div_ceil (len - ?e) ?P)"
    unfolding pieces_def using assms pieces_from_count [OF e(1,2), of shift base] by (subst pieces_from.simps) simp
  show ?thesis
  proof (cases "?P - ?r \<le> len")
    case True
    then have "?r + len = ?P + (len - ?e)" using e(3) r by linarith
    then show ?thesis using l div_ceil_add [OF P] unfolding piece_count_def by metis
  next
    case False
    then have "?r + len \<le> ?P" "?e = len" using e(3) by linarith+
    then show ?thesis using l div_ceil_one [of "?r + len" ?P] assms by (simp add: piece_count_def div_ceil_def)
  qed
qed

lemma pieces_bounds: "(a, b) \<in> set (pieces len shift base) \<Longrightarrow> a < b \<and> b \<le> len"
  using pieces_from_bounds by (auto simp: pieces_def)

subsection \<open>Rows\<close>

definition window :: "bytes \<Rightarrow> nat \<times> nat \<Rightarrow> bytes" where
  "window sec p = take (snd p - fst p) (drop (fst p) sec)"

definition row_bytes :: "bytes \<Rightarrow> (nat \<times> nat) list \<Rightarrow> bytes" where
  "row_bytes sec ps = concat (map (\<lambda>p. u32_le (crc32 (window sec p))) ps)"

lemma length_row_bytes [simp]: "length (row_bytes sec ps) = length ps * 4"
  by (simp add: row_bytes_def length_concat_const [of _ 4])

lemma row_of_eq: "\<forall>p \<in> set ps. fst p \<le> snd p \<and> snd p \<le> length sec \<Longrightarrow> row_of sec ps = Some (row_bytes sec ps)"
  by (induction ps) (auto simp: row_bytes_def window_def)

lemma piece_crc_row:
  assumes "k < length ps"
  shows "piece_crc (row_bytes sec ps) k = Some (crc32 (window sec (ps ! k)))"
proof -
  have "row_bytes sec ps = concat (map u32_le (map (\<lambda>p. crc32 (window sec p)) ps))" by (simp add: row_bytes_def comp_def)
  then show ?thesis using rd_words [of k "map (\<lambda>p. crc32 (window sec p)) ps" "[]" "[]"] assms by (simp add: piece_crc_def mult.commute)
qed

text \<open>The verdict over a list of pieces: no mismatch, or the first.\<close>

lemma verify_from_verdict:
  assumes "\<forall>p \<in> set ps. fst p \<le> snd p \<and> snd p \<le> length sec" and "\<And>k. k < length ps \<Longrightarrow> piece_crc row (i + k) = Some (c k)"
  shows "if \<forall>k < length ps. crc32 (window sec (ps ! k)) = c k then verify_from sec row i ps = Ok ()
    else \<exists>k < length ps. crc32 (window sec (ps ! k)) \<noteq> c k \<and> verify_from sec row i ps = Err (i + k)"
  using assms
proof (induction ps arbitrary: i c)
  case Nil
  then show ?case by simp
next
  case (Cons p ps)
  obtain a b where p: "p = (a, b)" by (cases p)
  have w: "slice sec a b = Some (window sec p)" using Cons.prems(1) by (simp add: p window_def)
  have r: "piece_crc row i = Some (c 0)" using Cons.prems(2) [of 0] by simp
  have v: "verify_from sec row i (p # ps) = (if crc32 (window sec p) \<noteq> c 0 then Err i else verify_from sec row (i + 1) ps)"
    by (simp add: p r w [unfolded p])
  have all: "(\<forall>k < length (p # ps). crc32 (window sec ((p # ps) ! k)) = c k) \<longleftrightarrow>
      crc32 (window sec p) = c 0 \<and> (\<forall>k < length ps. crc32 (window sec (ps ! k)) = c (Suc k))"
    by (metis Suc_less_eq length_Cons less_Suc_eq_0_disj nth_Cons_0 nth_Cons_Suc zero_less_Suc)
  have IH: "if \<forall>k < length ps. crc32 (window sec (ps ! k)) = c (Suc k) then verify_from sec row (i + 1) ps = Ok ()
      else \<exists>k < length ps. crc32 (window sec (ps ! k)) \<noteq> c (Suc k) \<and> verify_from sec row (i + 1) ps = Err (i + 1 + k)"
    by (rule Cons.IH) (use Cons.prems(1) Cons.prems(2) [of "Suc k" for k] in auto)
  show ?case
  proof (cases "crc32 (window sec p) = c 0")
    case False
    then show ?thesis unfolding all v by (auto intro!: exI [of _ 0])
  next
    case True
    show ?thesis
    proof (cases "\<forall>k < length ps. crc32 (window sec (ps ! k)) = c (Suc k)")
      case all': True
      then show ?thesis using IH True unfolding all v by simp
    next
      case False
      from IH obtain k where "k < length ps" "crc32 (window sec (ps ! k)) \<noteq> c (Suc k)" "verify_from sec row (i + 1) ps = Err (i + 1 + k)"
        unfolding if_not_P [OF False] by blast
      then show ?thesis using True False unfolding all v by (auto intro!: exI [of _ "Suc k"])
    qed
  qed
qed

subsection \<open>Sections with a row\<close>

lemma rows_fit: "\<forall>p \<in> set (pieces len shift base). fst p \<le> snd p \<and> snd p \<le> len"
proof
  fix p
  assume "p \<in> set (pieces len shift base)"
  then have "fst p < snd p \<and> snd p \<le> len" using pieces_bounds [of "fst p" "snd p"] by simp
  then show "fst p \<le> snd p \<and> snd p \<le> len" by simp
qed

lemma checksum_row_eq: "checksum_row sec shift base = Some (row_bytes sec (pieces (length sec) shift base))"
  unfolding checksum_row_def by (rule row_of_eq [OF rows_fit])

text \<open>Any section followed by a row: the verdict of the reader, piece by piece.\<close>

lemma verify_pieces_verdict:
  assumes len: "0 < len" and fit: "len \<le> length sec" and row: "length row = checksum_row_len len shift base"
    and max: "len + length row \<le> USIZE_MAX" and out: "out = take len sec @ row"
    and c: "\<And>k. k < length (pieces len shift base) \<Longrightarrow> piece_crc row k = Some (c k)"
  shows "if \<forall>k < length (pieces len shift base). crc32 (window sec (pieces len shift base ! k)) = c k then verify_pieces out len shift base = Ok ()
    else \<exists>k < length (pieces len shift base). crc32 (window sec (pieces len shift base ! k)) \<noteq> c k \<and> verify_pieces out len shift base = Err k"
proof -
  let ?ps = "pieces len shift base"
  have v: "verify_pieces out len shift base = verify_from out row 0 ?ps"
    using max fit unfolding verify_pieces_def row [symmetric] by (simp add: checked_add_def out)
  have w: "window out p = window sec p" if "p \<in> set ?ps" for p
  proof -
    have "fst p \<le> snd p" "snd p \<le> len" using rows_fit that by auto
    then show ?thesis using fit by (simp add: window_def out drop_take min_def)
  qed
  have wk: "window out (?ps ! k) = window sec (?ps ! k)" if "k < length ?ps" for k by (rule w) (use that in simp)
  have f: "\<forall>p \<in> set ?ps. fst p \<le> snd p \<and> snd p \<le> length out" using rows_fit [of len shift base] fit by (force simp: out)
  have "if \<forall>k < length ?ps. crc32 (window out (?ps ! k)) = c k then verify_from out row 0 ?ps = Ok ()
      else \<exists>k < length ?ps. crc32 (window out (?ps ! k)) \<noteq> c k \<and> verify_from out row 0 ?ps = Err (0 + k)"
    by (rule verify_from_verdict [OF f]) (use c in simp)
  then show ?thesis unfolding v using wk by (auto split: if_splits)
qed

text \<open>Two buffers that differ only within four consecutive bytes have different checksums.\<close>

lemma crc_differs:
  assumes l: "length x = length y" and eq: "\<And>i. i < length x \<Longrightarrow> \<not> (p \<le> i \<and> i < p + 4) \<Longrightarrow> x ! i = y ! i" and ne: "x \<noteq> y"
  shows "crc32 x \<noteq> crc32 y"
proof
  assume c: "crc32 x = crc32 y"
  let ?t = "\<lambda>z. take p z" and ?m = "\<lambda>z. take 4 (drop p z)" and ?d = "\<lambda>z. drop (p + 4) z"
  have t: "?t x = ?t y" by (rule nth_equalityI) (use l eq in auto)
  have d: "?d x = ?d y" by (rule nth_equalityI) (use l eq in auto)
  have s: "z = ?t z @ ?m z @ ?d z" for z :: bytes by (metis append_take_drop_id drop_drop add.commute)
  have "crc32 (?t x @ ?m x @ ?d x) = crc32 (?t x @ ?m y @ ?d x)" using c s [of x] s [of y] t d by simp
  then have "?m x = ?m y" by (rule crc.burst_law [rotated 2]) (use l in auto)
  then show False using ne s [of x] s [of y] t d by simp
qed

lemma set_checksum_words_eq:
  assumes "length a = W_CRC_OFF" and "length m = 16"
  shows "set_checksum_words (a @ m @ b) len = Some (a @ u64_le (word_of_nat len) @ u64_le (word_of_nat PIECE_SHIFT) @ b)"
proof -
  obtain m1 m2 where m: "m = m1 @ m2" "length m1 = 8" "length m2 = 8"
    using assms(2) by (intro that [of "take 8 m" "drop 8 m"]) simp_all
  have "put (a @ m1 @ (m2 @ b)) W_CRC_OFF (u64_le (word_of_nat len)) = Some (a @ u64_le (word_of_nat len) @ (m2 @ b))"
    by (rule put_at) (use assms m in simp_all)
  moreover have "put ((a @ u64_le (word_of_nat len)) @ m2 @ b) W_PIECE_SHIFT (u64_le (word_of_nat PIECE_SHIFT)) =
      Some ((a @ u64_le (word_of_nat len)) @ u64_le (word_of_nat PIECE_SHIFT) @ b)"
    by (rule put_at) (use assms m in \<open>simp_all add: W_CRC_OFF_def W_PIECE_SHIFT_def\<close>)
  ultimately show ?thesis by (simp add: set_checksum_words_def m(1))
qed

lemma checksum_words_eq:
  assumes "length a = W_CRC_OFF" and "0 < len" and "len \<le> USIZE_MAX"
  shows "checksum_words (a @ u64_le (word_of_nat len) @ u64_le (word_of_nat PIECE_SHIFT) @ b) = Some (Some (len, PIECE_SHIFT))"
proof -
  have u: "unat (word_of_nat len :: u64) = len" using assms(3) by (simp add: unat_of_nat USIZE_MAX_def)
  then have n: "(word_of_nat len :: u64) \<noteq> 0" using assms(2) by auto
  have r1: "rd_u64 (a @ u64_le (word_of_nat len) @ u64_le (word_of_nat PIECE_SHIFT) @ b) W_CRC_OFF = Some (word_of_nat len)"
    by (rule rd_u64_at) (use assms in simp)
  have r2: "rd_u64 ((a @ u64_le (word_of_nat len)) @ u64_le (word_of_nat PIECE_SHIFT) @ b) W_PIECE_SHIFT = Some (word_of_nat PIECE_SHIFT)"
    by (rule rd_u64_at) (use assms in \<open>simp add: W_CRC_OFF_def W_PIECE_SHIFT_def\<close>)
  show ?thesis unfolding checksum_words_def r1 using r2 n u by (simp add: PIECE_SHIFT_def)
qed

text \<open>A section taken apart at its two checksum words.\<close>

lemma split_words:
  assumes "176 \<le> length (sec :: bytes)"
  obtains a m b where "sec = a @ m @ b" and "length a = W_CRC_OFF" and "length m = 16"
proof
  show "sec = take 160 sec @ take 16 (drop 160 sec) @ drop 176 sec"
    using append_take_drop_id [of 160 sec] append_take_drop_id [of 16 "drop 160 sec"] by simp
qed (use assms in \<open>simp_all add: W_CRC_OFF_def\<close>)

lemma with_checksums_eq:
  assumes "176 \<le> length sec"
  obtains a m b c where "sec = a @ m @ b" and "length a = W_CRC_OFF" and "length m = 16"
    and "c = a @ u64_le (word_of_nat (length sec)) @ u64_le (word_of_nat PIECE_SHIFT) @ b" and "length c = length sec"
    and "with_checksums sec base = Some (c @ row_bytes c (pieces (length sec) PIECE_SHIFT base))"
proof -
  obtain a m b where s: "sec = a @ m @ b" "length a = W_CRC_OFF" "length m = 16" by (rule split_words [OF assms])
  define c where "c = a @ u64_le (word_of_nat (length sec)) @ u64_le (word_of_nat PIECE_SHIFT) @ b"
  have l: "length c = length sec" using s by (simp add: c_def)
  have "set_checksum_words sec (length sec) = Some c" unfolding s(1) set_checksum_words_eq [OF s(2,3)] by (simp add: c_def s(1))
  then have "with_checksums sec base = Some (c @ row_bytes c (pieces (length sec) PIECE_SHIFT base))"
    by (simp add: with_checksums_def checksum_row_eq l)
  then show ?thesis using that [OF s c_def l] by simp
qed

lemma section_row:
  assumes len: "176 \<le> length sec" and max: "length sec + checksum_row_len (length sec) PIECE_SHIFT base \<le> USIZE_MAX"
  shows "\<exists>out. with_checksums sec base = Some out \<and> length out = length sec + checksum_row_len (length sec) PIECE_SHIFT base \<and>
    checksum_words out = Some (Some (length sec, PIECE_SHIFT)) \<and> verify_pieces out (length sec) PIECE_SHIFT base = Ok () \<and>
    take W_CRC_OFF out = take W_CRC_OFF sec \<and> drop 176 (take (length sec) out) = drop 176 sec"
proof -
  let ?ps = "pieces (length sec) PIECE_SHIFT base"
  have ne: "sec \<noteq> []" using len by auto
  obtain a m b c where c: "sec = a @ m @ b" "length a = W_CRC_OFF" "length m = 16"
      "c = a @ u64_le (word_of_nat (length sec)) @ u64_le (word_of_nat PIECE_SHIFT) @ b" "length c = length sec"
      "with_checksums sec base = Some (c @ row_bytes c ?ps)"
    by (rule with_checksums_eq [OF len])
  have n: "length ?ps * 4 = checksum_row_len (length sec) PIECE_SHIFT base"
    unfolding checksum_row_len_def by (subst pieces_count) (use len in linarith, simp)
  have w: "checksum_words (c @ row_bytes c ?ps) = Some (Some (length sec, PIECE_SHIFT))"
    using checksum_words_eq [OF c(2), of "length sec" "b @ row_bytes c ?ps"] ne max c(4) by simp
  have v: "verify_pieces (c @ row_bytes c ?ps) (length sec) PIECE_SHIFT base = Ok ()"
    using verify_pieces_verdict [of "length sec" c "row_bytes c ?ps" PIECE_SHIFT base "c @ row_bytes c ?ps" "\<lambda>k. crc32 (window c (?ps ! k))"]
      ne max n c(5) by (simp add: piece_crc_row)
  have d: "drop 176 c = b" "drop 176 sec = b" using c(1-4) by (simp_all add: W_CRC_OFF_def)
  have t: "take (length sec) (c @ row_bytes c ?ps) = c" using c(5) by simp
  have "take W_CRC_OFF (c @ row_bytes c ?ps) = take W_CRC_OFF sec" using c(1,2,4) by simp
  then show ?thesis using c(5,6) w v n d t by auto
qed

subsection \<open>Properties\<close>

text \<open>
  C23: A section given its row names it in its header and verifies at the object
  offset it was written for; nothing of it changes but the two words that name the
  row.
\<close>

theorem section_verifies:
  assumes len: "176 \<le> length sec" and max: "length sec + checksum_row_len (length sec) PIECE_SHIFT base \<le> USIZE_MAX"
  shows "\<exists>out. with_checksums sec base = Some out \<and> length out = length sec + checksum_row_len (length sec) PIECE_SHIFT base \<and>
    checksum_words out = Some (Some (length sec, PIECE_SHIFT)) \<and> verify_pieces out (length sec) PIECE_SHIFT base = Ok () \<and>
    take W_CRC_OFF out = take W_CRC_OFF sec \<and> drop 176 (take (length sec) out) = drop 176 sec"
  by (rule section_row [OF assms])

theorem section_verifies_witness:
  "\<exists>out. with_checksums (replicate 192 7) 100 = Some out \<and>
    length out = length (replicate 192 (7 :: byte)) + checksum_row_len (length (replicate 192 (7 :: byte))) PIECE_SHIFT 100 \<and>
    checksum_words out = Some (Some (length (replicate 192 (7 :: byte)), PIECE_SHIFT)) \<and>
    verify_pieces out (length (replicate 192 (7 :: byte))) PIECE_SHIFT 100 = Ok () \<and>
    take W_CRC_OFF out = take W_CRC_OFF (replicate 192 7) \<and> drop 176 (take (length (replicate 192 (7 :: byte))) out) = drop 176 (replicate 192 7)"
  by (rule section_verifies) (simp_all add: USIZE_MAX_def checksum_row_len_def piece_count_def div_ceil_def PIECE_SHIFT_def)

text \<open>
  C24: Damage to a section's content is refused. Up to four consecutive bytes
  overwritten anywhere in it but in the two words that name the row, within a piece
  or across two, leave the words readable and some piece's checksum wrong, and the
  verdict names such a piece.
\<close>

theorem section_damage_refused:
  assumes len: "176 \<le> length sec" and max: "length sec + checksum_row_len (length sec) PIECE_SHIFT base \<le> USIZE_MAX"
    and out: "with_checksums sec base = Some out"
    and w: "length w \<le> 4" "at + length w \<le> length sec" "at + length w \<le> W_CRC_OFF \<or> 176 \<le> at" "blit out at w \<noteq> out"
  shows "checksum_words (blit out at w) = Some (Some (length sec, PIECE_SHIFT)) \<and>
    (\<exists>k < piece_count (length sec) PIECE_SHIFT base. verify_pieces (blit out at w) (length sec) PIECE_SHIFT base = Err k)"
proof -
  let ?ps = "pieces (length sec) PIECE_SHIFT base"
  have ne: "sec \<noteq> []" using len by auto
  obtain a m b c where c: "sec = a @ m @ b" "length a = W_CRC_OFF" "length m = 16"
      "c = a @ u64_le (word_of_nat (length sec)) @ u64_le (word_of_nat PIECE_SHIFT) @ b" "length c = length sec"
      "with_checksums sec base = Some (c @ row_bytes c ?ps)"
    by (rule with_checksums_eq [OF len])
  let ?row = "row_bytes c ?ps" and ?d = "blit c at w"
  have o: "out = c @ ?row" using out c(6) by simp
  have bo: "blit out at w = ?d @ ?row" using w(2) c(5) by (simp add: o blit_def)
  have ld: "length ?d = length sec" using w(2) c(5) by simp
  have cs: "length ?ps = piece_count (length sec) PIECE_SHIFT base" by (rule pieces_count) (use len in linarith)
  then have n: "length ?ps * 4 = checksum_row_len (length sec) PIECE_SHIFT base" by (simp add: checksum_row_len_def)
  have "\<exists>a' b'. length a' = W_CRC_OFF \<and> ?d = a' @ u64_le (word_of_nat (length sec)) @ u64_le (word_of_nat PIECE_SHIFT) @ b'"
  proof (cases "at + length w \<le> W_CRC_OFF")
    case True
    then have "?d = blit a at w @ u64_le (word_of_nat (length sec)) @ u64_le (word_of_nat PIECE_SHIFT) @ b"
      using c(2) by (simp add: c(4) blit_def)
    then show ?thesis using True c(2) by (metis length_blit)
  next
    case False
    then have "176 \<le> at" using w(3) by simp
    then have "?d = a @ u64_le (word_of_nat (length sec)) @ u64_le (word_of_nat PIECE_SHIFT) @ blit b (at - 176) w"
      using c(2) by (simp add: c(4) blit_def W_CRC_OFF_def)
    then show ?thesis using c(2) by blast
  qed
  then obtain a' b' where d: "length a' = W_CRC_OFF" "?d = a' @ u64_le (word_of_nat (length sec)) @ u64_le (word_of_nat PIECE_SHIFT) @ b'" by blast
  have cw: "checksum_words (blit out at w) = Some (Some (length sec, PIECE_SHIFT))"
    unfolding bo d(2) using checksum_words_eq [OF d(1), of "length sec" "b' @ ?row"] ne max by simp
  have "?d \<noteq> c" using w(4) bo o by auto
  then obtain i where i: "i < length sec" "?d ! i \<noteq> c ! i" using ld c(5) by (metis nth_equalityI)
  then have iw: "at \<le> i" "i < at + length w" using nth_blit [of at w c i] w(2) c(5) by (auto split: if_splits)
  obtain p where p: "p \<in> set ?ps" "fst p \<le> i" "i < snd p" using pieces_from_cover [of 0 i "length sec" PIECE_SHIFT base] i(1) by (force simp: pieces_def)
  obtain k where k: "k < length ?ps" "?ps ! k = p" using p(1) by (auto simp: in_set_conv_nth)
  have pb: "snd p \<le> length sec" using rows_fit p(1) by blast
  have "crc32 (window ?d p) \<noteq> crc32 (window c p)"
  proof (rule crc_differs)
    show "length (window ?d p) = length (window c p)" using ld c(5) by (simp add: window_def)
    have "window ?d p ! (i - fst p) \<noteq> window c p ! (i - fst p)" using p i pb ld c(5) by (simp add: window_def)
    then show "window ?d p \<noteq> window c p" by auto
    show "window ?d p ! j = window c p ! j" if "j < length (window ?d p)" "\<not> (at - fst p \<le> j \<and> j < at - fst p + 4)" for j
    proof -
      have j: "fst p + j < length c" "j < snd p - fst p" using that(1) pb ld c(5) by (simp_all add: window_def)
      have "\<not> (at \<le> fst p + j \<and> fst p + j < at + length w)" using that(2) w(1) by auto
      then have "?d ! (fst p + j) = c ! (fst p + j)" using nth_blit [of at w c "fst p + j"] w(2) c(5) j by auto
      then show ?thesis using j pb ld c(5) by (simp add: window_def)
    qed
  qed
  then have "\<not> (\<forall>k < length ?ps. crc32 (window ?d (?ps ! k)) = crc32 (window c (?ps ! k)))" using k by blast
  then have "\<exists>k < length ?ps. verify_pieces (blit out at w) (length sec) PIECE_SHIFT base = Err k"
    using verify_pieces_verdict [of "length sec" ?d ?row PIECE_SHIFT base "blit out at w" "\<lambda>k. crc32 (window c (?ps ! k))"]
      ne max n ld bo by (simp add: piece_crc_row split: if_splits) blast
  then show ?thesis using cw cs by simp
qed

theorem section_damage_refused_witness:
  "\<exists>out. with_checksums (replicate 192 7) 100 = Some out \<and> checksum_words (blit out 30 [out ! 30 + 1]) = Some (Some (length (replicate 192 (7 :: byte)), PIECE_SHIFT)) \<and>
    (\<exists>k < piece_count (length (replicate 192 (7 :: byte))) PIECE_SHIFT 100.
      verify_pieces (blit out 30 [out ! 30 + 1]) (length (replicate 192 (7 :: byte))) PIECE_SHIFT 100 = Err k)"
proof -
  let ?s = "replicate 192 (7 :: byte)"
  have l: "176 \<le> length ?s" by simp
  obtain c where "length c = length ?s" "with_checksums ?s 100 = Some (c @ row_bytes c (pieces (length ?s) PIECE_SHIFT 100))"
    by (rule with_checksums_eq [OF l, of 100])
  then obtain out where o: "with_checksums ?s 100 = Some out" "192 \<le> length out" by simp
  have "blit out 30 [out ! 30 + 1] ! 30 = out ! 30 + 1" using nth_blit [of 30 "[out ! 30 + 1]" out 30] o(2) by simp
  then have "blit out 30 [out ! 30 + 1] \<noteq> out" by auto
  then show ?thesis using o(1)
    by (intro exI [of _ out] conjI o(1) section_damage_refused [THEN conjunct1] section_damage_refused [THEN conjunct2])
      (simp_all add: USIZE_MAX_def checksum_row_len_def piece_count_def div_ceil_def PIECE_SHIFT_def W_CRC_OFF_def)
qed

end
