(* ===== verification/Flat_Index.thy ===== *)
theory Flat_Index
  imports Records Hash_Table Pieces "HOL-Library.List_Lexorder"
begin

text \<open>
  The key index of a segment, read where it lies (flatindex.rs): the header and the
  trailer a records-first section takes, the header parsed and its regions checked,
  point reads through the hash, ordered reads through the directory, and the seek,
  which the fence narrows and the records decide. A reader takes the address its
  section lies at, since an extent array is borrowed in place. Keys are compared as
  byte strings, lexicographically.
\<close>

subsection \<open>Constants\<close>

definition MAGIC :: u32 where "MAGIC = 0x58494653"
definition VERSION :: u32 where "VERSION = 3"
definition HEADER :: nat where "HEADER = 192"
definition FENCE_MIN_STRIDE :: nat where "FENCE_MIN_STRIDE = 16"
definition MAX_RECS :: nat where "MAX_RECS = U32_MAX"
definition DIR_STATE_AT :: nat where "DIR_STATE_AT = 152"
definition BUMP_AT :: nat where "BUMP_AT = 112"

text \<open>The smallest power of two not below a number, from its bit length; None is the overflow.\<close>

fun bit_len :: "nat \<Rightarrow> nat" where
  "bit_len n = (if n = 0 then 0 else Suc (bit_len (n div 2)))"

declare bit_len.simps [simp del]

definition next_power_of_two :: "nat \<Rightarrow> nat option" where
  "next_power_of_two n = (let p = 2 ^ bit_len (n - 1) in if p \<le> USIZE_MAX then Some p else None)"

text \<open>The target number of fence entries is read from the environment; zero divides by zero.\<close>

definition fence_stride :: "nat \<Rightarrow> nat \<Rightarrow> nat option" where
  "fence_stride target n =
    (if target = 0 then None else next_power_of_two (max (div_ceil n target) FENCE_MIN_STRIDE))"

subsection \<open>The writer's trailer\<close>

definition pad_to :: "bytes \<Rightarrow> nat \<Rightarrow> nat \<Rightarrow> bytes \<times> nat" where
  "pad_to t at align = (let want = align_up at align in (t @ replicate (want - at) 0, want))"

fun fence_fill :: "(nat \<Rightarrow> bytes) \<Rightarrow> nat \<Rightarrow> nat list \<Rightarrow> bytes \<Rightarrow> bytes \<Rightarrow> bytes \<times> bytes" where
  "fence_fill key_at stride [] offs blob = (offs @ u32_le (word_of_nat (length blob)), blob)"
| "fence_fill key_at stride (i # is) offs blob =
    fence_fill key_at stride is (offs @ u32_le (word_of_nat (length blob))) (blob @ key_at (i * stride))"

text \<open>A key's offset goes into its directory word as the table asks for it.\<close>

definition dir_asker :: "(nat \<Rightarrow> 's \<Rightarrow> ((u32 \<times> u64) \<times> 's) option) \<Rightarrow> (bytes \<times> 's) asker" where
  "dir_asker each i dst =
    do { let (dir, st) = dst;
         ((off, h), st) \<leftarrow> each i st;
         dir \<leftarrow> put dir (i * 4) (u32_le off);
         Some ((h, off), (dir, st)) }"

fun header_words :: "bytes \<Rightarrow> nat \<Rightarrow> u64 list \<Rightarrow> bytes option" where
  "header_words h i [] = Some h"
| "header_words h i (v # vs) = do { h \<leftarrow> put h (8 + i * 8) (u64_le v); header_words h (i + 1) vs }"

definition trailer_header :: "u64 list \<Rightarrow> bytes option" where
  "trailer_header ws =
    do { h \<leftarrow> put (replicate HEADER 0) 0 (u32_le MAGIC);
         h \<leftarrow> put h 4 (u32_le VERSION);
         header_words h 0 ws }"

text \<open>None is a panic, Some None the refusal; the closure's state comes back beside the answer.\<close>

definition stream_trailer ::
  "nat \<Rightarrow> nat \<Rightarrow> nat \<Rightarrow> (nat \<Rightarrow> bytes) \<Rightarrow> (nat \<Rightarrow> 's \<Rightarrow> ((u32 \<times> u64) \<times> 's) option) \<Rightarrow> 's \<Rightarrow> u64 \<Rightarrow> bool \<Rightarrow>
    ((bytes \<times> bytes \<times> nat) \<times> 's) option option" where
  "stream_trailer target n recs_len key_at each st generation lookahead =
    (if MAX_RECS < recs_len then Some None
     else case hash_cap_for n of
       None \<Rightarrow> Some None
     | Some cap \<Rightarrow>
        do { let recs_off = HEADER;
             let msk = cap - 1;
             let (t, at) = pad_to [] (recs_off + recs_len) 4;
             stride \<leftarrow> fence_stride target n;
             let fence_n = div_ceil n stride;
             let fence_offs_off = at;
             let (t, at) = (if 0 < fence_n
                            then let (offs, blob) = fence_fill key_at stride [0..<fence_n] [] []
                                 in (t @ offs @ blob, at + (fence_n + 1) * 4 + length blob)
                            else (t, at));
             let (t, at) = pad_to t at 4;
             let dir_off = at;
             let (dir, at) = pad_to (replicate (n * 4) 0) (at + n * 4) 8;
             let hash_off = at;
             (slots, (dir, st)) \<leftarrow> fill_hash (replicate (cap * SLOT) 0) msk n (dir_asker each) (dir, st) lookahead;
             let total = at + cap * SLOT;
             h \<leftarrow> trailer_header
                   [generation, 0, 0, 0, 0, 0, word_of_nat n, word_of_nat cap, word_of_nat hash_off, word_of_nat dir_off,
                    word_of_nat recs_off, word_of_nat recs_len, word_of_nat recs_len, word_of_nat recs_len,
                    word_of_nat fence_offs_off, word_of_nat fence_n, word_of_nat stride, 0, 0];
             Some (Some ((h, t @ dir @ slots, total), st)) })"

subsection \<open>The header\<close>

definition is_flat :: "bytes \<Rightarrow> bool" where
  "is_flat sec \<longleftrightarrow> rd_u32 sec 0 = Some MAGIC \<and> rd_u32 sec 4 = Some VERSION"

text \<open>A header word as a size; a power of two; a sum that wraps.\<close>

definition rd_size :: "bytes \<Rightarrow> nat \<Rightarrow> nat option" where
  "rd_size sec at = map_option unat (rd_u64 sec at)"

definition is_power_of_two :: "nat \<Rightarrow> bool" where
  "is_power_of_two n \<longleftrightarrow> n \<noteq> 0 \<and> n AND (n - 1) = 0"

definition wrapping_add :: "nat \<Rightarrow> nat \<Rightarrow> nat" where
  "wrapping_add a b = (a + b) mod 2 ^ 64"

definition clamp :: "nat \<Rightarrow> nat \<Rightarrow> nat \<Rightarrow> nat" where
  "clamp x lo hi = (if x < lo then lo else if hi < x then hi else x)"

text \<open>Which directory is live, and how many keys it holds.\<close>

definition live_dir :: "nat \<Rightarrow> nat \<Rightarrow> nat \<Rightarrow> u64 \<Rightarrow> (nat \<times> nat) option" where
  "live_dir dir_off nkeys dir_cap dir_state =
    (if dir_cap = 0 then Some (dir_off, nkeys)
     else do { let live_off = unat (drop_bit 32 dir_state);
               let live_n = unat (dir_state AND 0xffffffff);
               m \<leftarrow> checked_mul dir_cap 4;
               second \<leftarrow> checked_add dir_off m;
               if live_off \<noteq> dir_off \<and> live_off \<noteq> second \<or> dir_cap < live_n then None else Some (live_off, live_n) })"

record section_header =
  h_generation :: u64
  h_nkeys :: nat
  h_hash_off :: nat
  h_hash_cap :: nat
  h_dir_off :: nat
  h_dir_base :: nat
  h_dir_cap :: nat
  h_recs_off :: nat
  h_recs_len :: nat
  h_bump :: nat
  h_fence_offs_off :: nat
  h_fence_n :: nat
  h_fence_stride :: nat
  h_crc_off :: nat
  h_piece_shift :: nat

definition header_parse :: "bytes \<Rightarrow> section_header option" where
  "header_parse sec =
    (if \<not> is_flat sec then None
     else do { nkeys \<leftarrow> rd_size sec 56;
               hash_cap \<leftarrow> rd_size sec 64;
               dir_base \<leftarrow> rd_size sec 80;
               recs_len \<leftarrow> rd_size sec 96;
               cap \<leftarrow> rd_size sec 104;
               let recs_cap = max cap recs_len;
               dir_cap \<leftarrow> rd_size sec 144;
               dir_state \<leftarrow> rd_u64 sec 152;
               if hash_cap = 0 \<or> \<not> is_power_of_two hash_cap then None
               else do { (dir_off, nkeys) \<leftarrow> live_dir dir_base nkeys dir_cap dir_state;
                         if hash_cap < nkeys then None
                         else do { generation \<leftarrow> rd_u64 sec 8;
                                   hash_off \<leftarrow> rd_size sec 72;
                                   recs_off \<leftarrow> rd_size sec 88;
                                   bump \<leftarrow> rd_size sec 112;
                                   fence_offs_off \<leftarrow> rd_size sec 120;
                                   fence_n \<leftarrow> rd_size sec 128;
                                   stride \<leftarrow> rd_size sec 136;
                                   cw \<leftarrow> checksum_words sec;
                                   Some \<lparr>h_generation = generation, h_nkeys = nkeys, h_hash_off = hash_off, h_hash_cap = hash_cap,
                                     h_dir_off = dir_off, h_dir_base = dir_base, h_dir_cap = dir_cap, h_recs_off = recs_off,
                                     h_recs_len = recs_len, h_bump = clamp bump recs_len recs_cap, h_fence_offs_off = fence_offs_off,
                                     h_fence_n = fence_n, h_fence_stride = stride,
                                     h_crc_off = (case cw of None \<Rightarrow> 0 | Some w \<Rightarrow> fst w),
                                     h_piece_shift = (case cw of None \<Rightarrow> 0 | Some w \<Rightarrow> snd w)\<rparr> } } })"

definition fence_span :: "section_header \<Rightarrow> nat \<Rightarrow> nat \<times> nat" where
  "fence_span h sec_len =
    (if h_fence_n h = 0 then (0, 0)
     else let start = h_fence_offs_off h
          in if start < HEADER \<or> sec_len < start then (0, 0)
             else let ends = filter (\<lambda>x. start < x) [h_hash_off h, h_dir_base h, h_recs_off h, h_crc_off h, sec_len];
                      e = min (if ends = [] then sec_len else Min (set ends)) sec_len
                  in (start, e - start))"

subsection \<open>The index over a section\<close>

record flat_index =
  fi_hash :: "nat \<times> nat"
  fi_dir :: "nat \<times> nat"
  fi_dir_cap :: nat
  fi_dir_base :: nat
  fi_recs :: "nat \<times> nat"
  fi_hash_cap :: nat
  fi_mask :: nat
  fi_nkeys :: nat
  fi_mean_record_len :: nat
  fi_recs_off :: nat
  fi_recs_cap :: nat
  fi_bump :: nat
  fi_fence_offs :: "nat \<times> nat"
  fi_fence_blob :: "nat \<times> nat"
  fi_fence_n :: nat
  fi_fence_stride :: nat
  fi_generation :: u64
  fi_prev :: "(u64 \<times> u64 \<times> u64 \<times> u64 \<times> u64) option"
  fi_crc_off :: nat
  fi_piece_shift :: nat

text \<open>A region outside the section or before the header's end; two regions that overlap.\<close>

definition region_bad :: "nat \<Rightarrow> nat \<times> nat \<Rightarrow> bool" where
  "region_bad len r \<longleftrightarrow> fst r < HEADER \<or> len < snd r \<or> snd r < fst r"

definition overlap :: "nat \<times> nat \<Rightarrow> nat \<times> nat \<Rightarrow> bool" where
  "overlap r s \<longleftrightarrow> fst r < snd s \<and> fst s < snd r \<and> fst r \<noteq> snd r \<and> fst s \<noteq> snd s"

text \<open>The fence of a header, or none: a fence that does not check out is dropped.\<close>

definition parse_fence ::
  "bytes \<Rightarrow> nat \<Rightarrow> nat \<Rightarrow> nat \<Rightarrow> nat \<Rightarrow> (nat \<times> nat) list \<Rightarrow> ((nat \<times> nat) \<times> (nat \<times> nat) \<times> nat \<times> nat) option" where
  "parse_fence sec nkeys fence_offs_off fence_n stride regions =
    (if fence_n = 0 \<or> stride = 0 \<or> nkeys < fence_n then None
     else if fence_n \<noteq> div_ceil nkeys stride then None
     else do { n1 \<leftarrow> checked_add fence_n 1;
               m \<leftarrow> checked_mul n1 4;
               offs_end \<leftarrow> checked_add fence_offs_off m;
               if fence_offs_off < HEADER \<or> length sec < offs_end then None
               else do { offs \<leftarrow> slice sec fence_offs_off offs_end;
                         blob_len \<leftarrow> rd_u32 offs (fence_n * 4);
                         blob_end \<leftarrow> checked_add offs_end (unat blob_len);
                         if length sec < blob_end then None
                         else if \<exists>r \<in> set regions. fence_offs_off < snd r \<and> fst r < blob_end \<and> fst r \<noteq> snd r \<and> fence_offs_off \<noteq> blob_end
                         then None
                         else Some ((fence_offs_off, offs_end), (offs_end, blob_end), fence_n, stride) } })"

text \<open>The three regions a header names, and the key count of the live directory, or None where a check fails.\<close>

definition section_regions ::
  "nat \<Rightarrow> nat \<Rightarrow> nat \<Rightarrow> nat \<Rightarrow> nat \<Rightarrow> nat \<Rightarrow> nat \<Rightarrow> nat \<Rightarrow> u64 \<Rightarrow> (nat \<times> (nat \<times> nat) \<times> (nat \<times> nat) \<times> (nat \<times> nat)) option" where
  "section_regions len nkeys hash_cap hash_off dir_base recs_off recs_cap dir_cap dir_state =
    (if hash_cap = 0 \<or> \<not> is_power_of_two hash_cap then None
     else do { (dir_off, nkeys) \<leftarrow> live_dir dir_base nkeys dir_cap dir_state;
               hm \<leftarrow> checked_mul hash_cap SLOT;
               hash_end \<leftarrow> checked_add hash_off hm;
               dir_end \<leftarrow> (if dir_cap = 0 then do { m \<leftarrow> checked_mul nkeys 4; checked_add dir_off m }
                           else do { m \<leftarrow> checked_mul dir_cap 8; Some (wrapping_add dir_base m) });
               recs_end \<leftarrow> checked_add recs_off recs_cap;
               let h = (hash_off, hash_end);
               let d = (dir_off, dir_end);
               let r = (recs_off, recs_end);
               if region_bad len h \<or> region_bad len d \<or> region_bad len r then None
               else if overlap h d \<or> overlap h r \<or> overlap d r then None
               else if hash_cap < nkeys then None
               else Some (nkeys, h, d, r) })"

text \<open>The checksum row's place: inside the section, past the header.\<close>

definition row_place :: "bytes \<Rightarrow> (nat \<times> nat) option" where
  "row_place sec =
    (case checksum_words sec of
       None \<Rightarrow> None
     | Some None \<Rightarrow> Some (0, 0)
     | Some (Some (off, shift)) \<Rightarrow> if off < HEADER \<or> length sec < off then None else Some (off, shift))"

definition flat_parse :: "bytes \<Rightarrow> flat_index option" where
  "flat_parse sec =
    (if \<not> is_flat sec then None
     else do { generation \<leftarrow> rd_u64 sec 8;
               prev_gen \<leftarrow> rd_u64 sec 16;
               prev_ts \<leftarrow> rd_u64 sec 24;
               prev_off \<leftarrow> rd_u64 sec 32;
               prev_stored \<leftarrow> rd_u64 sec 40;
               prev_unc \<leftarrow> rd_u64 sec 48;
               nkeys \<leftarrow> rd_size sec 56;
               hash_cap \<leftarrow> rd_size sec 64;
               hash_off \<leftarrow> rd_size sec 72;
               dir_base \<leftarrow> rd_size sec 80;
               recs_off \<leftarrow> rd_size sec 88;
               recs_len \<leftarrow> rd_size sec 96;
               cap \<leftarrow> rd_size sec 104;
               let recs_cap = max cap recs_len;
               bump \<leftarrow> rd_size sec 112;
               fence_offs_off \<leftarrow> rd_size sec 120;
               fence_n \<leftarrow> rd_size sec 128;
               stride \<leftarrow> rd_size sec 136;
               dir_cap \<leftarrow> rd_size sec 144;
               dir_state \<leftarrow> rd_u64 sec 152;
               (nkeys, h, d, r) \<leftarrow> section_regions (length sec) nkeys hash_cap hash_off dir_base recs_off recs_cap dir_cap dir_state;
               let f = (case parse_fence sec nkeys fence_offs_off fence_n stride [h, d, r] of
                          Some f \<Rightarrow> f | None \<Rightarrow> ((0, 0), (0, 0), 0, 0));
               (crc_off, piece_shift) \<leftarrow> row_place sec;
               Some \<lparr>fi_hash = h, fi_dir = d, fi_dir_cap = dir_cap, fi_dir_base = dir_base, fi_recs = r,
                 fi_hash_cap = hash_cap, fi_mask = hash_cap - 1, fi_nkeys = nkeys,
                 fi_mean_record_len = max (recs_len div max nkeys 1) 1, fi_recs_off = recs_off, fi_recs_cap = recs_cap,
                 fi_bump = clamp bump recs_len recs_cap, fi_fence_offs = fst f, fi_fence_blob = fst (snd f),
                 fi_fence_n = fst (snd (snd f)), fi_fence_stride = snd (snd (snd f)),
                 fi_generation = generation,
                 fi_prev = (if 0 < prev_off then Some (prev_gen, prev_ts, prev_off, prev_stored, prev_unc) else None),
                 fi_crc_off = crc_off, fi_piece_shift = piece_shift\<rparr> })"

definition fi_len :: "flat_index \<Rightarrow> nat" where "fi_len ix = fi_nkeys ix"

subsection \<open>Point reads\<close>

text \<open>The regions of an index, sliced out of its section.\<close>

definition hash_region :: "flat_index \<Rightarrow> bytes \<Rightarrow> bytes option" where
  "hash_region ix sec = slice sec (fst (fi_hash ix)) (snd (fi_hash ix))"

definition recs_region :: "flat_index \<Rightarrow> bytes \<Rightarrow> bytes option" where
  "recs_region ix sec = slice sec (fst (fi_recs ix)) (snd (fi_recs ix))"

definition dir_region :: "flat_index \<Rightarrow> bytes \<Rightarrow> bytes option" where
  "dir_region ix sec = slice sec (fst (fi_dir ix)) (snd (fi_dir ix))"

definition record_full :: "flat_index \<Rightarrow> nat \<Rightarrow> bytes \<Rightarrow> nat \<Rightarrow> (bytes \<times> exts \<times> bytes) option" where
  "record_full ix addr sec off =
    do { recs \<leftarrow> recs_region ix sec;
         (k, e, t, len) \<leftarrow> parse_record (addr + fst (fi_recs ix)) recs off;
         Some (k, e, t) }"

definition record_at :: "flat_index \<Rightarrow> nat \<Rightarrow> bytes \<Rightarrow> nat \<Rightarrow> (bytes \<times> exts) option" where
  "record_at ix addr sec off = map_option (\<lambda>(k, e, t). (k, e)) (record_full ix addr sec off)"

text \<open>What a probe takes: the record of the key, at the offset of a slot whose tag agrees.\<close>

definition lookup_hit :: "flat_index \<Rightarrow> nat \<Rightarrow> bytes \<Rightarrow> bytes \<Rightarrow> nat \<Rightarrow> (exts \<times> bytes) option" where
  "lookup_hit ix addr sec key off =
    (case record_full ix addr sec off of Some (k, exts, tail) \<Rightarrow> if k = key then Some (exts, tail) else None | None \<Rightarrow> None)"

definition key_probe :: "flat_index \<Rightarrow> nat \<Rightarrow> bytes \<Rightarrow> bytes \<Rightarrow> (bytes \<Rightarrow> u64) \<Rightarrow> bytes \<Rightarrow> (exts \<times> bytes) probe_end" where
  "key_probe ix addr sec key hash_of hash =
    (let h = hash_of key
     in probe hash (fi_mask ix) (hash_tag h) (lookup_hit ix addr sec key) (fi_hash_cap ix) (home_slot (fi_mask ix) h))"

definition lookup_full :: "flat_index \<Rightarrow> nat \<Rightarrow> bytes \<Rightarrow> bytes \<Rightarrow> (bytes \<Rightarrow> u64) \<Rightarrow> (exts \<times> bytes) option" where
  "lookup_full ix addr sec key hash_of =
    do { hash \<leftarrow> hash_region ix sec;
         case key_probe ix addr sec key hash_of hash of Hit_At a r \<Rightarrow> Some r | _ \<Rightarrow> None }"

definition lookup :: "flat_index \<Rightarrow> nat \<Rightarrow> bytes \<Rightarrow> bytes \<Rightarrow> (bytes \<Rightarrow> u64) \<Rightarrow> exts option" where
  "lookup ix addr sec key hash_of = map_option fst (lookup_full ix addr sec key hash_of)"

text \<open>The read that lends its extents to a continuation instead of returning them.\<close>

definition with_lookup :: "flat_index \<Rightarrow> nat \<Rightarrow> bytes \<Rightarrow> bytes \<Rightarrow> (bytes \<Rightarrow> u64) \<Rightarrow> (ext list \<Rightarrow> bytes \<Rightarrow> 'r) \<Rightarrow> 'r option" where
  "with_lookup ix addr sec key hash_of f =
    do { hash \<leftarrow> hash_region ix sec;
         recs \<leftarrow> recs_region ix sec;
         let h = hash_of key;
         let hit = (\<lambda>off. case parse_record (addr + fst (fi_recs ix)) recs off of
                            Some (k, exts, tail, len) \<Rightarrow>
                              if k = key then Some (case exts of OneExt e \<Rightarrow> f [e] tail | Borrowed es \<Rightarrow> f es tail) else None
                          | None \<Rightarrow> None);
         case probe hash (fi_mask ix) (hash_tag h) hit (fi_hash_cap ix) (home_slot (fi_mask ix) h) of
           Hit_At a r \<Rightarrow> Some r | _ \<Rightarrow> None }"

definition slot_of :: "flat_index \<Rightarrow> nat \<Rightarrow> bytes \<Rightarrow> bytes \<Rightarrow> (bytes \<Rightarrow> u64) \<Rightarrow> nat option" where
  "slot_of ix addr sec key hash_of =
    do { hash \<leftarrow> hash_region ix sec;
         case key_probe ix addr sec key hash_of hash of Hit_At a r \<Rightarrow> Some (fst (fi_hash ix) + a) | _ \<Rightarrow> None }"

definition slot_for_insert :: "flat_index \<Rightarrow> nat \<Rightarrow> bytes \<Rightarrow> bytes \<Rightarrow> (bytes \<Rightarrow> u64) \<Rightarrow> nat option" where
  "slot_for_insert ix addr sec key hash_of =
    do { hash \<leftarrow> hash_region ix sec;
         case key_probe ix addr sec key hash_of hash of Empty_At a \<Rightarrow> Some (fst (fi_hash ix) + a) | _ \<Rightarrow> None }"

definition slot_value :: "bytes \<Rightarrow> u32 \<Rightarrow> (bytes \<Rightarrow> u64) \<Rightarrow> u64" where
  "slot_value key rel hash_of = slot_word (hash_of key) rel"

subsection \<open>Ordered reads\<close>

definition record_off :: "flat_index \<Rightarrow> bytes \<Rightarrow> nat \<Rightarrow> nat option" where
  "record_off ix dir rank = (if fi_nkeys ix \<le> rank then None else map_option unat (rd_u32 dir (rank * 4)))"

definition key_at :: "flat_index \<Rightarrow> bytes \<Rightarrow> nat \<Rightarrow> bytes option" where
  "key_at ix sec rank =
    (if fi_nkeys ix \<le> rank then None
     else do { recs \<leftarrow> recs_region ix sec;
               dir \<leftarrow> dir_region ix sec;
               off \<leftarrow> rd_u32 dir (rank * 4);
               record_key recs (unat off) })"

definition regions :: "flat_index \<Rightarrow> bytes \<Rightarrow> (bytes \<times> bytes) option" where
  "regions ix sec = do { recs \<leftarrow> recs_region ix sec; dir \<leftarrow> dir_region ix sec; Some (recs, dir) }"

definition at_full_in :: "flat_index \<Rightarrow> nat \<Rightarrow> bytes \<Rightarrow> bytes \<Rightarrow> nat \<Rightarrow> (bytes \<times> exts \<times> bytes) option" where
  "at_full_in ix addr recs dir rank =
    (if fi_nkeys ix \<le> rank then None
     else do { off \<leftarrow> rd_u32 dir (rank * 4);
               (k, e, t, len) \<leftarrow> parse_record (addr + fst (fi_recs ix)) recs (unat off);
               Some (k, e, t) })"

definition at_full :: "flat_index \<Rightarrow> nat \<Rightarrow> bytes \<Rightarrow> nat \<Rightarrow> (bytes \<times> exts \<times> bytes) option" where
  "at_full ix addr sec rank = do { (recs, dir) \<leftarrow> regions ix sec; at_full_in ix addr recs dir rank }"

definition at_rank :: "flat_index \<Rightarrow> nat \<Rightarrow> bytes \<Rightarrow> nat \<Rightarrow> (bytes \<times> exts) option" where
  "at_rank ix addr sec rank = map_option (\<lambda>(k, e, t). (k, e)) (at_full ix addr sec rank)"

definition with_record_at :: "flat_index \<Rightarrow> nat \<Rightarrow> bytes \<Rightarrow> nat \<Rightarrow> (ext list \<Rightarrow> bytes \<Rightarrow> 'r) \<Rightarrow> 'r option" where
  "with_record_at ix addr sec rank f =
    (if fi_nkeys ix \<le> rank then None
     else do { recs \<leftarrow> recs_region ix sec;
               dir \<leftarrow> dir_region ix sec;
               off \<leftarrow> rd_u32 dir (rank * 4);
               (k, exts, tail, len) \<leftarrow> parse_record (addr + fst (fi_recs ix)) recs (unat off);
               Some (case exts of OneExt e \<Rightarrow> f [e] tail | Borrowed es \<Rightarrow> f es tail) })"

definition hash_bytes :: "flat_index \<Rightarrow> nat" where
  "hash_bytes ix = snd (fi_hash ix) - fst (fi_hash ix)"

definition record_span :: "flat_index \<Rightarrow> bytes \<Rightarrow> nat \<Rightarrow> nat \<Rightarrow> (nat \<times> nat) option" where
  "record_span ix dir rank n =
    (if fi_nkeys ix \<le> rank then None
     else do { let lst = min (saturating_add rank n) (fi_nkeys ix - 1);
               a \<leftarrow> rd_u32 dir (rank * 4);
               b \<leftarrow> rd_u32 dir (lst * 4);
               Some (unat a, max (unat b) (unat a)) })"

definition dir_span :: "flat_index \<Rightarrow> nat \<Rightarrow> nat \<Rightarrow> (nat \<times> nat) option" where
  "dir_span ix rank n =
    (if fi_nkeys ix \<le> rank then None else Some (rank * 4, min (saturating_add rank n) (fi_nkeys ix) * 4))"

text \<open>
  The first rank of a range whose key is not less: the loop the record search and
  both fence searches run. A key that will not read sorts as not less.
\<close>

function bisect :: "(nat \<Rightarrow> bytes option) \<Rightarrow> bytes \<Rightarrow> nat \<Rightarrow> nat \<Rightarrow> nat" where
  "bisect at key lo hi =
    (if lo < hi
     then let mid = lo + (hi - lo) div 2
          in case at mid of
               Some k \<Rightarrow> if k < key then bisect at key (mid + 1) hi else bisect at key lo mid
             | None \<Rightarrow> bisect at key lo mid
     else lo)"
  by pat_completeness auto
termination
  by (relation "measure (\<lambda>(at, key, lo, hi). hi - lo)") (auto simp: Let_def)

declare bisect.simps [simp del]

definition search :: "flat_index \<Rightarrow> bytes \<Rightarrow> bytes \<Rightarrow> nat \<Rightarrow> nat \<Rightarrow> nat" where
  "search ix sec key lo hi = bisect (key_at ix sec) key lo hi"

definition fence_key :: "flat_index \<Rightarrow> bytes \<Rightarrow> nat \<Rightarrow> bytes option" where
  "fence_key ix sec i =
    (if fi_fence_n ix \<le> i then None
     else do { offs \<leftarrow> slice sec (fst (fi_fence_offs ix)) (snd (fi_fence_offs ix));
               a \<leftarrow> rd_u32 offs (i * 4);
               b \<leftarrow> rd_u32 offs ((i + 1) * 4);
               if b < a then None
               else do { blob \<leftarrow> slice sec (fst (fi_fence_blob ix)) (snd (fi_fence_blob ix));
                         slice blob (unat a) (unat b) } })"

definition fence_window :: "flat_index \<Rightarrow> bytes \<Rightarrow> bytes \<Rightarrow> nat \<times> nat" where
  "fence_window ix sec key =
    (if fi_fence_n ix = 0 \<or> fi_fence_stride ix = 0 then (0, fi_nkeys ix)
     else let lo = bisect (fence_key ix sec) key 0 (fi_fence_n ix);
              start = (lo - 1) * fi_fence_stride ix
          in (start, max (min (lo * fi_fence_stride ix) (fi_nkeys ix)) start))"

definition brackets :: "flat_index \<Rightarrow> bytes \<Rightarrow> bytes \<Rightarrow> nat \<Rightarrow> bool" where
  "brackets ix sec key r =
    (if fi_nkeys ix < r then False
     else if 0 < r \<and> (case key_at ix sec (r - 1) of Some k \<Rightarrow> \<not> k < key | None \<Rightarrow> True) then False
     else if r < fi_nkeys ix \<and> (case key_at ix sec r of Some k \<Rightarrow> k < key | None \<Rightarrow> True) then False
     else True)"

definition seek_with :: "flat_index \<Rightarrow> bytes \<Rightarrow> bytes \<Rightarrow> bool \<Rightarrow> nat" where
  "seek_with ix sec key fence =
    (let (lo, hi) = fence_window ix sec key;
         r = search ix sec key lo hi
     in if fence \<and> 0 < fi_fence_n ix \<and> brackets ix sec key r then r else search ix sec key 0 (fi_nkeys ix))"

definition rank_for :: "flat_index \<Rightarrow> bytes \<Rightarrow> bytes \<Rightarrow> nat" where
  "rank_for ix sec key = min (seek_with ix sec key True) (fi_nkeys ix)"

definition dir_entries :: "flat_index \<Rightarrow> bytes \<Rightarrow> bytes option" where
  "dir_entries ix sec = slice sec (fst (fi_dir ix)) (fst (fi_dir ix) + fi_nkeys ix * 4)"

definition dir_slot_of :: "flat_index \<Rightarrow> bytes \<Rightarrow> bytes \<Rightarrow> nat option" where
  "dir_slot_of ix sec key =
    (let rank = seek_with ix sec key True
     in if fi_nkeys ix \<le> rank then None
        else do { k \<leftarrow> key_at ix sec rank; if k \<noteq> key then None else Some (fst (fi_dir ix) + rank * 4) })"

subsection \<open>The fence on its own\<close>

record fence_view =
  fv_offs :: bytes
  fv_blob :: bytes
  fv_n :: nat
  fv_stride :: nat

definition fence_view_parse :: "bytes \<Rightarrow> section_header \<Rightarrow> fence_view option" where
  "fence_view_parse region h =
    (if h_fence_n h = 0 \<or> h_fence_stride h = 0 \<or> h_nkeys h < h_fence_n h then None
     else if h_fence_n h \<noteq> div_ceil (h_nkeys h) (h_fence_stride h) then None
     else do { n1 \<leftarrow> checked_add (h_fence_n h) 1;
               offs_len \<leftarrow> checked_mul n1 4;
               offs \<leftarrow> slice region 0 offs_len;
               blob_len \<leftarrow> rd_u32 offs (h_fence_n h * 4);
               e \<leftarrow> checked_add offs_len (unat blob_len);
               blob \<leftarrow> slice region offs_len e;
               Some \<lparr>fv_offs = offs, fv_blob = blob, fv_n = h_fence_n h, fv_stride = h_fence_stride h\<rparr> })"

definition region_len :: "fence_view \<Rightarrow> nat" where
  "region_len v = length (fv_offs v) + length (fv_blob v)"

definition view_key :: "fence_view \<Rightarrow> nat \<Rightarrow> bytes option" where
  "view_key v i =
    do { a \<leftarrow> rd_u32 (fv_offs v) (i * 4);
         b \<leftarrow> rd_u32 (fv_offs v) ((i + 1) * 4);
         if b < a then None else slice (fv_blob v) (unat a) (unat b) }"

definition view_window :: "fence_view \<Rightarrow> bytes \<Rightarrow> nat \<Rightarrow> nat \<times> nat" where
  "view_window v key nkeys =
    (let lo = bisect (view_key v) key 0 (fv_n v);
         start = (lo - 1) * fv_stride v
     in (start, max (min (lo * fv_stride v) nkeys) start))"

subsection \<open>In-place updates\<close>

definition spare_dir :: "flat_index \<Rightarrow> (nat \<times> nat) option" where
  "spare_dir ix =
    (if fi_dir_cap ix = 0 then None
     else let second = fi_dir_base ix + fi_dir_cap ix * 4
          in Some (if fst (fi_dir ix) = fi_dir_base ix then second else fi_dir_base ix, fi_dir_cap ix))"

definition dir_state :: "nat \<Rightarrow> nat \<Rightarrow> u64" where
  "dir_state at nkeys = push_bit 32 (word_of_nat at) OR word_of_nat nkeys"

definition set_bump :: "flat_index \<Rightarrow> nat \<Rightarrow> flat_index" where
  "set_bump ix at = ix\<lparr>fi_bump := clamp at 0 (fi_recs_cap ix)\<rparr>"

definition reserve :: "flat_index \<Rightarrow> nat \<Rightarrow> (flat_index \<times> nat \<times> u32) option" where
  "reserve ix len =
    do { e \<leftarrow> checked_add (fi_bump ix) (align_up len REC_ALIGN);
         if fi_recs_cap ix < e then None
         else Some (ix\<lparr>fi_bump := e\<rparr>, fi_recs_off ix + fi_bump ix, word_of_nat (fi_bump ix)) }"

text \<open>One record for the slack, and its copy back out; None is the refusal, and writes here always fit.\<close>

definition encode_record :: "bytes \<Rightarrow> ext list \<Rightarrow> bytes option" where
  "encode_record key exts =
    (if U16_MAX < length key \<or> U16_MAX < length exts then None
     else do { out \<leftarrow> put (replicate (record_len (length key) (length exts)) 0) 0 (u16_le (word_of_nat (length key)));
               out \<leftarrow> put out 2 (u16_le (word_of_nat (length exts)));
               out \<leftarrow> put out 4 key;
               (out, e) \<leftarrow> put_exts out (align_up (4 + length key) REC_ALIGN) exts;
               Some out })"

definition decode_record :: "nat \<Rightarrow> bytes \<Rightarrow> (bytes \<times> ext list) option" where
  "decode_record addr rec =
    do { klen \<leftarrow> rd_u16 rec 0;
         n \<leftarrow> rd_u16 rec 2;
         key \<leftarrow> slice rec 4 (4 + unat klen);
         if n AND COMPACT \<noteq> 0
         then do { (k, exts, t, l) \<leftarrow> parse_record addr rec 0; Some (key, exts_deref exts) }
         else do { exts \<leftarrow> rd_exts rec (unat n) (align_up (4 + unat klen) REC_ALIGN); Some (key, exts) } }"

end
