(* ===== verification/Flat_Seek.thy ===== *)
theory Flat_Seek
  imports Flat_Index
begin

text \<open>
  The ordered reads of the key index decided by the records alone: where a binary
  search of a sorted range lands, that two record probes certify an answer whatever
  the fence said, and how tight a good fence's window is.
\<close>

definition before :: "(nat \<Rightarrow> bytes option) \<Rightarrow> bytes \<Rightarrow> nat \<Rightarrow> bool" where
  "before at key i \<longleftrightarrow> (case at i of Some k \<Rightarrow> k < key | None \<Rightarrow> False)"

lemma bisect_step:
  "bisect at key lo hi =
    (if lo < hi then let mid = lo + (hi - lo) div 2 in if before at key mid then bisect at key (mid + 1) hi else bisect at key lo mid else lo)"
  by (subst bisect.simps) (simp add: before_def Let_def split: option.splits)

lemma bisect_split:
  assumes "lo \<le> hi" and "\<And>i j. lo \<le> i \<Longrightarrow> i \<le> j \<Longrightarrow> j < hi \<Longrightarrow> before at key j \<Longrightarrow> before at key i"
  shows "lo \<le> bisect at key lo hi \<and> bisect at key lo hi \<le> hi \<and>
    (\<forall>i. lo \<le> i \<and> i < bisect at key lo hi \<longrightarrow> before at key i) \<and> (\<forall>i. bisect at key lo hi \<le> i \<and> i < hi \<longrightarrow> \<not> before at key i)"
  using assms
proof (induction "hi - lo" arbitrary: lo hi rule: less_induct)
  case less
  show ?case
  proof (cases "lo < hi")
    case False
    then show ?thesis using less.prems(1) by (subst (1 2 3 4) bisect_step) auto
  next
    case True
    define mid where "mid = lo + (hi - lo) div 2"
    have m: "lo \<le> mid" "mid < hi" using True by (auto simp: mid_def)
    show ?thesis
    proof (cases "before at key mid")
      case b: True
      have e: "bisect at key lo hi = bisect at key (mid + 1) hi" using True b by (subst bisect_step) (simp add: mid_def [symmetric])
      have "mid + 1 \<le> bisect at key (mid + 1) hi \<and> bisect at key (mid + 1) hi \<le> hi \<and>
          (\<forall>i. mid + 1 \<le> i \<and> i < bisect at key (mid + 1) hi \<longrightarrow> before at key i) \<and> (\<forall>i. bisect at key (mid + 1) hi \<le> i \<and> i < hi \<longrightarrow> \<not> before at key i)"
        by (rule less.hyps) (use m less.prems(2) in auto)
      moreover have "before at key i" if "lo \<le> i" "i \<le> mid" for i using less.prems(2) [OF that m(2) b] .
      ultimately show ?thesis unfolding e using m by (metis Suc_eq_plus1 le_trans not_less_eq_eq le_Suc_eq)
    next
      case b: False
      have e: "bisect at key lo hi = bisect at key lo mid" using True b by (subst bisect_step) (simp add: mid_def [symmetric])
      have "lo \<le> bisect at key lo mid \<and> bisect at key lo mid \<le> mid \<and>
          (\<forall>i. lo \<le> i \<and> i < bisect at key lo mid \<longrightarrow> before at key i) \<and> (\<forall>i. bisect at key lo mid \<le> i \<and> i < mid \<longrightarrow> \<not> before at key i)"
        by (rule less.hyps) (use m less.prems(2) in auto)
      moreover have "\<not> before at key i" if "mid \<le> i" "i < hi" for i using less.prems(2) [OF m(1) that] b by blast
      ultimately show ?thesis unfolding e using m by (metis le_trans less_imp_le not_le)
    qed
  qed
qed

text \<open>The rank a sorted list of keys answers with: how many of them come before.\<close>

definition rank_of :: "bytes list \<Rightarrow> bytes \<Rightarrow> nat" where
  "rank_of ks key = length (takeWhile (\<lambda>k. k < key) ks)"

lemma rank_of_le: "rank_of ks key \<le> length ks"
  by (simp add: rank_of_def length_takeWhile_le)

lemma rank_of_eq:
  assumes "r \<le> length ks" and "\<And>i. i < r \<Longrightarrow> ks ! i < key" and "r < length ks \<Longrightarrow> \<not> ks ! r < key"
  shows "rank_of ks key = r"
proof -
  have "takeWhile (\<lambda>k. k < key) (take r ks @ drop r ks) = take r ks @ takeWhile (\<lambda>k. k < key) (drop r ks)"
    by (rule takeWhile_append2) (use assms(1,2) in \<open>auto simp: in_set_conv_nth\<close>)
  moreover have "takeWhile (\<lambda>k. k < key) (drop r ks) = []"
    using assms(3) by (cases "r < length ks") (simp_all add: Cons_nth_drop_Suc [symmetric])
  ultimately show ?thesis using assms(1) by (simp add: rank_of_def)
qed

lemma rank_of_before: "i < rank_of ks key \<Longrightarrow> ks ! i < key"
  unfolding rank_of_def using takeWhile_nth [of i "\<lambda>k. k < key" ks] nth_mem [of i "takeWhile (\<lambda>k. k < key) ks"] set_takeWhileD by metis

lemma rank_of_after:
  assumes "sorted_wrt (<) ks" and "rank_of ks key \<le> i" and "i < length ks"
  shows "\<not> ks ! i < key"
proof -
  have "\<not> ks ! rank_of ks key < key" using nth_length_takeWhile [of "\<lambda>k. k < key" ks] assms(2,3) by (simp add: rank_of_def)
  then show ?thesis
    using assms sorted_wrt_nth_less [OF assms(1), of "rank_of ks key" i] by (cases "i = rank_of ks key") auto
qed

text \<open>An index that reads its keys: what the section's reader gives, rank by rank.\<close>

definition reads_keys :: "flat_index \<Rightarrow> bytes \<Rightarrow> bytes list \<Rightarrow> bool" where
  "reads_keys ix sec ks \<longleftrightarrow> fi_nkeys ix = length ks \<and> sorted_wrt (<) ks \<and> (\<forall>r < length ks. key_at ix sec r = Some (ks ! r))"

lemma before_keys: "reads_keys ix sec ks \<Longrightarrow> i < length ks \<Longrightarrow> before (key_at ix sec) key i \<longleftrightarrow> ks ! i < key"
  by (simp add: reads_keys_def before_def)

lemma search_all:
  assumes "reads_keys ix sec ks"
  shows "search ix sec key 0 (length ks) = rank_of ks key"
proof -
  let ?r = "bisect (key_at ix sec) key 0 (length ks)"
  have s: "sorted_wrt (<) ks" using assms by (simp add: reads_keys_def)
  have "ks ! i < key" if "i \<le> j" "j < length ks" "ks ! j < key" for i j
    using that sorted_wrt_nth_less [OF s, of i j] by (cases "i = j") auto
  then have "0 \<le> ?r \<and> ?r \<le> length ks \<and> (\<forall>i. 0 \<le> i \<and> i < ?r \<longrightarrow> before (key_at ix sec) key i) \<and>
      (\<forall>i. ?r \<le> i \<and> i < length ks \<longrightarrow> \<not> before (key_at ix sec) key i)"
    by (intro bisect_split) (use before_keys [OF assms] in auto)
  then have "rank_of ks key = ?r" by (intro rank_of_eq) (use before_keys [OF assms] in auto)
  then show ?thesis by (simp add: search_def)
qed

lemma brackets_rank:
  assumes k: "reads_keys ix sec ks" and b: "brackets ix sec key r"
  shows "r = rank_of ks key"
proof -
  have n: "fi_nkeys ix = length ks" "sorted_wrt (<) ks" "\<And>i. i < length ks \<Longrightarrow> key_at ix sec i = Some (ks ! i)"
    using k by (auto simp: reads_keys_def)
  have r: "r \<le> length ks" using b by (simp add: brackets_def n(1) split: if_splits)
  have p: "ks ! (r - 1) < key" if "0 < r" using b that r n by (simp add: brackets_def split: if_splits)
  have a: "\<not> ks ! r < key" if "r < length ks" using b that n by (auto simp: brackets_def split: if_splits)
  have "ks ! i < key" if "i < r" for i
  proof (cases "i = r - 1")
    case True
    then show ?thesis using p that by simp
  next
    case False
    then have "ks ! i < ks ! (r - 1)" using sorted_wrt_nth_less [OF n(2), of i "r - 1"] that r by simp
    moreover have "ks ! (r - 1) < key" using p that by simp
    ultimately show ?thesis by (rule less_trans)
  qed
  then show ?thesis using rank_of_eq [OF r] a by simp
qed

lemma seek_rank:
  assumes "reads_keys ix sec ks"
  shows "seek_with ix sec key fence = rank_of ks key"
proof -
  have "fi_nkeys ix = length ks" using assms by (simp add: reads_keys_def)
  then show ?thesis
    using search_all [OF assms] brackets_rank [OF assms] by (auto simp: seek_with_def Let_def split: prod.splits if_splits)
qed


subsection \<open>The fence as it is written\<close>

definition fence_blob :: "(nat \<Rightarrow> bytes) \<Rightarrow> nat \<Rightarrow> nat \<Rightarrow> bytes" where
  "fence_blob at stride n = concat (map (\<lambda>i. at (i * stride)) [0..<n])"

definition fence_offs :: "(nat \<Rightarrow> bytes) \<Rightarrow> nat \<Rightarrow> nat \<Rightarrow> u32 list" where
  "fence_offs at stride n = map (\<lambda>i. word_of_nat (length (fence_blob at stride i))) [0..<Suc n]"

lemma fence_blob_Suc: "fence_blob at stride (Suc i) = fence_blob at stride i @ at (i * stride)"
  by (simp add: fence_blob_def)

lemma fence_blob_prefix: "i \<le> n \<Longrightarrow> \<exists>rest. fence_blob at stride n = fence_blob at stride i @ rest"
  by (induction n) (auto simp: fence_blob_Suc le_Suc_eq)

lemma fence_fill_from:
  "i \<le> n \<Longrightarrow> fence_fill at stride [i..<n] (concat (map u32_le (map (\<lambda>j. word_of_nat (length (fence_blob at stride j))) [0..<i]))) (fence_blob at stride i) =
    (concat (map u32_le (fence_offs at stride n)), fence_blob at stride n)"
proof (induction "n - i" arbitrary: i)
  case 0
  then have "i = n" by simp
  then show ?case by (simp add: fence_offs_def)
next
  case (Suc d)
  then have u: "[i..<n] = i # [Suc i..<n]" by (simp add: upt_conv_Cons)
  have "fence_fill at stride [Suc i..<n] (concat (map u32_le (map (\<lambda>j. word_of_nat (length (fence_blob at stride j))) [0..<Suc i])))
      (fence_blob at stride (Suc i)) = (concat (map u32_le (fence_offs at stride n)), fence_blob at stride n)"
    by (rule Suc.hyps(1)) (use Suc in simp_all)
  then show ?case by (simp add: u fence_blob_Suc)
qed

lemma fence_fill_eq: "fence_fill at stride [0..<n] [] [] = (concat (map u32_le (fence_offs at stride n)), fence_blob at stride n)"
  using fence_fill_from [of 0 n at stride] by (simp add: fence_blob_def)

lemma length_fence_offs [simp]: "length (fence_offs at stride n) = Suc n"
  by (simp add: fence_offs_def)

text \<open>A view parsed from a fence as it is written reads every sampled key.\<close>

lemma fence_view_written:
  assumes n: "0 < n" "n \<le> h_nkeys h" "h_fence_n h = n" "0 < h_fence_stride h" "n = div_ceil (h_nkeys h) (h_fence_stride h)"
    and small: "length (fence_blob at (h_fence_stride h) n) < 2 ^ 32" and max: "(n + 1) * 4 + length (fence_blob at (h_fence_stride h) n) \<le> USIZE_MAX"
    and f: "fence_fill at (h_fence_stride h) [0..<n] [] [] = (offs, blob)"
  obtains v where "fence_view_parse (offs @ blob @ rest) h = Some v" and "fv_n v = n" and "fv_stride v = h_fence_stride h"
    and "\<And>i. i < n \<Longrightarrow> view_key v i = Some (at (i * h_fence_stride h))" and "region_len v = length (offs @ blob)"
proof -
  let ?s = "h_fence_stride h"
  have o: "offs = concat (map u32_le (fence_offs at ?s n))" and b: "blob = fence_blob at ?s n" using f by (simp_all add: fence_fill_eq)
  have lo: "length offs = (n + 1) * 4" by (simp add: o)
  have nth: "fence_offs at ?s n ! i = word_of_nat (length (fence_blob at ?s i))" if "i \<le> n" for i
    using that unfolding fence_offs_def by (subst nth_map) (simp_all del: upt_Suc)
  have rd: "rd_u32 offs (i * 4) = Some (word_of_nat (length (fence_blob at ?s i)))" if "i \<le> n" for i
    using rd_words [of i "fence_offs at ?s n" "[]" "[]"] that nth [OF that] by (simp add: o mult.commute)
  have le: "length (fence_blob at ?s i) \<le> length (fence_blob at ?s n)" if "i \<le> n" for i
    using fence_blob_prefix [OF that, of at ?s] by auto
  have un: "unat (word_of_nat (length (fence_blob at ?s i)) :: u32) = length (fence_blob at ?s i)" if "i \<le> n" for i
    using le [OF that] small by (simp add: unat_of_nat)
  define v where "v = \<lparr>fv_offs = offs, fv_blob = blob, fv_n = n, fv_stride = ?s\<rparr>"
  have "fence_view_parse (offs @ blob @ rest) h = Some v"
    using n max lo rd [of n] un [of n] by (simp add: fence_view_parse_def checked_add_def checked_mul_def v_def b)
  moreover have "view_key v i = Some (at (i * ?s))" if i: "i < n" for i
  proof -
    have e: "length (fence_blob at ?s (Suc i)) = length (fence_blob at ?s i) + length (at (i * ?s))" by (simp add: fence_blob_Suc)
    obtain r where r: "blob = fence_blob at ?s i @ at (i * ?s) @ r" using fence_blob_prefix [of "Suc i" n at ?s] i by (auto simp: b fence_blob_Suc)
    have "\<not> word_of_nat (length (fence_blob at ?s (Suc i))) < (word_of_nat (length (fence_blob at ?s i)) :: u32)"
      using un [of i] un [of "Suc i"] i e by (simp add: word_less_nat_alt)
    moreover have "slice blob (length (fence_blob at ?s i)) (length (fence_blob at ?s (Suc i))) = Some (at (i * ?s))" by (simp add: e r)
    ultimately show ?thesis using rd [of i] rd [of "Suc i"] un [of i] un [of "Suc i"] i by (simp add: view_key_def v_def)
  qed
  ultimately show ?thesis by (intro that [of v]) (simp_all add: v_def region_len_def)
qed

lemma div_ceil_covers:
  assumes "0 < S"
  shows "n \<le> div_ceil n S * S"
proof -
  have "(n + S - 1) div S * S + (n + S - 1) mod S = n + S - 1" "(n + S - 1) mod S < S" using assms by simp_all
  then show ?thesis unfolding div_ceil_def by linarith
qed

lemma view_window_bounds:
  assumes s: "sorted_wrt (<) ks" and st: "0 < fv_stride v" and n: "fv_n v = div_ceil (length ks) (fv_stride v)"
    and k: "\<And>i. i < fv_n v \<Longrightarrow> view_key v i = Some (ks ! (i * fv_stride v))" and w: "view_window v key (length ks) = (a, b)"
  shows "a \<le> rank_of ks key \<and> rank_of ks key \<le> b \<and> b \<le> length ks \<and> b \<le> a + fv_stride v"
proof -
  let ?S = "fv_stride v" and ?N = "fv_n v"
  define lo where "lo = bisect (view_key v) key 0 ?N"
  have in_range: "i * ?S < length ks" if "i < ?N" for i
  proof -
    have "Suc i \<le> (length ks + ?S - 1) div ?S" using that n by (simp add: div_ceil_def)
    then have "Suc i * ?S \<le> length ks + ?S - 1" using st by (metis le_trans mult_le_mono1 div_times_less_eq_dividend)
    then show ?thesis using st by simp
  qed
  have bf: "before (view_key v) key i \<longleftrightarrow> ks ! (i * ?S) < key" if "i < ?N" for i using k [OF that] by (simp add: before_def)
  have mono: "before (view_key v) key i" if "i \<le> j" "j < ?N" "before (view_key v) key j" for i j
  proof (cases "i = j")
    case False
    then have "i * ?S < j * ?S" using that(1) st by simp
    then have "ks ! (i * ?S) < ks ! (j * ?S)" by (rule sorted_wrt_nth_less [OF s _ in_range [OF that(2)]])
    then show ?thesis using that bf [of i] bf [of j] by simp
  qed (use that in simp)
  have L: "lo \<le> ?N \<and> (\<forall>i. i < lo \<longrightarrow> before (view_key v) key i) \<and> (\<forall>i. lo \<le> i \<and> i < ?N \<longrightarrow> \<not> before (view_key v) key i)"
    using bisect_split [of 0 ?N "view_key v" key] mono unfolding lo_def by simp
  have start: "(lo - 1) * ?S \<le> rank_of ks key" "(lo - 1) * ?S \<le> length ks"
  proof -
    show "(lo - 1) * ?S \<le> rank_of ks key"
    proof (cases "lo = 0")
      case False
      then have i: "lo - 1 < ?N" "before (view_key v) key (lo - 1)" using L by auto
      then have "ks ! ((lo - 1) * ?S) < key" using bf by simp
      then show ?thesis using rank_of_after [OF s _ in_range [OF i(1)], of key] by (meson not_le less_imp_le)
    qed simp
    then show "(lo - 1) * ?S \<le> length ks" using rank_of_le [of ks key] by linarith
  qed
  have fin: "rank_of ks key \<le> min (lo * ?S) (length ks)"
  proof (cases "lo < ?N")
    case True
    then have "\<not> ks ! (lo * ?S) < key" using L bf by blast
    then show ?thesis using rank_of_before [of "lo * ?S" ks key] rank_of_le [of ks key] by (meson not_le min.boundedI)
  next
    case False
    then have "lo = ?N" using L by simp
    moreover have "length ks \<le> ?N * ?S" unfolding n by (rule div_ceil_covers [OF st])
    ultimately show ?thesis using rank_of_le [of ks key] by simp
  qed
  have ab: "a = (lo - 1) * ?S" "b = max (min (lo * ?S) (length ks)) ((lo - 1) * ?S)" using w by (auto simp: view_window_def lo_def Let_def)
  have "lo * ?S \<le> (lo - 1) * ?S + ?S" by (cases lo) simp_all
  then show ?thesis using start fin unfolding ab by (auto simp: max_def min_def)
qed

lemma fence_blob_length:
  assumes "0 < S" and "n = div_ceil (length ks) S"
  shows "length (fence_blob (\<lambda>i. ks ! i) S n) \<le> length (concat ks)"
proof -
  have "length (fence_blob (\<lambda>i. ks ! i) S m) \<le> length (concat (take (Suc ((m - 1) * S)) ks))" if "m \<le> n" "0 < m" for m
    using that
  proof (induction m)
    case (Suc m)
    have r: "m * S < length ks"
    proof -
      have "Suc m \<le> (length ks + S - 1) div S" using Suc.prems assms(2) by (simp add: div_ceil_def)
      then have "Suc m * S \<le> length ks + S - 1" using assms(1) by (metis le_trans mult_le_mono1 div_times_less_eq_dividend)
      then show ?thesis using assms(1) by simp
    qed
    have t: "length (concat (take (Suc (m * S)) ks)) = length (concat (take (m * S) ks)) + length (ks ! (m * S))"
      using r by (simp add: take_Suc_conv_app_nth)
    show ?case
    proof (cases "m = 0")
      case False
      have "length (concat (take a ks)) \<le> length (concat (take b ks))" if "a \<le> b" for a b
      proof -
        have "take b ks = take a ks @ take (b - a) (drop a ks)" using that by (metis le_add_diff_inverse take_add)
        then show ?thesis by simp
      qed
      moreover have "Suc ((m - 1) * S) \<le> m * S" using False assms(1) by (cases m) simp_all
      ultimately have "length (fence_blob (\<lambda>i. ks ! i) S m) \<le> length (concat (take (m * S) ks))"
        using Suc.IH Suc.prems False by (meson Suc_leD le_trans neq0_conv)
      then show ?thesis using t by (simp add: fence_blob_Suc)
    qed (use t in \<open>simp add: fence_blob_def\<close>)
  qed simp
  from this [of n] show ?thesis
  proof (cases "n = 0")
    case False
    have "length (concat (take a ks)) \<le> length (concat ks)" for a by (metis append_take_drop_id concat_append length_append le_add1)
    then show ?thesis using \<open>n \<le> n \<Longrightarrow> 0 < n \<Longrightarrow> _\<close> False by (meson le_refl le_trans neq0_conv)
  qed (simp add: fence_blob_def)
qed

subsection \<open>What a parsed header promises\<close>

lemma power_of_two_pow:
  "is_power_of_two n \<Longrightarrow> \<exists>k. n = 2 ^ k"
proof (induction n rule: less_induct)
  case (less n)
  have n: "n \<noteq> 0" "n AND (n - 1) = 0" using less.prems by (simp_all add: is_power_of_two_def)
  show ?case
  proof (cases "even n")
    case False
    have "n = 1"
    proof (rule ccontr)
      assume "n \<noteq> 1"
      then obtain m where m: "n = 2 * m + 1" "m \<noteq> 0" using False n(1) by (metis oddE add.commute mult_0_right plus_1_eq_Suc One_nat_def)
      have "(2 * m + 1) AND (2 * m) = 2 * m"
      proof (rule bit_eqI)
        fix i
        show "bit ((2 * m + 1) AND (2 * m)) i \<longleftrightarrow> bit (2 * m) i" unfolding bit_and_iff by (cases i) (auto simp: bit_simps bit_Suc)
      qed
      then show False using n(2) m by simp
    qed
    then show ?thesis by (intro exI [of _ 0]) simp
  next
    case True
    then obtain m where m: "n = 2 * m" by (elim evenE)
    then have "m \<noteq> 0" using n by simp
    have "m AND (m - 1) = 0"
    proof (rule bit_eqI)
      fix i
      have "2 * m - 1 = 2 * (m - 1) + 1" using \<open>m \<noteq> 0\<close> by simp
      then have "bit (2 * m - 1) (Suc i) = bit (m - 1) i" by (simp add: bit_Suc)
      moreover have "bit (2 * m) (Suc i) = bit m i" by (simp add: bit_Suc)
      moreover have "\<not> (bit n (Suc i) \<and> bit (n - 1) (Suc i))" using n(2) by (metis bit_0_eq bit_and_iff bot_apply bot_bool_def)
      ultimately show "bit (m AND (m - 1)) i \<longleftrightarrow> bit 0 i" unfolding bit_and_iff by (simp add: m)
    qed
    then obtain k where "m = 2 ^ k" using less.IH [of m] m \<open>m \<noteq> 0\<close> by (auto simp: is_power_of_two_def)
    then show ?thesis using m by (intro exI [of _ "Suc k"]) simp
  qed
qed

lemma live_dir_cases:
  assumes "live_dir base n cap st = Some (off, live)"
  shows "(cap = 0 \<and> off = base \<and> live = n) \<or> (0 < cap \<and> (off = base \<or> off = base + cap * 4) \<and> live \<le> cap)"
  using assms by (auto simp: live_dir_def bind_eq_Some_conv checked_mul_def checked_add_def Let_def split: if_splits)

definition inside :: "nat \<Rightarrow> nat \<times> nat \<Rightarrow> bool" where
  "inside len r \<longleftrightarrow> HEADER \<le> fst r \<and> fst r \<le> snd r \<and> snd r \<le> len"

lemma region_inside: "\<not> region_bad len r \<longleftrightarrow> inside len r"
  by (auto simp: region_bad_def inside_def)

text \<open>The sum of the directory region's end wraps only where the region check then refuses it.\<close>

lemma dir_end_exact:
  assumes "wrapping_add base (cap * 8) = e" and "cap * 8 \<le> USIZE_MAX" and "base \<le> e" and "base \<le> USIZE_MAX"
  shows "e = base + cap * 8"
proof (cases "base + cap * 8 < 2 ^ 64")
  case True
  then show ?thesis using assms(1) by (simp add: wrapping_add_def)
next
  case False
  then have "(base + cap * 8) mod 2 ^ 64 = base + cap * 8 - 2 ^ 64"
    using assms(2,4) by (subst le_mod_geq) (simp_all add: USIZE_MAX_def)
  then have "e < base" using assms(1,2) False by (simp add: wrapping_add_def USIZE_MAX_def)
  then show ?thesis using assms(3) by simp
qed

lemma parse_fence_inside:
  assumes "parse_fence sec n f fn s rs = Some (fo, fb, fn', fs')"
  shows "inside (length sec) fo \<and> inside (length sec) fb \<and> snd fo = fst fb \<and> snd fo = fst fo + (fn' + 1) * 4 \<and> 0 < fs' \<and> fn' = div_ceil n fs' \<and>
    (\<forall>r \<in> set rs. \<not> (fst fo < snd r \<and> fst r < snd fb \<and> fst r \<noteq> snd r))"
  using assms by (auto simp: parse_fence_def bind_eq_Some_conv checked_add_def checked_mul_def inside_def split: if_splits)

lemma rd_size_le: "rd_size sec p = Some n \<Longrightarrow> n \<le> USIZE_MAX"
  using unsigned_less [where 'a = nat and 'b = 64] by (auto simp: rd_size_def USIZE_MAX_def intro: less_Suc_eq_le [THEN iffD1])

lemma section_regions_Some:
  assumes "section_regions len n0 cap ho base ro rc dc st = Some (n, h, d, r)" and "base \<le> USIZE_MAX"
  shows "(\<exists>k. cap = 2 ^ k) \<and> h = (ho, ho + cap * SLOT) \<and> r = (ro, ro + rc) \<and> inside len h \<and> inside len d \<and> inside len r \<and>
    \<not> overlap h d \<and> \<not> overlap h r \<and> \<not> overlap d r \<and> n \<le> cap \<and> fst d + n * 4 \<le> snd d"
proof -
  obtain doff de where p: "is_power_of_two cap" "live_dir base n0 dc st = Some (doff, n)" "h = (ho, ho + cap * SLOT)" "d = (doff, de)" "r = (ro, ro + rc)"
      "if dc = 0 then de = doff + n * 4 else dc * 8 \<le> USIZE_MAX \<and> de = wrapping_add base (dc * 8)"
      "\<not> region_bad len h" "\<not> region_bad len d" "\<not> region_bad len r" "\<not> overlap h d" "\<not> overlap h r" "\<not> overlap d r" "n \<le> cap"
    using assms(1) by (auto simp: section_regions_def bind_eq_Some_conv checked_add_def checked_mul_def Let_def split: if_splits)
  have "doff + n * 4 \<le> de"
  proof (cases "dc = 0")
    case True
    then show ?thesis using p(6) by simp
  next
    case False
    then have c: "doff = base \<or> doff = base + dc * 4" "n \<le> dc" using live_dir_cases [OF p(2)] by auto
    have le: "doff \<le> de" using p(8) by (simp add: region_bad_def p(4))
    then have "base \<le> de" using c(1) by auto
    then have "de = base + dc * 8" using dir_end_exact [of base dc de] p(6) False assms(2) by simp
    then show ?thesis using c by auto
  qed
  then show ?thesis using p power_of_two_pow [OF p(1)] unfolding region_inside by simp
qed

lemma clamp_le: "lo \<le> hi \<Longrightarrow> clamp x lo hi \<le> hi"
  by (simp add: clamp_def)

text \<open>The parts of a parse: what the region check returned, the fence or none, and the row.\<close>

lemma flat_parse_parts:
  assumes "flat_parse sec = Some ix"
  obtains n0 ho st f fn s where "fi_dir_base ix \<le> USIZE_MAX"
    and "section_regions (length sec) n0 (fi_hash_cap ix) ho (fi_dir_base ix) (fi_recs_off ix) (fi_recs_cap ix) (fi_dir_cap ix) st =
      Some (fi_nkeys ix, fi_hash ix, fi_dir ix, fi_recs ix)"
    and "fi_mask ix = fi_hash_cap ix - 1" and "fi_bump ix \<le> fi_recs_cap ix"
    and "(case parse_fence sec (fi_nkeys ix) f fn s [fi_hash ix, fi_dir ix, fi_recs ix] of Some f \<Rightarrow> f | None \<Rightarrow> ((0, 0), (0, 0), 0, 0)) =
      (fi_fence_offs ix, fi_fence_blob ix, fi_fence_n ix, fi_fence_stride ix)"
    and "row_place sec = Some (fi_crc_off ix, fi_piece_shift ix)"
proof -
  have f: "is_flat sec" using assms by (simp add: flat_parse_def split: if_splits)
  show ?thesis
    using assms [unfolded flat_parse_def]
    by (simp only: f Let_def simp_thms if_False bind_eq_Some_conv split_paired_Ex prod.case option.inject)
      (elim exE conjE, rule that, auto simp: rd_size_le clamp_le prod_eq_iff)
qed

subsection \<open>Properties\<close>

text \<open>
  C16: A seek lands on the first key not less than the one sought, over a section
  whose records read back in order, with the fence or without it and whatever bytes
  the fence holds: the fence narrows the search, and two records decide. The rank an
  insertion would take and the directory word of a present key follow.
\<close>

theorem seek_any_fence:
  assumes "reads_keys ix sec ks"
  shows "seek_with ix sec key fence = rank_of ks key \<and> rank_for ix sec key = rank_of ks key \<and>
    dir_slot_of ix sec key = (if key \<in> set ks then Some (fst (fi_dir ix) + rank_of ks key * 4) else None) \<and>
    (\<forall>i < length ks. ks ! i < key \<longleftrightarrow> i < rank_of ks key)"
proof -
  have n: "fi_nkeys ix = length ks" "sorted_wrt (<) ks" "\<And>i. i < length ks \<Longrightarrow> key_at ix sec i = Some (ks ! i)"
    using assms by (auto simp: reads_keys_def)
  have s: "seek_with ix sec key f = rank_of ks key" for f by (rule seek_rank [OF assms])
  have order: "\<forall>i < length ks. ks ! i < key \<longleftrightarrow> i < rank_of ks key" using rank_of_before rank_of_after [OF n(2)] not_le by blast
  have "ks ! rank_of ks key = key \<and> rank_of ks key < length ks" if "key \<in> set ks"
  proof -
    obtain i where i: "i < length ks" "ks ! i = key" using \<open>key \<in> set ks\<close> by (auto simp: in_set_conv_nth)
    have "rank_of ks key = i"
      by (rule rank_of_eq) (use i sorted_wrt_nth_less [OF n(2)] in auto)
    then show ?thesis using i by simp
  qed
  moreover have "ks ! rank_of ks key \<noteq> key" if "key \<notin> set ks" "rank_of ks key < length ks" using that by (metis nth_mem)
  ultimately have "dir_slot_of ix sec key = (if key \<in> set ks then Some (fst (fi_dir ix) + rank_of ks key * 4) else None)"
    unfolding dir_slot_of_def s n(1) Let_def using n(3) [of "rank_of ks key"]
    by (cases "key \<in> set ks"; cases "rank_of ks key < length ks") simp_all
  then show ?thesis using s order rank_of_le [of ks key] n(1) by (simp add: rank_for_def)
qed

text \<open>Two keys, the first at rank zero, under a fence whose words are not a fence's.\<close>

definition two_keys :: bytes where
  "two_keys = u32_le 0 @ u32_le 8 @ [1, 0, 0, 0, 65, 0, 0, 0] @ [1, 0, 0, 0, 67, 0, 0, 0]"

definition two_index :: flat_index where
  "two_index = \<lparr>fi_hash = (0, 0), fi_dir = (0, 8), fi_dir_cap = 0, fi_dir_base = 0, fi_recs = (8, 24), fi_hash_cap = 1, fi_mask = 0,
    fi_nkeys = 2, fi_mean_record_len = 8, fi_recs_off = 8, fi_recs_cap = 16, fi_bump = 16, fi_fence_offs = (0, 24), fi_fence_blob = (0, 24),
    fi_fence_n = 2, fi_fence_stride = 1, fi_generation = 0, fi_prev = None, fi_crc_off = 0, fi_piece_shift = 0\<rparr>"

lemma two_keys_read: "reads_keys two_index two_keys [[65], [67]]"
proof -
  have l: "length two_keys = 24" by (simp add: two_keys_def)
  have d: "dir_region two_index two_keys = Some (u32_le 0 @ u32_le 8)"
    by (simp add: dir_region_def two_index_def slice_def l) (simp add: two_keys_def)
  have r: "recs_region two_index two_keys = Some [1, 0, 0, 0, 65, 0, 0, 0, 1, 0, 0, 0, 67, 0, 0, 0]"
    by (simp add: recs_region_def two_index_def slice_def l) (simp add: two_keys_def)
  have w: "rd_u32 (u32_le 0 @ u32_le 8) 0 = Some 0" "rd_u32 (u32_le 0 @ u32_le 8) 4 = Some 8"
    using rd_u32_at [of 0 "[]" 0 "u32_le 8"] rd_u32_at [of 4 "u32_le 0" 8 "[]"] by simp_all
  have "key_at two_index two_keys 0 = Some [65]" "key_at two_index two_keys 1 = Some [67]"
    unfolding key_at_def r d by (simp_all add: w two_index_def record_key_def rd_u16_def slice_def COMPACT_def)
  then show ?thesis by (simp add: reads_keys_def two_index_def less_Suc_eq)
qed

theorem seek_any_fence_witness:
  "seek_with two_index two_keys [66] True = 1 \<and> dir_slot_of two_index two_keys [67] = Some 4"
  using seek_any_fence [OF two_keys_read, of "[66]" True] seek_any_fence [OF two_keys_read, of "[67]" True]
  by (simp add: rank_of_def two_index_def)

text \<open>
  C37: The fence as it is written narrows a seek to one stride. Parsed back on its
  own, out of the bytes the writer laid down, it gives a window of at most a stride
  that holds the rank of the first key not less than the one sought.
\<close>

theorem fence_window_tight:
  assumes s: "sorted_wrt (<) ks" "ks \<noteq> []" and h: "h_nkeys h = length ks" "0 < h_fence_stride h" "h_fence_n h = div_ceil (length ks) (h_fence_stride h)"
    and small: "length (concat ks) < 2 ^ 32" "(length ks + 1) * 4 + length (concat ks) \<le> USIZE_MAX"
    and f: "fence_fill (\<lambda>i. ks ! i) (h_fence_stride h) [0..<h_fence_n h] [] [] = (offs, blob)"
  shows "\<exists>v a b. fence_view_parse (offs @ blob @ rest) h = Some v \<and> region_len v = length (offs @ blob) \<and> view_window v key (length ks) = (a, b) \<and>
    a \<le> rank_of ks key \<and> rank_of ks key \<le> b \<and> b \<le> length ks \<and> b \<le> a + h_fence_stride h"
proof -
  let ?S = "h_fence_stride h" and ?n = "h_fence_n h"
  have n: "0 < ?n" "?n \<le> length ks"
  proof -
    have "0 < length ks" using s(2) by simp
    then show "0 < ?n" using div_ceil_covers [OF h(2), of "length ks"] unfolding h(3) by (cases "div_ceil (length ks) ?S") simp_all
    have "length ks + ?S - 1 \<le> length ks * ?S" using h(2) \<open>0 < length ks\<close> by (cases ?S; cases "length ks") simp_all
    then have "(length ks + ?S - 1) div ?S \<le> (length ks * ?S) div ?S" by (rule div_le_mono)
    then show "?n \<le> length ks" using h(2) by (simp add: h(3) div_ceil_def)
  qed
  have len: "length (fence_blob (\<lambda>i. ks ! i) ?S ?n) \<le> length (concat ks)" by (rule fence_blob_length) (use h n in auto)
  obtain v where v: "fence_view_parse (offs @ blob @ rest) h = Some v" "fv_n v = ?n" "fv_stride v = ?S"
      "\<And>i. i < ?n \<Longrightarrow> view_key v i = Some (ks ! (i * ?S))" "region_len v = length (offs @ blob)"
    by (rule fence_view_written [OF n(1) _ refl h(2) _ _ _ f]) (use n h len small in auto)
  obtain a b where w: "view_window v key (length ks) = (a, b)" by force
  have "a \<le> rank_of ks key \<and> rank_of ks key \<le> b \<and> b \<le> length ks \<and> b \<le> a + fv_stride v"
    by (rule view_window_bounds [OF s(1) _ _ _ w]) (use v h in auto)
  then show ?thesis using v w by auto
qed

definition three_header :: section_header where
  "three_header = \<lparr>h_generation = 0, h_nkeys = 3, h_hash_off = 0, h_hash_cap = 16, h_dir_off = 0, h_dir_base = 0, h_dir_cap = 0, h_recs_off = 0,
    h_recs_len = 0, h_bump = 0, h_fence_offs_off = 0, h_fence_n = 2, h_fence_stride = 2, h_crc_off = 0, h_piece_shift = 0\<rparr>"

theorem fence_window_tight_witness:
  "\<exists>offs blob v a b. fence_view_parse (offs @ blob @ [9]) three_header = Some v \<and> region_len v = length (offs @ blob) \<and>
    view_window v [68] (length [[65], [67], [70 :: byte]]) = (a, b) \<and> a \<le> 2 \<and> 2 \<le> b \<and> b \<le> 3 \<and> b \<le> a + h_fence_stride three_header"
proof -
  let ?ks = "[[65], [67], [70 :: byte]]"
  obtain offs blob where f: "fence_fill (\<lambda>i. ?ks ! i) (h_fence_stride three_header) [0..<h_fence_n three_header] [] [] = (offs, blob)" by force
  have "\<exists>v a b. fence_view_parse (offs @ blob @ [9]) three_header = Some v \<and> region_len v = length (offs @ blob) \<and>
      view_window v [68] (length ?ks) = (a, b) \<and> a \<le> rank_of ?ks [68] \<and> rank_of ?ks [68] \<le> b \<and> b \<le> length ?ks \<and> b \<le> a + h_fence_stride three_header"
    by (rule fence_window_tight [OF _ _ _ _ _ _ _ f]) (simp_all add: three_header_def div_ceil_def USIZE_MAX_def)
  moreover have "rank_of ?ks [68] = 2" "length ?ks = 3" by (simp_all add: rank_of_def)
  ultimately show ?thesis by metis
qed

end
