(* ===== verification/Merge.thy ===== *)
theory Merge
  imports Flat_Seek
begin

text \<open>
  The merge of segments by rank (db.rs, \<open>merge_ranks\<close>): a k-way walk of the inputs'
  key sections that shows every distinct key once with the inputs that hold it, oldest
  first. The callback is a state-passing function that may fail; the walk stops at its
  first error. An error is its message.
\<close>

subsection \<open>The inputs\<close>

text \<open>A blob's index: a key section whose bytes may not be readable, or a sparse one.\<close>

datatype blob_index = Flat_Idx "bytes option" flat_index | Sparse_Idx nat

fun blob_flat :: "blob_index \<Rightarrow> (bytes \<times> flat_index) option" where
  "blob_flat (Flat_Idx key idx) = (case key of None \<Rightarrow> None | Some sec \<Rightarrow> Some (sec, idx))"
| "blob_flat (Sparse_Idx nkeys) = None"

fun blob_keys :: "blob_index \<Rightarrow> nat" where
  "blob_keys (Flat_Idx key idx) = fi_len idx"
| "blob_keys (Sparse_Idx nkeys) = nkeys"

definition blob_key_at :: "blob_index \<Rightarrow> nat \<Rightarrow> bytes option" where
  "blob_key_at b rank = do { (sec, idx) \<leftarrow> blob_flat b; key_at idx sec rank }"

subsection \<open>The walk\<close>

text \<open>The closure over the inputs, given how many keys each has and how a rank is read.\<close>

definition walk_key :: "('b \<Rightarrow> nat \<Rightarrow> bytes option) \<Rightarrow> nat list \<Rightarrow> 'b list \<Rightarrow> nat \<Rightarrow> nat \<Rightarrow> (string, bytes option) res" where
  "walk_key kat n blobs i r =
    do { len \<leftarrow> index n i;
         if len \<le> r then Ok None
         else do { b \<leftarrow> index blobs i;
                   case kat b r of Some k \<Rightarrow> Ok (Some k)
                   | None \<Rightarrow> Err ''segment key walk: a rank the index does not have'' } }"

fun first_keys :: "(nat \<Rightarrow> nat \<Rightarrow> (string, bytes option) res) \<Rightarrow> nat list \<Rightarrow> (string, bytes option list) res" where
  "first_keys key [] = Ok []"
| "first_keys key (i # is) = bind_res (key i 0) (\<lambda>c. bind_res (first_keys key is) (\<lambda>cs. Ok (c # cs)))"

fun refresh :: "(nat \<Rightarrow> nat \<Rightarrow> (string, bytes option) res) \<Rightarrow> nat list \<Rightarrow> nat \<Rightarrow> bytes option list \<Rightarrow> (string, bytes option list) res" where
  "refresh key rank i [] = Ok []"
| "refresh key rank i (c # cs) =
    do { r \<leftarrow> index rank i;
         bind_res (key i r) (\<lambda>c. bind_res (refresh key rank (i + 1) cs) (\<lambda>cs. Ok (c # cs))) }"

fun pick :: "nat list \<Rightarrow> nat \<Rightarrow> bytes option list \<Rightarrow> bytes option \<Rightarrow> (nat \<times> nat) list \<Rightarrow> (bytes option \<times> (nat \<times> nat) list) option" where
  "pick rank i [] mn tied = Some (mn, tied)"
| "pick rank i (None # cs) mn tied = pick rank (i + 1) cs mn tied"
| "pick rank i (Some k # cs) mn tied =
    (case mn of
       None \<Rightarrow> do { r \<leftarrow> index rank i; pick rank (i + 1) cs (Some k) (tied @ [(i, r)]) }
     | Some m \<Rightarrow>
         if k < m then do { r \<leftarrow> index rank i; pick rank (i + 1) cs (Some k) [(i, r)] }
         else if k = m then do { r \<leftarrow> index rank i; pick rank (i + 1) cs mn (tied @ [(i, r)]) }
         else pick rank (i + 1) cs mn tied)"

fun advance :: "(nat \<Rightarrow> nat \<Rightarrow> (string, bytes option) res) \<Rightarrow> bool \<Rightarrow> (nat \<times> nat) list \<Rightarrow> nat list \<Rightarrow> bytes option list \<Rightarrow>
    (string, nat list \<times> bytes option list) res" where
  "advance key cached [] rank cur = Ok (rank, cur)"
| "advance key cached ((i, q) # ts) rank cur =
    do { r \<leftarrow> index rank i;
         rank \<leftarrow> store rank i (r + 1);
         if cached
         then bind_res (key i (r + 1)) (\<lambda>c. do { cur \<leftarrow> store cur i c; advance key cached ts rank cur })
         else advance key cached ts rank cur }"

partial_function (option) merge_loop ::
    "(nat \<Rightarrow> nat \<Rightarrow> (string, bytes option) res) \<Rightarrow> bool \<Rightarrow> ('s \<Rightarrow> bytes \<Rightarrow> (nat \<times> nat) list \<Rightarrow> (string, 's) res) \<Rightarrow>
      nat list \<Rightarrow> bytes option list \<Rightarrow> 's \<Rightarrow> (string, 's) res" where
  "merge_loop key cached f rank cur st =
    do { c \<leftarrow> (if cached then Ok cur else refresh key rank 0 cur);
         case c of Inl e \<Rightarrow> Err e
         | Inr cur \<Rightarrow>
             do { (mn, tied) \<leftarrow> pick rank 0 cur None [];
                  case mn of None \<Rightarrow> Ok st
                  | Some k \<Rightarrow>
                      do { s \<leftarrow> f st k tied;
                           case s of Inl e \<Rightarrow> Err e
                           | Inr st \<Rightarrow>
                               do { a \<leftarrow> advance key cached tied rank cur;
                                    case a of Inl e \<Rightarrow> Err e
                                    | Inr (rank, cur) \<Rightarrow> merge_loop key cached f rank cur st } } } }"

definition merge_by :: "('b \<Rightarrow> nat) \<Rightarrow> ('b \<Rightarrow> nat \<Rightarrow> bytes option) \<Rightarrow> 'b list \<Rightarrow> bool \<Rightarrow>
    ('s \<Rightarrow> bytes \<Rightarrow> (nat \<times> nat) list \<Rightarrow> (string, 's) res) \<Rightarrow> 's \<Rightarrow> (string, 's) res" where
  "merge_by len kat blobs cached f st =
    (let key = walk_key kat (map len blobs) blobs
     in bind_res (first_keys key [0..<length blobs]) (\<lambda>cur. merge_loop key cached f (replicate (length blobs) 0) cur st))"

definition merge_ranks :: "blob_index list \<Rightarrow> bool \<Rightarrow> ('s \<Rightarrow> bytes \<Rightarrow> (nat \<times> nat) list \<Rightarrow> (string, 's) res) \<Rightarrow> 's \<Rightarrow> (string, 's) res" where
  "merge_ranks blobs cached f st = merge_by blob_keys blob_key_at blobs cached f st"

subsection \<open>What a merge shows\<close>

text \<open>The inputs that hold a key, with its rank in each, and every key once in order.\<close>

fun holders :: "bytes \<Rightarrow> nat \<Rightarrow> bytes list list \<Rightarrow> (nat \<times> nat) list" where
  "holders k i [] = []"
| "holders k i (ks # kss) = (if k \<in> set ks then [(i, length (filter (\<lambda>x. x < k) ks))] else []) @ holders k (i + 1) kss"

definition merged :: "bytes list list \<Rightarrow> (bytes \<times> (nat \<times> nat) list) list" where
  "merged kss = map (\<lambda>k. (k, holders k 0 kss)) (sorted_list_of_set (\<Union> (set ` set kss)))"

fun walk :: "('s \<Rightarrow> bytes \<Rightarrow> (nat \<times> nat) list \<Rightarrow> (string, 's) res) \<Rightarrow> 's \<Rightarrow> (bytes \<times> (nat \<times> nat) list) list \<Rightarrow> (string, 's) res" where
  "walk f st [] = Ok st"
| "walk f st ((k, tied) # xs) = bind_res (f st k tied) (\<lambda>st. walk f st xs)"


subsection \<open>One input against the keys still to come\<close>

definition below :: "bytes list \<Rightarrow> bytes list \<Rightarrow> nat" where
  "below rs ks = length (filter (\<lambda>x. \<forall>y \<in> set rs. x < y) ks)"

definition head_key :: "bytes list \<Rightarrow> bytes list \<Rightarrow> bytes option" where
  "head_key rs ks = (if below rs ks < length ks then Some (ks ! below rs ks) else None)"

text \<open>Every key of the input is behind all the keys to come, or one of them.\<close>

definition split_by :: "bytes list \<Rightarrow> bytes list \<Rightarrow> bool" where
  "split_by rs ks \<longleftrightarrow> sorted_wrt (<) ks \<and> (\<forall>x \<in> set ks. x \<in> set rs \<or> (\<forall>y \<in> set rs. x < y))"

lemma sorted_split: "sorted_wrt (<) ks \<Longrightarrow> ks = filter (\<lambda>x. x < k) ks @ filter (\<lambda>x. \<not> x < k) ks" for k :: bytes
proof (induction ks)
  case (Cons a ks)
  show ?case
  proof (cases "a < k")
    case False
    then have n: "\<not> x < k" if "x \<in> set ks" for x using Cons.prems that less_trans by fastforce
    then have "filter (\<lambda>x. x < k) ks = []" by simp
    moreover have "filter (\<lambda>x. \<not> x < k) ks = ks" using n by simp
    ultimately show ?thesis using False by simp
  qed (use Cons in simp)
qed simp

lemma below_first:
  assumes "sorted_wrt (<) (k # rs)"
  shows "below (k # rs) ks = length (filter (\<lambda>x. x < k) ks)"
proof -
  have "(\<forall>y \<in> set (k # rs). x < y) = (x < k)" for x using assms less_trans by fastforce
  then show ?thesis by (simp add: below_def)
qed

lemma head_first:
  assumes rs: "sorted_wrt (<) (k # rs)" and ks: "split_by (k # rs) ks"
  shows "head_key (k # rs) ks = Some k \<longleftrightarrow> k \<in> set ks" "head_key (k # rs) ks = Some x \<Longrightarrow> k \<le> x"
proof -
  let ?lo = "filter (\<lambda>x. x < k) ks" and ?hi = "filter (\<lambda>x. \<not> x < k) ks"
  have e: "ks = ?lo @ ?hi" using ks sorted_split by (simp add: split_by_def)
  have h: "head_key (k # rs) ks = (case ?hi of [] \<Rightarrow> None | x # xs \<Rightarrow> Some x)"
  proof (cases ?hi)
    case Nil
    then have "length ks = length ?lo" using arg_cong [OF e, of length] by simp
    then show ?thesis using Nil by (simp add: head_key_def below_first [OF rs])
  next
    case (Cons x xs)
    then have "length ?lo < length ks" using arg_cong [OF e, of length] by simp
    moreover have "ks ! length ?lo = x" using Cons e by (metis nth_append_length)
    ultimately show ?thesis using Cons by (simp add: head_key_def below_first [OF rs])
  qed
  show "k \<le> x" if "head_key (k # rs) ks = Some x"
  proof -
    have "x \<in> set ?hi" using that h by (cases ?hi) auto
    then show ?thesis by (simp add: not_less)
  qed
  show "head_key (k # rs) ks = Some k \<longleftrightarrow> k \<in> set ks"
  proof
    assume "head_key (k # rs) ks = Some k"
    then show "k \<in> set ks" using nth_mem by (fastforce simp: head_key_def split: if_splits)
  next
    assume "k \<in> set ks"
    then have k: "k \<in> set ?hi" by simp
    then obtain x xs where x: "?hi = x # xs" by (cases ?hi) auto
    have "sorted_wrt (<) ?hi" using ks by (simp add: split_by_def sorted_wrt_filter)
    then have "x \<le> k" using k x by (metis less_imp_le order_refl set_ConsD sorted_wrt.simps(2))
    moreover have "x \<in> set ?hi" using x by simp
    then have "k \<le> x" by (simp add: not_less)
    ultimately show "head_key (k # rs) ks = Some k" using h x by simp
  qed
qed

lemma below_next:
  assumes rs: "sorted_wrt (<) (k # rs)" and ks: "split_by (k # rs) ks"
  shows "below rs ks = below (k # rs) ks + (if k \<in> set ks then 1 else 0)"
proof -
  have dist: "distinct ks" using ks strict_sorted_iff [of ks] by (simp add: split_by_def)
  have "(\<forall>y \<in> set rs. x < y) \<longleftrightarrow> x < k \<or> x = k" if "x \<in> set ks" for x
    using ks that rs unfolding split_by_def by fastforce
  then have "filter (\<lambda>x. \<forall>y \<in> set rs. x < y) ks = filter (\<lambda>x. x < k \<or> x = k) ks" by (intro filter_cong) auto
  moreover have "length (filter (\<lambda>x. x < k \<or> x = k) ks) = length (filter (\<lambda>x. x < k) ks) + (if k \<in> set ks then 1 else 0)"
    using dist by (induction ks) auto
  ultimately show ?thesis using below_first [OF rs] by (simp add: below_def)
qed

lemma split_next: "sorted_wrt (<) (k # rs) \<Longrightarrow> split_by (k # rs) ks \<Longrightarrow> split_by rs ks"
  by (auto simp: split_by_def)

subsection \<open>The scan of the inputs\<close>

fun ties :: "bytes \<Rightarrow> nat \<Rightarrow> nat list \<Rightarrow> bytes option list \<Rightarrow> (nat \<times> nat) list" where
  "ties k i (r # rk) (c # cs) = (if c = Some k then [(i, r)] else []) @ ties k (i + 1) rk cs"
| "ties k i rk cs = []"

lemma pick_keep:
  "length rk = length cs \<Longrightarrow> \<forall>x. Some x \<in> set cs \<longrightarrow> k \<le> x \<Longrightarrow>
    pick (pre @ rk) (length pre) cs (Some k) tied = Some (Some k, tied @ ties k (length pre) rk cs)"
proof (induction cs arbitrary: pre rk tied)
  case (Cons c cs)
  obtain r rk' where rk: "rk = r # rk'" using Cons.prems(1) by (cases rk) auto
  note IH = Cons.IH [of rk' "pre @ [r]"]
  show ?case
  proof (cases c)
    case None
    then show ?thesis using IH Cons.prems rk by simp
  next
    case (Some x)
    then have "k \<le> x" using Cons.prems by simp
    then show ?thesis using Some IH Cons.prems rk by (cases "x = k") auto
  qed
qed simp

lemma pick_min:
  "length rk = length cs \<Longrightarrow> \<forall>x. Some x \<in> set cs \<longrightarrow> k \<le> x \<Longrightarrow> Some k \<in> set cs \<Longrightarrow>
    (case mn of None \<Rightarrow> tied = [] | Some m \<Rightarrow> k < m) \<Longrightarrow>
    pick (pre @ rk) (length pre) cs mn tied = Some (Some k, ties k (length pre) rk cs)"
proof (induction cs arbitrary: pre rk tied mn)
  case (Cons c cs)
  obtain r rk' where rk: "rk = r # rk'" using Cons.prems(1) by (cases rk) auto
  note IH = Cons.IH [where rk = rk' and pre = "pre @ [r]"]
  note keep = pick_keep [of rk' cs k "pre @ [r]"]
  show ?case
  proof (cases c)
    case None
    then show ?thesis using IH Cons.prems rk by simp
  next
    case (Some x)
    show ?thesis
    proof (cases "x = k")
      case True
      then show ?thesis using Some keep Cons.prems rk by (cases mn) auto
    next
      case False
      then have x: "k < x" using Cons.prems Some by auto
      show ?thesis
      proof (cases mn)
        case None
        then show ?thesis using Some x False IH [where mn = "Some x" and tied = "tied @ [(length pre, r)]"] Cons.prems rk by simp
      next
        fix m assume m: "mn = Some m"
        show ?thesis
          using m Some x False IH [where mn = "Some x" and tied = "[(length pre, r)]"] IH [where mn = "Some m" and tied = tied] IH [where mn = "Some m" and tied = "tied @ [(length pre, r)]"] Cons.prems rk by simp
      qed
    qed
  qed
qed simp

lemma pick_none: "\<forall>c \<in> set cs. c = None \<Longrightarrow> pick rank i cs mn tied = Some (mn, tied)"
  by (induction cs arbitrary: i) auto

lemma ties_holders:
  "sorted_wrt (<) (k # rs) \<Longrightarrow> \<forall>ks \<in> set kss. split_by (k # rs) ks \<Longrightarrow>
    ties k i (map (below (k # rs)) kss) (map (head_key (k # rs)) kss) = holders k i kss"
  by (induction kss arbitrary: i) (simp_all add: head_first below_first)

subsection \<open>The loop over inputs that keep their order\<close>

text \<open>What the merge relies on of an input: it counts its keys, reads each at its rank, and ranks are key order.\<close>

locale ranked_input =
  fixes len :: "'b \<Rightarrow> nat" and kat :: "'b \<Rightarrow> nat \<Rightarrow> bytes option" and reads :: "'b \<Rightarrow> bytes list \<Rightarrow> bool"
  assumes len_reads: "reads b ks \<Longrightarrow> len b = length ks"
    and kat_reads: "reads b ks \<Longrightarrow> r < length ks \<Longrightarrow> kat b r = Some (ks ! r)"
    and sorted_reads: "reads b ks \<Longrightarrow> sorted_wrt (<) ks"
begin

abbreviation closure :: "'b list \<Rightarrow> nat \<Rightarrow> nat \<Rightarrow> (string, bytes option) res" where
  "closure blobs \<equiv> walk_key kat (map len blobs) blobs"

lemma closure_reads:
  assumes "list_all2 reads (pb @ b # bs) kss" "ks = kss ! length pb"
  shows "closure (pb @ b # bs) (length pb) r = Ok (if r < length ks then Some (ks ! r) else None)"
proof -
  have "reads b ks" using assms list_all2_nthD [of reads "pb @ b # bs" kss "length pb"] by simp
  then show ?thesis using len_reads [of b ks] kat_reads [of b ks r] by (simp add: walk_key_def nth_append not_less)
qed

lemma list_all2_next:
  assumes "list_all2 reads (pb @ bs) (pk @ ks # kss)" "length pb = length pk"
  obtains b bs' where "bs = b # bs'" "list_all2 reads ((pb @ [b]) @ bs') ((pk @ [ks]) @ kss)"
  using assms list_all2_lengthD [OF assms(1)] by (cases bs) auto

lemma refresh_reads:
  "list_all2 reads (pb @ bs) (pk @ kss) \<Longrightarrow> length pb = length pk \<Longrightarrow> length pr = length pk \<Longrightarrow> length cs = length kss \<Longrightarrow>
    refresh (closure (pb @ bs)) (pr @ map (below rs) kss) (length pr) cs = Ok (map (head_key rs) kss)"
proof (induction kss arbitrary: pb bs pk pr cs)
  case (Cons ks kss)
  obtain c cs' where cs: "cs = c # cs'" using Cons.prems by (cases cs) auto
  obtain b bs' where b: "bs = b # bs'" "list_all2 reads ((pb @ [b]) @ bs') ((pk @ [ks]) @ kss)"
    using list_all2_next [OF Cons.prems(1,2)] .
  have "closure (pb @ b # bs') (length pb) r = Ok (if r < length ks then Some (ks ! r) else None)" for r
    using closure_reads [of pb b bs' "pk @ ks # kss" ks r] Cons.prems b by simp
  moreover have "refresh (closure (pb @ b # bs')) (pr @ below rs ks # map (below rs) kss) (length pr + 1) cs' = Ok (map (head_key rs) kss)"
    using Cons.IH [OF b(2), of "pr @ [below rs ks]" cs'] Cons.prems cs by simp
  ultimately show ?case using Cons.prems b(1) cs by (simp add: head_key_def nth_append)
qed simp

lemma first_reads:
  "list_all2 reads (pb @ bs) (pk @ kss) \<Longrightarrow> length pb = length pk \<Longrightarrow> \<forall>ks \<in> set kss. below rs ks = 0 \<Longrightarrow>
    first_keys (closure (pb @ bs)) [length pb..<length (pb @ bs)] = Ok (map (head_key rs) kss)"
proof (induction kss arbitrary: pb bs pk)
  case Nil
  then show ?case using list_all2_lengthD [OF Nil(1)] by simp
next
  case (Cons ks kss)
  obtain b bs' where b: "bs = b # bs'" "list_all2 reads ((pb @ [b]) @ bs') ((pk @ [ks]) @ kss)"
    using list_all2_next [OF Cons.prems(1,2)] .
  have "closure (pb @ b # bs') (length pb) r = Ok (if r < length ks then Some (ks ! r) else None)" for r
    using closure_reads [of pb b bs' "pk @ ks # kss" ks r] Cons.prems b by simp
  moreover have "first_keys (closure (pb @ b # bs')) [Suc (length pb)..<length (pb @ b # bs')] = Ok (map (head_key rs) kss)"
    using Cons.IH [OF b(2)] Cons.prems by simp
  moreover have "[length pb..<length (pb @ b # bs')] = length pb # [Suc (length pb)..<length (pb @ b # bs')]"
    by (simp add: upt_rec)
  ultimately show ?case using Cons.prems b(1) by (simp add: head_key_def del: upt_Suc)
qed

lemma advance_reads:
  assumes rs: "sorted_wrt (<) (k # rs)"
  shows "list_all2 reads (pb @ bs) (pk @ kss) \<Longrightarrow> length pb = length pk \<Longrightarrow> length pr = length pk \<Longrightarrow> length pc = length pk \<Longrightarrow>
    \<forall>ks \<in> set kss. split_by (k # rs) ks \<Longrightarrow>
    advance (closure (pb @ bs)) cached (holders k (length pr) kss) (pr @ map (below (k # rs)) kss) (pc @ map (head_key (k # rs)) kss) =
      Ok (pr @ map (below rs) kss, pc @ map (head_key (if cached then rs else k # rs)) kss)"
proof (induction kss arbitrary: pb bs pk pr pc)
  case (Cons ks kss)
  obtain b bs' where b: "bs = b # bs'" "list_all2 reads ((pb @ [b]) @ bs') ((pk @ [ks]) @ kss)"
    using list_all2_next [OF Cons.prems(1,2)] .
  have sp: "split_by (k # rs) ks" using Cons.prems by simp
  have c: "closure (pb @ b # bs') (length pr) r = Ok (if r < length ks then Some (ks ! r) else None)" for r
    using closure_reads [of pb b bs' "pk @ ks # kss" ks r] Cons.prems b by simp
  let ?c = "head_key (if cached then rs else k # rs) ks"
  have IH: "advance (closure (pb @ b # bs')) cached (holders k (Suc (length pr)) kss) (pr @ below rs ks # map (below (k # rs)) kss)
      (pc @ c # map (head_key (k # rs)) kss) = Ok (pr @ below rs ks # map (below rs) kss, pc @ c # map (head_key (if cached then rs else k # rs)) kss)" for c
    using Cons.IH [OF b(2), of "pr @ [below rs ks]" "pc @ [c]"] Cons.prems by simp
  show ?case
  proof (cases "k \<in> set ks")
    case True
    have r: "below rs ks = Suc (below (k # rs) ks)" using below_next [OF rs sp] True by simp
    have h: "head_key rs ks = (if Suc (below (k # rs) ks) < length ks then Some (ks ! Suc (below (k # rs) ks)) else None)"
      by (simp add: head_key_def r)
    show ?thesis using True IH c Cons.prems(3,4) r
      by (cases cached) (simp_all add: b(1) list_update_append nth_append h [symmetric])
  next
    case False
    then have r: "below rs ks = below (k # rs) ks" using below_next [OF rs sp] by simp
    then have "head_key rs ks = head_key (k # rs) ks" by (simp add: head_key_def)
    then show ?thesis using False IH [of "head_key (k # rs) ks"] r b(1) by simp
  qed
qed simp

lemma loop_reads:
  assumes "list_all2 reads blobs kss"
  shows "sorted_wrt (<) rs \<Longrightarrow> \<forall>ks \<in> set kss. split_by rs ks \<Longrightarrow> set rs \<subseteq> \<Union> (set ` set kss) \<Longrightarrow>
    (if cached then cur = map (head_key rs) kss else length cur = length kss) \<Longrightarrow>
    merge_loop (closure blobs) cached f (map (below rs) kss) cur st = walk f st (map (\<lambda>k. (k, holders k 0 kss)) rs)"
proof (induction rs arbitrary: cur st)
  case Nil
  have "(if cached then Ok cur else refresh (closure blobs) (map (below []) kss) 0 cur) = Ok (map (head_key []) kss)"
    using Nil refresh_reads [of "[]" blobs "[]" kss "[]" cur "[]"] assms by simp
  moreover have "\<forall>c \<in> set (map (head_key []) kss). c = None" by (auto simp: head_key_def below_def)
  ultimately show ?case by (subst merge_loop.simps) (simp add: pick_none)
next
  case (Cons k rs)
  let ?cur = "map (head_key (k # rs)) kss" and ?rank = "map (below (k # rs)) kss"
  have cur: "(if cached then Ok cur else refresh (closure blobs) ?rank 0 cur) = Ok ?cur"
    using Cons.prems refresh_reads [of "[]" blobs "[]" kss "[]" cur "k # rs"] assms by simp
  obtain ks where ks: "ks \<in> set kss" "k \<in> set ks" using Cons.prems(3) by auto
  then have "Some k \<in> set ?cur" using head_first(1) [OF Cons.prems(1)] Cons.prems(2) by (metis image_eqI list.set_map)
  moreover have "\<forall>x. Some x \<in> set ?cur \<longrightarrow> k \<le> x" using head_first(2) [OF Cons.prems(1)] Cons.prems(2) by fastforce
  ultimately have p: "pick ?rank 0 ?cur None [] = Some (Some k, holders k 0 kss)"
    using pick_min [where rk = ?rank and cs = ?cur and k = k and mn = None and tied = "[]" and pre = "[]"] ties_holders [OF Cons.prems(1,2), of 0] by simp
  have a: "advance (closure blobs) cached (holders k 0 kss) ?rank ?cur = Ok (map (below rs) kss, map (head_key (if cached then rs else k # rs)) kss)"
    using advance_reads [OF Cons.prems(1), of "[]" blobs "[]" kss "[]" "[]" cached] assms Cons.prems(2) by simp
  have "\<forall>ks \<in> set kss. split_by rs ks" using Cons.prems split_next by blast
  then have IH: "merge_loop (closure blobs) cached f (map (below rs) kss) (map (head_key (if cached then rs else k # rs)) kss) st =
      walk f st (map (\<lambda>k. (k, holders k 0 kss)) rs)" for st
    using Cons.IH [of "map (head_key (if cached then rs else k # rs)) kss" st] Cons.prems by simp
  show ?case
    by (subst merge_loop.simps) (simp add: cur p a IH bind_res_def split: option.split sum.split)
qed

lemma merge_by_reads:
  assumes "list_all2 reads blobs kss"
  shows "merge_by len kat blobs cached f st = walk f st (merged kss)"
proof -
  let ?rs = "sorted_list_of_set (\<Union> (set ` set kss))"
  have fin: "finite (\<Union> (set ` set kss))" by simp
  have s: "sorted_wrt (<) ?rs" by (rule strict_sorted_list_of_set)
  have srt: "sorted_wrt (<) ks" if "ks \<in> set kss" for ks
    using assms that sorted_reads by (metis in_set_conv_nth list_all2_conv_all_nth)
  then have sp: "\<forall>ks \<in> set kss. split_by ?rs ks" using fin by (auto simp: split_by_def)
  have "x \<in> set ?rs" if "ks \<in> set kss" "x \<in> set ks" for ks x using that fin by auto
  then have z: "\<forall>ks \<in> set kss. below ?rs ks = 0" by (fastforce simp: below_def filter_empty_conv)
  have len: "length blobs = length kss" using assms by (rule list_all2_lengthD)
  have "first_keys (closure blobs) [0..<length blobs] = Ok (map (head_key ?rs) kss)"
    using first_reads [of "[]" blobs "[]" kss ?rs] assms z by simp
  moreover have "replicate (length blobs) 0 = map (below ?rs) kss" using z len by (simp add: map_replicate_const [symmetric])
  moreover have "merge_loop (closure blobs) cached f (map (below ?rs) kss) (map (head_key ?rs) kss) st =
      walk f st (map (\<lambda>k. (k, holders k 0 kss)) ?rs)"
    by (rule loop_reads [OF assms s sp]) (use fin in auto)
  ultimately show ?thesis by (simp add: merge_by_def merged_def)
qed

end

definition blob_reads :: "blob_index \<Rightarrow> bytes list \<Rightarrow> bool" where
  "blob_reads b ks \<longleftrightarrow> (\<exists>sec ix. b = Flat_Idx (Some sec) ix \<and> reads_keys ix sec ks)"

interpretation segments: ranked_input blob_keys blob_key_at blob_reads
  by unfold_locales (auto simp: blob_reads_def reads_keys_def blob_key_at_def fi_len_def)

subsection \<open>Properties\<close>

text \<open>
  C4: A merge of segments whose key sections hold sorted keys ends, and what it does to
  its callback's state is to show it every distinct key of any input exactly once, in
  key order, each with the inputs that hold it, oldest first, and its rank in each,
  stopping at the callback's first error. Keeping the keys across the steps and reading
  them again give the same walk.
\<close>

theorem merge_shows_each_key_once:
  assumes "list_all2 blob_reads blobs kss"
  shows "merge_ranks blobs cached f st = walk f st (merged kss)"
  unfolding merge_ranks_def by (rule segments.merge_by_reads [OF assms])

text \<open>Two inputs of the same two keys, into a log of what the callback was shown.\<close>

theorem merge_shows_each_key_once_witness:
  "merge_ranks [Flat_Idx (Some two_keys) two_index, Flat_Idx (Some two_keys) two_index] True (\<lambda>st k tied. Ok (st @ [(k, tied)])) [] =
    Ok [([65], [(0, 0), (1, 0)]), ([67], [(0, 1), (1, 1)])]"
proof -
  have "list_all2 blob_reads [Flat_Idx (Some two_keys) two_index, Flat_Idx (Some two_keys) two_index] [[[65], [67]], [[65], [67]]]"
    using two_keys_read by (simp add: blob_reads_def)
  note m = merge_shows_each_key_once [OF this, of True "\<lambda>st k tied. Ok (st @ [(k, tied)])" "[]"]
  have "\<Union> (set ` set [[[65], [67]], [[65], [67]]]) = set [[65], [67 :: byte]]" by auto
  then have "sorted_list_of_set (\<Union> (set ` set [[[65], [67]], [[65], [67]]])) = [[65], [67 :: byte]]"
    by (simp only: sorted_list_of_set_sort_remdups) simp
  then show ?thesis using m by (simp add: merged_def)
qed

end
