(* ===== verification/Key_Order.thy ===== *)
theory Key_Order
  imports Prelude "HOL-Library.List_Lexorder"
begin

text \<open>
  Keys compared a word at a time: the two comparisons the readers use in place of the
  library's (db.rs, ordindex.rs), each proved to be the order of the bytes, and the
  branch-free binary search both files share. A key's order is the lexicographic
  order of its bytes.
\<close>

datatype ordering = Less | Equal | Greater

definition cmp :: "'a::linorder \<Rightarrow> 'a \<Rightarrow> ordering" where
  "cmp a b = (if a < b then Less else if a = b then Equal else Greater)"

definition be_u64 :: "bytes \<Rightarrow> u64" where
  "be_u64 bs = word_of_nat (le_val (rev bs))"

definition be_word :: "bytes \<Rightarrow> nat \<Rightarrow> u64 option" where
  "be_word s i = do { w \<leftarrow> slice s i (i + 8); Some (be_u64 w) }"

definition key_cmp :: "bytes \<Rightarrow> bytes \<Rightarrow> ordering option" where
  "key_cmp a b =
    (if 16 \<le> length a \<and> 16 \<le> length b
     then do { x \<leftarrow> be_word a 0; y \<leftarrow> be_word b 0;
               case cmp x y of
                 Equal \<Rightarrow> do { x \<leftarrow> be_word a 8; y \<leftarrow> be_word b 8;
                              case cmp x y of
                                Equal \<Rightarrow> do { a \<leftarrow> slice a 16 (length a); b \<leftarrow> slice b 16 (length b); Some (cmp a b) }
                              | ord \<Rightarrow> Some ord }
               | ord \<Rightarrow> Some ord }
     else Some (cmp a b))"

function cmp_words :: "bytes \<Rightarrow> bytes \<Rightarrow> nat \<Rightarrow> nat \<Rightarrow> (ordering + nat) option" where
  "cmp_words a b n i =
    (if i + 8 \<le> n
     then do { x \<leftarrow> be_word a i; y \<leftarrow> be_word b i; if x \<noteq> y then Some (Inl (cmp x y)) else cmp_words a b n (i + 8) }
     else Some (Inr i))"
  by auto
termination
  by (relation "measure (\<lambda>(a, b, n, i). n - i)") auto

function cmp_bytes :: "bytes \<Rightarrow> bytes \<Rightarrow> nat \<Rightarrow> nat \<Rightarrow> ordering option" where
  "cmp_bytes a b n i =
    (if i < n
     then do { x \<leftarrow> index a i; y \<leftarrow> index b i; if x \<noteq> y then Some (cmp x y) else cmp_bytes a b n (i + 1) }
     else Some (cmp (length a) (length b)))"
  by auto
termination
  by (relation "measure (\<lambda>(a, b, n, i). n - i)") auto

declare cmp_words.simps [simp del] cmp_bytes.simps [simp del]

definition cmp_short :: "bytes \<Rightarrow> bytes \<Rightarrow> ordering option" where
  "cmp_short a b =
    (let n = min (length a) (length b)
     in do { w \<leftarrow> cmp_words a b n 0;
             case w of
               Inl ord \<Rightarrow> Some ord
             | Inr i \<Rightarrow>
                 if i < n
                 then if 8 \<le> n
                      then do { x \<leftarrow> be_word a (n - 8); y \<leftarrow> be_word b (n - 8);
                                Some (if x \<noteq> y then cmp x y else cmp (length a) (length b)) }
                      else cmp_bytes a b n i
                 else Some (cmp (length a) (length b)) })"

subsection \<open>The search without branches\<close>

definition wrapping_neg :: "nat \<Rightarrow> nat" where
  "wrapping_neg x = (2 ^ 64 - x) mod 2 ^ 64"

text \<open>The test may panic, as the closures that index a slice do.\<close>

function narrow :: "(nat \<Rightarrow> bool option) \<Rightarrow> nat \<Rightarrow> nat \<Rightarrow> (nat \<times> nat) option" where
  "narrow is_below lo len =
    (if 1 < len
     then let half = len div 2
          in do { t \<leftarrow> is_below (lo + half - 1);
                  narrow is_below (lo + (half AND wrapping_neg (of_bool t))) (len - half) }
     else Some (lo, len))"
  by auto
termination
  by (relation "measure (\<lambda>(f, lo, len). len)") (auto simp: Let_def)

declare narrow.simps [simp del]

definition select_lower_bound :: "nat \<Rightarrow> (nat \<Rightarrow> bool option) \<Rightarrow> nat option" where
  "select_lower_bound n is_below =
    do { (lo, len) \<leftarrow> narrow is_below 0 n;
         if len = 1 then do { t \<leftarrow> is_below lo; Some (lo + of_bool t) } else Some lo }"

definition lower_bound :: "u64 list \<Rightarrow> u64 \<Rightarrow> nat option" where
  "lower_bound a h = select_lower_bound (length a) (\<lambda>i. do { x \<leftarrow> index a i; Some (x < h) })"

text \<open>The plain bisection the ordered index runs over a range of ranks.\<close>

function halve :: "(nat \<Rightarrow> bool option) \<Rightarrow> nat \<Rightarrow> nat \<Rightarrow> nat option" where
  "halve is_below a b =
    (if a < b
     then let m = (a + b) div 2
          in do { t \<leftarrow> is_below m; if t then halve is_below (m + 1) b else halve is_below a m }
     else Some a)"
  by auto
termination
  by (relation "measure (\<lambda>(f, a, b). b - a)") (auto simp: Let_def)

declare halve.simps [simp del]

subsection \<open>Words in byte order\<close>

lemma cmp_simps [simp]:
  "cmp a b = Equal \<longleftrightarrow> a = b" "cmp a b = Less \<longleftrightarrow> a < b" "cmp a b = Greater \<longleftrightarrow> b < a"
  by (auto simp: cmp_def)

lemma cmp_refl [simp]: "cmp a a = Equal"
  by simp

lemma cmp_decides: "x \<noteq> y \<Longrightarrow> (case cmp x y of Equal \<Rightarrow> e | ord \<Rightarrow> Some ord) = Some (cmp x y)"
  by (auto simp: cmp_def split: ordering.split)

lemma cmp_eqI: "(a < b \<longleftrightarrow> x < y) \<Longrightarrow> (a = b \<longleftrightarrow> x = y) \<Longrightarrow> cmp a b = cmp x y"
  by (simp add: cmp_def)

lemma be_val_Cons: "le_val (rev (x # xs)) = unat x * 256 ^ length xs + le_val (rev xs)"
  by (simp add: le_val_append)

lemma be_val_order:
  "length xs = length ys \<Longrightarrow> le_val (rev xs) < le_val (rev ys) \<longleftrightarrow> xs < ys"
proof (induction xs ys rule: list_induct2)
  case (Cons x xs y ys)
  let ?b = "256 ^ length xs :: nat"
  have bx: "le_val (rev xs) < ?b" "le_val (rev ys) < ?b" using le_val_less [of "rev xs"] le_val_less [of "rev ys"] Cons(1) by simp_all
  consider "unat x < unat y" | "x = y" | "unat y < unat x" by (metis linorder_neqE_nat word_unat_eq_iff)
  then show ?case
  proof cases
    case 1
    then have "unat x * ?b + ?b \<le> unat y * ?b" by (metis Suc_leI mult_Suc mult_le_mono1 add.commute)
    moreover have "x < y" using 1 by (simp add: word_less_nat_alt)
    ultimately show ?thesis using bx Cons(1) unfolding be_val_Cons by (simp add: less_le)
  next
    case 2
    then show ?thesis using Cons unfolding be_val_Cons by simp
  next
    case 3
    then have "unat y * ?b + ?b \<le> unat x * ?b" by (metis Suc_leI mult_Suc mult_le_mono1 add.commute)
    moreover have "\<not> x < y" "x \<noteq> y" using 3 by (auto simp: word_less_nat_alt)
    ultimately show ?thesis using bx Cons(1) unfolding be_val_Cons by simp
  qed
qed simp

lemma be_u64_order:
  assumes "length xs = 8" "length ys = 8"
  shows "be_u64 xs < be_u64 ys \<longleftrightarrow> xs < ys" "be_u64 xs = be_u64 ys \<longleftrightarrow> xs = ys"
proof -
  have u: "unat (be_u64 zs) = le_val (rev zs)" if "length zs = 8" for zs
    using le_val_less [of "rev zs"] that by (simp add: be_u64_def unat_of_nat)
  show l: "be_u64 xs < be_u64 ys \<longleftrightarrow> xs < ys" using be_val_order assms by (simp add: word_less_nat_alt u)
  have "be_u64 ys < be_u64 xs \<longleftrightarrow> ys < xs" using be_val_order assms by (simp add: word_less_nat_alt u)
  then show "be_u64 xs = be_u64 ys \<longleftrightarrow> xs = ys" using l by (metis less_irrefl neqE)
qed

lemma prefix_less: "p @ x < p @ y \<longleftrightarrow> x < y" for p :: bytes
  by (induction p) auto

lemma window_less: "length x = length y \<Longrightarrow> x < y \<Longrightarrow> x @ r < y @ s" for x :: bytes
  by (induction x y rule: list_induct2) auto

lemma cmp_window:
  assumes "take i a = take i b" "i + 8 \<le> length a" "i + 8 \<le> length b"
  obtains x y where "be_word a i = Some x" "be_word b i = Some y" "x \<noteq> y \<Longrightarrow> cmp x y = cmp a b" "x = y \<Longrightarrow> take (i + 8) a = take (i + 8) b"
proof
  let ?x = "take 8 (drop i a)" and ?y = "take 8 (drop i b)"
  have l: "length ?x = 8" "length ?y = 8" using assms by simp_all
  show "be_word a i = Some (be_u64 ?x)" "be_word b i = Some (be_u64 ?y)" using assms by (simp_all add: be_word_def)
  have a: "a = take i b @ ?x @ drop (i + 8) a" by (metis append_take_drop_id assms(1) drop_drop add.commute)
  have b: "b = take i b @ ?y @ drop (i + 8) b" by (metis append_take_drop_id drop_drop add.commute)
  have "take i b @ ?x @ drop (i + 8) a < take i b @ ?y @ drop (i + 8) b" if "?x < ?y"
    unfolding prefix_less by (rule window_less) (use l that in simp_all)
  then have lt: "a < b" if "?x < ?y" using that unfolding a [symmetric] b [symmetric] .
  have "take i b @ ?y @ drop (i + 8) b < take i b @ ?x @ drop (i + 8) a" if "?y < ?x"
    unfolding prefix_less by (rule window_less) (use l that in simp_all)
  then have gt: "b < a" if "?y < ?x" using that unfolding a [symmetric] b [symmetric] .
  show "cmp (be_u64 ?x) (be_u64 ?y) = cmp a b" if "be_u64 ?x \<noteq> be_u64 ?y"
  proof -
    have "?x \<noteq> ?y" using that by auto
    then consider (lt) "?x < ?y" | (gt) "?y < ?x" by (rule linorder_neqE) blast
    then show ?thesis
    proof cases
      case lt
      then have "cmp (be_u64 ?x) (be_u64 ?y) = Less" "cmp a b = Less" using be_u64_order(1) [OF l] \<open>?x < ?y \<Longrightarrow> a < b\<close> by (simp_all only: cmp_simps)
      then show ?thesis by (simp only:)
    next
      case gt
      then have "cmp (be_u64 ?x) (be_u64 ?y) = Greater" "cmp a b = Greater"
        using be_u64_order(1) [OF l(2,1)] \<open>?y < ?x \<Longrightarrow> b < a\<close> by (simp_all only: cmp_simps)
      then show ?thesis by (simp only:)
    qed
  qed
  show "take (i + 8) a = take (i + 8) b" if "be_u64 ?x = be_u64 ?y"
    using that be_u64_order(2) [OF l] assms(1) by (simp add: take_add)
qed

subsection \<open>The comparisons\<close>

lemma key_cmp_order: "key_cmp a b = Some (cmp a b)"
proof (cases "16 \<le> length a \<and> 16 \<le> length b")
  case True
  obtain x y where x: "be_word a 0 = Some x" "be_word b 0 = Some y" "x \<noteq> y \<Longrightarrow> cmp x y = cmp a b" "x = y \<Longrightarrow> take (0 + 8) a = take (0 + 8) b"
    using cmp_window [of 0 a b] True by auto
  show ?thesis
  proof (cases "x = y")
    case False
    then show ?thesis using x(1,2) True x(3) [symmetric] by (simp add: key_cmp_def cmp_decides)
  next
    case e: True
    obtain x' y' where y: "be_word a 8 = Some x'" "be_word b 8 = Some y'" "x' \<noteq> y' \<Longrightarrow> cmp x' y' = cmp a b" "x' = y' \<Longrightarrow> take (8 + 8) a = take (8 + 8) b"
      using cmp_window [of 8 a b] True x(4) [OF e] by auto
    show ?thesis
    proof (cases "x' = y'")
      case False
      then show ?thesis using x(1,2) y(1,2) e True y(3) [symmetric] by (simp add: key_cmp_def cmp_decides)
    next
      case e': True
      have "cmp (drop 16 a) (drop 16 b) = cmp a b"
      proof (rule cmp_eqI)
        have a: "take 16 b @ drop 16 a = a" using y(4) [OF e'] append_take_drop_id [of 16 a] by simp
        show "drop 16 a < drop 16 b \<longleftrightarrow> a < b" using prefix_less [of "take 16 b" "drop 16 a" "drop 16 b"] by (simp add: a)
        show "drop 16 a = drop 16 b \<longleftrightarrow> a = b" using a append_take_drop_id [of 16 b] by metis
      qed
      moreover have "cmp x y = Equal" "cmp x' y' = Equal" using e e' by simp_all
      ultimately show ?thesis using x(1,2) y(1,2) True by (simp add: key_cmp_def)
    qed
  qed
qed (auto simp: key_cmp_def)

lemma cmp_words_order:
  assumes "length a = n" "length b = n"
  shows "take i a = take i b \<Longrightarrow> i \<le> n \<Longrightarrow> cmp_words a b n i = Some (Inl (cmp a b)) \<or>
    (\<exists>j. cmp_words a b n i = Some (Inr j) \<and> i \<le> j \<and> j \<le> n \<and> n < j + 8 \<and> take j a = take j b)"
proof (induction "n - i" arbitrary: i rule: less_induct)
  case less
  show ?case
  proof (cases "i + 8 \<le> n")
    case False
    then show ?thesis using less.prems by (subst (1 2) cmp_words.simps) auto
  next
    case True
    obtain x y where x: "be_word a i = Some x" "be_word b i = Some y" "x \<noteq> y \<Longrightarrow> cmp x y = cmp a b" "x = y \<Longrightarrow> take (i + 8) a = take (i + 8) b"
      using cmp_window [OF less.prems(1)] True assms by metis
    have e: "cmp_words a b n i = (if x \<noteq> y then Some (Inl (cmp x y)) else cmp_words a b n (i + 8))"
      using True x(1,2) by (subst cmp_words.simps) simp
    show ?thesis
    proof (cases "x = y")
      case False
      then show ?thesis using e x(3) by simp
    next
      case xy: True
      have "n - (i + 8) < n - i" using True by simp
      note IH = less.hyps [OF this x(4) [OF xy] True]
      have "cmp_words a b n i = cmp_words a b n (i + 8)" using e xy by simp
      then show ?thesis using IH by fastforce
    qed
  qed
qed

lemma cmp_bytes_order:
  assumes "length a = n" "length b = n"
  shows "take i a = take i b \<Longrightarrow> i \<le> n \<Longrightarrow> cmp_bytes a b n i = Some (cmp a b)"
proof (induction "n - i" arbitrary: i rule: less_induct)
  case less
  show ?case
  proof (cases "i < n")
    case False
    then show ?thesis using less.prems assms by (subst cmp_bytes.simps) auto
  next
    case True
    have ab: "take i b @ a ! i # drop (Suc i) a = a" "take i b @ b ! i # drop (Suc i) b = b"
      using less.prems(1) True assms by (metis id_take_nth_drop)+
    have e: "cmp_bytes a b n i = (if a ! i \<noteq> b ! i then Some (cmp (a ! i) (b ! i)) else cmp_bytes a b n (i + 1))"
      using True assms by (subst cmp_bytes.simps) simp
    show ?thesis
    proof (cases "a ! i = b ! i")
      case False
      have "cmp (a ! i) (b ! i) = cmp a b"
      proof (rule cmp_eqI)
        show "a ! i < b ! i \<longleftrightarrow> a < b"
          using prefix_less [of "take i b" "a ! i # drop (Suc i) a" "b ! i # drop (Suc i) b"] False unfolding ab by simp
        show "a ! i = b ! i \<longleftrightarrow> a = b" using False by auto
      qed
      then show ?thesis using e False by simp
    next
      case same: True
      then have "take (i + 1) a = take (i + 1) b" using less.prems(1) True assms by (simp add: take_Suc_conv_app_nth)
      then show ?thesis using less.hyps [of "i + 1"] True e same by simp
    qed
  qed
qed

lemma cmp_short_order:
  assumes "length a = length b"
  shows "cmp_short a b = Some (cmp a b)"
proof -
  let ?n = "length b"
  have n: "min (length a) (length b) = ?n" "cmp (length a) ?n = Equal" using assms by simp_all
  consider "cmp_words a b ?n 0 = Some (Inl (cmp a b))"
    | j where "cmp_words a b ?n 0 = Some (Inr j)" "j \<le> ?n" "?n < j + 8" "take j a = take j b"
    using cmp_words_order [OF assms refl, of 0] by auto
  then show ?thesis
  proof cases
    case 1
    then show ?thesis by (simp add: cmp_short_def n)
  next
    case (2 j)
    consider "j = ?n" | "j < ?n" "8 \<le> ?n" | "j < ?n" "?n < 8" using 2 by linarith
    then show ?thesis
    proof cases
      case 1
      then have "a = b" using 2(4) assms by simp
      then show ?thesis using 2 1 by (simp add: cmp_short_def Let_def)
    next
      case _: 2
      then have "take (?n - 8) a = take (?n - 8) b" using 2(3,4) by (metis le_diff_conv less_imp_le min.absorb2 min_def take_take add.commute)
      then obtain x y where x: "be_word a (?n - 8) = Some x" "be_word b (?n - 8) = Some y" "x \<noteq> y \<Longrightarrow> cmp x y = cmp a b"
          "x = y \<Longrightarrow> take (?n - 8 + 8) a = take (?n - 8 + 8) b"
        using cmp_window [of "?n - 8" a b] assms \<open>8 \<le> ?n\<close> by (metis le_add_diff_inverse2 order_refl)
      have "x = y \<Longrightarrow> a = b" using x(4) assms \<open>8 \<le> ?n\<close> by simp
      then show ?thesis using 2 \<open>j < ?n\<close> \<open>8 \<le> ?n\<close> x(1-3) by (auto simp: cmp_short_def n)
    next
      case 3
      then show ?thesis using 2 cmp_bytes_order [OF assms refl 2(4,2)] by (simp add: cmp_short_def n)
    qed
  qed
qed

subsection \<open>The searches\<close>

text \<open>Where a test that holds of a prefix of a range stops holding.\<close>

definition cut :: "(nat \<Rightarrow> bool) \<Rightarrow> nat \<Rightarrow> nat \<Rightarrow> nat \<Rightarrow> bool" where
  "cut P lo hi r \<longleftrightarrow> lo \<le> r \<and> r \<le> hi \<and> (\<forall>i. lo \<le> i \<and> i < r \<longrightarrow> P i) \<and> (\<forall>i. r \<le> i \<and> i < hi \<longrightarrow> \<not> P i)"

lemma cut_unique: "cut P lo hi r \<Longrightarrow> cut P lo hi s \<Longrightarrow> r = s"
  unfolding cut_def by (metis linorder_neqE_nat order_refl less_le_trans)

lemma mask_step: "half < 2 ^ 64 \<Longrightarrow> half AND wrapping_neg (of_bool t) = (if t then half else 0)"
proof -
  assume "half < 2 ^ 64"
  then have "half AND mask 64 = half" by (simp add: take_bit_nat_eq_self flip: take_bit_eq_mask)
  moreover have "wrapping_neg 1 = mask 64" "wrapping_neg 0 = 0" by (simp_all add: wrapping_neg_def mask_eq_exp_minus_1)
  ultimately show ?thesis by simp
qed

lemma narrow_cut:
  assumes ok: "\<And>i. i < n \<Longrightarrow> f i = Some (P i)" and n: "n < 2 ^ 64"
    and mono: "\<And>i j. i \<le> j \<Longrightarrow> j < n \<Longrightarrow> P j \<Longrightarrow> P i"
  shows "lo + len \<le> n \<Longrightarrow> (\<forall>i < lo. P i) \<Longrightarrow> (\<forall>i. lo + len \<le> i \<and> i < n \<longrightarrow> \<not> P i) \<Longrightarrow>
    \<exists>lo' len'. narrow f lo len = Some (lo', len') \<and> len' \<le> 1 \<and> lo' + len' \<le> n \<and> (\<forall>i < lo'. P i) \<and> (\<forall>i. lo' + len' \<le> i \<and> i < n \<longrightarrow> \<not> P i)"
proof (induction len arbitrary: lo rule: less_induct)
  case (less len)
  show ?case
  proof (cases "1 < len")
    case False
    then show ?thesis using less.prems by (subst narrow.simps) auto
  next
    case True
    define half where "half = len div 2"
    have h: "0 < half" "half < len" using True by (auto simp: half_def)
    have at: "lo + half - 1 < n" using h less.prems by linarith
    have "narrow f lo len = narrow f (lo + (half AND wrapping_neg (of_bool (P (lo + half - 1))))) (len - half)"
      using True ok [OF at] by (subst narrow.simps) (simp add: half_def [symmetric])
    then have e: "narrow f lo len = narrow f (if P (lo + half - 1) then lo + half else lo) (len - half)"
      using h less.prems n by (subst (asm) mask_step) auto
    show ?thesis
    proof (cases "P (lo + half - 1)")
      case p: True
      then have "\<forall>i < lo + half. P i" using mono [OF _ at p] h by auto
      then show ?thesis using less.IH [of "len - half" "lo + half"] less.prems h e p by simp
    next
      case p: False
      then have "\<forall>i. lo + half - 1 \<le> i \<and> i < n \<longrightarrow> \<not> P i" using mono by blast
      moreover have "lo + half - 1 \<le> lo + (len - half)" using h by (simp add: half_def)
      ultimately show ?thesis using less.IH [of "len - half" lo] less.prems h e p by simp
    qed
  qed
qed

lemma select_lower_bound_cut:
  assumes ok: "\<And>i. i < n \<Longrightarrow> f i = Some (P i)" and n: "n < 2 ^ 64"
    and mono: "\<And>i j. i \<le> j \<Longrightarrow> j < n \<Longrightarrow> P j \<Longrightarrow> P i"
  obtains r where "select_lower_bound n f = Some r" "cut P 0 n r"
proof -
  obtain lo len where r: "narrow f 0 n = Some (lo, len)" "len \<le> 1" "lo + len \<le> n" "\<forall>i < lo. P i" "\<forall>i. lo + len \<le> i \<and> i < n \<longrightarrow> \<not> P i"
    using narrow_cut [of n f P 0 n] ok n mono by fastforce
  show thesis
  proof (cases "len = 1")
    case True
    then have "select_lower_bound n f = Some (lo + of_bool (P lo))" using r ok [of lo] by (simp add: select_lower_bound_def)
    moreover have "cut P 0 n (lo + of_bool (P lo))"
      using r True mono [of lo] by (auto simp: cut_def less_Suc_eq dest: le_neq_implies_less)
    ultimately show thesis by (rule that)
  next
    case False
    then show thesis using that [of lo] r by (simp add: select_lower_bound_def cut_def)
  qed
qed

lemma halve_cut:
  assumes ok: "\<And>i. lo \<le> i \<Longrightarrow> i < hi \<Longrightarrow> f i = Some (P i)" and mono: "\<And>i j. lo \<le> i \<Longrightarrow> i \<le> j \<Longrightarrow> j < hi \<Longrightarrow> P j \<Longrightarrow> P i"
  shows "lo \<le> a \<Longrightarrow> a \<le> b \<Longrightarrow> b \<le> hi \<Longrightarrow> (\<forall>i. lo \<le> i \<and> i < a \<longrightarrow> P i) \<Longrightarrow> (\<forall>i. b \<le> i \<and> i < hi \<longrightarrow> \<not> P i) \<Longrightarrow>
    \<exists>r. halve f a b = Some r \<and> cut P lo hi r"
proof (induction "b - a" arbitrary: a b rule: less_induct)
  case less
  show ?case
  proof (cases "a < b")
    case False
    then show ?thesis using less.prems by (subst halve.simps) (auto simp: cut_def)
  next
    case True
    define m where "m = (a + b) div 2"
    have m: "a \<le> m" "m < b" using True by (auto simp: m_def)
    have e: "halve f a b = (if P m then halve f (m + 1) b else halve f a m)"
      using True ok [of m] m less.prems by (subst halve.simps) (simp add: m_def [symmetric])
    show ?thesis
    proof (cases "P m")
      case p: True
      have "P i" if "lo \<le> i" "i < m + 1" for i using mono [of i m] p that m less.prems by simp
      then show ?thesis using less.hyps [of b "m + 1"] less.prems m e p by auto
    next
      case p: False
      have "\<not> P i" if "m \<le> i" "i < hi" for i using mono [of m i] p that m less.prems by auto
      then show ?thesis using less.hyps [of m a] less.prems m e p by auto
    qed
  qed
qed

lemmas halve_whole = halve_cut [where a = lo and b = hi for lo hi]

end
