(* ===== verification/Fences.thy ===== *)
theory Fences
  imports Key_Order Bloom
begin

text \<open>
  The ranges partitions are named by (db.rs): when two overlap, when two merges meet,
  and which partitions a merge takes. A fence is a half-open range of keys; None above is
  open, and the empty key below is open too.
\<close>

definition FENCE_MAX :: nat where "FENCE_MAX = 16"

type_synonym fence = "bytes \<times> bytes option"

definition fence_lo :: "bytes \<Rightarrow> bytes" where
  "fence_lo min_key = take (min (length min_key) FENCE_MAX) min_key"

definition fences_overlap :: "bytes \<Rightarrow> bytes option \<Rightarrow> bytes \<Rightarrow> bytes option \<Rightarrow> bool" where
  "fences_overlap a_lo a_hi b_lo b_hi =
    (let lower = (case b_hi of None \<Rightarrow> False | Some h \<Rightarrow> h \<le> a_lo);
         higher = (case a_hi of None \<Rightarrow> False | Some h \<Rightarrow> h \<le> b_lo)
     in \<not> lower \<and> \<not> higher)"

definition merges_meet :: "string list \<Rightarrow> fence list option \<Rightarrow> string list \<Rightarrow> fence list option \<Rightarrow> bool" where
  "merges_meet a_inputs a_fences b_inputs b_fences =
    (case (a_fences, b_fences) of
       (Some a, Some b) \<Rightarrow>
         list_ex (\<lambda>n. n \<in> set a_inputs) b_inputs \<or>
         list_ex (\<lambda>(lo, hi). list_ex (\<lambda>(blo, bhi). fences_overlap lo hi blo bhi) b) a
     | _ \<Rightarrow> True)"

record merging =
  mg_inputs :: "string list"
  mg_fences :: "fence list option"

definition merging_holds :: "merging \<Rightarrow> string list \<Rightarrow> fence list option \<Rightarrow> bool" where
  "merging_holds m inputs fences = merges_meet (mg_inputs m) (mg_fences m) inputs fences"

subsection \<open>A segment's range\<close>

record seg_range =
  sg_lo :: bytes
  sg_hi :: "bytes option"
  sg_bloom :: "blocked_bloom option"

definition below_lo :: "seg_range \<Rightarrow> bytes \<Rightarrow> bool" where
  "below_lo s key \<longleftrightarrow> sg_lo s \<noteq> [] \<and> key < sg_lo s"

definition cursor_from :: "seg_range \<Rightarrow> bytes \<Rightarrow> bytes" where
  "cursor_from s from = (if sg_lo s \<noteq> [] \<and> from < sg_lo s then sg_lo s else from)"

definition may_hold :: "seg_range \<Rightarrow> bytes \<Rightarrow> bool option" where
  "may_hold s key =
    (if below_lo s key then Some False
     else if (case sg_hi s of None \<Rightarrow> False | Some h \<Rightarrow> h \<le> key) then Some False
     else case sg_bloom s of None \<Rightarrow> Some True | Some b \<Rightarrow> maybe_contains b key)"

definition may_reach :: "seg_range \<Rightarrow> bytes \<Rightarrow> bool" where
  "may_reach s from \<longleftrightarrow> (case sg_hi s of None \<Rightarrow> True | Some h \<Rightarrow> from < h)"

subsection \<open>The partitions a merge takes\<close>

definition overlaps :: "fence \<Rightarrow> fence \<Rightarrow> bool" where
  "overlaps a b = fences_overlap (fst a) (snd a) (fst b) (snd b)"

fun grow_parts :: "fence \<Rightarrow> fence list \<Rightarrow> fence list \<Rightarrow> bool \<Rightarrow> fence list \<times> bool" where
  "grow_parts pc [] fences grew = (fences, grew)"
| "grow_parts pc (p # ps) fences grew =
    (if overlaps pc p \<and> p \<notin> set fences then grow_parts pc ps (fences @ [p]) True else grow_parts pc ps fences grew)"

fun grow_pieces :: "fence list \<Rightarrow> fence list \<Rightarrow> fence list \<Rightarrow> bool \<Rightarrow> fence list \<times> bool" where
  "grow_pieces parts [] fences grew = (fences, grew)"
| "grow_pieces parts (pc # pcs) fences grew =
    (if list_ex (\<lambda>f. overlaps pc f) fences
     then let (fences, grew) = grow_parts pc parts fences grew in grow_pieces parts pcs fences grew
     else grow_pieces parts pcs fences grew)"

partial_function (option) grow_loop :: "fence list \<Rightarrow> fence list \<Rightarrow> fence list \<Rightarrow> fence list option" where
  "grow_loop parts pieces fences =
    (let (fences, grew) = grow_pieces parts pieces fences False
     in if grew then grow_loop parts pieces fences else Some fences)"

definition resolve_fences :: "fence list \<Rightarrow> fence list \<Rightarrow> fence list \<Rightarrow> fence list option" where
  "resolve_fences parts pieces given =
    do { let fences = filter (\<lambda>p. list_ex (\<lambda>g. overlaps g p) given) parts;
         fences \<leftarrow> grow_loop parts pieces fences;
         Some (sort_key fst fences) }"

subsection \<open>What a fence holds\<close>

definition inside :: "fence \<Rightarrow> bytes \<Rightarrow> bool" where
  "inside f k \<longleftrightarrow> fst f \<le> k \<and> (\<forall>h. snd f = Some h \<longrightarrow> k < h)"

text \<open>Ranges in key order and apart, none empty.\<close>

fun apart :: "fence list \<Rightarrow> bool" where
  "apart [] \<longleftrightarrow> True"
| "apart (f # fs) \<longleftrightarrow> (\<forall>h. snd f = Some h \<longrightarrow> fst f < h) \<and> (fs \<noteq> [] \<longrightarrow> (\<exists>h. snd f = Some h \<and> h \<le> fst (hd fs))) \<and> apart fs"

lemma apart_nth: "apart fs \<Longrightarrow> i < length fs \<Longrightarrow> snd (fs ! i) = Some h \<Longrightarrow> fst (fs ! i) < h"
  by (induction fs arbitrary: i) (auto simp: nth_Cons split: nat.splits)

lemma apart_next: "apart fs \<Longrightarrow> Suc i < length fs \<Longrightarrow> \<exists>h. snd (fs ! i) = Some h \<and> h \<le> fst (fs ! Suc i)"
proof (induction fs arbitrary: i)
  case (Cons f fs)
  then show ?case by (cases i) (auto simp: hd_conv_nth)
qed simp

lemma apart_later:
  assumes "apart fs" "i < j" "j < length fs" "snd (fs ! i) = Some h"
  shows "h \<le> fst (fs ! j)"
  using assms(2,3)
proof (induction j)
  case (Suc j)
  show ?case
  proof (cases "i = j")
    case True
    then show ?thesis using apart_next [OF assms(1), of j] Suc.prems assms(4) by auto
  next
    case False
    then have "h \<le> fst (fs ! j)" using Suc by simp
    also have "fst (fs ! j) \<le> fst (fs ! Suc j)"
      using apart_next [OF assms(1), of j] apart_nth [OF assms(1), of j] Suc.prems by (auto dest!: less_imp_le intro: order_trans)
    finally show ?thesis .
  qed
qed simp

subsection \<open>Overlap, and the partitions a merge takes\<close>

text \<open>Two ranges that each hold a key overlap exactly when they share one.\<close>

definition proper :: "fence \<Rightarrow> bool" where
  "proper f \<longleftrightarrow> (\<forall>h. snd f = Some h \<longrightarrow> fst f < h)"

lemma overlaps_common:
  assumes "proper a" "proper b"
  shows "overlaps a b \<longleftrightarrow> (\<exists>k. inside a k \<and> inside b k)"
proof
  assume "overlaps a b"
  then have "inside a (max (fst a) (fst b)) \<and> inside b (max (fst a) (fst b))"
    using assms by (auto simp: overlaps_def fences_overlap_def inside_def proper_def not_le split: option.splits)
  then show "\<exists>k. inside a k \<and> inside b k" by blast
next
  assume "\<exists>k. inside a k \<and> inside b k"
  then show "overlaps a b"
    by (auto simp: overlaps_def fences_overlap_def inside_def not_le split: option.splits intro: le_less_trans)
qed

inductive reached :: "fence list \<Rightarrow> fence list \<Rightarrow> fence list \<Rightarrow> fence \<Rightarrow> bool" for parts pieces given where
  named: "p \<in> set parts \<Longrightarrow> g \<in> set given \<Longrightarrow> overlaps g p \<Longrightarrow> reached parts pieces given p"
| joined: "reached parts pieces given q \<Longrightarrow> pc \<in> set pieces \<Longrightarrow> overlaps pc q \<Longrightarrow> p \<in> set parts \<Longrightarrow> overlaps pc p \<Longrightarrow>
    reached parts pieces given p"

lemma grow_parts_eq:
  "grow_parts pc ps fs g = (fs', g') \<Longrightarrow> set fs' = set fs \<union> {p \<in> set ps. overlaps pc p} \<and> (g' \<longleftrightarrow> g \<or> set fs' \<noteq> set fs) \<and> (distinct fs \<longrightarrow> distinct fs')"
proof (induction pc ps fs g rule: grow_parts.induct)
  case (2 pc p ps fs g)
  show ?case
  proof (cases "overlaps pc p \<and> p \<notin> set fs")
    case True
    have e: "set fs' = set (fs @ [p]) \<union> {p \<in> set ps. overlaps pc p}" "g'" "distinct (fs @ [p]) \<longrightarrow> distinct fs'"
      using 2(1) [OF True] 2(3) True by simp_all
    have "p \<in> set fs'" unfolding e by simp
    then have "set fs' \<noteq> set fs" using True by blast
    then show ?thesis using e True by auto
  next
    case False
    have "grow_parts pc ps fs g = (fs', g')" using 2(3) False by (simp split: if_splits)
    then show ?thesis using 2(2) [OF False] False by auto
  qed
qed simp

lemma grow_pieces_props:
  "grow_pieces parts pcs fs g = (fs', g') \<Longrightarrow> set fs \<subseteq> set fs' \<and> (g' \<longleftrightarrow> g \<or> set fs' \<noteq> set fs) \<and> (distinct fs \<longrightarrow> distinct fs')
    \<and> (set pcs \<subseteq> set pieces \<and> Ball (set fs) (reached parts pieces given) \<longrightarrow> Ball (set fs') (reached parts pieces given))
    \<and> (set fs' = set fs \<longrightarrow> (\<forall>pc \<in> set pcs. list_ex (overlaps pc) fs \<longrightarrow> {p \<in> set parts. overlaps pc p} \<subseteq> set fs))"
proof (induction pcs arbitrary: fs g)
  case (Cons pc pcs)
  show ?case
  proof (cases "list_ex (overlaps pc) fs")
    case False
    then show ?thesis using Cons by simp
  next
    case True
    obtain fs1 g1 where p: "grow_parts pc parts fs g = (fs1, g1)" by fastforce
    have gp: "set fs1 = set fs \<union> {p \<in> set parts. overlaps pc p}" "g1 \<longleftrightarrow> g \<or> set fs1 \<noteq> set fs" "distinct fs \<longrightarrow> distinct fs1"
      using grow_parts_eq [OF p] by simp_all
    have q: "grow_pieces parts pcs fs1 g1 = (fs', g')" using Cons.prems True p by simp
    note ih = Cons.IH [OF q]
    have more: "list_ex (overlaps c) fs1" if "list_ex (overlaps c) fs" for c using that gp(1) by (auto simp: list_ex_iff)
    have reach: "Ball (set fs1) (reached parts pieces given)" if "pc \<in> set pieces" "Ball (set fs) (reached parts pieces given)"
      using True gp(1) that reached.joined [of parts pieces given _ pc] by (auto simp: list_ex_iff)
    show ?thesis
    proof (intro conjI impI)
      have sub: "set fs \<subseteq> set fs1" "set fs1 \<subseteq> set fs'" using gp(1) ih by blast+
      show "set fs \<subseteq> set fs'" using sub by (rule subset_trans)
      have "set fs' = set fs \<longleftrightarrow> set fs1 = set fs \<and> set fs' = set fs1" using sub by blast
      then show "g' \<longleftrightarrow> g \<or> set fs' \<noteq> set fs" using gp(2) ih by blast
      show "distinct fs'" if "distinct fs" using that gp(3) ih by blast
      show "Ball (set fs') (reached parts pieces given)" if "set (pc # pcs) \<subseteq> set pieces \<and> Ball (set fs) (reached parts pieces given)"
        using that ih reach by simp
      show "\<forall>c \<in> set (pc # pcs). list_ex (overlaps c) fs \<longrightarrow> {p \<in> set parts. overlaps c p} \<subseteq> set fs" if e: "set fs' = set fs"
      proof -
        have e1: "set fs1 = set fs" "set fs' = set fs1" using e sub by blast+
        then have "\<forall>c \<in> set pcs. list_ex (overlaps c) fs1 \<longrightarrow> {p \<in> set parts. overlaps c p} \<subseteq> set fs1" using ih by blast
        then show ?thesis using e1(1) gp(1) more by auto
      qed
    qed
  qed
qed simp

lemma grow_loop_closed:
  "Ball (set fs) (reached parts pieces given) \<Longrightarrow> distinct fs \<Longrightarrow>
    \<exists>r. grow_loop parts pieces fs = Some r \<and> distinct r \<and> set fs \<subseteq> set r \<and> Ball (set r) (reached parts pieces given)
      \<and> (\<forall>pc \<in> set pieces. list_ex (overlaps pc) r \<longrightarrow> {p \<in> set parts. overlaps pc p} \<subseteq> set r)"
proof (induction "card (set parts - set fs)" arbitrary: fs rule: less_induct)
  case less
  obtain fs' g' where g: "grow_pieces parts pieces fs False = (fs', g')" by fastforce
  note gp = grow_pieces_props [OF g, of pieces given]
  have rc: "Ball (set fs') (reached parts pieces given)" and d: "distinct fs'" using gp less.prems by auto
  show ?case
  proof (cases g')
    case False
    then have s: "set fs' = set fs" using gp by simp
    have ex: "list_ex (overlaps c) fs' = list_ex (overlaps c) fs" for c using s by (simp add: list_ex_iff)
    have cl: "\<forall>pc \<in> set pieces. list_ex (overlaps pc) fs' \<longrightarrow> {p \<in> set parts. overlaps pc p} \<subseteq> set fs'"
      unfolding ex s using gp s by blast
    have "grow_loop parts pieces fs = Some fs'" using g False by (subst grow_loop.simps) simp
    then show ?thesis using cl rc d s by blast
  next
    case True
    have "set fs' \<subseteq> set parts" using rc by (auto elim: reached.cases)
    moreover have "set fs \<subset> set fs'" using gp True by auto
    ultimately have "set parts - set fs' \<subset> set parts - set fs" by blast
    then have "card (set parts - set fs') < card (set parts - set fs)" by (simp add: psubset_card_mono)
    then obtain r where r: "grow_loop parts pieces fs' = Some r" "distinct r" "set fs' \<subseteq> set r" "Ball (set r) (reached parts pieces given)"
        "\<forall>pc \<in> set pieces. list_ex (overlaps pc) r \<longrightarrow> {p \<in> set parts. overlaps pc p} \<subseteq> set r"
      using less.hyps [OF _ rc d] by blast
    have e: "grow_loop parts pieces fs = grow_loop parts pieces fs'" using g True by (subst grow_loop.simps) simp
    have "set fs \<subseteq> set r" using gp r(3) by blast
    then show ?thesis unfolding e using r(1,2,4,5) by blast
  qed
qed

lemma apart_subset:
  assumes ps: "apart ps"
  shows "distinct r \<Longrightarrow> sorted (map fst r) \<Longrightarrow> set r \<subseteq> set ps \<Longrightarrow> apart r"
proof (induction r)
  case (Cons f r)
  obtain i where i: "i < length ps" "f = ps ! i" using Cons.prems(3) by (auto simp: in_set_conv_nth)
  have "\<exists>h. snd f = Some h \<and> h \<le> fst (hd r)" if "r \<noteq> []"
  proof -
    obtain g gs where r: "r = g # gs" using \<open>r \<noteq> []\<close> by (cases r) auto
    obtain j where j: "j < length ps" "g = ps ! j" using Cons.prems(3) r by (auto simp: in_set_conv_nth)
    have le: "fst f \<le> fst g" and ne: "i \<noteq> j" using Cons.prems r i j by auto
    show ?thesis
    proof (cases "i < j")
      case True
      then obtain h where "snd f = Some h" using apart_next [OF ps, of i] i j by auto
      then show ?thesis using apart_later [OF ps True j(1)] i j r by simp
    next
      case False
      then have ji: "j < i" using ne by simp
      then obtain h where h: "snd g = Some h" using apart_next [OF ps, of j] i j by auto
      have "h \<le> fst f" "fst g < h" using apart_later [OF ps ji i(1)] apart_nth [OF ps j(1)] h i j by auto
      then show ?thesis using le by (meson leD le_less_trans less_le_trans order_trans)
    qed
  qed
  moreover have "fst f < h" if "snd f = Some h" for h using apart_nth [OF ps i(1)] that i(2) by simp
  ultimately show ?case using Cons by auto
qed simp

text \<open>
  C20: A merge's ranges: the growth ends, takes exactly the partitions reachable from the
  given ranges through segments that overlap them, and yields them in key order and apart,
  which is what the code asserts in debug builds and what the slicer needs.
\<close>

theorem resolve_fences_least:
  assumes "apart ps" "set parts = set ps" "distinct parts"
  shows "\<exists>r. resolve_fences parts pieces given = Some r \<and> set r = {p. reached parts pieces given p} \<and> apart r"
proof -
  let ?fs = "filter (\<lambda>p. list_ex (\<lambda>g. overlaps g p) given) parts"
  have "Ball (set ?fs) (reached parts pieces given)" by (auto simp: list_ex_iff intro: reached.named)
  then obtain r where r: "grow_loop parts pieces ?fs = Some r" "distinct r" "set ?fs \<subseteq> set r" "Ball (set r) (reached parts pieces given)"
      "\<forall>pc \<in> set pieces. list_ex (overlaps pc) r \<longrightarrow> {p \<in> set parts. overlaps pc p} \<subseteq> set r"
    using grow_loop_closed [of ?fs parts pieces given] assms(3) by auto
  have "p \<in> set r" if "reached parts pieces given p" for p
    using that
  proof induction
    case (named p g)
    then have "p \<in> set ?fs" by (auto simp: list_ex_iff)
    then show ?case using r(3) by blast
  next
    case (joined q pc p)
    then have "list_ex (overlaps pc) r" by (auto simp: list_ex_iff)
    then show ?case using r(5) joined by blast
  qed
  then have "set (sort_key fst r) = {p. reached parts pieces given p}" using r(4) by auto
  moreover have "apart (sort_key fst r)"
  proof (rule apart_subset [OF assms(1)])
    show "set (sort_key fst r) \<subseteq> set ps" using r(4) assms(2) by (auto elim: reached.cases)
  qed (use r(2) in simp_all)
  ultimately show ?thesis using r(1) by (simp add: resolve_fences_def Let_def)
qed

definition three_parts :: "fence list" where
  "three_parts = [([], Some [100]), ([100], Some [150, 1]), ([150, 1], None)]"

lemma three_apart: "apart three_parts"
  by (simp add: three_parts_def)

theorem resolve_fences_witness:
  "\<exists>r. resolve_fences [([150, 1], None), ([], Some [100]), ([100], Some [150, 1])] [([120], None)] [([110], Some [115])] = Some r
    \<and> set r = {p. reached [([150, 1], None), ([], Some [100]), ([100], Some [150, 1])] [([120], None)] [([110], Some [115])] p} \<and> apart r"
  by (rule resolve_fences_least [where ps = three_parts]) (auto simp: three_parts_def)

end
