(* ===== verification/Slicer.thy ===== *)
theory Slicer
  imports Fences
begin

text \<open>
  How a merge's distinct keys are cut into output pieces (db.rs): the key list the walk
  fills, the cut of a run of ranks at bounds, and the slicer that takes the keys one at a
  time, under the fences of the partitions merged or, where there are none, in as many
  parts as asked for.
\<close>

subsection \<open>The keys of a merge\<close>

record key_list =
  kl_bytes :: bytes
  kl_offs :: "nat list"

definition kl_new :: key_list where
  "kl_new = \<lparr>kl_bytes = [], kl_offs = [0]\<rparr>"

definition kl_push :: "key_list \<Rightarrow> bytes \<Rightarrow> key_list" where
  "kl_push l k = (let b = kl_bytes l @ k in l\<lparr>kl_bytes := b, kl_offs := kl_offs l @ [length b]\<rparr>)"

definition kl_len :: "key_list \<Rightarrow> nat option" where
  "kl_len l = usub (length (kl_offs l)) 1"

definition kl_is_empty :: "key_list \<Rightarrow> bool option" where
  "kl_is_empty l = do { n \<leftarrow> kl_len l; Some (n = 0) }"

definition kl_get :: "key_list \<Rightarrow> nat \<Rightarrow> bytes option" where
  "kl_get l i = do { a \<leftarrow> index (kl_offs l) i; b \<leftarrow> index (kl_offs l) (i + 1); slice (kl_bytes l) a b }"

function kl_bisect :: "key_list \<Rightarrow> (bytes \<Rightarrow> bool) \<Rightarrow> nat \<Rightarrow> nat \<Rightarrow> nat option" where
  "kl_bisect l pred lo hi =
    (if lo < hi
     then let mid = lo + (hi - lo) div 2
          in do { k \<leftarrow> kl_get l mid; if pred k then kl_bisect l pred (mid + 1) hi else kl_bisect l pred lo mid }
     else Some lo)"
  by auto
termination
  by (relation "measure (\<lambda>(l, pred, lo, hi). hi - lo)") (auto simp: Let_def)

declare kl_bisect.simps [simp del]

definition partition_point :: "key_list \<Rightarrow> (bytes \<Rightarrow> bool) \<Rightarrow> nat option" where
  "partition_point l pred = do { n \<leftarrow> kl_len l; kl_bisect l pred 0 n }"

subsection \<open>The cuts\<close>

type_synonym cuts = "(nat \<times> nat) list \<times> fence list"

fun cut_loop :: "key_list \<Rightarrow> nat \<Rightarrow> nat \<Rightarrow> bytes list \<Rightarrow> nat \<Rightarrow> bytes \<Rightarrow> cuts \<Rightarrow> (nat \<times> bytes \<times> cuts) option" where
  "cut_loop keys from til [] at slo (slices, given) = Some (at, slo, slices, given)"
| "cut_loop keys from til (b # bs) at slo (slices, given) =
    do { e \<leftarrow> partition_point keys (\<lambda>k. k < b);
         assert_that (from \<le> til);
         let e = max from (min e til);
         if at < e then cut_loop keys from til bs e b (slices @ [(at, e)], given @ [(slo, Some b)])
         else cut_loop keys from til bs at slo (slices, given) }"

definition cut_by_bounds :: "key_list \<Rightarrow> nat \<Rightarrow> nat \<Rightarrow> fence \<Rightarrow> bytes list \<Rightarrow> cuts option" where
  "cut_by_bounds keys from til fence bounds =
    do { (at, slo, slices, given) \<leftarrow> cut_loop keys from til bounds from (fst fence) ([], []);
         Some (if at < til then (slices @ [(at, til)], given @ [(slo, snd fence)])
               else if given \<noteq> [] then (slices, butlast given @ [(fst (last given), snd fence)])
               else (slices, given)) }"

subsection \<open>The slicer\<close>

record slicer =
  sl_fences :: "fence list option"
  sl_parts :: nat
  sl_max_keys :: nat
  sl_fi :: nat
  sl_from :: nat
  sl_held :: key_list
  sl_total :: nat
  sl_slices :: "(nat \<times> nat) list"
  sl_given :: "fence list"

definition slicer_new :: "fence list option \<Rightarrow> nat \<Rightarrow> nat \<Rightarrow> slicer" where
  "slicer_new fences parts max_keys =
    \<lparr>sl_fences = fences, sl_parts = parts, sl_max_keys = max_keys, sl_fi = 0, sl_from = 0, sl_held = kl_new, sl_total = 0,
     sl_slices = [], sl_given = []\<rparr>"

text \<open>The joins: the keys at even ranks cut to a fence's length, without repeats.\<close>

fun joins :: "key_list \<Rightarrow> nat \<Rightarrow> nat \<Rightarrow> nat list \<Rightarrow> bytes list \<Rightarrow> bytes list option" where
  "joins held len per [] bs = Some bs"
| "joins held len per (i # is) bs =
    do { m \<leftarrow> usub len 1;
         k \<leftarrow> kl_get held (min (i * per) m);
         let b = fence_lo k;
         joins held len per is (if bs = [] \<or> last bs \<noteq> b then bs @ [b] else bs) }"

definition close_fence :: "slicer \<Rightarrow> slicer option" where
  "close_fence s =
    do { fs \<leftarrow> sl_fences s;
         (lo, hi) \<leftarrow> index fs (sl_fi s);
         let held = sl_held s;
         let s = s\<lparr>sl_fi := sl_fi s + 1, sl_held := kl_new\<rparr>;
         empty \<leftarrow> kl_is_empty held;
         if empty then Some (s\<lparr>sl_slices := sl_slices s @ [(sl_total s, sl_total s)], sl_given := sl_given s @ [(lo, hi)]\<rparr>)
         else do { len \<leftarrow> kl_len held;
                   let n = max (div_ceil len (max (sl_max_keys s) 1)) 1;
                   let per_sub = div_ceil len n;
                   sub \<leftarrow> joins held len per_sub [1..<n] [];
                   (sls, g) \<leftarrow> cut_by_bounds held 0 len (lo, hi) sub;
                   Some (s\<lparr>sl_slices := sl_slices s @ map (\<lambda>(a, b). (sl_from s + a, sl_from s + b)) sls, sl_given := sl_given s @ g\<rparr>) } }"

text \<open>The walk to the fence a key belongs in, and the key held where there is one.\<close>

partial_function (option) seek_fence :: "fence list \<Rightarrow> bytes \<Rightarrow> slicer \<Rightarrow> slicer option" where
  "seek_fence fs k s =
    (if length fs \<le> sl_fi s then Some s
     else let (lo, hi) = fs ! sl_fi s
          in if (case hi of None \<Rightarrow> False | Some h \<Rightarrow> h \<le> k) then do { s \<leftarrow> close_fence s; seek_fence fs k s }
             else if lo \<noteq> [] \<and> k < lo then Some s
             else do { empty \<leftarrow> kl_is_empty (sl_held s);
                       let s = (if empty then s\<lparr>sl_from := sl_total s\<rparr> else s);
                       Some (s\<lparr>sl_held := kl_push (sl_held s) (take (min (length k) FENCE_MAX) k)\<rparr>) })"

definition slicer_push :: "slicer \<Rightarrow> bytes \<Rightarrow> slicer option" where
  "slicer_push s k =
    do { s \<leftarrow> (case sl_fences s of
                Some fs \<Rightarrow> seek_fence fs k s
              | None \<Rightarrow> Some (s\<lparr>sl_held := kl_push (sl_held s) (take (min (length k) FENCE_MAX) k)\<rparr>));
         Some (s\<lparr>sl_total := sl_total s + 1\<rparr>) }"

partial_function (option) close_rest :: "fence list \<Rightarrow> slicer \<Rightarrow> slicer option" where
  "close_rest fs s = (if sl_fi s < length fs then do { s \<leftarrow> close_fence s; close_rest fs s } else Some s)"

definition slicer_finish :: "slicer \<Rightarrow> ((nat \<times> nat) list \<times> fence list \<times> nat) option option" where
  "slicer_finish s =
    (if sl_total s = 0 then Some None
     else do { s \<leftarrow> (case sl_fences s of
                      Some fs \<Rightarrow> close_rest fs s
                    | None \<Rightarrow>
                        do { len \<leftarrow> kl_len (sl_held s);
                             let parts = min (max (sl_parts s) 1) len;
                             assert_that (parts \<noteq> 0);
                             let per = div_ceil len parts;
                             bounds \<leftarrow> joins (sl_held s) len per [1..<parts] [];
                             (sls, g) \<leftarrow> cut_by_bounds (sl_held s) 0 len ([], None) bounds;
                             Some (s\<lparr>sl_slices := sl_slices s @ sls, sl_given := sl_given s @ g\<rparr>) });
               Some (Some (sl_slices s, sl_given s, sl_total s)) })"

fun slicer_pushes :: "slicer \<Rightarrow> bytes list \<Rightarrow> slicer option" where
  "slicer_pushes s [] = Some s"
| "slicer_pushes s (k # ks) = do { s \<leftarrow> slicer_push s k; slicer_pushes s ks }"

subsection \<open>The held keys\<close>

definition holds_keys :: "key_list \<Rightarrow> bytes list \<Rightarrow> bool" where
  "holds_keys l ks \<longleftrightarrow> kl_bytes l = concat ks \<and> kl_offs l = map (\<lambda>i. length (concat (take i ks))) [0..<Suc (length ks)]"

lemma holds_new: "holds_keys kl_new []"
  by (simp add: holds_keys_def kl_new_def)

lemma holds_push:
  assumes "holds_keys l ks"
  shows "holds_keys (kl_push l k) (ks @ [k])"
proof -
  have "map (\<lambda>i. length (concat (take i (ks @ [k])))) [0..<Suc (length ks)] = map (\<lambda>i. length (concat (take i ks))) [0..<Suc (length ks)]"
    by (intro map_cong) auto
  then show ?thesis using assms by (simp add: holds_keys_def kl_push_def Let_def)
qed

lemma holds_len [simp]: "holds_keys l ks \<Longrightarrow> kl_len l = Some (length ks)"
  by (simp add: holds_keys_def kl_len_def)

lemma holds_empty [simp]: "holds_keys l ks \<Longrightarrow> kl_is_empty l = Some (ks = [])"
  by (simp add: kl_is_empty_def)

lemma holds_get [simp]:
  assumes "holds_keys l ks" "i < length ks"
  shows "kl_get l i = Some (ks ! i)"
proof -
  let ?s = "\<lambda>i. length (concat (take i ks))"
  have c: "concat ks = concat (take i ks) @ ks ! i @ concat (drop (Suc i) ks)" using concat_nth [OF assms(2), of "\<lambda>k. k"] by simp
  have si: "?s (Suc i) = ?s i + length (ks ! i)" using assms(2) by (simp add: take_Suc_conv_app_nth)
  have "index (kl_offs l) i = Some (?s i)" "index (kl_offs l) (i + 1) = Some (?s (Suc i))"
    using assms by (simp_all add: holds_keys_def del: upt_Suc)
  moreover have "slice (concat (take i ks) @ ks ! i @ concat (drop (Suc i) ks)) (?s i) (?s (Suc i)) = Some (ks ! i)" by (simp add: slice_def si)
  ultimately show ?thesis using assms(1) c by (simp add: kl_get_def holds_keys_def)
qed

lemma kl_bisect_cut:
  assumes h: "holds_keys l ks" and mono: "\<And>i j. i \<le> j \<Longrightarrow> j < length ks \<Longrightarrow> P (ks ! j) \<Longrightarrow> P (ks ! i)"
  shows "a \<le> b \<Longrightarrow> b \<le> length ks \<Longrightarrow> (\<forall>i < a. P (ks ! i)) \<Longrightarrow> (\<forall>i. b \<le> i \<and> i < length ks \<longrightarrow> \<not> P (ks ! i)) \<Longrightarrow>
    \<exists>r. kl_bisect l P a b = Some r \<and> cut (\<lambda>i. P (ks ! i)) 0 (length ks) r"
proof (induction "b - a" arbitrary: a b rule: less_induct)
  case less
  show ?case
  proof (cases "a < b")
    case False
    then show ?thesis using less.prems by (subst kl_bisect.simps) (auto simp: cut_def)
  next
    case True
    define m where "m = a + (b - a) div 2"
    have m: "a \<le> m" "m < b" using True by (auto simp: m_def)
    have e: "kl_bisect l P a b = (if P (ks ! m) then kl_bisect l P (m + 1) b else kl_bisect l P a m)"
      using True holds_get [OF h, of m] m less.prems by (subst kl_bisect.simps) (simp add: m_def [symmetric])
    show ?thesis
    proof (cases "P (ks ! m)")
      case p: True
      have "P (ks ! i)" if "i < m + 1" for i using mono [of i m] p that m less.prems by simp
      then show ?thesis using less.hyps [of b "m + 1"] less.prems m e p by auto
    next
      case p: False
      have "\<not> P (ks ! i)" if "m \<le> i" "i < length ks" for i using mono [of m i] p that by auto
      then show ?thesis using less.hyps [of m a] less.prems m e p by auto
    qed
  qed
qed

subsection \<open>Keys cut short\<close>

abbreviation short :: "bytes \<Rightarrow> bytes" where "short k \<equiv> take FENCE_MAX k"

lemma short_is [simp]: "take (min (length k) FENCE_MAX) k = short k" "fence_lo k = short k" "short (short k) = short k"
  by (simp_all add: fence_lo_def min_def)

lemma take_less: "length b \<le> n \<Longrightarrow> take n k < b \<longleftrightarrow> k < (b :: bytes)"
proof (induction n arbitrary: k b)
  case (Suc n)
  show ?case
  proof (cases b)
    case (Cons y b')
    then show ?thesis using Suc by (cases k) auto
  qed simp
qed simp

lemma take_mono: "k \<le> k' \<Longrightarrow> take n k \<le> take n (k' :: bytes)"
proof (induction n arbitrary: k k')
  case (Suc n)
  show ?case
  proof (cases k)
    case (Cons x a)
    then show ?thesis using Suc by (cases k') auto
  qed simp
qed simp

lemma sorted_le: "sorted_wrt (<) ks \<Longrightarrow> i \<le> j \<Longrightarrow> j < length ks \<Longrightarrow> ks ! i \<le> (ks ! j :: bytes)"
  using sorted_wrt_nth_less [of "(<)" ks i j] by (cases "i = j") auto

lemma partition_short:
  assumes s: "sorted_wrt (<) ks" and h: "holds_keys l (map short ks)" and b: "length b \<le> FENCE_MAX"
  obtains r where "partition_point l (\<lambda>k. k < b) = Some r" "cut (\<lambda>i. ks ! i < b) 0 (length ks) r"
proof -
  have P: "map short ks ! i < b \<longleftrightarrow> ks ! i < b" if "i < length ks" for i using that take_less [OF b] by simp
  have mono: "map short ks ! i < b" if "i \<le> j" "j < length (map short ks)" "map short ks ! j < b" for i j
    using sorted_le [OF s that(1)] that P by (metis le_less_trans length_map order_le_less_trans)
  obtain r where r: "kl_bisect l (\<lambda>k. k < b) 0 (length (map short ks)) = Some r" "cut (\<lambda>i. map short ks ! i < b) 0 (length (map short ks)) r"
  proof -
    have "\<exists>r. kl_bisect l (\<lambda>k. k < b) 0 (length (map short ks)) = Some r \<and> cut (\<lambda>i. map short ks ! i < b) 0 (length (map short ks)) r"
      by (rule kl_bisect_cut [OF h]) (use mono in auto)
    then show thesis using that by blast
  qed
  have "cut (\<lambda>i. ks ! i < b) 0 (length ks) r" using r(2) P by (auto simp: cut_def)
  moreover have "partition_point l (\<lambda>k. k < b) = Some r" using r(1) holds_len [OF h] by (simp add: partition_point_def)
  ultimately show thesis using that by blast
qed

subsection \<open>Slices and the fences that name them\<close>

text \<open>
  Fences that tile a range: the first keeps its low bound, the last its high one, every
  join is one value and no fence is empty.
\<close>

fun links :: "bytes \<Rightarrow> fence list \<Rightarrow> bytes \<Rightarrow> bool" where
  "links lo [] e \<longleftrightarrow> lo = e"
| "links lo (f # fs) e \<longleftrightarrow> fst f = lo \<and> (\<exists>m. snd f = Some m \<and> lo < m \<and> links m fs e)"

definition tile :: "fence \<Rightarrow> fence list \<Rightarrow> bool" where
  "tile f gs \<longleftrightarrow> (\<exists>init e. gs = init @ [(e, snd f)] \<and> links (fst f) init e \<and> proper (e, snd f))"

fun runs :: "nat \<Rightarrow> (nat \<times> nat) list \<Rightarrow> nat \<Rightarrow> bool" where
  "runs a [] b \<longleftrightarrow> a = b"
| "runs a (s # ss) b \<longleftrightarrow> fst s = a \<and> a < snd s \<and> runs (snd s) ss b"

definition named :: "bytes list \<Rightarrow> nat \<times> nat \<Rightarrow> fence \<Rightarrow> bool" where
  "named ks s f \<longleftrightarrow> (\<forall>i. fst s \<le> i \<and> i < snd s \<longrightarrow> inside f (ks ! i))"

lemma links_snoc: "links lo fs e \<Longrightarrow> e < m \<Longrightarrow> links lo (fs @ [(e, Some m)]) m"
  by (induction lo fs e rule: links.induct) auto

lemma runs_snoc: "runs a ss b \<Longrightarrow> b < c \<Longrightarrow> runs a (ss @ [(b, c)]) c"
  by (induction a ss b rule: runs.induct) auto

lemma runs_append: "runs a (xs @ ys) c \<longleftrightarrow> (\<exists>b. runs a xs b \<and> runs b ys c)"
  by (induction xs arbitrary: a) auto

lemma links_append: "links a (xs @ ys) c \<longleftrightarrow> (\<exists>b. links a xs b \<and> links b ys c)"
  by (induction xs arbitrary: a) auto

lemma runs_le: "runs a ss b \<Longrightarrow> a \<le> b"
  by (induction a ss b rule: runs.induct) auto

lemma cut_loop_names:
  assumes s: "sorted_wrt (<) ks" and h: "holds_keys l (map short ks)" and len: "\<forall>b \<in> set bounds. length b \<le> FENCE_MAX"
    and inv: "at \<le> length ks" "runs 0 slices at" "links lo given slo" "list_all2 (named ks) slices given" "\<forall>i. at \<le> i \<and> i < length ks \<longrightarrow> slo \<le> ks ! i"
  shows "\<exists>at' slo' slices' given'. cut_loop l 0 (length ks) bounds at slo (slices, given) = Some (at', slo', slices', given') \<and>
    at' \<le> length ks \<and> runs 0 slices' at' \<and> links lo given' slo' \<and> list_all2 (named ks) slices' given' \<and>
    (\<forall>i. at' \<le> i \<and> i < length ks \<longrightarrow> slo' \<le> ks ! i)"
  using len inv
proof (induction bounds arbitrary: at slo slices given)
  case Nil
  then show ?case by simp
next
  case (Cons b bs)
  obtain r where r: "partition_point l (\<lambda>k. k < b) = Some r" "cut (\<lambda>i. ks ! i < b) 0 (length ks) r"
    using partition_short [OF s h] Cons.prems(1) by auto
  have e: "r \<le> length ks" using r(2) by (simp add: cut_def)
  have u: "cut_loop l 0 (length ks) (b # bs) at slo (slices, given) =
      (if at < r then cut_loop l 0 (length ks) bs r b (slices @ [(at, r)], given @ [(slo, Some b)])
       else cut_loop l 0 (length ks) bs at slo (slices, given))"
    using r(1) e by (simp add: Let_def min_absorb1)
  show ?case
  proof (cases "at < r")
    case True
    have "named ks (at, r) (slo, Some b)" using r(2) Cons.prems(6) by (auto simp: named_def inside_def cut_def)
    moreover have "slo < b"
    proof -
      have "slo \<le> ks ! at" "ks ! at < b" using True r(2) e Cons.prems(6) by (auto simp: cut_def)
      then show ?thesis by (rule le_less_trans)
    qed
    moreover have "\<forall>i. r \<le> i \<and> i < length ks \<longrightarrow> b \<le> ks ! i" using r(2) by (auto simp: cut_def not_less)
    moreover have "r \<le> length ks" using r(2) by (simp add: cut_def)
    ultimately show ?thesis
      unfolding u using True Cons.prems Cons.IH [of r "slices @ [(at, r)]" "given @ [(slo, Some b)]" b]
      by (simp add: runs_snoc links_snoc list_all2_appendI)
  next
    case False
    then show ?thesis unfolding u using Cons by simp
  qed
qed

lemma cut_by_bounds_names:
  assumes s: "sorted_wrt (<) ks" and h: "holds_keys l (map short ks)" and len: "\<forall>b \<in> set bounds. length b \<le> FENCE_MAX"
    and n: "ks \<noteq> []" and f: "\<forall>k \<in> set ks. inside f k"
  obtains slices given where "cut_by_bounds l 0 (length ks) f bounds = Some (slices, given)"
    "runs 0 slices (length ks)" "tile f given" "list_all2 (named ks) slices given"
proof -
  obtain at slo slices given where c: "cut_loop l 0 (length ks) bounds 0 (fst f) ([], []) = Some (at, slo, slices, given)"
      "at \<le> length ks" "runs 0 slices at" "links (fst f) given slo" "list_all2 (named ks) slices given" "\<forall>i. at \<le> i \<and> i < length ks \<longrightarrow> slo \<le> ks ! i"
    using cut_loop_names [OF s h len, of 0 "[]" "fst f" "[]" "fst f"] f by (auto simp: inside_def)
  have in_hi: "\<forall>h. snd f = Some h \<longrightarrow> ks ! i < h" if "i < length ks" for i using f that by (simp add: inside_def)
  show thesis
  proof (cases "at < length ks")
    case True
    show thesis
    proof (rule that)
      show "cut_by_bounds l 0 (length ks) f bounds = Some (slices @ [(at, length ks)], given @ [(slo, snd f)])"
        using c(1) True by (simp add: cut_by_bounds_def)
      show "runs 0 (slices @ [(at, length ks)]) (length ks)" using c(3) True by (rule runs_snoc)
      have "proper (slo, snd f)" using c(6) in_hi True by (auto simp: proper_def intro: le_less_trans)
      then show "tile f (given @ [(slo, snd f)])" using c(4) by (auto simp: tile_def)
      have "named ks (at, length ks) (slo, snd f)" using c(6) in_hi by (auto simp: named_def inside_def)
      then show "list_all2 (named ks) (slices @ [(at, length ks)]) (given @ [(slo, snd f)])" using c(5) by (simp add: list_all2_appendI)
    qed
  next
    case False
    then have at: "at = length ks" using c(2) by simp
    then have "slices \<noteq> []" using c(3) n by auto
    then have gn: "given \<noteq> []" using c(5) by auto
    obtain gi gl where g: "given = gi @ [gl]" using gn by (metis rev_exhaust)
    obtain si sl where sl: "slices = si @ [sl]" using \<open>slices \<noteq> []\<close> by (metis rev_exhaust)
    have a: "list_all2 (named ks) si gi" "named ks sl gl" 
      using c(5) list_all2_lengthD [OF c(5)] g sl by (simp_all add: list_all2_append)
    have r: "snd sl = length ks" using c(3) sl at by (auto simp: runs_append)
    have k: "links (fst f) gi (fst gl)" using c(4) g by (auto simp: links_append)
    have "named ks sl (fst gl, snd f)" using a(2) in_hi r by (auto simp: named_def inside_def)
    then have "list_all2 (named ks) slices (gi @ [(fst gl, snd f)])" using a(1) sl by (simp add: list_all2_appendI)
    moreover have "cut_by_bounds l 0 (length ks) f bounds = Some (slices, gi @ [(fst gl, snd f)])"
      using c(1) False g by (simp add: cut_by_bounds_def)
    moreover have "proper (fst gl, snd f)"
    proof -
      have "fst sl < length ks" using c(3) sl r by (auto simp: runs_append)
      then have "fst gl \<le> ks ! fst sl" using a(2) r by (simp add: named_def inside_def)
      then show ?thesis using in_hi [OF \<open>fst sl < length ks\<close>] by (auto simp: proper_def intro: le_less_trans)
    qed
    then have "tile f (gi @ [(fst gl, snd f)])" using k by (auto simp: tile_def)
    ultimately show thesis using that c(3) at \<open>tile f (gi @ [(fst gl, snd f)])\<close> by blast
  qed
qed

lemma links_apart: "links lo fs e \<Longrightarrow> proper (e, hi) \<Longrightarrow> apart (fs @ [(e, hi)]) \<and> fst (hd (fs @ [(e, hi)])) = lo"
proof (induction lo fs e rule: links.induct)
  case (2 lo f fs e)
  then show ?case by (cases fs) auto
qed (simp add: proper_def)

lemma tile_apart: "tile f gs \<Longrightarrow> apart gs \<and> gs \<noteq> [] \<and> fst (hd gs) = fst f \<and> snd (last gs) = snd f"
  unfolding tile_def using links_apart by fastforce

lemma apart_append: "apart xs \<Longrightarrow> apart ys \<Longrightarrow> (xs \<noteq> [] \<Longrightarrow> ys \<noteq> [] \<Longrightarrow> \<exists>h. snd (last xs) = Some h \<and> h \<le> fst (hd ys)) \<Longrightarrow> apart (xs @ ys)"
proof (induction xs)
  case (Cons x xs)
  then show ?case by (cases "xs = []") auto
qed simp

lemma tiles_apart: "apart fs \<Longrightarrow> list_all2 tile fs gss \<Longrightarrow> apart (concat gss) \<and> (fs \<noteq> [] \<longrightarrow> concat gss \<noteq> [] \<and> fst (hd (concat gss)) = fst (hd fs))"
proof (induction fs arbitrary: gss)
  case (Cons f fs)
  then obtain g gss' where g: "gss = g # gss'" "tile f g" "list_all2 tile fs gss'" by (cases gss) auto
  note t = tile_apart [OF g(2)]
  have ih: "apart (concat gss')" "fs \<noteq> [] \<longrightarrow> concat gss' \<noteq> [] \<and> fst (hd (concat gss')) = fst (hd fs)" using Cons g(3) by auto
  have "fs \<noteq> []" if "concat gss' \<noteq> []" using that g(3) by auto
  then have "apart (g @ concat gss')" using t ih Cons.prems(1) by (intro apart_append) auto
  then show ?case using g(1) t by simp
qed simp

lemma joins_short:
  assumes h: "holds_keys l (map short ks)" and n: "ks \<noteq> []"
  shows "\<forall>b \<in> set bs. length b \<le> FENCE_MAX \<Longrightarrow> \<exists>bs'. joins l (length ks) per is bs = Some bs' \<and> (\<forall>b \<in> set bs'. length b \<le> FENCE_MAX)"
proof (induction "is" arbitrary: bs)
  case (Cons i "is")
  define q where "q = min (i * per) (length ks - 1)"
  have "q < length ks" using n by (cases ks) (auto simp: q_def)
  then have g: "kl_get l q = Some (short (ks ! q))" using holds_get [OF h, of q] by simp
  have "usub (length ks) 1 = Some (length ks - 1)" using n by (cases ks) simp_all
  then have e: "joins l (length ks) per (i # is) bs = joins l (length ks) per is (if bs = [] \<or> last bs \<noteq> short (ks ! q) then bs @ [short (ks ! q)] else bs)"
    using g by (simp add: q_def [symmetric, unfolded One_nat_def] Let_def)
  show ?case unfolding e by (rule Cons.IH) (use Cons.prems in auto)
qed simp

subsection \<open>The slicer under given fences\<close>

definition covered :: "(nat \<times> nat) list \<Rightarrow> nat \<Rightarrow> bool" where
  "covered slices i \<longleftrightarrow> (\<exists>s \<in> set slices. fst s \<le> i \<and> i < snd s)"

lemma covered_append: "covered (xs @ ys) i \<longleftrightarrow> covered xs i \<or> covered ys i"
  by (auto simp: covered_def)

definition closed_inv :: "fence list \<Rightarrow> bytes list \<Rightarrow> nat \<Rightarrow> nat \<Rightarrow> slicer \<Rightarrow> bool" where
  "closed_inv fs ks n m s \<longleftrightarrow> sl_fences s = Some fs \<and> sl_total s = n \<and> sl_fi s \<le> length fs
    \<and> (\<exists>gss. sl_given s = concat gss \<and> list_all2 tile (take (sl_fi s) fs) gss)
    \<and> list_all2 (named ks) (sl_slices s) (sl_given s)
    \<and> sorted_wrt (\<lambda>a b. snd a \<le> fst b) (sl_slices s) \<and> (\<forall>c \<in> set (sl_slices s). fst c \<le> snd c \<and> snd c \<le> m)
    \<and> (\<forall>j < n. \<forall>i < sl_fi s. inside (fs ! i) (ks ! j) \<longrightarrow> covered (sl_slices s) j)
    \<and> (\<forall>j. covered (sl_slices s) j \<longrightarrow> (\<exists>i < sl_fi s. inside (fs ! i) (ks ! j)))"

definition slicer_inv :: "fence list \<Rightarrow> bytes list \<Rightarrow> nat \<Rightarrow> slicer \<Rightarrow> bool" where
  "slicer_inv fs ks n s \<longleftrightarrow> (\<exists>m \<le> n. closed_inv fs ks n m s
    \<and> (sl_fi s < length fs \<longrightarrow> (\<forall>j < n. \<forall>h. snd (fs ! sl_fi s) = Some h \<longrightarrow> ks ! j < h))
    \<and> holds_keys (sl_held s) (map short (drop m (take n ks)))
    \<and> (m < n \<longrightarrow> sl_from s = m \<and> sl_fi s < length fs)
    \<and> (\<forall>j < n. m \<le> j \<longleftrightarrow> sl_fi s < length fs \<and> inside (fs ! sl_fi s) (ks ! j))
    \<and> (\<forall>i < sl_fi s. \<forall>j. n \<le> j \<and> j < length ks \<longrightarrow> \<not> inside (fs ! i) (ks ! j)))"

lemma slicer_invI:
  assumes "m \<le> n" "closed_inv fs ks n m s" "\<And>j h. sl_fi s < length fs \<Longrightarrow> j < n \<Longrightarrow> snd (fs ! sl_fi s) = Some h \<Longrightarrow> ks ! j < h"
    "holds_keys (sl_held s) (map short (drop m (take n ks)))" "m < n \<Longrightarrow> sl_from s = m \<and> sl_fi s < length fs"
    "\<And>j. j < n \<Longrightarrow> m \<le> j \<longleftrightarrow> sl_fi s < length fs \<and> inside (fs ! sl_fi s) (ks ! j)"
    "\<And>i j. i < sl_fi s \<Longrightarrow> n \<le> j \<Longrightarrow> j < length ks \<Longrightarrow> \<not> inside (fs ! i) (ks ! j)"
  shows "slicer_inv fs ks n s"
  unfolding slicer_inv_def by (rule exI [of _ m]) (use assms in blast)

lemma runs_sorted: "runs a ss b \<Longrightarrow> sorted_wrt (\<lambda>a b. snd a \<le> fst b) ss \<and> (\<forall>c \<in> set ss. a \<le> fst c \<and> fst c \<le> snd c \<and> snd c \<le> b)"
proof (induction a ss b rule: runs.induct)
  case (2 a s ss b)
  then show ?case using runs_le [of "snd s" ss b] by fastforce
qed simp

lemma runs_covered: "runs a ss b \<Longrightarrow> a \<le> i \<Longrightarrow> i < b \<Longrightarrow> covered ss i"
proof (induction a ss b rule: runs.induct)
  case (2 a s ss b)
  then show ?case by (cases "i < snd s") (auto simp: covered_def)
qed simp

text \<open>Slices of the keys from a rank on, shifted to their place among all.\<close>

abbreviation shift :: "nat \<Rightarrow> nat \<times> nat \<Rightarrow> nat \<times> nat" where
  "shift m \<equiv> \<lambda>(a, b). (m + a, m + b)"

lemma runs_shift: "runs a ss b \<Longrightarrow> runs (m + a) (map (shift m) ss) (m + b)"
  by (induction a ss b rule: runs.induct) auto

lemma close_fence_inv:
  assumes a: "apart fs" and s: "sorted_wrt (<) ks" and n: "n \<le> length ks" and inv: "slicer_inv fs ks n st" and fi: "sl_fi st < length fs"
    and out: "\<And>j. n \<le> j \<Longrightarrow> j < length ks \<Longrightarrow> \<not> inside (fs ! sl_fi st) (ks ! j)"
  obtains st' where "close_fence st = Some st'" "slicer_inv fs ks n st'" "sl_fi st' = sl_fi st + 1"
proof -
  obtain m where m: "m \<le> n" "closed_inv fs ks n m st" "\<And>j h. j < n \<Longrightarrow> snd (fs ! sl_fi st) = Some h \<Longrightarrow> ks ! j < h"
      "holds_keys (sl_held st) (map short (drop m (take n ks)))" "m < n \<Longrightarrow> sl_from st = m"
      "\<And>j. j < n \<Longrightarrow> m \<le> j \<longleftrightarrow> inside (fs ! sl_fi st) (ks ! j)"
      "\<forall>i < sl_fi st. \<forall>j. n \<le> j \<and> j < length ks \<longrightarrow> \<not> inside (fs ! i) (ks ! j)"
    using inv fi unfolding slicer_inv_def by (elim exE conjE) (simp add: Ball_def)
  let ?f = "fs ! sl_fi st"
  obtain gss where c: "sl_fences st = Some fs" "sl_total st = n" "sl_given st = concat gss" "list_all2 tile (take (sl_fi st) fs) gss"
      "list_all2 (named ks) (sl_slices st) (sl_given st)" "sorted_wrt (\<lambda>a b. snd a \<le> fst b) (sl_slices st)"
      "\<forall>c \<in> set (sl_slices st). fst c \<le> snd c \<and> snd c \<le> m" "\<forall>j < n. \<forall>i < sl_fi st. inside (fs ! i) (ks ! j) \<longrightarrow> covered (sl_slices st) j"
      "\<forall>j. covered (sl_slices st) j \<longrightarrow> (\<exists>i < sl_fi st. inside (fs ! i) (ks ! j))"
    using m(2) unfolding closed_inv_def by blast
  have tk: "take (Suc (sl_fi st)) fs = take (sl_fi st) fs @ [?f]" using fi by (simp add: take_Suc_conv_app_nth)
  obtain sls g where sg: "close_fence st = Some (st\<lparr>sl_fi := sl_fi st + 1, sl_held := kl_new, sl_slices := sl_slices st @ sls, sl_given := sl_given st @ g\<rparr>)"
      "tile ?f g" "list_all2 (named ks) sls g" "sorted_wrt (\<lambda>a b. snd a \<le> fst b) sls" "\<forall>c \<in> set sls. m \<le> fst c \<and> fst c \<le> snd c \<and> snd c \<le> n"
      "\<forall>j < n. m \<le> j \<longrightarrow> covered sls j"
  proof (cases "m < n")
    case False
    then have e: "drop m (take n ks) = []" by simp
    have "close_fence st = Some (st\<lparr>sl_fi := sl_fi st + 1, sl_held := kl_new, sl_slices := sl_slices st @ [(n, n)], sl_given := sl_given st @ [?f]\<rparr>)"
      unfolding close_fence_def using c(1,2) fi m(4) e by (simp add: Let_def split_beta)
    then show thesis
    proof (rule that)
      show "tile ?f [?f]" using apart_nth [OF a fi] by (auto simp: tile_def proper_def)
    qed (use m(1) False in \<open>auto simp: named_def\<close>)
  next
    case True
    let ?ks = "drop m (take n ks)"
    have ln: "length ?ks = n - m" and ne: "?ks \<noteq> []" using True n by auto
    have nth: "?ks ! j = ks ! (m + j)" if "j < n - m" for j using that n by simp
    have srt: "sorted_wrt (<) ?ks" using s by (metis sorted_wrt_drop sorted_wrt_take)
    have ins: "\<forall>k \<in> set ?ks. inside ?f k"
    proof
      fix k assume "k \<in> set ?ks"
      then obtain j where "j < length ?ks" "k = ?ks ! j" by (metis in_set_conv_nth)
      then show "inside ?f k" using nth ln m(6) [of "m + j"] by simp
    qed
    define per where "per = div_ceil (n - m) (max (div_ceil (n - m) (max (sl_max_keys st) 1)) 1)"
    define js where "js = [1..<max (div_ceil (n - m) (max (sl_max_keys st) 1)) 1]"
    obtain sub where sub: "joins (sl_held st) (n - m) per js [] = Some sub" "\<forall>b \<in> set sub. length b \<le> FENCE_MAX"
      using joins_short [OF m(4) ne, of "[]" per js] ln by auto
    obtain sls g where cb: "cut_by_bounds (sl_held st) 0 (length ?ks) ?f sub = Some (sls, g)" "runs 0 sls (length ?ks)" "tile ?f g" "list_all2 (named ?ks) sls g"
      by (rule cut_by_bounds_names [OF srt m(4) sub(2) ne ins])
    have cb1: "cut_by_bounds (sl_held st) 0 (n - m) (fst ?f, snd ?f) sub = Some (sls, g)" using cb(1) ln by simp
    have "close_fence st = Some (st\<lparr>sl_fi := sl_fi st + 1, sl_held := kl_new, sl_slices := sl_slices st @ map (shift m) sls, sl_given := sl_given st @ g\<rparr>)"
      unfolding close_fence_def Let_def using c(1,2) fi holds_empty [OF m(4)] holds_len [OF m(4)] ne ln sub(1) cb1 m(5) [OF True]
      by (simp add: per_def js_def split_beta)
    moreover have sh: "runs m (map (shift m) sls) n" using runs_shift [OF cb(2), of m] ln m(1) by simp
    moreover have "list_all2 (named ks) (map (shift m) sls) g"
    proof -
      have "named ks (shift m c) f" if "c \<in> set sls" "named ?ks c f" for c f
      proof -
        have "snd c \<le> n - m" using runs_sorted [OF cb(2)] that(1) ln by simp
        have "inside f (ks ! i)" if "m + fst c \<le> i" "i < m + snd c" for i
        proof -
          have "fst c \<le> i - m \<and> i - m < snd c" "m + (i - m) = i" "i - m < n - m" using that \<open>snd c \<le> n - m\<close> by auto
          then show ?thesis using \<open>named ?ks c f\<close> nth [of "i - m"] unfolding named_def by metis
        qed
        then show ?thesis unfolding named_def by (simp add: split_beta)
      qed
      then show ?thesis using cb(4) by (simp add: list_all2_conv_all_nth)
    qed
    ultimately show thesis using that [where sls = "map (shift m) sls" and g = g] cb(3) runs_sorted [OF sh] runs_covered [OF sh] by auto
  qed
  show thesis
  proof (rule that [OF sg(1)])
    let ?st = "st\<lparr>sl_fi := sl_fi st + 1, sl_held := kl_new, sl_slices := sl_slices st @ sls, sl_given := sl_given st @ g\<rparr>"
    show "sl_fi ?st = sl_fi st + 1" by simp
    have g: "\<exists>gss. sl_given ?st = concat gss \<and> list_all2 tile (take (Suc (sl_fi st)) fs) gss"
      by (rule exI [of _ "gss @ [g]"]) (use c(3,4) sg(2) tk in \<open>simp add: list_all2_appendI\<close>)
    have srt: "sorted_wrt (\<lambda>a b. snd a \<le> fst b) (sl_slices st @ sls)"
      using c(6,7) sg(4,5) by (auto simp: sorted_wrt_append intro: order_trans)
    have bnd: "\<forall>c \<in> set (sl_slices st @ sls). fst c \<le> snd c \<and> snd c \<le> n" using c(7) sg(5) m(1) by auto
    have cov: "\<forall>j < n. \<forall>i < Suc (sl_fi st). inside (fs ! i) (ks ! j) \<longrightarrow> covered (sl_slices st @ sls) j"
      using c(8) sg(6) m(6) by (auto simp: less_Suc_eq covered_append)
    have only: "\<exists>i < Suc (sl_fi st). inside (fs ! i) (ks ! j)" if "covered (sl_slices st @ sls) j" for j
    proof (cases "covered (sl_slices st) j")
      case True
      then show ?thesis using c(9) less_SucI by blast
    next
      case False
      then have "covered sls j" using that by (simp add: covered_append)
      then obtain c where "c \<in> set sls" "fst c \<le> j" "j < snd c" unfolding covered_def by blast
      then have "m \<le> j" "j < n" using sg(5) by (meson order_trans less_le_trans)+
      then show ?thesis using m(6) by blast
    qed
    have "closed_inv fs ks n n ?st"
      unfolding closed_inv_def using c(1,2,5) sg(3) fi g srt bnd cov only by (simp add: list_all2_appendI)
    moreover have below: "ks ! j < fst (fs ! Suc (sl_fi st))" if "Suc (sl_fi st) < length fs" "j < n" for j
      using apart_next [OF a that(1)] m(3) [OF that(2)] by (auto intro: less_le_trans)
    moreover have "ks ! j < h" if "Suc (sl_fi st) < length fs" "j < n" "snd (fs ! Suc (sl_fi st)) = Some h" for j h
      using below [OF that(1,2)] apart_nth [OF a that(1,3)] by (rule less_trans)
    moreover have "\<forall>i < Suc (sl_fi st). \<forall>j. n \<le> j \<and> j < length ks \<longrightarrow> \<not> inside (fs ! i) (ks ! j)" using out m(7) less_Suc_eq by auto
    ultimately show "slicer_inv fs ks n ?st"
    proof (intro slicer_invI [of n])
      show "n \<le> j \<longleftrightarrow> sl_fi ?st < length fs \<and> inside (fs ! sl_fi ?st) (ks ! j)" if "j < n" for j
        using below [OF _ that] that by (auto simp: inside_def)
    qed (auto simp: holds_new)
  qed
qed

lemma closed_total: "closed_inv fs ks n m s \<Longrightarrow> m \<le> n \<Longrightarrow> n \<le> n' \<Longrightarrow>
    (\<And>i j. n \<le> j \<Longrightarrow> j < n' \<Longrightarrow> i < sl_fi s \<Longrightarrow> \<not> inside (fs ! i) (ks ! j)) \<Longrightarrow> closed_inv fs ks n' m (s\<lparr>sl_total := n'\<rparr>)"
proof -
  assume c: "closed_inv fs ks n m s" and o: "\<And>i j. n \<le> j \<Longrightarrow> j < n' \<Longrightarrow> i < sl_fi s \<Longrightarrow> \<not> inside (fs ! i) (ks ! j)"
  have "covered (sl_slices s) j" if "j < n'" "i < sl_fi s" "inside (fs ! i) (ks ! j)" for i j
  proof (cases "j < n")
    case True
    then show ?thesis using c that unfolding closed_inv_def by blast
  next
    case False
    then show ?thesis using o that by simp
  qed
  then show ?thesis using c unfolding closed_inv_def by simp
qed

lemma drop_take_snoc: "m \<le> n \<Longrightarrow> n < length ks \<Longrightarrow> drop m (take (Suc n) ks) = drop m (take n ks) @ [ks ! n]"
  by (simp add: take_Suc_conv_app_nth)

lemma seek_fence_inv:
  assumes a: "apart fs" and s: "sorted_wrt (<) ks" and n: "n < length ks"
  shows "slicer_inv fs ks n st \<Longrightarrow> \<exists>st'. seek_fence fs (ks ! n) st = Some st' \<and> slicer_inv fs ks (Suc n) (st'\<lparr>sl_total := Suc n\<rparr>) \<and> sl_fences st' = Some fs"
proof (induction "length fs - sl_fi st" arbitrary: st rule: less_induct)
  case less
  obtain m where m: "m \<le> n" "closed_inv fs ks n m st" "sl_fi st < length fs \<longrightarrow> (\<forall>j < n. \<forall>h. snd (fs ! sl_fi st) = Some h \<longrightarrow> ks ! j < h)"
      "holds_keys (sl_held st) (map short (drop m (take n ks)))" "m < n \<longrightarrow> sl_from st = m \<and> sl_fi st < length fs"
      "\<forall>j < n. m \<le> j \<longleftrightarrow> sl_fi st < length fs \<and> inside (fs ! sl_fi st) (ks ! j)"
      "\<forall>i < sl_fi st. \<forall>j. n \<le> j \<and> j < length ks \<longrightarrow> \<not> inside (fs ! i) (ks ! j)"
    using less.prems unfolding slicer_inv_def by (elim exE conjE) (simp add: Ball_def)
  have low: "ks ! j < ks ! n" if "j < n" for j using sorted_wrt_nth_less [OF s that n] .
  have c: "closed_inv fs ks (Suc n) m (st\<lparr>sl_total := Suc n\<rparr>)" using closed_total [OF m(2,1)] m(7) n by (simp add: less_Suc_eq_le le_antisym)
  have fs: "sl_fences st = Some fs" "sl_total st = n" using m(2) by (auto simp: closed_inv_def)
  have later: "\<forall>i < sl_fi st. \<forall>j. Suc n \<le> j \<and> j < length ks \<longrightarrow> \<not> inside (fs ! i) (ks ! j)" using m(7) by auto
  show ?case
  proof (cases "sl_fi st < length fs")
    case False
    then have mn: "m = n" using m(1,5) by linarith
    have idle: "closed_inv fs ks (Suc n) (Suc n) (st\<lparr>sl_total := Suc n\<rparr>)" using c mn unfolding closed_inv_def by (auto intro: le_SucI)
    have "slicer_inv fs ks (Suc n) (st\<lparr>sl_total := Suc n\<rparr>)"
    proof (rule slicer_invI [OF order_refl])
      show "closed_inv fs ks (Suc n) (Suc n) (st\<lparr>sl_total := Suc n\<rparr>)" by (rule idle)
    qed (use False m(4) mn later in auto)
    moreover have "seek_fence fs (ks ! n) st = Some st" using False by (subst seek_fence.simps) simp
    ultimately show ?thesis using fs by blast
  next
    case fi: True
    obtain lo hi where f: "fs ! sl_fi st = (lo, hi)" by fastforce
    show ?thesis
    proof (cases "\<exists>h. hi = Some h \<and> h \<le> ks ! n")
      case True
      then obtain h where h: "hi = Some h" "h \<le> ks ! n" by blast
      have out: "\<not> inside (fs ! sl_fi st) (ks ! j)" if "n \<le> j" "j < length ks" for j
        using sorted_le [OF s that] h f by (auto simp: inside_def not_less intro: order_trans)
      obtain st1 where st1: "close_fence st = Some st1" "slicer_inv fs ks n st1" "sl_fi st1 = sl_fi st + 1"
        using close_fence_inv [OF a s less_imp_le [OF n] less.prems fi out] by blast
      have "seek_fence fs (ks ! n) st = seek_fence fs (ks ! n) st1" using fi f h st1(1) by (subst seek_fence.simps) simp
      then show ?thesis using less.hyps [OF _ st1(2)] st1(3) fi by simp
    next
      case False
      then have below: "\<And>h. hi = Some h \<Longrightarrow> ks ! n < h" by (auto simp: not_le)
      have hi: "(case hi of None \<Rightarrow> False | Some h \<Rightarrow> h \<le> ks ! n) = False" using False by (auto split: option.split)
      have hs: "\<forall>j < Suc n. \<forall>h. snd (fs ! sl_fi st) = Some h \<longrightarrow> ks ! j < h" using m(3) fi below f by (auto simp: less_Suc_eq)
      show ?thesis
      proof (cases "lo \<noteq> [] \<and> ks ! n < lo")
        case lo: True
        have "\<not> m < n"
        proof
          assume "m < n"
          then have "inside (fs ! sl_fi st) (ks ! m)" using m(6) order_refl by blast
          then show False using low [OF \<open>m < n\<close>] lo f by (auto simp: inside_def)
        qed
        then have mn: "m = n" using m(1) by simp
        have "closed_inv fs ks (Suc n) (Suc n) (st\<lparr>sl_total := Suc n\<rparr>)" using c mn unfolding closed_inv_def by (auto intro: le_SucI)
        note idle = this
        have no: "\<not> inside (fs ! sl_fi st) (ks ! n)" using lo f by (auto simp: inside_def not_le [symmetric])
        have "slicer_inv fs ks (Suc n) (st\<lparr>sl_total := Suc n\<rparr>)"
        proof (rule slicer_invI [OF order_refl])
          show "closed_inv fs ks (Suc n) (Suc n) (st\<lparr>sl_total := Suc n\<rparr>)" by (rule idle)
        qed (use fi hs m(4,6) no mn later in \<open>auto simp: less_Suc_eq\<close>)
        moreover have "seek_fence fs (ks ! n) st = Some st" using fi f hi lo by (subst seek_fence.simps) simp
        ultimately show ?thesis using fs by blast
      next
        case lo: False
        then have "lo \<le> ks ! n" by (cases lo) (auto simp: not_less)
        then have ins: "inside (fs ! sl_fi st) (ks ! n)" using below f by (simp add: inside_def)
        let ?st = "st\<lparr>sl_from := if m = n then n else sl_from st, sl_held := kl_push (sl_held st) (short (ks ! n))\<rparr>"
        have e: "kl_is_empty (sl_held st) = Some (m = n)" using holds_empty [OF m(4)] m(1) n by (auto simp: eq_commute)
        have c2: "(lo \<noteq> [] \<and> ks ! n < lo) = False" using lo by simp
        have "seek_fence fs (ks ! n) st = Some ?st"
          by (subst seek_fence.simps) (use fi f hi e fs(2) in \<open>simp add: Let_def c2\<close>)
        moreover have "slicer_inv fs ks (Suc n) (?st\<lparr>sl_total := Suc n\<rparr>)"
        proof -
          have "holds_keys (kl_push (sl_held st) (short (ks ! n))) (map short (drop m (take (Suc n) ks)))"
            using holds_push [OF m(4), of "short (ks ! n)"] drop_take_snoc [OF m(1) n] by simp
          moreover have "closed_inv fs ks (Suc n) m (?st\<lparr>sl_total := Suc n\<rparr>)" using c unfolding closed_inv_def by simp
          ultimately show ?thesis
            by (intro slicer_invI [of m]) (use fi hs ins m(1,5,6) later in \<open>auto simp: less_Suc_eq\<close>)
        qed
        moreover have "sl_fences ?st = Some fs" using fs by simp
        ultimately show ?thesis by blast
      qed
    qed
  qed
qed

lemma closed_fields: "slicer_inv fs ks n s \<Longrightarrow> sl_total s = n \<and> sl_fences s = Some fs"
  by (auto simp: slicer_inv_def closed_inv_def)

lemma close_fence_total: "close_fence s = Some s' \<Longrightarrow> sl_total s' = sl_total s \<and> sl_fi s' = sl_fi s + 1"
  unfolding close_fence_def Let_def by (auto simp: split_beta split: option.splits if_splits Option.bind_splits)

lemma seek_fence_total: "seek_fence fs k s = Some s' \<Longrightarrow> sl_total s' = sl_total s"
proof (induction "length fs - sl_fi s" arbitrary: s rule: less_induct)
  case less
  note e = less.prems [unfolded seek_fence.simps [of fs k s]]
  show ?case
  proof (cases "length fs \<le> sl_fi s")
    case True
    then show ?thesis using e by simp
  next
    case False
    obtain lo hi where f: "fs ! sl_fi s = (lo, hi)" by fastforce
    show ?thesis
    proof (cases "case hi of None \<Rightarrow> False | Some h \<Rightarrow> h \<le> k")
      case True
      then obtain s1 where s1: "close_fence s = Some s1" "seek_fence fs k s1 = Some s'"
        using e False f by (auto split: Option.bind_splits)
      then show ?thesis using less.hyps [OF _ s1(2)] close_fence_total [OF s1(1)] False by simp
    next
      case hi: False
      show ?thesis
      proof (cases "lo \<noteq> [] \<and> k < lo")
        case True
        then show ?thesis using e False f hi by simp
      next
        case lo: False
        then have "(lo \<noteq> [] \<and> k < lo) = False" by simp
        note this [simp]
        show ?thesis using e False f hi by (auto simp del: de_Morgan_conj split: Option.bind_splits if_splits)
      qed
    qed
  qed
qed

lemma pushes_inv:
  assumes a: "apart fs" and s: "sorted_wrt (<) ks"
  shows "n \<le> length ks \<Longrightarrow> slicer_inv fs ks n st \<Longrightarrow>
    \<exists>st'. slicer_pushes st (drop n ks) = Some st' \<and> slicer_inv fs ks (length ks) st'"
proof (induction "length ks - n" arbitrary: n st)
  case (Suc d)
  then have n: "n < length ks" by simp
  obtain st1 where st1: "seek_fence fs (ks ! n) st = Some st1" "slicer_inv fs ks (Suc n) (st1\<lparr>sl_total := Suc n\<rparr>)"
    using seek_fence_inv [OF a s n Suc.prems(2)] by blast
  have "sl_total st1 = n" using seek_fence_total [OF st1(1)] closed_fields [OF Suc.prems(2)] by simp
  then have "slicer_push st (ks ! n) = Some (st1\<lparr>sl_total := Suc n\<rparr>)"
    using st1(1) closed_fields [OF Suc.prems(2)] by (simp add: slicer_push_def)
  moreover have "drop n ks = ks ! n # drop (Suc n) ks" using n by (simp add: Cons_nth_drop_Suc)
  ultimately show ?case using Suc.hyps(1) [of "Suc n" "st1\<lparr>sl_total := Suc n\<rparr>"] Suc.hyps(2) st1(2) n by simp
qed simp

lemma slicer_new_inv: "slicer_inv fs ks 0 (slicer_new (Some fs) parts max_keys)"
  by (rule slicer_invI [of 0]) (auto simp: slicer_new_def closed_inv_def holds_new covered_def)

lemma close_rest_inv:
  assumes a: "apart fs" and s: "sorted_wrt (<) ks"
  shows "slicer_inv fs ks (length ks) st \<Longrightarrow>
    \<exists>st'. close_rest fs st = Some st' \<and> slicer_inv fs ks (length ks) st' \<and> length fs \<le> sl_fi st'"
proof (induction "length fs - sl_fi st" arbitrary: st rule: less_induct)
  case less
  show ?case
  proof (cases "sl_fi st < length fs")
    case False
    then show ?thesis using less.prems by (subst close_rest.simps) simp
  next
    case True
    obtain st1 where st1: "close_fence st = Some st1" "slicer_inv fs ks (length ks) st1" "sl_fi st1 = sl_fi st + 1"
      using close_fence_inv [OF a s order_refl less.prems True] by auto
    have "close_rest fs st = close_rest fs st1" using True st1(1) by (subst close_rest.simps) simp
    then show ?thesis using less.hyps [OF _ st1(2)] st1(3) True by simp
  qed
qed

text \<open>
  What a merge may rely on: slices in order and apart, each with a fence that holds its
  keys, the fences tiling the given ones and themselves in order and apart, and a key in a
  slice exactly when a given fence holds it.
\<close>

definition sound_cuts :: "fence list \<Rightarrow> bytes list \<Rightarrow> (nat \<times> nat) list \<Rightarrow> fence list \<Rightarrow> bool" where
  "sound_cuts fs ks slices given \<longleftrightarrow> list_all2 (named ks) slices given
    \<and> (\<exists>gss. given = concat gss \<and> list_all2 tile fs gss) \<and> apart given
    \<and> sorted_wrt (\<lambda>a b. snd a \<le> fst b) slices \<and> (\<forall>c \<in> set slices. fst c \<le> snd c \<and> snd c \<le> length ks)
    \<and> (\<forall>j < length ks. covered slices j \<longleftrightarrow> (\<exists>f \<in> set fs. inside f (ks ! j)))"

lemma sound_closed:
  assumes "slicer_inv fs ks (length ks) st" "length fs \<le> sl_fi st" "apart fs"
  shows "sound_cuts fs ks (sl_slices st) (sl_given st)"
proof -
  obtain m where m: "m \<le> length ks" "closed_inv fs ks (length ks) m st" using assms(1) unfolding slicer_inv_def by blast
  then have fi: "sl_fi st = length fs" using assms(2) by (simp add: closed_inv_def)
  have in_set: "(\<exists>i < length fs. inside (fs ! i) k) \<longleftrightarrow> (\<exists>f \<in> set fs. inside f k)" for k by (metis in_set_conv_nth)
  have "covered (sl_slices st) j \<longleftrightarrow> (\<exists>f \<in> set fs. inside f (ks ! j))" if "j < length ks" for j
    using m(2) that unfolding closed_inv_def fi in_set [symmetric] by blast
  moreover obtain gss where "sl_given st = concat gss" "list_all2 tile fs gss" using m(2) fi unfolding closed_inv_def by auto
  moreover have "apart (concat gss)" using tiles_apart [OF assms(3)] calculation by blast
  moreover have "list_all2 (named ks) (sl_slices st) (sl_given st)" "sorted_wrt (\<lambda>a b. snd a \<le> fst b) (sl_slices st)"
      "\<forall>c \<in> set (sl_slices st). fst c \<le> snd c \<and> snd c \<le> m"
    using m(2) unfolding closed_inv_def by blast+
  ultimately show ?thesis using m(1) unfolding sound_cuts_def by (auto intro: order_trans)
qed

definition slice_keys :: "fence list option \<Rightarrow> nat \<Rightarrow> nat \<Rightarrow> bytes list \<Rightarrow> ((nat \<times> nat) list \<times> fence list \<times> nat) option option" where
  "slice_keys fences parts max_keys ks = do { s \<leftarrow> slicer_pushes (slicer_new fences parts max_keys) ks; slicer_finish s }"

text \<open>
  C8: Under given fences in key order and apart, whatever distinct keys are pushed in order,
  the slicer ends and its cuts are sound: slice by slice a fence that holds the slice's keys,
  the fences tiling the ones given (an empty slice keeps an empty range standing), and a key
  is in a slice exactly when a given fence holds it. Keys that share their first sixteen
  bytes are never parted from the fence that names them.
\<close>

theorem slices_under_fences:
  assumes "apart fs" "sorted_wrt (<) ks" "ks \<noteq> []"
  shows "\<exists>slices given. slice_keys (Some fs) parts max_keys ks = Some (Some (slices, given, length ks)) \<and> sound_cuts fs ks slices given"
proof -
  obtain st where st: "slicer_pushes (slicer_new (Some fs) parts max_keys) ks = Some st" "slicer_inv fs ks (length ks) st"
    using pushes_inv [OF assms(1,2) _ slicer_new_inv] by auto
  obtain st' where st': "close_rest fs st = Some st'" "slicer_inv fs ks (length ks) st'" "length fs \<le> sl_fi st'"
    using close_rest_inv [OF assms(1,2) st(2)] by blast
  have "slicer_finish st = Some (Some (sl_slices st', sl_given st', length ks))"
    using closed_fields [OF st(2)] closed_fields [OF st'(2)] st'(1) assms(3) by (simp add: slicer_finish_def)
  then show ?thesis using st(1) sound_closed [OF st'(2,3) assms(1)] by (simp add: slice_keys_def)
qed

subsection \<open>The slicer without fences\<close>

lemma pushes_unfenced:
  "sl_fences st = None \<Longrightarrow> holds_keys (sl_held st) (map short ps) \<Longrightarrow> sl_total st = length ps \<Longrightarrow>
    \<exists>st'. slicer_pushes st ks = Some st' \<and> holds_keys (sl_held st') (map short (ps @ ks)) \<and> sl_total st' = length (ps @ ks)
      \<and> sl_fences st' = None \<and> sl_parts st' = sl_parts st \<and> sl_slices st' = sl_slices st \<and> sl_given st' = sl_given st"
proof (induction ks arbitrary: st ps)
  case (Cons k ks)
  let ?st = "st\<lparr>sl_held := kl_push (sl_held st) (short k), sl_total := Suc (length ps)\<rparr>"
  have p: "slicer_push st k = Some ?st" using Cons.prems by (simp add: slicer_push_def)
  have h: "holds_keys (sl_held ?st) (map short (ps @ [k]))" using holds_push [OF Cons.prems(2), of "short k"] by simp
  show ?case using Cons.IH [OF _ h] Cons.prems(1) p by simp
qed simp

lemma joins_count: "joins l n per is bs = Some bs' \<Longrightarrow> length bs' \<le> length bs + length is"
proof (induction "is" arbitrary: bs)
  case (Cons i "is")
  then obtain b where "joins l n per is b = Some bs'" "length b \<le> length bs + 1"
    by (auto simp: Let_def split: Option.bind_splits if_splits)
  then show ?case using Cons.IH [of b] by simp
qed simp

lemma cut_loop_count: "cut_loop l a b bounds at slo (sls, g) = Some (at', slo', sls', g') \<Longrightarrow>
    length sls' \<le> length sls + length bounds \<and> (sls = [] \<and> sls' \<noteq> [] \<longrightarrow> bounds \<noteq> [])"
proof (induction bounds arbitrary: at slo sls g)
  case (Cons bd bounds)
  then obtain at1 slo1 sls1 g1 where n: "cut_loop l a b bounds at1 slo1 (sls1, g1) = Some (at', slo', sls', g')" "length sls1 \<le> length sls + 1"
    by (auto simp: Let_def split: Option.bind_splits if_splits)
  show ?case using Cons.IH [OF n(1)] n(2) by simp
qed simp

lemma cut_by_bounds_count: "cut_by_bounds l a b f bounds = Some (sls, g) \<Longrightarrow> length sls \<le> length bounds + 1"
  unfolding cut_by_bounds_def using cut_loop_count [of l a b bounds a "fst f" "[]" "[]"]
  by (auto split: Option.bind_splits if_splits)

text \<open>
  C32: With no fences given, the cuts are at most as many as the parts asked for, take every
  key once in order, and their fences tile the whole key space, each holding its slice's keys.
\<close>

theorem slices_of_everything:
  assumes "sorted_wrt (<) ks" "ks \<noteq> []"
  shows "\<exists>slices given. slice_keys None parts max_keys ks = Some (Some (slices, given, length ks))
    \<and> runs 0 slices (length ks) \<and> tile ([], None) given \<and> apart given \<and> list_all2 (named ks) slices given \<and> length slices \<le> max parts 1"
proof -
  let ?new = "slicer_new None parts max_keys"
  obtain st where st: "slicer_pushes ?new ks = Some st" "holds_keys (sl_held st) (map short ks)" "sl_total st = length ks"
      "sl_fences st = None" "sl_parts st = parts" "sl_slices st = []" "sl_given st = []"
    using pushes_unfenced [of ?new "[]" ks] holds_new by (auto simp: slicer_new_def)
  define p where "p = min (max parts 1) (length ks)"
  have p: "p \<noteq> 0" using assms(2) by (simp add: p_def)
  obtain bounds where bs: "joins (sl_held st) (length ks) (div_ceil (length ks) p) [1..<p] [] = Some bounds" "\<forall>b \<in> set bounds. length b \<le> FENCE_MAX"
    using joins_short [OF st(2) assms(2), of "[]" "div_ceil (length ks) p" "[1..<p]"] by auto
  obtain sls g where c: "cut_by_bounds (sl_held st) 0 (length ks) ([], None) bounds = Some (sls, g)" "runs 0 sls (length ks)" "tile ([], None) g" "list_all2 (named ks) sls g"
    using cut_by_bounds_names [OF assms(1) st(2) bs(2) assms(2), of "([], None)"] by (auto simp: inside_def)
  have "length sls \<le> max parts 1" using cut_by_bounds_count [OF c(1)] joins_count [OF bs(1)] p by (simp add: p_def)
  moreover have "slicer_finish st = Some (Some (sls, g, length ks))"
    using st assms(2) bs(1) c(1) holds_len [OF st(2)]
    by (simp add: slicer_finish_def Let_def p_def [symmetric, unfolded One_nat_def] less_max_iff_disj)
  ultimately show ?thesis using st(1) c(2-4) tile_apart [OF c(3)] by (simp add: slice_keys_def)
qed

definition six_keys :: "bytes list" where
  "six_keys = [[97], [110], [120, 7], [130], [150], [200]]"

theorem slices_fences_witness:
  "\<exists>slices given. slice_keys (Some three_parts) 0 2 six_keys = Some (Some (slices, given, length six_keys))
    \<and> sound_cuts three_parts six_keys slices given"
  by (rule slices_under_fences [OF three_apart]) (simp_all add: six_keys_def)

theorem slices_everything_witness:
  "\<exists>slices given. slice_keys None 2 2 six_keys = Some (Some (slices, given, length six_keys)) \<and> runs 0 slices (length six_keys)
    \<and> tile ([], None) given \<and> apart given \<and> list_all2 (named six_keys) slices given \<and> length slices \<le> max 2 1"
  by (rule slices_of_everything) (simp_all add: six_keys_def)

end
