(* ===== verification/Flat_Section.thy ===== *)
theory Flat_Section
  imports Flat_Seek
begin

text \<open>
  A key section from its records to its reads: the trailer written behind streamed
  records, the row over both, and what the parsed index answers. Every key written is
  found with its extents and inline bytes, by its hash and by its rank; no other key
  is; and a seek lands where the sorted keys say.
\<close>

subsection \<open>The header\<close>

lemma header_words_eq:
  "length a = 8 + i * 8 \<Longrightarrow> length z = 8 * length ws \<Longrightarrow> header_words (a @ z @ b) i ws = Some (a @ concat (map u64_le ws) @ b)"
proof (induction ws arbitrary: a i z)
  case Nil
  then show ?case by simp
next
  case (Cons w ws)
  have z: "z = take 8 z @ drop 8 z" by simp
  have "put (a @ take 8 z @ (drop 8 z @ b)) (8 + i * 8) (u64_le w) = Some (a @ u64_le w @ (drop 8 z @ b))"
    by (rule put_at) (use Cons.prems in simp_all)
  moreover have "header_words ((a @ u64_le w) @ drop 8 z @ b) (Suc i) ws = Some ((a @ u64_le w) @ concat (map u64_le ws) @ b)"
    by (rule Cons.IH) (use Cons.prems in simp_all)
  moreover have "a @ z @ b = a @ take 8 z @ (drop 8 z @ b)" by simp
  ultimately show ?case by (simp only: header_words.simps bind.bind_lunit) simp
qed

definition header_bytes :: "u64 list \<Rightarrow> bytes" where
  "header_bytes ws = u32_le MAGIC @ u32_le VERSION @ concat (map u64_le ws) @ replicate (184 - 8 * length ws) 0"

lemma length_header_bytes: "length ws \<le> 23 \<Longrightarrow> length (header_bytes ws) = HEADER"
  by (simp add: header_bytes_def HEADER_def)

lemma trailer_header_eq:
  assumes "length ws = 19"
  shows "trailer_header ws = Some (header_bytes ws)"
proof -
  let ?z = "\<lambda>n. replicate n (0 :: byte)"
  have r: "?z HEADER = [] @ ?z 4 @ ?z 188" "?z 188 = ?z 4 @ ?z 184" "?z 184 = ?z 152 @ ?z 32"
    by (simp_all add: HEADER_def replicate_add [symmetric])
  have "put ([] @ ?z 4 @ ?z 188) 0 (u32_le MAGIC) = Some ([] @ u32_le MAGIC @ ?z 188)" by (rule put_at) simp_all
  moreover have "put (u32_le MAGIC @ ?z 4 @ ?z 184) 4 (u32_le VERSION) = Some (u32_le MAGIC @ u32_le VERSION @ ?z 184)" by (rule put_at) simp_all
  moreover have "header_words ((u32_le MAGIC @ u32_le VERSION) @ ?z 152 @ ?z 32) 0 ws = Some ((u32_le MAGIC @ u32_le VERSION) @ concat (map u64_le ws) @ ?z 32)"
    by (rule header_words_eq) (use assms in simp_all)
  ultimately show ?thesis unfolding trailer_header_def r header_bytes_def by (simp only: append_Nil append_assoc bind.bind_lunit) (simp add: assms)
qed

lemma set_header_words:
  assumes "length ws = 19"
  shows "set_checksum_words (header_bytes ws @ rest) tot = Some (header_bytes (ws @ [word_of_nat tot, word_of_nat PIECE_SHIFT]) @ rest)"
proof -
  have r: "replicate (32 :: nat) (0 :: byte) = replicate 16 0 @ replicate 16 0" by (simp add: replicate_add [symmetric])
  have "set_checksum_words ((u32_le MAGIC @ u32_le VERSION @ concat (map u64_le ws)) @ replicate 16 0 @ (replicate 16 0 @ rest)) tot =
      Some ((u32_le MAGIC @ u32_le VERSION @ concat (map u64_le ws)) @ u64_le (word_of_nat tot) @ u64_le (word_of_nat PIECE_SHIFT) @ (replicate 16 0 @ rest))"
    by (rule set_checksum_words_eq) (use assms in \<open>simp_all add: W_CRC_OFF_def\<close>)
  then show ?thesis by (simp add: header_bytes_def assms r)
qed

lemma header_word:
  assumes "i < length ws"
  shows "rd_u64 (header_bytes ws @ rest) (8 + 8 * i) = Some (ws ! i)"
  using rd_words64 [OF assms, of "u32_le MAGIC @ u32_le VERSION"] by (simp add: header_bytes_def)

lemma header_flat: "is_flat (header_bytes ws @ rest)"
  using rd_u32_at [of 0 "[]" MAGIC] rd_u32_at [of 4 "u32_le MAGIC" VERSION] by (simp add: is_flat_def header_bytes_def)

subsection \<open>The stride\<close>

lemma bit_len_le: "n < 2 ^ j \<Longrightarrow> bit_len n \<le> j"
proof (induction n arbitrary: j rule: bit_len.induct)
  case (1 n)
  show ?case
  proof (cases "n = 0")
    case True
    then show ?thesis by (simp add: bit_len.simps)
  next
    case False
    then obtain j' where "j = Suc j'" using 1(2) by (cases j) auto
    then have "bit_len (n div 2) \<le> j'" using 1(1) [OF False, of j'] 1(2) by simp
    then show ?thesis using False \<open>j = Suc j'\<close> by (subst bit_len.simps) simp
  qed
qed

lemma fence_stride_ok:
  assumes "0 < target" and "n < 2 ^ 62"
  obtains s where "fence_stride target n = Some (2 ^ s)" and "s \<le> 62"
proof -
  let ?m = "max (div_ceil n target) FENCE_MIN_STRIDE - 1"
  have "div_ceil n target \<le> n"
  proof (cases n)
    case 0
    then show ?thesis using assms(1) by (simp add: div_ceil_def)
  next
    case (Suc m)
    then have "n + target - 1 \<le> n * target" using assms(1) by (cases target) simp_all
    then have "(n + target - 1) div target \<le> (n * target) div target" by (rule div_le_mono)
    then show ?thesis using assms(1) by (simp add: div_ceil_def)
  qed
  then have "max (div_ceil n target) FENCE_MIN_STRIDE \<le> max n 16" unfolding FENCE_MIN_STRIDE_def by linarith
  moreover have "max n 16 \<le> 2 ^ 62" using assms(2) by simp
  moreover have "0 < max (div_ceil n target) FENCE_MIN_STRIDE" by (simp add: FENCE_MIN_STRIDE_def)
  ultimately have "?m < 2 ^ 62" by linarith
  then have b: "bit_len ?m \<le> 62" by (rule bit_len_le)
  then have "(2 :: nat) ^ bit_len ?m \<le> 2 ^ 62" by (rule power_increasing) simp
  then have "fence_stride target n = Some (2 ^ bit_len ?m)"
    using assms(1) by (simp add: fence_stride_def next_power_of_two_def Let_def USIZE_MAX_def)
  then show ?thesis using that b by blast
qed

subsection \<open>The directory filled as the table asks\<close>

lemma ask_dir:
  assumes each: "\<And>i st. i < n \<Longrightarrow> \<exists>st'. each i st = Some ((off i, hash i), st')" and "i \<le> n"
  shows "\<exists>st'. ask_all (dir_asker each) (concat (map (\<lambda>j. u32_le (off j)) [0..<i]) @ replicate ((n - i) * 4) 0 @ pad, st) [i..<n] =
    Some (map (\<lambda>j. (hash j, off j)) [i..<n], (concat (map (\<lambda>j. u32_le (off j)) [0..<n]) @ pad, st'))"
  using assms(2)
proof (induction "n - i" arbitrary: i st)
  case 0
  then have "i = n" by simp
  then show ?case by simp
next
  case (Suc d)
  then have i: "i < n" "d = n - Suc i" "Suc i \<le> n" by simp_all
  then have u: "[i..<n] = i # [Suc i..<n]" by (simp add: upt_conv_Cons)
  obtain st1 where e: "each i st = Some ((off i, hash i), st1)" using each [OF i(1)] by blast
  let ?w = "\<lambda>k. concat (map (\<lambda>j. u32_le (off j)) [0..<k])"
  have lw: "length (?w i) = i * 4" by (simp add: length_concat_const [of _ 4])
  have r: "replicate ((n - i) * 4) (0 :: byte) = replicate 4 0 @ replicate ((n - Suc i) * 4) 0"
    using i(1) by (simp add: replicate_add [symmetric])
  have "put (?w i @ replicate 4 0 @ (replicate ((n - Suc i) * 4) 0 @ pad)) (i * 4) (u32_le (off i)) =
      Some (?w i @ u32_le (off i) @ (replicate ((n - Suc i) * 4) 0 @ pad))"
    by (rule put_at) (simp_all add: lw)
  then have p: "put (?w i @ replicate ((n - i) * 4) 0 @ pad) (i * 4) (u32_le (off i)) = Some (?w (Suc i) @ replicate ((n - Suc i) * 4) 0 @ pad)"
    by (simp add: r)
  obtain st2 where "ask_all (dir_asker each) (?w (Suc i) @ replicate ((n - Suc i) * 4) 0 @ pad, st1) [Suc i..<n] =
      Some (map (\<lambda>j. (hash j, off j)) [Suc i..<n], (?w n @ pad, st2))"
    using Suc.hyps(1) [OF i(2,3)] by blast
  then show ?case using e p by (intro exI [of _ st2]) (simp add: u dir_asker_def del: upt_Suc)
qed

subsection \<open>The trailer\<close>

lemma align_up_bound: "0 < m \<Longrightarrow> n \<le> align_up n m \<and> align_up n m < n + m"
proof -
  assume m: "0 < m"
  have "(n + m - 1) div m * m + (n + m - 1) mod m = n + m - 1" "(n + m - 1) mod m < m" using m by simp_all
  then show ?thesis unfolding align_up_def using m by linarith
qed

text \<open>
  Where the trailer's parts lie: the alignment, the fence, the alignment, the
  directory's words, the alignment and the slots, each at the offset the header names.
\<close>

lemma stream_trailer_eq:
  fixes each :: "nat \<Rightarrow> 's \<Rightarrow> ((u32 \<times> u64) \<times> 's) option"
  assumes target: "0 < target" and n: "n < 2 ^ 62" and recs: "recs_len \<le> MAX_RECS"
    and each: "\<And>i st. i < n \<Longrightarrow> \<exists>st'. each i st = Some ((off i, hash i), st')"
  obtains k s p1 fence p2 p3 slots st' where "hash_cap_for n = Some (2 ^ k)" and "n < 2 ^ k" and "k = 4 \<or> 3 * 2 ^ (k - 1) < n * 4"
    and "fence_stride target n = Some (2 ^ s)" and "s \<le> 62" and "length p1 < 4" and "length p2 < 4" and "length p3 < 8"
    and "fence = (if 0 < div_ceil n (2 ^ s) then concat (map u32_le (fence_offs kat (2 ^ s) (div_ceil n (2 ^ s)))) @ fence_blob kat (2 ^ s) (div_ceil n (2 ^ s)) else [])"
    and "hash_table k slots (map (\<lambda>i. (hash i, off i)) [0..<n])"
    and "stream_trailer target n recs_len kat each st gen lookahead =
      Some (Some ((header_bytes [gen, 0, 0, 0, 0, 0, word_of_nat n, word_of_nat (2 ^ k),
          word_of_nat (HEADER + recs_len + length p1 + length fence + length p2 + n * 4 + length p3),
          word_of_nat (HEADER + recs_len + length p1 + length fence + length p2), word_of_nat HEADER,
          word_of_nat recs_len, word_of_nat recs_len, word_of_nat recs_len, word_of_nat (HEADER + recs_len + length p1),
          word_of_nat (div_ceil n (2 ^ s)), word_of_nat (2 ^ s), 0, 0],
        p1 @ fence @ p2 @ concat (map (\<lambda>i. u32_le (off i)) [0..<n]) @ p3 @ slots,
        HEADER + recs_len + length p1 + length fence + length p2 + n * 4 + length p3 + 2 ^ k * SLOT), st'))"
proof -
  obtain s where s: "fence_stride target n = Some (2 ^ s)" "s \<le> 62" by (rule fence_stride_ok [OF target n])
  let ?fn = "div_ceil n (2 ^ s)"
  define fence where "fence = (if 0 < ?fn then concat (map u32_le (fence_offs kat (2 ^ s) ?fn)) @ fence_blob kat (2 ^ s) ?fn else [])"
  define a0 where "a0 = HEADER + recs_len"
  define p1 where "p1 = replicate (align_up a0 4 - a0) (0 :: byte)"
  define a1 where "a1 = a0 + length p1 + length fence"
  define p2 where "p2 = replicate (align_up a1 4 - a1) (0 :: byte)"
  define a2 where "a2 = a1 + length p2 + n * 4"
  define p3 where "p3 = replicate (align_up a2 8 - a2) (0 :: byte)"
  have al: "align_up a0 4 = a0 + length p1" "align_up a1 4 = a1 + length p2" "align_up a2 8 = a2 + length p3"
      "length p1 < 4" "length p2 < 4" "length p3 < 8"
    using align_up_bound [of 4 a0] align_up_bound [of 4 a1] align_up_bound [of 8 a2] unfolding p1_def p2_def p3_def length_replicate by linarith+
  let ?ks = "map (\<lambda>i. (hash i, off i)) [0..<n]" and ?dw = "concat (map (\<lambda>i. u32_le (off i)) [0..<n])"
  obtain st' where ask: "ask_all (dir_asker each) (replicate (n * 4) 0 @ p3, st) [0..<n] = Some (?ks, (?dw @ p3, st'))"
    using ask_dir [of n each off hash 0 p3 st, OF each] by auto
  obtain k where k: "hash_cap_for n = Some (2 ^ k)" "n < 2 ^ k" "k = 4 \<or> 3 * 2 ^ (k - 1) < n * 4" by (rule hash_cap_pow [OF n]) blast
  obtain k' slots where sl: "hash_cap_for (length ?ks) = Some (2 ^ k')"
      "fill_hash (replicate (2 ^ k' * SLOT) 0) (2 ^ k' - 1) (length ?ks) (dir_asker each) (replicate (n * 4) 0 @ p3, st) lookahead = Some (slots, (?dw @ p3, st'))"
      "hash_table k' slots ?ks"
    by (rule fill_hash_ok [of ?ks "dir_asker each" "(replicate (n * 4) 0 @ p3, st)" "(?dw @ p3, st')" lookahead]) (use n ask in simp_all)
  have kk: "k' = k" using k(1) sl(1) by (simp add: power_inject_exp)
  have ff: "(if 0 < ?fn then let (offs, blob) = fence_fill kat (2 ^ s) [0..<?fn] [] [] in (p1 @ offs @ blob, a0 + length p1 + (?fn + 1) * 4 + length blob)
      else (p1, a0 + length p1)) = (p1 @ fence, a1)"
    by (simp add: fence_fill_eq fence_def a1_def)
  have pads: "pad_to [] a0 4 = (p1, a0 + length p1)" "pad_to (p1 @ fence) a1 4 = (p1 @ fence @ p2, a1 + length p2)"
      "pad_to (replicate (n * 4) 0) a2 8 = (replicate (n * 4) 0 @ p3, a2 + length p3)"
    using al by (simp_all add: pad_to_def Let_def p1_def p2_def p3_def)
  have fill: "fill_hash (replicate (2 ^ k * SLOT) 0) (2 ^ k - 1) n (dir_asker each) (replicate (n * 4) 0 @ p3, st) lookahead = Some (slots, (?dw @ p3, st'))"
    using sl(2) by (simp add: kk)
  show ?thesis
  proof (rule that [OF k s al(4-6) fence_def sl(3) [unfolded kk]])
    have "\<not> MAX_RECS < recs_len" using recs by simp
    then show "stream_trailer target n recs_len kat each st gen lookahead =
      Some (Some ((header_bytes [gen, 0, 0, 0, 0, 0, word_of_nat n, word_of_nat (2 ^ k),
          word_of_nat (HEADER + recs_len + length p1 + length fence + length p2 + n * 4 + length p3),
          word_of_nat (HEADER + recs_len + length p1 + length fence + length p2), word_of_nat HEADER,
          word_of_nat recs_len, word_of_nat recs_len, word_of_nat recs_len, word_of_nat (HEADER + recs_len + length p1),
          word_of_nat (div_ceil n (2 ^ s)), word_of_nat (2 ^ s), 0, 0],
        p1 @ fence @ p2 @ ?dw @ p3 @ slots,
        HEADER + recs_len + length p1 + length fence + length p2 + n * 4 + length p3 + 2 ^ k * SLOT), st'))"
      unfolding stream_trailer_def
      by (simp only: if_False k(1) option.case Let_def a0_def [symmetric] pads(1) prod.case s(1) bind.bind_lunit ff [unfolded Let_def]
          pads(2) a2_def [symmetric] pads(3) fill)
        (simp add: trailer_header_eq a1_def a2_def)
  qed
qed

subsection \<open>The index parsed back\<close>

lemma power_of_two [simp]: "is_power_of_two (2 ^ k)"
  unfolding is_power_of_two_def and_msk by simp

lemma unat_size: "x \<le> USIZE_MAX \<Longrightarrow> unat (word_of_nat x :: u64) = x"
  by (simp add: unat_of_nat USIZE_MAX_def)

text \<open>The words of a records-first header, once its row is named.\<close>

definition section_words :: "u64 \<Rightarrow> nat \<Rightarrow> nat \<Rightarrow> nat \<Rightarrow> nat \<Rightarrow> nat \<Rightarrow> nat \<Rightarrow> nat \<Rightarrow> nat \<Rightarrow> u64 list" where
  "section_words gen n cap hash_off dir_off recs_len fence_off fence_n stride =
    [gen, 0, 0, 0, 0, 0, word_of_nat n, word_of_nat cap, word_of_nat hash_off, word_of_nat dir_off, word_of_nat HEADER,
     word_of_nat recs_len, word_of_nat recs_len, word_of_nat recs_len, word_of_nat fence_off, word_of_nat fence_n, word_of_nat stride, 0, 0]"

lemma length_section_words [simp]: "length (section_words gen n cap ho d rl fo fn st) = 19"
  by (simp add: section_words_def)

lemma section_sizes:
  assumes sec: "sec = header_bytes (section_words gen n cap ho d rl fo fn st @ [word_of_nat tot, word_of_nat PIECE_SHIFT]) @ rest"
  shows "is_flat sec" "rd_u64 sec 8 = Some gen" "rd_u64 sec 16 = Some 0" "rd_u64 sec 24 = Some 0" "rd_u64 sec 32 = Some 0" "rd_u64 sec 40 = Some 0"
    "rd_u64 sec 48 = Some 0" "rd_u64 sec 56 = Some (word_of_nat n)" "rd_u64 sec 64 = Some (word_of_nat cap)" "rd_u64 sec 72 = Some (word_of_nat ho)"
    "rd_u64 sec 80 = Some (word_of_nat d)" "rd_u64 sec 88 = Some (word_of_nat HEADER)" "rd_u64 sec 96 = Some (word_of_nat rl)"
    "rd_u64 sec 104 = Some (word_of_nat rl)" "rd_u64 sec 112 = Some (word_of_nat rl)" "rd_u64 sec 120 = Some (word_of_nat fo)"
    "rd_u64 sec 128 = Some (word_of_nat fn)" "rd_u64 sec 136 = Some (word_of_nat st)" "rd_u64 sec 144 = Some 0" "rd_u64 sec 152 = Some 0"
    "rd_u64 sec 160 = Some (word_of_nat tot)" "rd_u64 sec 168 = Some (word_of_nat PIECE_SHIFT)"
proof -
  let ?ws = "section_words gen n cap ho d rl fo fn st @ [word_of_nat tot, word_of_nat PIECE_SHIFT]"
  show "is_flat sec" unfolding sec by (rule header_flat)
  have w: "rd_u64 sec (8 + 8 * i) = Some (?ws ! i)" if "i < 21" for i unfolding sec by (rule header_word) (use that in simp)
  show "rd_u64 sec 8 = Some gen" "rd_u64 sec 16 = Some 0" "rd_u64 sec 24 = Some 0" "rd_u64 sec 32 = Some 0" "rd_u64 sec 40 = Some 0"
    "rd_u64 sec 48 = Some 0" "rd_u64 sec 56 = Some (word_of_nat n)" "rd_u64 sec 64 = Some (word_of_nat cap)" "rd_u64 sec 72 = Some (word_of_nat ho)"
    "rd_u64 sec 80 = Some (word_of_nat d)" "rd_u64 sec 88 = Some (word_of_nat HEADER)" "rd_u64 sec 96 = Some (word_of_nat rl)"
    "rd_u64 sec 104 = Some (word_of_nat rl)" "rd_u64 sec 112 = Some (word_of_nat rl)" "rd_u64 sec 120 = Some (word_of_nat fo)"
    "rd_u64 sec 128 = Some (word_of_nat fn)" "rd_u64 sec 136 = Some (word_of_nat st)" "rd_u64 sec 144 = Some 0" "rd_u64 sec 152 = Some 0"
    "rd_u64 sec 160 = Some (word_of_nat tot)" "rd_u64 sec 168 = Some (word_of_nat PIECE_SHIFT)"
    using w [of 0] w [of 1] w [of 2] w [of 3] w [of 4] w [of 5] w [of 6] w [of 7] w [of 8] w [of 9] w [of 10] w [of 11] w [of 12] w [of 13]
      w [of 14] w [of 15] w [of 16] w [of 17] w [of 18] w [of 19] w [of 20] by (simp_all add: section_words_def)
qed

lemma section_regions_built:
  assumes "HEADER + rl \<le> d" and "d + n * 4 \<le> ho" and "ho + 2 ^ k * SLOT \<le> len" and "len \<le> USIZE_MAX" and "n < 2 ^ k"
  shows "section_regions len n (2 ^ k) ho d HEADER rl 0 0 = Some (n, (ho, ho + 2 ^ k * SLOT), (d, d + n * 4), (HEADER, HEADER + rl))"
  using assms
  by (simp add: section_regions_def live_dir_def checked_mul_def checked_add_def region_bad_def overlap_def Let_def)

lemma flat_parse_built:
  assumes sec: "sec = header_bytes (section_words gen n (2 ^ k) ho d rl fo fn st @ [word_of_nat tot, word_of_nat PIECE_SHIFT]) @ rest"
    and lay: "HEADER + rl \<le> d" "d + n * 4 \<le> ho" "ho + 2 ^ k * SLOT = tot" "tot \<le> length sec" "length sec \<le> USIZE_MAX" "n < 2 ^ k"
    and small: "fo \<le> USIZE_MAX" "fn \<le> USIZE_MAX" "st \<le> USIZE_MAX"
  obtains ix where "flat_parse sec = Some ix" and "fi_hash ix = (ho, ho + 2 ^ k * SLOT)" and "fi_dir ix = (d, d + n * 4)"
    and "fi_recs ix = (HEADER, HEADER + rl)" and "fi_hash_cap ix = 2 ^ k" and "fi_mask ix = 2 ^ k - 1" and "fi_nkeys ix = n"
    and "fi_crc_off ix = tot" and "fi_piece_shift ix = PIECE_SHIFT" and "fi_generation ix = gen" and "fi_prev ix = None"
proof -
  note r = section_sizes [OF sec]
  have le: "n \<le> USIZE_MAX" "2 ^ k \<le> USIZE_MAX" "ho \<le> USIZE_MAX" "d \<le> USIZE_MAX" "HEADER \<le> USIZE_MAX" "rl \<le> USIZE_MAX" "tot \<le> USIZE_MAX"
    using lay by (auto simp: SLOT_def)
  have z: "rd_size sec 56 = Some n" "rd_size sec 64 = Some (2 ^ k)" "rd_size sec 72 = Some ho" "rd_size sec 80 = Some d" "rd_size sec 88 = Some HEADER"
    "rd_size sec 96 = Some rl" "rd_size sec 104 = Some rl" "rd_size sec 112 = Some rl" "rd_size sec 120 = Some fo" "rd_size sec 128 = Some fn"
    "rd_size sec 136 = Some st" "rd_size sec 144 = Some 0"
    using le small unfolding rd_size_def r by (simp_all only: option.map unat_size unsigned_0)
  have reg: "section_regions (length sec) n (2 ^ k) ho d HEADER rl 0 0 = Some (n, (ho, ho + 2 ^ k * SLOT), (d, d + n * 4), (HEADER, HEADER + rl))"
    by (rule section_regions_built) (use lay in simp_all)
  have "(0 :: nat) < 2 ^ k * SLOT" by (simp add: SLOT_def)
  then have t0: "0 < tot" using lay(3) by linarith
  have ps: "unat (word_of_nat PIECE_SHIFT :: u64) = 14" by (simp add: PIECE_SHIFT_def)
  have "(word_of_nat tot :: u64) \<noteq> 0" using unat_size [OF le(7)] t0 by auto
  then have "checksum_words sec = Some (Some (tot, PIECE_SHIFT))"
    unfolding checksum_words_def W_CRC_OFF_def W_PIECE_SHIFT_def r using unat_size [OF le(7)] by (simp add: ps) (simp add: PIECE_SHIFT_def)
  then have row: "row_place sec = Some (tot, PIECE_SHIFT)" using lay by (simp add: row_place_def)
  show ?thesis
    by (rule that, unfold flat_parse_def)
      (simp_all only: r(1) simp_thms if_False r(2-7) r(20) bind.bind_lunit z Let_def max.idem reg prod.case row, simp_all)
qed

subsection \<open>The records\<close>

type_synonym entry = "bytes \<times> ext list \<times> bytes"

definition entry_bytes :: "bool \<Rightarrow> entry \<Rightarrow> bytes" where
  "entry_bytes compact e = record_bytes (fst e) (fst (snd e)) (snd (snd e)) compact"

definition recs_bytes :: "bool \<Rightarrow> entry list \<Rightarrow> bytes" where
  "recs_bytes compact es = concat (map (entry_bytes compact) es)"

definition rec_start :: "bool \<Rightarrow> entry list \<Rightarrow> nat \<Rightarrow> nat" where
  "rec_start compact es i = length (recs_bytes compact (take i es))"

definition entry_ok :: "bool \<Rightarrow> entry \<Rightarrow> bool" where
  "entry_ok compact e \<longleftrightarrow> record_ok (fst (snd e)) (snd (snd e)) compact \<and> length (fst e) \<le> U16_MAX \<and> length (fst (snd e)) < 2 ^ 15"

definition entry_exts :: "bool \<Rightarrow> entry \<Rightarrow> exts" where
  "entry_exts compact e = (if compact \<and> compacts (fst (snd e)) then OneExt (fst (snd e) ! 0) else Borrowed (fst (snd e)))"

lemma entry_bytes_mod: "length (entry_bytes compact e) mod 4 = 0"
  unfolding entry_bytes_def length_record_bytes
  by (simp add: record_len_compact_def record_len_tail_def record_len_def EXT_BYTES_def mod_add_eq [symmetric] align_up_mod)

lemma entry_bytes_ge: "4 + length (fst e) \<le> length (entry_bytes compact e)"
proof -
  have "4 + length (fst e) \<le> align_up (4 + length (fst e)) REC_ALIGN" by (rule align_up_ge)
  moreover have "x \<le> a \<Longrightarrow> x \<le> (if P then a + b + c else a + d + f)" for x a b c d f :: nat and P by simp
  ultimately show ?thesis
    unfolding entry_bytes_def length_record_bytes record_len_compact_def record_len_tail_def record_len_def by blast
qed

lemma recs_split:
  "i < length es \<Longrightarrow> recs_bytes compact es = recs_bytes compact (take i es) @ entry_bytes compact (es ! i) @ recs_bytes compact (drop (Suc i) es)"
  unfolding recs_bytes_def by (rule concat_nth)

lemma recs_mod: "length (recs_bytes compact es) mod 4 = 0"
proof (induction es)
  case (Cons e es)
  then show ?case using entry_bytes_mod [of compact e] by (simp add: recs_bytes_def mod_add_eq [symmetric])
qed (simp add: recs_bytes_def)

lemma recs_ge: "length es * 4 + length (concat (map fst es)) \<le> length (recs_bytes compact es)"
proof (induction es)
  case (Cons e es)
  then show ?case using entry_bytes_ge [of e compact] by (simp add: recs_bytes_def)
qed (simp add: recs_bytes_def)

lemma rec_start_le: "i < length es \<Longrightarrow> rec_start compact es i < length (recs_bytes compact es)"
  using arg_cong [OF recs_split [of i es compact], of length] entry_bytes_ge [of "es ! i" compact]
  unfolding rec_start_def length_append by linarith

lemma parse_entry:
  assumes i: "i < length es" and ok: "entry_ok compact (es ! i)" and max: "length (recs_bytes compact es) \<le> USIZE_MAX" and al: "addr mod 4 = 0"
  shows "parse_record addr (recs_bytes compact es) (rec_start compact es i) =
    Some (fst (es ! i), entry_exts compact (es ! i), snd (snd (es ! i)), length (entry_bytes compact (es ! i)))"
proof -
  have "(addr + rec_start compact es i) mod 4 = 0" using recs_mod [of compact "take i es"] al by (simp add: rec_start_def mod_add_eq [symmetric])
  then show ?thesis
    using parse_record_bytes [of "fst (snd (es ! i))" "snd (snd (es ! i))" compact "fst (es ! i)" "recs_bytes compact es" "recs_bytes compact (take i es)"
        "recs_bytes compact (drop (Suc i) es)" "rec_start compact es i" addr] ok recs_split [OF i, of compact] max
    by (simp add: entry_ok_def entry_bytes_def entry_exts_def rec_start_def)
qed

lemma key_entry:
  assumes "i < length es" and "entry_ok compact (es ! i)" and "length (recs_bytes compact es) \<le> USIZE_MAX"
  shows "record_key (recs_bytes compact es) (rec_start compact es i) = Some (fst (es ! i))"
proof -
  have p: "parse_record 0 (recs_bytes compact es) (rec_start compact es i) =
      Some (fst (es ! i), entry_exts compact (es ! i), snd (snd (es ! i)), length (entry_bytes compact (es ! i)))"
    by (rule parse_entry) (use assms in simp_all)
  have "rec_start compact es i + length (entry_bytes compact (es ! i)) \<le> length (recs_bytes compact es)"
    using recs_split [OF assms(1), of compact] by (simp add: rec_start_def)
  then show ?thesis using record_key_next_parse(1) [OF p _ assms(3)] by simp
qed

subsection \<open>Reading a section of records, a directory and a filled table\<close>

text \<open>What the readers need of a section: its three regions, and the table filled with the records' offsets.\<close>

definition holds_entries :: "flat_index \<Rightarrow> bytes \<Rightarrow> bool \<Rightarrow> entry list \<Rightarrow> (bytes \<Rightarrow> u64) \<Rightarrow> bool" where
  "holds_entries ix sec compact es hash_of \<longleftrightarrow>
    (\<exists>k slots. hash_region ix sec = Some slots \<and> recs_region ix sec = Some (recs_bytes compact es) \<and>
      dir_region ix sec = Some (concat (map (\<lambda>i. u32_le (word_of_nat (rec_start compact es i))) [0..<length es])) \<and>
      hash_table k slots (map (\<lambda>i. (hash_of (fst (es ! i)), word_of_nat (rec_start compact es i))) [0..<length es]) \<and>
      length es < 2 ^ k \<and> fi_hash_cap ix = 2 ^ k \<and> fi_mask ix = 2 ^ k - 1 \<and> fi_nkeys ix = length es \<and> fst (fi_recs ix) mod 4 = 0)"

lemma unat_start:
  assumes "i < length es" and "length (recs_bytes compact es) \<le> MAX_RECS"
  shows "unat (word_of_nat (rec_start compact es i) :: u32) = rec_start compact es i"
  using rec_start_le [OF assms(1), of compact] assms(2) by (simp add: unat_of_nat MAX_RECS_def U32_MAX_def)

lemma dir_word:
  assumes "i < n"
  shows "rd_u32 (concat (map (\<lambda>i. u32_le (f i)) [0..<n])) (i * 4) = Some (f i)"
  using rd_words [of i "map f [0..<n]" "[]" "[]"] assms by (simp add: comp_def mult.commute)

lemma held_reads:
  assumes h: "holds_entries ix sec compact es hash_of" and ok: "\<forall>e \<in> set es. entry_ok compact e" and s: "sorted_wrt (<) (map fst es)"
    and max: "length (recs_bytes compact es) \<le> MAX_RECS" and al: "addr mod 4 = 0"
  shows "reads_keys ix sec (map fst es)"
    and "i < length es \<Longrightarrow> at_full ix addr sec i = Some (fst (es ! i), entry_exts compact (es ! i), snd (snd (es ! i)))"
    and "i < length es \<Longrightarrow> lookup_full ix addr sec (fst (es ! i)) hash_of = Some (entry_exts compact (es ! i), snd (snd (es ! i)))"
    and "key \<notin> fst ` set es \<Longrightarrow> lookup_full ix addr sec key hash_of = None"
proof -
  obtain k slots where H: "hash_region ix sec = Some slots" "recs_region ix sec = Some (recs_bytes compact es)"
      "dir_region ix sec = Some (concat (map (\<lambda>i. u32_le (word_of_nat (rec_start compact es i))) [0..<length es]))"
      "hash_table k slots (map (\<lambda>i. (hash_of (fst (es ! i)), word_of_nat (rec_start compact es i))) [0..<length es])"
      "length es < 2 ^ k" "fi_hash_cap ix = 2 ^ k" "fi_mask ix = 2 ^ k - 1" "fi_nkeys ix = length es" "fst (fi_recs ix) mod 4 = 0"
    using h by (auto simp: holds_entries_def)
  let ?ks = "map (\<lambda>i. (hash_of (fst (es ! i)), word_of_nat (rec_start compact es i) :: u32)) [0..<length es]"
  have mx: "length (recs_bytes compact es) \<le> USIZE_MAX" using max by (simp add: MAX_RECS_def U32_MAX_def USIZE_MAX_def)
  have okn: "entry_ok compact (es ! i)" if "i < length es" for i using ok that by simp
  have a4: "(addr + fst (fi_recs ix)) mod 4 = 0" using al H(9) by (simp add: mod_add_eq [symmetric])
  have P: "parse_record (addr + fst (fi_recs ix)) (recs_bytes compact es) (rec_start compact es i) =
      Some (fst (es ! i), entry_exts compact (es ! i), snd (snd (es ! i)), length (entry_bytes compact (es ! i)))" if "i < length es" for i
    by (rule parse_entry [OF that okn [OF that] mx a4])
  have U: "unat (word_of_nat (rec_start compact es i) :: u32) = rec_start compact es i" if "i < length es" for i by (rule unat_start [OF that max])
  have "key_at ix sec i = Some (map fst es ! i)" if "i < length (map fst es)" for i
    using that dir_word [of i "length es" "\<lambda>i. word_of_nat (rec_start compact es i)"] key_entry [OF _ okn mx, of i] U [of i]
    unfolding key_at_def H(2,3) by (simp add: H(8))
  then show "reads_keys ix sec (map fst es)" using s H(8) by (simp add: reads_keys_def)
  show "at_full ix addr sec i = Some (fst (es ! i), entry_exts compact (es ! i), snd (snd (es ! i)))" if "i < length es"
    using that dir_word [of i "length es" "\<lambda>i. word_of_nat (rec_start compact es i)"] P [of i] U [of i]
    unfolding at_full_def regions_def H(2,3) by (simp add: at_full_in_def H(8))
  have R: "lookup_hit ix addr sec key (unat (word_of_nat (rec_start compact es i) :: u32)) =
      (if fst (es ! i) = key then Some (entry_exts compact (es ! i), snd (snd (es ! i))) else None)" if "i < length es" for i key
    unfolding lookup_hit_def record_full_def H(2) U [OF that] using P [OF that] by simp
  have inj: "fst (es ! i) = fst (es ! j) \<longleftrightarrow> i = j" if "i < length es" "j < length es" for i j
    using that sorted_wrt_nth_less [OF s, of i j] sorted_wrt_nth_less [OF s, of j i] by (cases i j rule: linorder_cases) auto
  show "lookup_full ix addr sec (fst (es ! i)) hash_of = Some (entry_exts compact (es ! i), snd (snd (es ! i)))" if i: "i < length es"
  proof -
    let ?hit = "lookup_hit ix addr sec (fst (es ! i))" and ?r = "(entry_exts compact (es ! i), snd (snd (es ! i)))"
    have m: "(hash_of (fst (es ! i)), word_of_nat (rec_start compact es i)) \<in> set ?ks" using i by auto
    have hit: "?hit (unat (word_of_nat (rec_start compact es i) :: u32)) = Some ?r" using R [OF i] by simp
    have uniq: "r' = ?r" if "(h', off') \<in> set ?ks" "?hit (unat off') = Some r'" for h' off' r'
      using that R inj [OF _ i] by (auto split: if_splits)
    obtain p where "probe slots (2 ^ k - 1) (hash_tag (hash_of (fst (es ! i)))) ?hit (2 ^ k) (home_slot (2 ^ k - 1) (hash_of (fst (es ! i)))) = Hit_At (p * SLOT) ?r"
      by (rule probe_found [where hit = ?hit, OF H(4) m hit uniq])
    then show ?thesis unfolding lookup_full_def H(1) key_probe_def H(6,7) Let_def by simp
  qed
  show "lookup_full ix addr sec key hash_of = None" if nk: "key \<notin> fst ` set es"
  proof -
    let ?hit = "lookup_hit ix addr sec key"
    have miss: "?hit (unat off') = None" if "(h', off') \<in> set ?ks" for h' off'
      using that R nk by (auto split: if_splits)
    have room: "length ?ks < 2 ^ k" using H(5) by simp
    obtain p where "probe slots (2 ^ k - 1) (hash_tag (hash_of key)) ?hit (2 ^ k) (home_slot (2 ^ k - 1) (hash_of key)) = Empty_At (p * SLOT)"
      by (rule probe_absent [where hit = ?hit and h = "hash_of key", OF H(4) room miss])
    then show ?thesis unfolding lookup_full_def H(1) key_probe_def H(6,7) Let_def by simp
  qed
qed

subsection \<open>The section built\<close>

lemma slice_mid: "a = length pre \<Longrightarrow> b = a + length m \<Longrightarrow> slice (pre @ m @ post) a b = Some m"
  by (simp add: slice_def)

lemma div_ceil_le: "0 < S \<Longrightarrow> div_ceil n S \<le> n"
proof -
  assume S: "0 < S"
  show ?thesis
  proof (cases n)
    case 0
    then show ?thesis using S by (simp add: div_ceil_def)
  next
    case (Suc m)
    then have "n + S - 1 \<le> n * S" using S by (cases S) simp_all
    then have "(n + S - 1) div S \<le> (n * S) div S" by (rule div_le_mono)
    then show ?thesis using S by (simp add: div_ceil_def)
  qed
qed

text \<open>How large a section can be: record offsets are 32 bits wide, so nothing here overflows.\<close>

lemma section_bound:
  assumes recs: "rl \<le> MAX_RECS" and n: "n * 4 \<le> rl" and k: "k = 4 \<or> 3 * 2 ^ (k - 1) < n * 4" and f: "fl \<le> (n + 1) * 4 + rl" and p: "pl < 16"
    and tot: "tot = HEADER + rl + fl + n * 4 + pl + 2 ^ k * SLOT"
  shows "tot \<le> 2 ^ 40" and "tot + checksum_row_len tot PIECE_SHIFT base \<le> USIZE_MAX"
proof -
  have "(2 :: nat) ^ k * 3 \<le> 48 + n * 8"
  proof (cases "k = 4 \<or> k = 0")
    case False
    then have "3 * 2 ^ (k - 1) < n * 4" using k by simp
    moreover have "(2 :: nat) ^ k = 2 * 2 ^ (k - 1)" using False by (cases k) simp_all
    ultimately show ?thesis by simp
  qed auto
  then show t: "tot \<le> 2 ^ 40" using assms unfolding tot by (simp add: MAX_RECS_def U32_MAX_def HEADER_def SLOT_def)
  have "base mod 2 ^ 14 < (2 :: nat) ^ 14" by simp
  then have "base mod 2 ^ 14 + tot + 2 ^ 14 - 1 \<le> tot + 2 ^ 15" by simp
  moreover have "piece_count tot 14 base \<le> base mod 2 ^ 14 + tot + 2 ^ 14 - 1" unfolding piece_count_def div_ceil_def by (rule div_le_dividend)
  ultimately have "piece_count tot 14 base \<le> tot + 2 ^ 15" by (rule order_trans [rotated])
  then show "tot + checksum_row_len tot PIECE_SHIFT base \<le> USIZE_MAX" using t by (simp add: checksum_row_len_def PIECE_SHIFT_def USIZE_MAX_def)
qed

lemma section_verdict:
  assumes "176 \<le> length sec" and "length sec + checksum_row_len (length sec) PIECE_SHIFT base \<le> USIZE_MAX" and "with_checksums sec base = Some out"
  shows "length out = length sec + checksum_row_len (length sec) PIECE_SHIFT base" and "verify_pieces out (length sec) PIECE_SHIFT base = Ok ()"
  using section_row [OF assms(1,2)] assms(3) by auto

lemma fence_in_range:
  assumes "0 < S" and "i < div_ceil n S"
  shows "i * S < n"
proof -
  have "Suc i \<le> (n + S - 1) div S" using assms(2) by (simp add: div_ceil_def)
  then have "Suc i * S \<le> n + S - 1" using assms(1) by (metis le_trans mult_le_mono1 div_times_less_eq_dividend)
  then show ?thesis using assms(1) by simp
qed

lemma section_built:
  fixes each :: "nat \<Rightarrow> 's \<Rightarrow> ((u32 \<times> u64) \<times> 's) option"
  assumes target: "0 < target" and recs: "length (recs_bytes compact es) \<le> MAX_RECS"
    and each: "\<And>i st. i < length es \<Longrightarrow> \<exists>st'. each i st = Some ((word_of_nat (rec_start compact es i), key_hash (fst (es ! i))), st')"
  obtains h t tot st' sec ix where
    "stream_trailer target (length es) (length (recs_bytes compact es)) (\<lambda>i. fst (es ! i)) each st gen lookahead = Some (Some ((h, t, tot), st'))"
    and "length h = HEADER" and "HEADER + length (recs_bytes compact es) + length t = tot"
    and "with_checksums (h @ recs_bytes compact es @ t) base = Some sec" and "flat_parse sec = Some ix" and "holds_entries ix sec compact es key_hash"
    and "fi_crc_off ix = tot" and "fi_piece_shift ix = PIECE_SHIFT" and "fi_generation ix = gen" and "verify_pieces sec tot PIECE_SHIFT base = Ok ()"
proof -
  let ?n = "length es" and ?recs = "recs_bytes compact es" and ?off = "\<lambda>i. word_of_nat (rec_start compact es i) :: u32"
  let ?rl = "length ?recs" and ?dw = "concat (map (\<lambda>i. u32_le (?off i)) [0..<?n])"
  have n4: "?n * 4 + length (concat (map fst es)) \<le> ?rl" by (rule recs_ge)
  have n62: "?n < 2 ^ 62" using n4 recs by (simp add: MAX_RECS_def U32_MAX_def)
  obtain k s p1 fence p2 p3 slots st' where T: "?n < 2 ^ k" "k = 4 \<or> 3 * 2 ^ (k - 1) < ?n * 4" "s \<le> 62" "length p1 < 4" "length p2 < 4" "length p3 < 8"
      "fence = (if 0 < div_ceil ?n (2 ^ s) then concat (map u32_le (fence_offs (\<lambda>i. fst (es ! i)) (2 ^ s) (div_ceil ?n (2 ^ s)))) @
        fence_blob (\<lambda>i. fst (es ! i)) (2 ^ s) (div_ceil ?n (2 ^ s)) else [])"
      "hash_table k slots (map (\<lambda>i. (key_hash (fst (es ! i)), ?off i)) [0..<?n])"
      "stream_trailer target ?n ?rl (\<lambda>i. fst (es ! i)) each st gen lookahead =
        Some (Some ((header_bytes (section_words gen ?n (2 ^ k) (HEADER + ?rl + length p1 + length fence + length p2 + ?n * 4 + length p3)
            (HEADER + ?rl + length p1 + length fence + length p2) ?rl (HEADER + ?rl + length p1) (div_ceil ?n (2 ^ s)) (2 ^ s)),
          p1 @ fence @ p2 @ ?dw @ p3 @ slots,
          HEADER + ?rl + length p1 + length fence + length p2 + ?n * 4 + length p3 + 2 ^ k * SLOT), st'))"
    by (rule stream_trailer_eq [OF target n62 recs each, where kat = "\<lambda>i. fst (es ! i)" and st = st and gen = gen and lookahead = lookahead,
        folded section_words_def])
  define d where "d = HEADER + ?rl + length p1 + length fence + length p2"
  define ho where "ho = d + ?n * 4 + length p3"
  define tot where "tot = ho + 2 ^ k * SLOT"
  define ws where "ws = section_words gen ?n (2 ^ k) ho d ?rl (HEADER + ?rl + length p1) (div_ceil ?n (2 ^ s)) (2 ^ s)"
  define t where "t = p1 @ fence @ p2 @ ?dw @ p3 @ slots"
  have ls: "length slots = 2 ^ k * SLOT" using T(8) by (simp add: hash_table_def SLOT_def)
  have ld: "length ?dw = ?n * 4" by (simp add: length_concat_const [of _ 4])
  have lh: "length (header_bytes xs) = HEADER" if "length xs \<le> 23" for xs using that by (rule length_header_bytes)
  have lt: "HEADER + ?rl + length t = tot" by (simp add: t_def ls ld tot_def ho_def d_def)
  have fn: "div_ceil ?n (2 ^ s) \<le> ?n" by (rule div_ceil_le) simp
  have fl: "length fence \<le> (?n + 1) * 4 + ?rl"
  proof -
    have "length (fence_blob (\<lambda>i. map fst es ! i) (2 ^ s) (div_ceil ?n (2 ^ s))) \<le> length (concat (map fst es))"
      by (rule fence_blob_length) simp_all
    moreover have "fence_blob (\<lambda>i. map fst es ! i) (2 ^ s) (div_ceil ?n (2 ^ s)) = fence_blob (\<lambda>i. fst (es ! i)) (2 ^ s) (div_ceil ?n (2 ^ s))"
    proof -
      have "i * 2 ^ s < ?n" if "i < div_ceil ?n (2 ^ s)" for i by (rule fence_in_range) (use that in simp_all)
      then show ?thesis unfolding fence_blob_def by (intro arg_cong [of _ _ concat] map_cong) simp_all
    qed
    ultimately show ?thesis using n4 fn T(7) by simp
  qed
  have bound: "tot \<le> 2 ^ 40" "tot + checksum_row_len tot PIECE_SHIFT base \<le> USIZE_MAX"
    by (rule section_bound [where rl = ?rl and n = ?n and k = k and fl = "length fence" and pl = "length p1 + length p2 + length p3"];
        use recs n4 T(2,4-6) fl in \<open>simp add: tot_def ho_def d_def\<close>)+
  have st9: "stream_trailer target ?n ?rl (\<lambda>i. fst (es ! i)) each st gen lookahead = Some (Some ((header_bytes ws, t, tot), st'))"
    using T(9) unfolding ws_def t_def tot_def ho_def d_def .
  have lw: "length ws = 19" by (simp add: ws_def)
  define c where "c = header_bytes (ws @ [word_of_nat tot, word_of_nat PIECE_SHIFT]) @ ?recs @ t"
  have lc: "length c = tot" "length (header_bytes ws @ ?recs @ t) = tot" using lt lh lw by (simp_all add: c_def)
  define row where "row = row_bytes c (pieces tot PIECE_SHIFT base)"
  have wc: "with_checksums (header_bytes ws @ ?recs @ t) base = Some (c @ row)"
    unfolding with_checksums_def Let_def lc(2) set_header_words [OF lw] bind.bind_lunit c_def [symmetric] checksum_row_eq lc(1) row_def by simp
  have "176 \<le> length (header_bytes ws @ ?recs @ t)" using lh [of ws] lw by (simp add: HEADER_def)
  then have V: "length (c @ row) = tot + checksum_row_len tot PIECE_SHIFT base" "verify_pieces (c @ row) tot PIECE_SHIFT base = Ok ()"
    using section_verdict [OF _ _ wc] bound(2) unfolding lc(2) by blast+
  obtain ix where ix: "flat_parse (c @ row) = Some ix" "fi_hash ix = (ho, ho + 2 ^ k * SLOT)" "fi_dir ix = (d, d + ?n * 4)"
      "fi_recs ix = (HEADER, HEADER + ?rl)" "fi_hash_cap ix = 2 ^ k" "fi_mask ix = 2 ^ k - 1" "fi_nkeys ix = ?n"
      "fi_crc_off ix = tot" "fi_piece_shift ix = PIECE_SHIFT" "fi_generation ix = gen"
  proof (rule flat_parse_built)
    show "c @ row = header_bytes (section_words gen ?n (2 ^ k) ho d ?rl (HEADER + ?rl + length p1) (div_ceil ?n (2 ^ s)) (2 ^ s) @
        [word_of_nat tot, word_of_nat PIECE_SHIFT]) @ (?recs @ t @ row)" by (simp add: c_def ws_def)
    have "(2 :: nat) ^ s \<le> 2 ^ 62" using T(3) by (rule power_increasing) simp
    then show "2 ^ s \<le> USIZE_MAX" by (simp add: USIZE_MAX_def)
    show "div_ceil ?n (2 ^ s) \<le> USIZE_MAX" "HEADER + ?rl + length p1 \<le> USIZE_MAX" using fn n62 lt bound(1) by (simp_all add: USIZE_MAX_def t_def)
  qed (use T(1) V(1) bound(2) in \<open>auto simp: tot_def ho_def d_def lc(1)\<close>)
  have reg: "hash_region ix (c @ row) = Some slots" "recs_region ix (c @ row) = Some ?recs" "dir_region ix (c @ row) = Some ?dw"
  proof -
    let ?hb = "header_bytes (ws @ [word_of_nat tot, word_of_nat PIECE_SHIFT])"
    have lhb: "length ?hb = HEADER" using lh lw by simp
    have "c @ row = (?hb @ ?recs @ p1 @ fence @ p2 @ ?dw @ p3) @ slots @ row" "c @ row = ?hb @ ?recs @ (t @ row)"
      "c @ row = (?hb @ ?recs @ p1 @ fence @ p2) @ ?dw @ (p3 @ slots @ row)" by (simp_all add: c_def t_def)
    then show "hash_region ix (c @ row) = Some slots" "recs_region ix (c @ row) = Some ?recs" "dir_region ix (c @ row) = Some ?dw"
      unfolding hash_region_def recs_region_def dir_region_def ix(2-4) fst_conv snd_conv
      by (metis (no_types, lifting) slice_mid ls ld lhb length_append d_def ho_def add.assoc)+
  qed
  have "holds_entries ix (c @ row) compact es key_hash"
    unfolding holds_entries_def using reg T(1,8) ix(4-7) by (intro exI [of _ k] exI [of _ slots]) (simp add: HEADER_def)
  then show ?thesis using that [OF st9 _ lt wc ix(1) _ ix(8-10) V(2)] lh [of ws] lw by simp
qed

subsection \<open>Properties\<close>

text \<open>
  C6: A key section answers for exactly the keys written into it. Records streamed
  in key order, the trailer behind them and the row over both make a section that
  parses and verifies, whatever else the closure that answers for the keys does:
  every key is found through its hash and at its rank with its extents and its inline
  bytes, no other key is found, and the ranks are the order of the keys.
\<close>

theorem section_reads:
  fixes each :: "nat \<Rightarrow> 's \<Rightarrow> ((u32 \<times> u64) \<times> 's) option"
  assumes ok: "\<forall>e \<in> set es. entry_ok compact e" and s: "sorted_wrt (<) (map fst es)" and recs: "length (recs_bytes compact es) \<le> MAX_RECS"
    and target: "0 < target" and al: "addr mod 4 = 0"
    and each: "\<And>i st. i < length es \<Longrightarrow> \<exists>st'. each i st = Some ((word_of_nat (rec_start compact es i), key_hash (fst (es ! i))), st')"
  shows "\<exists>h t tot st' sec ix.
    stream_trailer target (length es) (length (recs_bytes compact es)) (\<lambda>i. fst (es ! i)) each st gen lookahead = Some (Some ((h, t, tot), st')) \<and>
    with_checksums (h @ recs_bytes compact es @ t) base = Some sec \<and> flat_parse sec = Some ix \<and>
    verify_pieces sec (fi_crc_off ix) (fi_piece_shift ix) base = Ok () \<and> reads_keys ix sec (map fst es) \<and>
    (\<forall>i < length es. lookup_full ix addr sec (fst (es ! i)) key_hash = Some (entry_exts compact (es ! i), snd (snd (es ! i))) \<and>
      at_full ix addr sec i = Some (fst (es ! i), entry_exts compact (es ! i), snd (snd (es ! i)))) \<and>
    (\<forall>key. key \<notin> fst ` set es \<longrightarrow> lookup_full ix addr sec key key_hash = None)"
proof -
  obtain h t tot st' sec ix where b:
      "stream_trailer target (length es) (length (recs_bytes compact es)) (\<lambda>i. fst (es ! i)) each st gen lookahead = Some (Some ((h, t, tot), st'))"
      "with_checksums (h @ recs_bytes compact es @ t) base = Some sec" "flat_parse sec = Some ix" "holds_entries ix sec compact es key_hash"
      "fi_crc_off ix = tot" "fi_piece_shift ix = PIECE_SHIFT" "verify_pieces sec tot PIECE_SHIFT base = Ok ()"
    by (rule section_built [OF target recs each, where st = st and gen = gen and lookahead = lookahead and base = base])
  note r = held_reads [OF b(4) ok s recs al]
  show ?thesis
    by (rule exI [of _ h], rule exI [of _ t], rule exI [of _ tot], rule exI [of _ st'], rule exI [of _ sec], rule exI [of _ ix])
      (use b r in \<open>simp add: b(5,6)\<close>)
qed

text \<open>Two keys: one with its extent in a block and a full record, one with a short inline run and the compact header.\<close>

definition block_ext :: ext where "block_ext = \<lparr>e_block = 3, e_off = 5, e_len = 6, e_last = 0, e_count = 1\<rparr>"

definition mixed_entries :: "entry list" where
  "mixed_entries = [([65], [block_ext], []), ([66], [two_run], [1, 2, 3, 4])]"

lemma block_ext_full: "\<not> compacts [block_ext]" "inline_end [block_ext] = 0"
  by (simp_all add: compacts_def inline_end_def is_inline_def INLINE_def block_ext_def)

lemma mixed_entries_ok: "\<forall>e \<in> set mixed_entries. entry_ok True e"
  using two_run_ok by (simp add: entry_ok_def mixed_entries_def U16_MAX_def record_ok_def [of "[block_ext]"] block_ext_full)

lemma mixed_entries_recs: "length (recs_bytes True mixed_entries) = 44" and mixed_entries_sorted: "sorted_wrt (<) (map fst mixed_entries)"
  by (simp_all add: mixed_entries_def recs_bytes_def entry_bytes_def length_record_bytes two_run_compacts block_ext_full
      record_len_tail_def record_len_compact_def record_len_def align_up_def REC_ALIGN_def EXT_BYTES_def)

theorem section_reads_witness:
  "\<exists>h t tot st' sec ix.
    stream_trailer 16384 (length mixed_entries) (length (recs_bytes True mixed_entries)) (\<lambda>i. fst (mixed_entries ! i))
      (\<lambda>i st. Some ((word_of_nat (rec_start True mixed_entries i), key_hash (fst (mixed_entries ! i))), st + 1)) (0 :: nat) 7 True = Some (Some ((h, t, tot), st')) \<and>
    with_checksums (h @ recs_bytes True mixed_entries @ t) 4096 = Some sec \<and> flat_parse sec = Some ix \<and>
    verify_pieces sec (fi_crc_off ix) (fi_piece_shift ix) 4096 = Ok () \<and> reads_keys ix sec (map fst mixed_entries) \<and>
    (\<forall>i < length mixed_entries. lookup_full ix 8 sec (fst (mixed_entries ! i)) key_hash = Some (entry_exts True (mixed_entries ! i), snd (snd (mixed_entries ! i))) \<and>
      at_full ix 8 sec i = Some (fst (mixed_entries ! i), entry_exts True (mixed_entries ! i), snd (snd (mixed_entries ! i)))) \<and>
    (\<forall>key. key \<notin> fst ` set mixed_entries \<longrightarrow> lookup_full ix 8 sec key key_hash = None)"
  by (rule section_reads [OF mixed_entries_ok mixed_entries_sorted]) (simp_all add: mixed_entries_recs MAX_RECS_def U32_MAX_def)

lemma ranges_apart: "\<not> (a < d \<and> c < b \<and> c \<noteq> d) \<Longrightarrow> {a..<b} \<inter> {c..<d} = {}" for a b c d :: nat
  by auto

lemma overlap_apart: "\<not> overlap r s \<Longrightarrow> {fst r..<snd r} \<inter> {fst s..<snd s} = {}"
  by (cases "fst r = snd r") (auto simp: overlap_def intro!: ranges_apart)

text \<open>
  C22: A section that parses is one whose reads stay inside it: the hash capacity is a
  power of two whose slots the hash region holds exactly, the live directory holds a
  word for every key, and the regions lie past the header, inside the section and
  apart. A fence, when there is one, has an entry for every stride of keys, lies past
  the header and inside the section, and shares no byte with the hash table, the
  directory or the records. The row, when there is one, begins past the header and
  no later than the section ends; the parse asks nothing more of it.
\<close>

theorem flat_parse_safe:
  assumes "flat_parse sec = Some ix"
  shows "(\<exists>k. fi_hash_cap ix = 2 ^ k) \<and> fi_mask ix = fi_hash_cap ix - 1 \<and> snd (fi_hash ix) = fst (fi_hash ix) + fi_hash_cap ix * SLOT \<and>
    fi_nkeys ix \<le> fi_hash_cap ix \<and> fst (fi_dir ix) + fi_nkeys ix * 4 \<le> snd (fi_dir ix) \<and>
    fi_recs ix = (fi_recs_off ix, fi_recs_off ix + fi_recs_cap ix) \<and> fi_bump ix \<le> fi_recs_cap ix \<and>
    (\<forall>r \<in> {fi_hash ix, fi_dir ix, fi_recs ix}. HEADER \<le> fst r \<and> fst r \<le> snd r \<and> snd r \<le> length sec) \<and>
    {fst (fi_hash ix)..<snd (fi_hash ix)} \<inter> {fst (fi_dir ix)..<snd (fi_dir ix)} = {} \<and>
    {fst (fi_hash ix)..<snd (fi_hash ix)} \<inter> {fst (fi_recs ix)..<snd (fi_recs ix)} = {} \<and>
    {fst (fi_dir ix)..<snd (fi_dir ix)} \<inter> {fst (fi_recs ix)..<snd (fi_recs ix)} = {} \<and>
    (fi_fence_n ix = 0 \<or> 0 < fi_fence_stride ix \<and> fi_fence_n ix = div_ceil (fi_nkeys ix) (fi_fence_stride ix) \<and>
      snd (fi_fence_offs ix) = fst (fi_fence_offs ix) + (fi_fence_n ix + 1) * 4 \<and> snd (fi_fence_offs ix) = fst (fi_fence_blob ix) \<and>
      HEADER \<le> fst (fi_fence_offs ix) \<and> fst (fi_fence_blob ix) \<le> snd (fi_fence_blob ix) \<and> snd (fi_fence_blob ix) \<le> length sec \<and>
      (\<forall>r \<in> {fi_hash ix, fi_dir ix, fi_recs ix}. {fst (fi_fence_offs ix)..<snd (fi_fence_blob ix)} \<inter> {fst r..<snd r} = {})) \<and>
    (fi_crc_off ix = 0 \<or> HEADER \<le> fi_crc_off ix \<and> fi_crc_off ix \<le> length sec)"
proof -
  obtain n0 ho st f fn s where p: "fi_dir_base ix \<le> USIZE_MAX"
      "section_regions (length sec) n0 (fi_hash_cap ix) ho (fi_dir_base ix) (fi_recs_off ix) (fi_recs_cap ix) (fi_dir_cap ix) st =
        Some (fi_nkeys ix, fi_hash ix, fi_dir ix, fi_recs ix)"
      "fi_mask ix = fi_hash_cap ix - 1" "fi_bump ix \<le> fi_recs_cap ix"
      "(case parse_fence sec (fi_nkeys ix) f fn s [fi_hash ix, fi_dir ix, fi_recs ix] of Some f \<Rightarrow> f | None \<Rightarrow> ((0, 0), (0, 0), 0, 0)) =
        (fi_fence_offs ix, fi_fence_blob ix, fi_fence_n ix, fi_fence_stride ix)"
      "row_place sec = Some (fi_crc_off ix, fi_piece_shift ix)"
    by (rule flat_parse_parts [OF assms])
  note r = section_regions_Some [OF p(2,1)]
  have fence: "fi_fence_n ix = 0 \<or> parse_fence sec (fi_nkeys ix) f fn s [fi_hash ix, fi_dir ix, fi_recs ix] =
      Some (fi_fence_offs ix, fi_fence_blob ix, fi_fence_n ix, fi_fence_stride ix)"
    using p(5) by (auto split: option.splits)
  have crc: "fi_crc_off ix = 0 \<or> HEADER \<le> fi_crc_off ix \<and> fi_crc_off ix \<le> length sec"
    using p(6) by (auto simp: row_place_def split: option.splits if_splits)
  have F: "fi_fence_n ix = 0 \<or> 0 < fi_fence_stride ix \<and> fi_fence_n ix = div_ceil (fi_nkeys ix) (fi_fence_stride ix) \<and>
      snd (fi_fence_offs ix) = fst (fi_fence_offs ix) + (fi_fence_n ix + 1) * 4 \<and> snd (fi_fence_offs ix) = fst (fi_fence_blob ix) \<and>
      HEADER \<le> fst (fi_fence_offs ix) \<and> fst (fi_fence_blob ix) \<le> snd (fi_fence_blob ix) \<and> snd (fi_fence_blob ix) \<le> length sec \<and>
      (\<forall>r \<in> {fi_hash ix, fi_dir ix, fi_recs ix}. {fst (fi_fence_offs ix)..<snd (fi_fence_blob ix)} \<inter> {fst r..<snd r} = {})"
  proof (cases "fi_fence_n ix = 0")
    case False
    then have "parse_fence sec (fi_nkeys ix) f fn s [fi_hash ix, fi_dir ix, fi_recs ix] =
        Some (fi_fence_offs ix, fi_fence_blob ix, fi_fence_n ix, fi_fence_stride ix)" using fence by simp
    note i = parse_fence_inside [OF this]
    have "{fst (fi_fence_offs ix)..<snd (fi_fence_blob ix)} \<inter> {fst r..<snd r} = {}" if "r \<in> {fi_hash ix, fi_dir ix, fi_recs ix}" for r
    proof (rule ranges_apart)
      have "r \<in> set [fi_hash ix, fi_dir ix, fi_recs ix]" using that by simp
      then show "\<not> (fst (fi_fence_offs ix) < snd r \<and> fst r < snd (fi_fence_blob ix) \<and> fst r \<noteq> snd r)" using i by blast
    qed
    then show ?thesis using i unfolding inside_def by (intro disjI2 conjI ballI) blast+
  qed blast
  show ?thesis
  proof (intro conjI)
    show "\<forall>r \<in> {fi_hash ix, fi_dir ix, fi_recs ix}. HEADER \<le> fst r \<and> fst r \<le> snd r \<and> snd r \<le> length sec"
      using r unfolding inside_def by blast
    show "snd (fi_hash ix) = fst (fi_hash ix) + fi_hash_cap ix * SLOT" using r by (metis fst_conv snd_conv)
    show "{fst (fi_hash ix)..<snd (fi_hash ix)} \<inter> {fst (fi_dir ix)..<snd (fi_dir ix)} = {}"
      "{fst (fi_hash ix)..<snd (fi_hash ix)} \<inter> {fst (fi_recs ix)..<snd (fi_recs ix)} = {}"
      "{fst (fi_dir ix)..<snd (fi_dir ix)} \<inter> {fst (fi_recs ix)..<snd (fi_recs ix)} = {}"
      using r overlap_apart by blast+
  qed (use r p(3,4) crc F in blast)+
qed


theorem flat_parse_safe_witness:
  "\<exists>sec ix. flat_parse sec = Some ix \<and> (\<exists>k. fi_hash_cap ix = 2 ^ k) \<and> fst (fi_dir ix) + fi_nkeys ix * 4 \<le> snd (fi_dir ix)"
proof -
  obtain h t tot st' sec ix where "stream_trailer 1 (length mixed_entries) (length (recs_bytes True mixed_entries)) (\<lambda>i. fst (mixed_entries ! i))
      (\<lambda>i st. Some ((word_of_nat (rec_start True mixed_entries i), key_hash (fst (mixed_entries ! i))), st)) () 7 True = Some (Some ((h, t, tot), st'))"
    "flat_parse sec = Some ix"
    by (rule section_built [of 1 True mixed_entries "\<lambda>i st. Some ((word_of_nat (rec_start True mixed_entries i), key_hash (fst (mixed_entries ! i))), st)" "()" 7 True 0])
      (simp_all add: mixed_entries_recs MAX_RECS_def U32_MAX_def)
  then show ?thesis using flat_parse_safe [of sec ix] by blast
qed

end
