(* ===== verification/Reserve.thy ===== *)
theory Reserve
  imports Block_Store Flat_Section
begin

text \<open>
  What a segment's head reserve needs (reserve.rs), the layout of a key section that the
  size rests on (flatindex.rs \<open>section_layout\<close>), and where the writer's finish puts the
  copies it keeps in the reserve (db.rs): the planner's sums in closed form, the copies a
  reserve of its size holds, and the bound from totals. Sums the source leaves unchecked are of counts and
  lengths a 64-bit usize holds.
\<close>

subsection \<open>Where a section's regions land\<close>

definition SLACK_NUM :: nat where "SLACK_NUM = 1"
definition SLACK_DEN :: nat where "SLACK_DEN = 2"

record section_layout =
  ly_hash_cap :: nat
  ly_dir_cap :: nat
  ly_fence_offs_off :: nat
  ly_fence_blob_off :: nat
  ly_recs_off :: nat
  ly_recs_cap :: nat
  ly_total :: nat

definition lay_section :: "nat \<Rightarrow> nat \<Rightarrow> nat \<Rightarrow> nat \<Rightarrow> nat \<Rightarrow> bool \<Rightarrow> section_layout option" where
  "lay_section keys reclen fence_n fence_blob_len insert_slack record_slack =
    (if MAX_RECS < reclen then None
     else do { cap \<leftarrow> hash_cap_for keys;
               let slack = (if record_slack then reclen * SLACK_NUM div SLACK_DEN else 0);
               recs_cap \<leftarrow> checked_add reclen slack;
               if MAX_RECS < recs_cap then None
               else do { dir_cap \<leftarrow> (if insert_slack = 0 then Some 0 else checked_add keys insert_slack);
                         dir_bytes \<leftarrow> (if dir_cap = 0 then Some (keys * 4) else checked_mul dir_cap 8);
                         let fence_offs_off = HEADER + cap * SLOT + dir_bytes;
                         let fence_offs_len = (if fence_n = 0 then 0 else (fence_n + 1) * 4);
                         let fence_blob_off = fence_offs_off + fence_offs_len;
                         let recs_off = align_up (fence_blob_off + fence_blob_len) REC_ALIGN;
                         Some \<lparr>ly_hash_cap = cap, ly_dir_cap = dir_cap, ly_fence_offs_off = fence_offs_off,
                               ly_fence_blob_off = fence_blob_off, ly_recs_off = recs_off, ly_recs_cap = recs_cap,
                               ly_total = recs_off + recs_cap\<rparr> } })"

subsection \<open>Runs and blocks by their lengths\<close>

function uvarint_len :: "nat \<Rightarrow> nat" where
  "uvarint_len v = (if 0x80 \<le> v then Suc (uvarint_len (v div 128)) else 1)"
  by auto
termination
  by (relation "measure id") auto

declare uvarint_len.simps [simp del]

definition run_len :: "nat list \<Rightarrow> nat" where
  "run_len lens =
    (let n = length lens
     in if n > 0 \<and> lens ! 0 > 0 \<and> (\<forall>l \<in> set lens. l = lens ! 0) then n * lens ! 0
        else sum_list (map (\<lambda>l. uvarint_len l + l) lens))"

text \<open>One run through the cut: how many blocks closed, and what is still staged.\<close>

definition cut_run :: "nat \<Rightarrow> nat \<Rightarrow> nat \<Rightarrow> (nat \<times> nat) option" where
  "cut_run held n block_size =
    do { (closed, held) \<leftarrow> (if held \<noteq> 0
                              then do { room \<leftarrow> usub block_size held; Some (if room < n then (1, 0) else (0, held)) }
                              else Some (0, held));
         let held = saturating_add held n;
         Some (if block_size \<le> held then (closed + 1, 0) else (closed, held)) }"

fun cut_runs :: "nat \<Rightarrow> nat \<Rightarrow> nat list \<Rightarrow> nat \<Rightarrow> (nat \<times> nat) option" where
  "cut_runs block_size held [] blocks = Some (blocks, held)"
| "cut_runs block_size held (n # ns) blocks =
    do { (closed, held) \<leftarrow> cut_run held n block_size; cut_runs block_size held ns (blocks + closed) }"

definition blocks_for :: "nat list \<Rightarrow> nat \<Rightarrow> nat option" where
  "blocks_for runs block_size =
    do { (blocks, held) \<leftarrow> cut_runs block_size 0 runs 0; Some (if held \<noteq> 0 then blocks + 1 else blocks) }"

definition MAX_RUN :: nat where "MAX_RUN = U32_MAX - 8"
definition COMPACT_RECORDS :: bool where "COMPACT_RECORDS = True"

subsection \<open>The planner\<close>

record planner =
  pl_block_size :: nat
  pl_inline_max :: nat
  pl_keys :: nat
  pl_rec_bytes :: nat
  pl_staged :: nat
  pl_blocks :: nat
  pl_sampled :: "nat list"
  pl_sample_stride :: nat
  pl_viable :: bool
  pl_compact :: bool

definition planner_new :: "nat \<Rightarrow> nat \<Rightarrow> nat \<Rightarrow> planner option" where
  "planner_new target block_size inline_max =
    do { stride \<leftarrow> fence_stride target 0;
         Some \<lparr>pl_block_size = block_size, pl_inline_max = inline_max, pl_keys = 0, pl_rec_bytes = 0, pl_staged = 0,
               pl_blocks = 0, pl_sampled = [], pl_sample_stride = stride, pl_viable = True, pl_compact = COMPACT_RECORDS\<rparr> }"

definition compact_records :: "planner \<Rightarrow> bool \<Rightarrow> planner" where
  "compact_records p on = p\<lparr>pl_compact := on\<rparr>"

definition planner_push :: "planner \<Rightarrow> nat \<Rightarrow> nat \<Rightarrow> planner option" where
  "planner_push p key_len run =
    (if U16_MAX < key_len \<or> MAX_RUN < run then Some (p\<lparr>pl_viable := False\<rparr>)
     else let p = (if pl_keys p mod pl_sample_stride p = 0 then p\<lparr>pl_sampled := pl_sampled p @ [key_len]\<rparr> else p);
              inline = (0 < pl_inline_max p \<and> run \<le> pl_inline_max p)
          in case checked_add (pl_rec_bytes p) (segment_record_len key_len run inline (pl_compact p)) of
               None \<Rightarrow> Some (p\<lparr>pl_viable := False\<rparr>)
             | Some n \<Rightarrow>
                 do { let p = p\<lparr>pl_rec_bytes := n\<rparr>;
                      p \<leftarrow> (if inline then Some p
                           else do { (closed, held) \<leftarrow> cut_run (pl_staged p) run (pl_block_size p);
                                     Some (p\<lparr>pl_blocks := pl_blocks p + closed, pl_staged := held\<rparr>) });
                      Some (p\<lparr>pl_keys := pl_keys p + 1\<rparr>) })"

fun planner_pushes :: "planner \<Rightarrow> (nat \<times> nat) list \<Rightarrow> planner option" where
  "planner_pushes p [] = Some p"
| "planner_pushes p ((key_len, run) # ks) = do { p \<leftarrow> planner_push p key_len run; planner_pushes p ks }"

text \<open>The fence's key lengths summed off the samples; None is the refusal.\<close>

fun sum_sampled :: "nat list \<Rightarrow> nat \<Rightarrow> nat \<Rightarrow> nat list \<Rightarrow> nat \<Rightarrow> nat option" where
  "sum_sampled sampled stride sample_stride [] acc = Some acc"
| "sum_sampled sampled stride sample_stride (i # is) acc =
    do { l \<leftarrow> index sampled (i * stride div sample_stride);
         acc \<leftarrow> checked_add acc l;
         sum_sampled sampled stride sample_stride is acc }"

record reserve =
  rv_table :: nat
  rv_row :: nat
  rv_fence :: nat
  rv_directory :: nat

text \<open>None outside is a panic, Some None the refusal.\<close>

definition planner_finish :: "nat \<Rightarrow> planner \<Rightarrow> reserve option option" where
  "planner_finish target p =
    (if \<not> pl_viable p then Some None
     else do { stride \<leftarrow> fence_stride target (pl_keys p);
               let fence_n = div_ceil (pl_keys p) stride;
               case sum_sampled (pl_sampled p) stride (pl_sample_stride p) [0..<fence_n] 0 of
                 None \<Rightarrow> Some None
               | Some fence_blob_len \<Rightarrow>
                   (case lay_section (pl_keys p) (pl_rec_bytes p) fence_n fence_blob_len 0 False of
                      None \<Rightarrow> Some None
                    | Some layout \<Rightarrow>
                        (let blocks = (if pl_staged p \<noteq> 0 then pl_blocks p + 1 else pl_blocks p)
                         in Some (Some \<lparr>rv_table = block_table_len blocks,
                                        rv_row = checksum_row_len (ly_total layout) PIECE_SHIFT (2 ^ PIECE_SHIFT - 1),
                                        rv_fence = (if fence_n = 0 then 0 else ly_recs_off layout - ly_fence_offs_off layout),
                                        rv_directory = pl_keys p * 4\<rparr>))) })"

definition for_lengths_as :: "nat \<Rightarrow> (nat \<times> nat) list \<Rightarrow> nat \<Rightarrow> nat \<Rightarrow> bool \<Rightarrow> reserve option option" where
  "for_lengths_as target keys block_size inline_max compact =
    do { p \<leftarrow> planner_new target block_size inline_max;
         p \<leftarrow> planner_pushes (compact_records p compact) keys;
         planner_finish target p }"

definition for_lengths :: "nat \<Rightarrow> (nat \<times> nat) list \<Rightarrow> nat \<Rightarrow> nat \<Rightarrow> reserve option option" where
  "for_lengths target keys block_size inline_max = for_lengths_as target keys block_size inline_max COMPACT_RECORDS"

subsection \<open>The size\<close>

definition align8 :: "nat \<Rightarrow> nat" where "align8 n = div_ceil n 8 * 8"

definition fits :: "nat \<Rightarrow> nat \<Rightarrow> nat \<Rightarrow> nat \<Rightarrow> nat" where
  "fits table row fence dir =
    (let at = align8 table; at = align8 (at + row); at = align8 (at + fence) in max (at + dir) (table + 8))"

definition reserve_bytes :: "reserve \<Rightarrow> nat" where
  "reserve_bytes r = fits (rv_table r) (rv_row r) (rv_fence r) (rv_directory r)"

definition without_directory :: "reserve \<Rightarrow> nat" where
  "without_directory r = fits (rv_table r) (rv_row r) (rv_fence r) 0"

text \<open>From totals alone; a block size of zero divides by zero where no run has a length.\<close>

definition from_totals :: "nat \<Rightarrow> nat \<Rightarrow> nat \<Rightarrow> nat \<Rightarrow> nat \<Rightarrow> nat \<Rightarrow> nat \<Rightarrow> reserve option option" where
  "from_totals target keys max_key_len max_run_len run_bytes block_size inline_max =
    (if keys = 0 then for_lengths target [] block_size inline_max
     else do { let per_key_run = min (max (div_ceil run_bytes keys) 1) max_run_len;
               p \<leftarrow> planner_new target block_size inline_max;
               p \<leftarrow> planner_pushes (compact_records p False) (replicate keys (max_key_len, per_key_run));
               need \<leftarrow> planner_finish target p;
               case need of
                 None \<Rightarrow> Some None
               | Some need \<Rightarrow>
                   do { let worst_blocks = (if block_size \<le> max_run_len then keys
                                            else min (div_ceil run_bytes (block_size - max_run_len)) keys);
                        even_blocks \<leftarrow> blocks_for (replicate keys per_key_run) block_size;
                        Some (Some (if even_blocks < worst_blocks then need\<lparr>rv_table := block_table_len worst_blocks\<rparr> else need)) } })"

subsection \<open>The copies in the reserve\<close>

definition SUPER :: nat where "SUPER = 4096"

record head_copies =
  hc_table :: "nat option"
  hc_row :: "nat option"
  hc_fence :: "nat option"
  hc_dir :: "nat option"

text \<open>One copy after the table: where it goes, when it has a length and fits, and where the next would.\<close>

definition place_copy :: "nat \<Rightarrow> nat \<Rightarrow> nat \<Rightarrow> nat option \<times> nat" where
  "place_copy end_at at len = (if 0 < len \<and> at + len \<le> end_at then (Some at, align8 (at + len)) else (None, at))"

text \<open>The table goes into the reserve when there is one and it fits with room to spare.\<close>

definition table_in_reserve :: "nat \<Rightarrow> nat \<Rightarrow> nat \<Rightarrow> bool" where
  "table_in_reserve reserve_off head_reserve table \<longleftrightarrow> reserve_off \<noteq> 0 \<and> table + 8 \<le> head_reserve"

definition place_head :: "nat \<Rightarrow> nat \<Rightarrow> nat \<Rightarrow> nat \<Rightarrow> nat \<Rightarrow> nat \<Rightarrow> head_copies" where
  "place_head reserve_off head_reserve table row fence dir =
    (if table_in_reserve reserve_off head_reserve table
     then let end_at = reserve_off + head_reserve;
              at = align8 (reserve_off + table);
              (row_copy, at) = place_copy end_at at row;
              (fence_copy, at) = place_copy end_at at fence;
              (dir_copy, at) = place_copy end_at at dir
          in \<lparr>hc_table = Some reserve_off, hc_row = row_copy, hc_fence = fence_copy, hc_dir = dir_copy\<rparr>
     else \<lparr>hc_table = None, hc_row = None, hc_fence = None, hc_dir = None\<rparr>)"

subsection \<open>The run's length\<close>

lemma uvarint_len_eq: "length (uvarint v) = uvarint_len (unat v)"
proof (induction v rule: uvarint_induct)
  case (step v)
  show ?case
  proof (cases "0x80 \<le> v")
    case True
    have "unat (drop_bit 7 v) = unat v div 128" by (simp add: drop_bit_eq_div unat_div)
    moreover have "128 \<le> unat v" using True by (simp add: word_le_nat_alt)
    ultimately show ?thesis using step True by (simp add: uvarint_rec [of v] uvarint_len.simps [of "unat v"])
  next
    case False
    then have "\<not> 128 \<le> unat v" by (simp add: word_le_nat_alt)
    then show ?thesis using False by (simp add: uvarint_rec [of v] uvarint_len.simps [of "unat v"])
  qed
qed

lemma length_prefixed: "length v < 2 ^ 32 \<Longrightarrow> length (prefixed v) = uvarint_len (length v) + length v"
  by (simp add: prefixed_def uvarint_len_eq unat_len64)

lemma run_len_encode:
  assumes "\<forall>v \<in> set vs. length v < 2 ^ 32" and "encode_run (concat vs) (lens_of vs) = Some (run, lst, flag)"
  shows "length run = run_len (map length vs)"
proof (cases "one_width vs")
  case True
  define w where "w = length (vs ! 0)"
  have ow: "vs \<noteq> []" "vs ! 0 \<noteq> []" "\<forall>v \<in> set vs. length v = w" using True unfolding one_width_def w_def by blast+
  have w: "0 < w" "map length vs ! 0 = w" using ow(1,2) by (simp_all add: w_def)
  have "length (concat vs) = length vs * w" using ow(3) by (intro length_concat_const)
  moreover have "run = concat vs" using True assms by (simp add: encode_run_cases)
  moreover have "\<forall>l \<in> set (map length vs). l = w" using ow(3) by auto
  ultimately show ?thesis using ow(1) w(1) unfolding run_len_def Let_def w(2) by simp
next
  case False
  then have "run = concat (map prefixed vs)" using assms by (simp add: encode_run_cases split: if_splits)
  moreover have "sum_list (map (length \<circ> prefixed) vs) = sum_list (map (\<lambda>v. uvarint_len (length v) + length v) vs)"
    using assms(1) by (intro arg_cong [of _ _ sum_list] map_cong) (simp_all add: length_prefixed)
  moreover have "\<not> (length (map length vs) > 0 \<and> map length vs ! 0 > 0 \<and> (\<forall>l \<in> set (map length vs). l = map length vs ! 0))"
  proof
    assume a: "length (map length vs) > 0 \<and> map length vs ! 0 > 0 \<and> (\<forall>l \<in> set (map length vs). l = map length vs ! 0)"
    then have ne: "vs \<noteq> []" by simp
    then have z: "map length vs ! 0 = length (vs ! 0)" by simp
    have "vs ! 0 \<noteq> []" using a unfolding z by simp
    moreover have "\<forall>v \<in> set vs. length v = length (vs ! 0)" using a unfolding z set_map ball_simps by blast
    ultimately show False using False ne unfolding one_width_def by blast
  qed
  ultimately show ?thesis unfolding run_len_def Let_def by (simp only: if_False) (simp add: length_concat comp_def)
qed

subsection \<open>What the planner adds up\<close>

definition inlined :: "nat \<Rightarrow> nat \<Rightarrow> bool" where
  "inlined im r \<longleftrightarrow> 0 < im \<and> r \<le> im"

definition rec_total :: "nat \<Rightarrow> bool \<Rightarrow> (nat \<times> nat) list \<Rightarrow> nat" where
  "rec_total im compact items = sum_list (map (\<lambda>(k, r). segment_record_len k r (inlined im r) compact) items)"

definition block_runs :: "nat \<Rightarrow> (nat \<times> nat) list \<Rightarrow> nat list" where
  "block_runs im items = filter (\<lambda>r. \<not> inlined im r) (map snd items)"

definition fence_total :: "(nat \<times> nat) list \<Rightarrow> nat \<Rightarrow> nat" where
  "fence_total items S = sum_list (map (\<lambda>i. fst (items ! (i * S))) [0..<div_ceil (length items) S])"

definition fence_len :: "(nat \<times> nat) list \<Rightarrow> nat \<Rightarrow> nat" where
  "fence_len items S = (if items = [] then 0 else align_up ((div_ceil (length items) S + 1) * 4 + fence_total items S) REC_ALIGN)"

definition small :: "(nat \<times> nat) \<Rightarrow> bool" where
  "small kr \<longleftrightarrow> fst kr \<le> U16_MAX \<and> snd kr \<le> MAX_RUN"

lemma cut_run_total: "n < bs \<or> n = 0 \<Longrightarrow> \<exists>c n'. cut_run n r bs = Some (c, n') \<and> (n' < bs \<or> n' = 0)"
  by (auto simp: cut_run_def Let_def)

lemma cut_runs_append: "cut_runs bs n (xs @ ys) b = do { (b, n) \<leftarrow> cut_runs bs n xs b; cut_runs bs n ys b }"
  by (induction xs arbitrary: n b) (auto split: Option.bind_split)

definition plan_inv :: "nat \<Rightarrow> nat \<Rightarrow> bool \<Rightarrow> (nat \<times> nat) list \<Rightarrow> planner \<Rightarrow> bool" where
  "plan_inv bs im compact items p \<longleftrightarrow> pl_block_size p = bs \<and> pl_inline_max p = im \<and> pl_keys p = length items
    \<and> pl_rec_bytes p = rec_total im compact items \<and> cut_runs bs 0 (block_runs im items) 0 = Some (pl_blocks p, pl_staged p)
    \<and> (pl_staged p < bs \<or> pl_staged p = 0) \<and> pl_sampled p = map (\<lambda>j. fst (items ! (j * 16))) [0..<div_ceil (length items) 16]
    \<and> pl_sample_stride p = 16 \<and> pl_viable p \<and> pl_compact p = compact"

lemma sampled_snoc:
  "map (\<lambda>j. fst ((items @ [x]) ! (j * 16))) [0..<div_ceil (Suc (length items)) 16] =
    map (\<lambda>j. fst (items ! (j * 16))) [0..<div_ceil (length items) 16] @ (if length items mod 16 = 0 then [fst x] else [])"
proof -
  let ?n = "length items"
  have lt: "j * 16 < ?n" if "j < div_ceil ?n 16" for j using that by (simp add: div_ceil_def)
  have old: "map (\<lambda>j. fst ((items @ [x]) ! (j * 16))) [0..<div_ceil ?n 16] = map (\<lambda>j. fst (items ! (j * 16))) [0..<div_ceil ?n 16]"
    using lt by (simp add: nth_append)
  show ?thesis
  proof (cases "?n mod 16 = 0")
    case True
    then obtain q where q: "?n = 16 * q" by (metis mod_0_imp_dvd dvd_def)
    then have "div_ceil ?n 16 = q" "div_ceil (Suc ?n) 16 = Suc q" by (simp_all add: div_ceil_def)
    then show ?thesis using old True q by (simp add: nth_append)
  next
    case False
    define q r where "q = ?n div 16" and "r = ?n mod 16"
    have r: "0 < r" "r < 16" "?n = r + q * 16" using False by (simp_all add: q_def r_def)
    have e: "Suc ?n + 16 - 1 = r + (q + 1) * 16" "?n + 16 - 1 = (r - 1) + (q + 1) * 16" using r by simp_all
    have d: "(x + (q + 1) * 16) div 16 = q + 1" if "x < 16" for x using that by (simp only: div_mult_self1)
    have "r - 1 < 16" using r(2) by simp
    then have "div_ceil (Suc ?n) 16 = div_ceil ?n 16" unfolding div_ceil_def e using d r(2) by metis
    then show ?thesis using old False by simp
  qed
qed

lemma push_plan:
  assumes p: "plan_inv bs im compact items p" and s: "small x" and t: "rec_total im compact (items @ [x]) \<le> USIZE_MAX"
  shows "\<exists>p'. planner_push p (fst x) (snd x) = Some p' \<and> plan_inv bs im compact (items @ [x]) p'"
proof -
  obtain k r where x: "x = (k, r)" by fastforce
  let ?p = "if pl_keys p mod pl_sample_stride p = 0 then p\<lparr>pl_sampled := pl_sampled p @ [k]\<rparr> else p"
  have i: "pl_block_size p = bs" "pl_inline_max p = im" "pl_keys p = length items" "pl_rec_bytes p = rec_total im compact items"
      "cut_runs bs 0 (block_runs im items) 0 = Some (pl_blocks p, pl_staged p)" "pl_staged p < bs \<or> pl_staged p = 0"
      "pl_sampled p = map (\<lambda>j. fst (items ! (j * 16))) [0..<div_ceil (length items) 16]" "pl_sample_stride p = 16" "pl_viable p" "pl_compact p = compact"
    using p by (simp_all add: plan_inv_def)
  have f: "pl_inline_max ?p = im" "pl_compact ?p = compact" "pl_rec_bytes ?p = rec_total im compact items" "pl_staged ?p = pl_staged p"
      "pl_blocks ?p = pl_blocks p" "pl_block_size ?p = bs" "pl_keys ?p = length items" "pl_sample_stride ?p = 16" "pl_viable ?p"
    using i by simp_all
  have sam: "pl_sampled ?p = map (\<lambda>j. fst ((items @ [x]) ! (j * 16))) [0..<div_ceil (Suc (length items)) 16]"
    unfolding sampled_snoc x using i by simp
  define m where "m = rec_total im compact (items @ [x])"
  have m: "m = rec_total im compact items + segment_record_len k r (inlined im r) compact" by (simp add: m_def rec_total_def x)
  have ca: "checked_add (pl_rec_bytes ?p) (segment_record_len k r (0 < pl_inline_max ?p \<and> r \<le> pl_inline_max ?p) (pl_compact ?p)) = Some m"
    using t unfolding f m_def [symmetric] by (simp add: checked_add_def m inlined_def)
  have ok: "\<not> (U16_MAX < k \<or> MAX_RUN < r)" using s x by (simp add: small_def not_less)
  have push: "planner_push p k r = do { p \<leftarrow> (if inlined im r then Some (?p\<lparr>pl_rec_bytes := m\<rparr>)
      else do { (closed, held) \<leftarrow> cut_run (pl_staged p) r bs;
                Some (?p\<lparr>pl_rec_bytes := m, pl_blocks := pl_blocks p + closed, pl_staged := held\<rparr>) });
      Some (p\<lparr>pl_keys := pl_keys p + 1\<rparr>) }"
    unfolding planner_push_def if_not_P [OF ok] Let_def ca option.case using f by (simp add: inlined_def)
  show ?thesis
  proof (cases "inlined im r")
    case True
    let ?q = "?p\<lparr>pl_rec_bytes := m, pl_keys := length items + 1\<rparr>"
    have "planner_push p k r = Some ?q" unfolding push using True f(7) by simp
    moreover have "block_runs im (items @ [x]) = block_runs im items" using True x by (simp add: block_runs_def)
    then have "plan_inv bs im compact (items @ [x]) ?q" unfolding plan_inv_def using i f sam by (simp add: m_def)
    ultimately show ?thesis using x by simp
  next
    case False
    obtain c n' where c: "cut_run (pl_staged p) r bs = Some (c, n')" "n' < bs \<or> n' = 0" using cut_run_total [OF i(6)] by blast
    let ?q = "?p\<lparr>pl_rec_bytes := m, pl_blocks := pl_blocks p + c, pl_staged := n', pl_keys := length items + 1\<rparr>"
    have "planner_push p k r = Some ?q" unfolding push using False f(7) c(1) by simp
    moreover have "block_runs im (items @ [x]) = block_runs im items @ [r]" using False x by (simp add: block_runs_def)
    then have "cut_runs bs 0 (block_runs im (items @ [x])) 0 = Some (pl_blocks p + c, n')" using i(5) c(1) by (simp add: cut_runs_append)
    then have "plan_inv bs im compact (items @ [x]) ?q" unfolding plan_inv_def using i(1,2,9,10) f sam c(2) by (simp add: m_def)
    ultimately show ?thesis using x by simp
  qed
qed

lemma rec_total_append: "rec_total im compact (xs @ ys) = rec_total im compact xs + rec_total im compact ys"
  by (simp add: rec_total_def)

lemma pushes_plan:
  "plan_inv bs im compact items p \<Longrightarrow> \<forall>x \<in> set xs. small x \<Longrightarrow> rec_total im compact (items @ xs) \<le> USIZE_MAX \<Longrightarrow>
    \<exists>p'. planner_pushes p xs = Some p' \<and> plan_inv bs im compact (items @ xs) p'"
proof (induction xs arbitrary: items p)
  case (Cons x xs)
  have "rec_total im compact (items @ [x]) \<le> USIZE_MAX" using Cons.prems(3) rec_total_append [of im compact "items @ [x]" xs] by simp
  then obtain p1 where p1: "planner_push p (fst x) (snd x) = Some p1" "plan_inv bs im compact (items @ [x]) p1"
    using push_plan [OF Cons.prems(1), of x] Cons.prems(2) by (metis list.set_intros(1))
  then show ?case using Cons.IH [OF p1(2)] Cons.prems(2,3) by (cases x) auto
qed simp

lemma bit_len_gt: "n < 2 ^ bit_len n"
proof (induction n rule: bit_len.induct)
  case (1 n)
  then show ?case by (subst bit_len.simps) auto
qed

lemma stride_zero: "0 < target \<Longrightarrow> fence_stride target 0 = Some 16"
  by (simp add: fence_stride_def div_ceil_def FENCE_MIN_STRIDE_def next_power_of_two_def Let_def USIZE_MAX_def bit_len.simps)

lemma stride_pow:
  assumes "0 < target" and "n < 2 ^ 62"
  obtains s where "fence_stride target n = Some (2 ^ s)" and "4 \<le> s"
proof -
  obtain s where s: "fence_stride target n = Some (2 ^ s)" using fence_stride_ok [OF assms] by blast
  let ?m = "max (div_ceil n target) FENCE_MIN_STRIDE - 1"
  have "2 ^ s = (2 :: nat) ^ bit_len ?m" using s assms(1) by (simp add: fence_stride_def next_power_of_two_def Let_def split: if_splits)
  then have "?m < 2 ^ s" using bit_len_gt [of ?m] by simp
  then have "15 < (2 :: nat) ^ s" by (simp add: FENCE_MIN_STRIDE_def)
  then have "\<not> s < 4"
  proof (rule contrapos_pn)
    assume "s < 4"
    then have "(2 :: nat) ^ s \<le> 2 ^ 3" by (intro power_increasing) simp_all
    then show "\<not> 15 < (2 :: nat) ^ s" by simp
  qed
  then show thesis using that s by simp
qed

lemma sum_sampled_eq:
  "\<forall>i \<in> set is. i * stride div ss < length sampled \<Longrightarrow> acc + sum_list (map (\<lambda>i. sampled ! (i * stride div ss)) is) \<le> USIZE_MAX \<Longrightarrow>
    sum_sampled sampled stride ss is acc = Some (acc + sum_list (map (\<lambda>i. sampled ! (i * stride div ss)) is))"
  by (induction "is" arbitrary: acc) (simp_all add: checked_add_def)

lemma segment_record_len_ge: "4 + k \<le> segment_record_len k r inl compact"
proof -
  have "4 + k \<le> align_up (4 + k) REC_ALIGN" by (rule align_up_ge)
  moreover have "x \<le> a \<Longrightarrow> x \<le> (if P then a + b + c else a + d + e)" for x a b c d e :: nat and P by simp
  ultimately show ?thesis unfolding segment_record_len_def record_len_compact_def record_len_tail_def record_len_def by blast
qed

lemma segment_record_len_mod: "segment_record_len k r inl compact mod 4 = 0"
  by (simp add: segment_record_len_def record_len_compact_def record_len_tail_def record_len_def EXT_BYTES_def mod_add_eq [symmetric] align_up_mod)

lemma rec_total_ge: "4 * length items \<le> rec_total im compact items"
proof (induction items)
  case (Cons x xs)
  obtain k r where x: "x = (k, r)" by fastforce
  show ?case using Cons segment_record_len_ge [of k r "inlined im r" compact] x by (simp add: rec_total_def)
qed (simp add: rec_total_def)

lemma rec_total_mod: "rec_total im compact items mod 4 = 0"
proof (induction items)
  case (Cons x xs)
  obtain k r where x: "x = (k, r)" by fastforce
  show ?case using Cons segment_record_len_mod [of k r "inlined im r" compact] x by (simp add: rec_total_def mod_add_eq [symmetric])
qed (simp add: rec_total_def)

definition section_len :: "nat \<Rightarrow> nat \<Rightarrow> nat \<Rightarrow> nat \<Rightarrow> nat" where
  "section_len n k fence recs = HEADER + 2 ^ k * SLOT + n * 4 + fence + recs"

lemma fence_index: "4 \<le> s \<Longrightarrow> i < div_ceil n (2 ^ s) \<Longrightarrow> i * 2 ^ s < n \<and> i * 2 ^ s div 16 < div_ceil n 16 \<and> i * 2 ^ s div 16 * 16 = i * 2 ^ s"
proof -
  assume s: "4 \<le> s" and i: "i < div_ceil n (2 ^ s)"
  have lt: "i * 2 ^ s < n" by (rule fence_in_range) (use i in simp_all)
  have "(2 :: nat) ^ s = 2 ^ (s - 4) * 16" using s power_add [of "2 :: nat" "s - 4" 4] by simp
  then have "i * 2 ^ s div 16 * 16 = i * 2 ^ s" by simp
  moreover from this have "i * 2 ^ s div 16 < div_ceil n 16" using lt unfolding div_ceil_def by linarith
  ultimately show ?thesis using lt by simp
qed

lemma fence_total_le:
  assumes "\<forall>x \<in> set items. small x" and "4 \<le> s"
  shows "fence_total items (2 ^ s) \<le> length items * U16_MAX"
proof -
  have "fst (items ! (i * 2 ^ s)) \<le> U16_MAX" if "i < div_ceil (length items) (2 ^ s)" for i
    using fence_index [OF assms(2) that] assms(1) by (simp add: small_def)
  then have "fence_total items (2 ^ s) \<le> sum_list (map (\<lambda>i. U16_MAX) [0..<div_ceil (length items) (2 ^ s)])"
    unfolding fence_total_def by (intro sum_list_mono) simp
  also have "\<dots> \<le> length items * U16_MAX" using div_ceil_le [of "2 ^ s" "length items"] by (simp add: sum_list_triv)
  finally show ?thesis .
qed

lemma for_lengths_eq:
  assumes target: "0 < target" and small: "\<forall>x \<in> set items. small x" and recs: "rec_total im compact items \<le> MAX_RECS"
  obtains s k nb where "fence_stride target (length items) = Some (2 ^ s)" and "4 \<le> s" and "hash_cap_for (length items) = Some (2 ^ k)"
    and "blocks_for (block_runs im items) bs = Some nb"
    and "for_lengths_as target items bs im compact = Some (Some
      \<lparr>rv_table = block_table_len nb,
       rv_row = checksum_row_len (section_len (length items) k (fence_len items (2 ^ s)) (rec_total im compact items)) PIECE_SHIFT (2 ^ PIECE_SHIFT - 1),
       rv_fence = fence_len items (2 ^ s), rv_directory = length items * 4\<rparr>)"
proof -
  let ?n = "length items" and ?t = "rec_total im compact items"
  have n: "?n < 2 ^ 62" using rec_total_ge [of items im compact] recs by (simp add: MAX_RECS_def U32_MAX_def)
  obtain s where s: "fence_stride target ?n = Some (2 ^ s)" "4 \<le> s" by (rule stride_pow [OF target n])
  obtain k where k: "hash_cap_for ?n = Some (2 ^ k)" by (rule hash_cap_pow [OF n]) blast
  let ?p0 = "\<lparr>pl_block_size = bs, pl_inline_max = im, pl_keys = 0, pl_rec_bytes = 0, pl_staged = 0, pl_blocks = 0, pl_sampled = [],
    pl_sample_stride = 16, pl_viable = True, pl_compact = compact\<rparr>"
  have p0: "plan_inv bs im compact [] ?p0" by (simp add: plan_inv_def rec_total_def block_runs_def div_ceil_def)
  have tu: "?t \<le> USIZE_MAX" using recs by (simp add: MAX_RECS_def U32_MAX_def USIZE_MAX_def)
  obtain p where p: "planner_pushes ?p0 items = Some p" "plan_inv bs im compact items p"
    using pushes_plan [OF p0 small] tu by auto
  have i: "pl_keys p = ?n" "pl_rec_bytes p = ?t" "cut_runs bs 0 (block_runs im items) 0 = Some (pl_blocks p, pl_staged p)"
      "pl_sampled p = map (\<lambda>j. fst (items ! (j * 16))) [0..<div_ceil ?n 16]" "pl_sample_stride p = 16" "pl_viable p"
    using p(2) by (simp_all add: plan_inv_def)
  let ?fn = "div_ceil ?n (2 ^ s)"
  have smp: "pl_sampled p ! (i * 2 ^ s div 16) = fst (items ! (i * 2 ^ s)) \<and> i * 2 ^ s div 16 < length (pl_sampled p)" if "i < ?fn" for i
    using fence_index [OF s(2) that] i(4) by simp
  have mp: "map (\<lambda>i. pl_sampled p ! (i * 2 ^ s div 16)) [0..<?fn] = map (\<lambda>i. fst (items ! (i * 2 ^ s))) [0..<?fn]"
    using smp by simp
  have "fence_total items (2 ^ s) \<le> USIZE_MAX"
    using fence_total_le [OF small s(2)] n rec_total_ge [of items im compact] recs by (simp add: MAX_RECS_def U32_MAX_def U16_MAX_def USIZE_MAX_def)
  then have sum: "sum_sampled (pl_sampled p) (2 ^ s) (pl_sample_stride p) [0..<?fn] 0 = Some (fence_total items (2 ^ s))"
    using sum_sampled_eq [of "[0..<?fn]" "2 ^ s" 16 "pl_sampled p" 0] smp unfolding i(5) mp by (simp add: fence_total_def)
  have n0: "?fn = 0 \<longleftrightarrow> items = []"
  proof (cases "items = []")
    case False
    then have "0 < ?n" by simp
    then have "2 ^ s \<le> ?n + 2 ^ s - 1" by linarith
    then have "0 < ?fn" unfolding div_ceil_def by (simp add: div_greater_zero_iff)
    then show ?thesis using False by simp
  qed (simp add: div_ceil_def)
  define a where "a = HEADER + 2 ^ k * SLOT + ?n * 4"
  define fl where "fl = (if ?fn = 0 then 0 else (?fn + 1) * 4)"
  have am: "a mod 4 = 0" by (simp add: a_def HEADER_def SLOT_def mod_add_eq [symmetric] mod_mult_right_eq [symmetric])
  have ro: "align_up (a + fl + fence_total items (2 ^ s)) REC_ALIGN = a + fence_len items (2 ^ s)"
  proof (cases "items = []")
    case True
    then show ?thesis using n0 align_up_add [OF am, of 0] by (simp add: fl_def fence_len_def fence_total_def div_ceil_def align_up_def REC_ALIGN_def)
  next
    case False
    then show ?thesis using n0 align_up_add [OF am, of "fl + fence_total items (2 ^ s)"] by (simp add: fl_def fence_len_def add.assoc)
  qed
  have lay: "lay_section ?n ?t ?fn (fence_total items (2 ^ s)) 0 False = Some \<lparr>ly_hash_cap = 2 ^ k, ly_dir_cap = 0, ly_fence_offs_off = a,
      ly_fence_blob_off = a + fl, ly_recs_off = a + fence_len items (2 ^ s), ly_recs_cap = ?t, ly_total = a + fence_len items (2 ^ s) + ?t\<rparr>"
    using recs tu k by (simp add: lay_section_def checked_add_def Let_def a_def [symmetric] fl_def [symmetric] ro)
  have "planner_finish target p = Some (Some
      \<lparr>rv_table = block_table_len (if pl_staged p \<noteq> 0 then pl_blocks p + 1 else pl_blocks p),
       rv_row = checksum_row_len (a + fence_len items (2 ^ s) + ?t) PIECE_SHIFT (2 ^ PIECE_SHIFT - 1),
       rv_fence = fence_len items (2 ^ s), rv_directory = ?n * 4\<rparr>)"
    unfolding planner_finish_def i(1,2) s(1) sum bind.bind_lunit Let_def option.case lay using i(6) n0 by (auto simp: fence_len_def)
  moreover have "blocks_for (block_runs im items) bs = Some (if pl_staged p \<noteq> 0 then pl_blocks p + 1 else pl_blocks p)"
    using i(3) by (simp add: blocks_for_def)
  ultimately show thesis
    using that [OF s k] p(1) stride_zero [OF target] by (simp add: for_lengths_as_def planner_new_def compact_records_def a_def section_len_def)
qed

subsection \<open>The copies fit\<close>

lemma align8_add:
  assumes "a mod 8 = 0"
  shows "align8 (a + b) = a + align8 b"
proof -
  obtain k where k: "a = 8 * k" using assms by (metis mod_0_imp_dvd dvd_def)
  have "8 * k + b + 8 - 1 = b + 8 - 1 + k * 8" by simp
  then have "(8 * k + b + 8 - 1) div 8 = k + (b + 8 - 1) div 8" by (simp only: div_mult_self1)
  then show ?thesis by (simp add: align8_def div_ceil_def k)
qed

lemma align8_ge: "n \<le> align8 n"
proof -
  have "n + 7 < ((n + 7) div 8 + 1) * 8" using dividend_less_div_times [of 8 "n + 7"] by simp
  then show ?thesis by (simp add: align8_def div_ceil_def)
qed

lemma align8_mono: "a \<le> b \<Longrightarrow> align8 a \<le> align8 b"
  by (simp add: align8_def div_ceil_def div_le_mono)

lemma align8_mod: "align8 n mod 8 = 0"
  by (simp add: align8_def)

lemma place_copy_fits: "0 < len \<Longrightarrow> at + len \<le> e \<Longrightarrow> place_copy e at len = (Some at, align8 (at + len))"
  by (simp add: place_copy_def)

lemma place_copy_none: "place_copy e at 0 = (None, at)"
  by (simp add: place_copy_def)

lemma place_copy_next: "at mod 8 = 0 \<Longrightarrow> at + len \<le> e \<Longrightarrow> place_copy e at len = (if len = 0 then None else Some at, align8 (at + len))"
proof -
  assume a: "at mod 8 = 0" "at + len \<le> e"
  have "align8 at = at" using align8_add [OF a(1), of 0] by (simp add: align8_def div_ceil_def)
  then show ?thesis using a(2) by (simp add: place_copy_def)
qed

lemma place_head_fits:
  assumes off: "off mod 8 = 0" "off \<noteq> 0" and le: "row \<le> row'" "fence \<le> fence'" "dir \<le> dir'"
  shows "place_head off (fits table row' fence' dir') table row fence dir =
    \<lparr>hc_table = Some off, hc_row = (if row = 0 then None else Some (off + align8 table)),
     hc_fence = (if fence = 0 then None else Some (off + align8 (align8 table + row))),
     hc_dir = (if dir = 0 then None else Some (off + align8 (align8 (align8 table + row) + fence)))\<rparr>"
proof -
  define a where "a = align8 table"
  define b where "b = align8 (a + row)"
  define c where "c = align8 (b + fence)"
  define R where "R = fits table row' fence' dir'"
  have R: "table + 8 \<le> R" "align8 (align8 (a + row') + fence') + dir' \<le> R" by (simp_all add: R_def fits_def Let_def a_def)
  have ab: "b \<le> align8 (a + row')" unfolding b_def by (rule align8_mono) (use le in simp)
  have bc: "c \<le> align8 (align8 (a + row') + fence')" unfolding c_def by (rule align8_mono) (use le ab in simp)
  have r1: "a + row \<le> R" "b + fence \<le> R" "c + dir \<le> R"
    using R(2) bc ab le align8_ge [of "a + row'"] align8_ge [of "align8 (a + row') + fence'"] by linarith+
  have m: "(off + a) mod 8 = 0" "(off + b) mod 8 = 0" "(off + c) mod 8 = 0"
    using off(1) align8_mod by (simp_all add: a_def b_def c_def mod_add_eq [symmetric])
  have p: "place_copy (off + R) (off + a) row = (if row = 0 then None else Some (off + a), off + b)"
      "place_copy (off + R) (off + b) fence = (if fence = 0 then None else Some (off + b), off + c)"
      "fst (place_copy (off + R) (off + c) dir) = (if dir = 0 then None else Some (off + c))"
    using place_copy_next [OF m(1), of row "off + R"] place_copy_next [OF m(2), of fence "off + R"] place_copy_next [OF m(3), of dir "off + R"] r1
      align8_add [OF off(1)] by (simp_all add: b_def c_def add.assoc)
  show ?thesis
    unfolding place_head_def table_in_reserve_def R_def [symmetric] a_def [symmetric] b_def [symmetric] c_def [symmetric]
    using off(2) R(1) align8_add [OF off(1), of table] p by (simp add: Let_def a_def [symmetric] split_beta)
qed

lemma row_within:
  assumes "len mod 4 = 0" "base mod 4 = 0" "tot \<le> len + 4"
  shows "checksum_row_len tot PIECE_SHIFT base \<le> checksum_row_len len PIECE_SHIFT (2 ^ PIECE_SHIFT - 1)"
proof -
  have "base mod 16384 mod 4 = base mod 4" by (rule mod_mod_cancel) simp
  then obtain p where p: "base mod 16384 = 4 * p" using assms(2) by (metis mod_0_imp_dvd dvd_def)
  have "base mod 16384 < 16384" by simp
  then have "p < 4096" unfolding p by simp
  then have "base mod 16384 \<le> 16380" unfolding p by simp
  then have "base mod 16384 + tot + 16384 - 1 \<le> len + 32767" using assms(3) by linarith
  then have "(base mod 16384 + tot + 16384 - 1) div 16384 \<le> (len + 32767) div 16384" by (rule div_le_mono)
  also have "\<dots> = (len + 32766) div 16384"
  proof -
    obtain q where q: "len = 4 * q" using assms(1) by (metis mod_0_imp_dvd dvd_def)
    have r: "len + 32767 = 3 + (q + 8191) * 4" "len + 32766 = 2 + (q + 8191) * 4" unfolding q by simp_all
    have "(3 + (q + 8191) * 4) div 4 = (2 + (q + 8191) * 4) div 4" unfolding div_mult_self1 [OF numeral_neq_zero] by simp
    then have "(len + 32767) div 4 = (len + 32766) div 4" unfolding r .
    then have "(len + 32767) div 4 div 4096 = (len + 32766) div 4 div 4096" by (rule arg_cong)
    moreover have "x div 4 div 4096 = x div 16384" for x :: nat using div_mult2_eq [of x 4 4096] by simp
    ultimately show ?thesis by simp
  qed
  finally have le: "(base mod 16384 + tot + 16384 - 1) div 16384 \<le> (len + 32766) div 16384" .
  have l: "checksum_row_len x PIECE_SHIFT b = (b mod 16384 + x + 16384 - 1) div 16384 * 4" for x b
  proof -
    have "(2 :: nat) ^ PIECE_SHIFT = 16384" by (simp add: PIECE_SHIFT_def)
    then show ?thesis by (simp only: checksum_row_len_def piece_count_def div_ceil_def)
  qed
  have "(2 ^ PIECE_SHIFT - 1) mod 16384 + len + 16384 - 1 = len + 32766" by (simp add: PIECE_SHIFT_def)
  then show ?thesis unfolding l using le by (simp only: mult_le_mono1)
qed

subsection \<open>The bound from totals\<close>

lemma saturating_le: "saturating_add a b \<le> a + b"
  by (simp add: saturating_add_def)

lemma cut_run_bound:
  assumes "cut_run n x bs = Some (c, n')" "n < bs \<or> n = 0"
  shows "n' < bs \<or> n' = 0" "c + (if n' = 0 then 0 else 1) \<le> (if n = 0 then 0 else 1) + 1"
    "x \<le> mr \<Longrightarrow> mr < bs \<Longrightarrow> c * (bs - mr) + n' \<le> n + x"
proof -
  define c0 m where "c0 = (if n \<noteq> 0 \<and> bs - n < x then 1 else 0 :: nat)" and "m = (if n \<noteq> 0 \<and> bs - n < x then 0 else n)"
  have "(if n \<noteq> 0 then do { room \<leftarrow> usub bs n; Some (if room < x then (1, 0) else (0, n)) } else Some (0, n)) = Some (c0, m)"
    using assms(2) by (auto simp: c0_def m_def)
  then have e: "(c, n') = (if bs \<le> saturating_add m x then (c0 + 1, 0) else (c0, saturating_add m x))"
    using assms(1) unfolding cut_run_def by (auto simp: Let_def split: if_splits)
  have z: "saturating_add m x = 0 \<Longrightarrow> m = 0" by (auto simp: saturating_add_def USIZE_MAX_def min_def split: if_splits)
  show "n' < bs \<or> n' = 0" using e by (auto split: if_splits)
  show "c + (if n' = 0 then 0 else 1) \<le> (if n = 0 then 0 else 1) + 1" using e z by (auto simp: c0_def m_def split: if_splits)
  show "c * (bs - mr) + n' \<le> n + x" if le: "x \<le> mr" "mr < bs"
  proof -
    have "c0 * (bs - mr) + m \<le> n" using le by (auto simp: c0_def m_def)
    moreover have "bs - mr \<le> saturating_add m x" if "bs \<le> saturating_add m x" using that by simp
    ultimately show ?thesis using e saturating_le [of m x] by (auto split: if_splits)
  qed
qed

lemma cut_runs_bound:
  "cut_runs bs n ns b = Some (b', n') \<Longrightarrow> n < bs \<or> n = 0 \<Longrightarrow>
    b' + (if n' = 0 then 0 else 1) \<le> b + (if n = 0 then 0 else 1) + length ns \<and>
    ((\<forall>x \<in> set ns. x \<le> mr) \<and> mr < bs \<longrightarrow> b' * (bs - mr) + n' \<le> b * (bs - mr) + n + sum_list ns)"
proof (induction ns arbitrary: n b)
  case (Cons x ns)
  obtain c n1 where c: "cut_run n x bs = Some (c, n1)" "cut_runs bs n1 ns (b + c) = Some (b', n')"
    using Cons.prems(1) by (auto split: Option.bind_splits)
  note r = cut_run_bound [OF c(1) Cons.prems(2)]
  note ih = Cons.IH [OF c(2) r(1)]
  have "b' * (bs - mr) + n' \<le> b * (bs - mr) + n + sum_list (x # ns)" if "\<forall>y \<in> set (x # ns). y \<le> mr" "mr < bs"
  proof -
    have "b' * (bs - mr) + n' \<le> (b + c) * (bs - mr) + n1 + sum_list ns" using ih that by simp
    moreover have "c * (bs - mr) + n1 \<le> n + x" using r(3) that by simp
    ultimately show ?thesis by (simp add: add_mult_distrib)
  qed
  moreover have "b' + (if n' = 0 then 0 else 1) \<le> b + (if n = 0 then 0 else 1) + length (x # ns)" using ih r(2) by auto
  ultimately show ?case by blast
qed simp

lemma blocks_bound:
  assumes "blocks_for ns bs = Some nb" "\<forall>x \<in> set ns. x \<le> mr" "sum_list ns \<le> rb"
  shows "nb \<le> (if bs \<le> mr then length ns else min (div_ceil rb (bs - mr)) (length ns))"
proof -
  obtain b n where c: "cut_runs bs 0 ns 0 = Some (b, n)" "nb = b + (if n = 0 then 0 else 1)"
    using assms(1) by (auto simp: blocks_for_def split: Option.bind_splits)
  note r = cut_runs_bound [OF c(1), of mr]
  have cnt: "nb \<le> length ns" using r c(2) by simp
  have "nb \<le> div_ceil rb (bs - mr)" if "mr < bs"
  proof -
    let ?D = "bs - mr"
    have "b * ?D + n \<le> rb" using r that assms(2,3) by auto
    then have "nb * ?D \<le> rb + ?D - 1" using c(2) that by (auto simp: add_mult_distrib split: if_splits)
    then have "nb * ?D div ?D \<le> (rb + ?D - 1) div ?D" by (rule div_le_mono)
    then show ?thesis using that by (simp add: div_ceil_def)
  qed
  then show ?thesis using cnt by simp
qed

lemma align_up_mono: "a \<le> b \<Longrightarrow> align_up a m \<le> align_up b m"
  by (simp add: align_up_def div_le_mono)

lemma fits_mono: "t \<le> t' \<Longrightarrow> r \<le> r' \<Longrightarrow> f \<le> f' \<Longrightarrow> fits t r f d \<le> fits t' r' f' d"
proof -
  assume le: "t \<le> t'" "r \<le> r'" "f \<le> f'"
  have "align8 t + r \<le> align8 t' + r'" using align8_mono [OF le(1)] le(2) by simp
  then have "align8 (align8 t + r) + f \<le> align8 (align8 t' + r') + f'" using align8_mono le(3) by (meson add_mono)
  then have "align8 (align8 (align8 t + r) + f) \<le> align8 (align8 (align8 t' + r') + f')" by (rule align8_mono)
  then show ?thesis using le(1) by (simp add: fits_def Let_def max.coboundedI1 max.coboundedI2)
qed

lemma row_mono: "a \<le> b \<Longrightarrow> checksum_row_len a s base \<le> checksum_row_len b s base"
  by (simp add: checksum_row_len_def piece_count_def div_ceil_def div_le_mono diff_le_mono)

lemma block_runs_none: "block_runs 0 items = map snd items"
  by (simp add: block_runs_def inlined_def)

text \<open>What the totals say of the input.\<close>

definition within :: "nat \<Rightarrow> nat \<Rightarrow> nat \<Rightarrow> (nat \<times> nat) list \<Rightarrow> bool" where
  "within mk mr rb items \<longleftrightarrow> (\<forall>x \<in> set items. fst x \<le> mk \<and> snd x \<le> mr) \<and> sum_list (map snd items) \<le> rb"

lemma within_sums:
  assumes w: "within mk mr rb items" and s: "4 \<le> s"
  shows "rec_total 0 compact items \<le> rec_total 0 compact' (replicate (length items) (mk, pk))"
    "fence_len items (2 ^ s) \<le> fence_len (replicate (length items) (mk, pk)) (2 ^ s)"
proof -
  let ?rep = "replicate (length items) (mk, pk)"
  have le: "\<And>x. x \<in> set items \<Longrightarrow> fst x \<le> mk" using w by (simp add: within_def)
  have rl: "segment_record_len k r (inlined 0 r) compact \<le> segment_record_len mk pk (inlined 0 pk) compact'" if "k \<le> mk" for k r
  proof -
    have "align_up (4 + k) REC_ALIGN \<le> align_up (4 + mk) REC_ALIGN" by (rule align_up_mono) (use that in simp)
    then show ?thesis by (simp add: segment_record_len_def inlined_def record_len_tail_def record_len_def)
  qed
  have "rec_total 0 compact xs \<le> rec_total 0 compact' (replicate (length xs) (mk, pk))" if "set xs \<subseteq> set items" for xs
    using that
  proof (induction xs)
    case (Cons x xs)
    then show ?case using rl [of "fst x" "snd x"] le by (cases x) (auto simp: rec_total_def add_mono)
  qed (simp add: rec_total_def)
  then show "rec_total 0 compact items \<le> rec_total 0 compact' ?rep" by simp
  have "fst (items ! (i * 2 ^ s)) \<le> fst (?rep ! (i * 2 ^ s))" if "i < div_ceil (length items) (2 ^ s)" for i
    using fence_index [OF s that] le by simp
  then have "fence_total items (2 ^ s) \<le> fence_total ?rep (2 ^ s)" unfolding fence_total_def length_replicate by (intro sum_list_mono) simp
  then show "fence_len items (2 ^ s) \<le> fence_len ?rep (2 ^ s)" by (simp add: fence_len_def align_up_mono)
qed

lemma finish_compact: "planner_finish target (p\<lparr>pl_compact := c\<rparr>) = planner_finish target p"
  by (simp add: planner_finish_def cong: option.case_cong)

lemma for_lengths_same:
  assumes "0 < target" "length items = length items'" "\<forall>x \<in> set items. small x" "rec_total im compact items \<le> MAX_RECS"
    "\<forall>x \<in> set items'. small x" "rec_total im compact' items' \<le> MAX_RECS"
  obtains s k nb nb' where "4 \<le> s" "blocks_for (block_runs im items) bs = Some nb" "blocks_for (block_runs im items') bs = Some nb'"
    "for_lengths_as target items bs im compact = Some (Some
      \<lparr>rv_table = block_table_len nb,
       rv_row = checksum_row_len (section_len (length items) k (fence_len items (2 ^ s)) (rec_total im compact items)) PIECE_SHIFT (2 ^ PIECE_SHIFT - 1),
       rv_fence = fence_len items (2 ^ s), rv_directory = length items * 4\<rparr>)"
    "for_lengths_as target items' bs im compact' = Some (Some
      \<lparr>rv_table = block_table_len nb',
       rv_row = checksum_row_len (section_len (length items) k (fence_len items' (2 ^ s)) (rec_total im compact' items')) PIECE_SHIFT (2 ^ PIECE_SHIFT - 1),
       rv_fence = fence_len items' (2 ^ s), rv_directory = length items * 4\<rparr>)"
proof -
  obtain s k nb where a: "fence_stride target (length items) = Some (2 ^ s)" "4 \<le> s" "hash_cap_for (length items) = Some (2 ^ k)"
      "blocks_for (block_runs im items) bs = Some nb"
      "for_lengths_as target items bs im compact = Some (Some
      \<lparr>rv_table = block_table_len nb,
       rv_row = checksum_row_len (section_len (length items) k (fence_len items (2 ^ s)) (rec_total im compact items)) PIECE_SHIFT (2 ^ PIECE_SHIFT - 1),
       rv_fence = fence_len items (2 ^ s), rv_directory = length items * 4\<rparr>)"
    by (rule for_lengths_eq [OF assms(1,3,4), where bs = bs])
  obtain s' k' nb' where b: "fence_stride target (length items') = Some (2 ^ s')" "4 \<le> s'" "hash_cap_for (length items') = Some (2 ^ k')"
      "blocks_for (block_runs im items') bs = Some nb'"
      "for_lengths_as target items' bs im compact' = Some (Some
      \<lparr>rv_table = block_table_len nb',
       rv_row = checksum_row_len (section_len (length items') k' (fence_len items' (2 ^ s')) (rec_total im compact' items')) PIECE_SHIFT (2 ^ PIECE_SHIFT - 1),
       rv_fence = fence_len items' (2 ^ s'), rv_directory = length items' * 4\<rparr>)"
    by (rule for_lengths_eq [OF assms(1,5,6), where bs = bs])
  have "s' = s" "k' = k" using a(1,3) b(1,3) assms(2) by simp_all
  then show thesis using that [OF a(2,4) b(4) a(5)] b(5) assms(2) by simp
qed

text \<open>
  C33: With nothing inline, the reserve computed from totals is a bound: for any keys and
  runs no longer than the longest given and no more bytes than the total, every piece of it
  is at least the piece the lengths themselves need, and so is the whole.
\<close>

theorem from_totals_bound:
  assumes target: "0 < target" and w: "within mk mr rb items" and lim: "mk \<le> U16_MAX" "mr \<le> MAX_RUN" "length items * record_len_tail mk 1 0 \<le> MAX_RECS"
  shows "\<exists>r b. for_lengths_as target items bs 0 compact = Some (Some r) \<and> from_totals target (length items) mk mr rb bs 0 = Some (Some b) \<and>
    rv_table r \<le> rv_table b \<and> rv_row r \<le> rv_row b \<and> rv_fence r \<le> rv_fence b \<and> rv_directory r = rv_directory b \<and> reserve_bytes r \<le> reserve_bytes b"
proof -
  let ?n = "length items"
  define pk where "pk = min (max (div_ceil rb ?n) 1) mr"
  let ?rep = "replicate ?n (mk, pk)"
  have sm: "\<forall>x \<in> set items. small x" using w lim(1,2) by (auto simp: within_def small_def)
  have "pk \<le> mr" by (simp add: pk_def)
  then have sr: "\<forall>x \<in> set ?rep. small x" using lim(1,2) by (auto simp: small_def)
  have rp: "rec_total 0 c ?rep = ?n * record_len_tail mk 1 0" for c
    by (simp add: rec_total_def segment_record_len_def inlined_def sum_list_replicate)
  have tot: "rec_total 0 compact items \<le> rec_total 0 False ?rep"
    using within_sums(1) [OF w order_refl] .
  then have rec: "rec_total 0 compact items \<le> MAX_RECS" "rec_total 0 False ?rep \<le> MAX_RECS" using lim(3) unfolding rp by simp_all
  obtain s k nb nb' where F: "4 \<le> s" "blocks_for (block_runs 0 items) bs = Some nb" "blocks_for (block_runs 0 ?rep) bs = Some nb'"
    "for_lengths_as target items bs 0 compact = Some (Some
      \<lparr>rv_table = block_table_len nb,
       rv_row = checksum_row_len (section_len ?n k (fence_len items (2 ^ s)) (rec_total 0 compact items)) PIECE_SHIFT (2 ^ PIECE_SHIFT - 1),
       rv_fence = fence_len items (2 ^ s), rv_directory = ?n * 4\<rparr>)"
    "for_lengths_as target ?rep bs 0 False = Some (Some
      \<lparr>rv_table = block_table_len nb',
       rv_row = checksum_row_len (section_len ?n k (fence_len ?rep (2 ^ s)) (rec_total 0 False ?rep)) PIECE_SHIFT (2 ^ PIECE_SHIFT - 1),
       rv_fence = fence_len ?rep (2 ^ s), rv_directory = ?n * 4\<rparr>)"
    by (rule for_lengths_same [OF target _ sm rec(1) sr rec(2), where bs = bs]) simp_all
  define need where "need = \<lparr>rv_table = block_table_len nb',
       rv_row = checksum_row_len (section_len ?n k (fence_len ?rep (2 ^ s)) (rec_total 0 False ?rep)) PIECE_SHIFT (2 ^ PIECE_SHIFT - 1),
       rv_fence = fence_len ?rep (2 ^ s), rv_directory = ?n * 4\<rparr>"
  define worst where "worst = (if bs \<le> mr then ?n else min (div_ceil rb (bs - mr)) ?n)"
  define b where "b = (if nb' < worst then need\<lparr>rv_table := block_table_len worst\<rparr> else need)"
  have br: "block_runs 0 ?rep = replicate ?n pk" by (simp add: block_runs_none)
  have fb: "from_totals target ?n mk mr rb bs 0 = Some (Some b)"
  proof (cases "items = []")
    case True
    have "nb = 0" using F(2) True by (simp add: block_runs_def blocks_for_def)
    moreover have "nb' = 0" using F(3) True by (simp add: block_runs_def blocks_for_def)
    moreover have "for_lengths_as target [] bs 0 True = for_lengths_as target [] bs 0 False"
      by (simp only: for_lengths_as_def compact_records_def planner_pushes.simps finish_compact bind.bind_lunit)
    ultimately show ?thesis using True F(5) by (simp add: from_totals_def for_lengths_def COMPACT_RECORDS_def b_def need_def worst_def)
  next
    case False
    obtain p0 p where p: "planner_new target bs 0 = Some p0" "planner_pushes (compact_records p0 False) ?rep = Some p" "planner_finish target p = Some (Some need)"
      using F(5) by (auto simp: for_lengths_as_def need_def split: Option.bind_splits)
    show ?thesis using False p F(3) unfolding br by (simp add: from_totals_def Let_def pk_def [symmetric, unfolded One_nat_def] worst_def [symmetric] b_def)
  qed
  have "nb \<le> worst" using blocks_bound [OF F(2), of mr rb] w unfolding block_runs_none worst_def within_def by auto
  then have "block_table_len nb \<le> rv_table b" by (auto simp: b_def need_def block_table_len_def add_mono mult_le_mono1)
  moreover have "fence_len items (2 ^ s) \<le> fence_len ?rep (2 ^ s)" by (rule within_sums(2) [OF w F(1)])
  moreover from this have "checksum_row_len (section_len ?n k (fence_len items (2 ^ s)) (rec_total 0 compact items)) PIECE_SHIFT (2 ^ PIECE_SHIFT - 1) \<le> rv_row b"
    using tot by (simp add: b_def need_def row_mono section_len_def)
  moreover have "rv_fence b = fence_len ?rep (2 ^ s)" "rv_directory b = ?n * 4" by (simp_all add: b_def need_def)
  ultimately have le: "block_table_len nb \<le> rv_table b" "fence_len items (2 ^ s) \<le> rv_fence b" "?n * 4 = rv_directory b"
      "checksum_row_len (section_len ?n k (fence_len items (2 ^ s)) (rec_total 0 compact items)) PIECE_SHIFT (2 ^ PIECE_SHIFT - 1) \<le> rv_row b"
    by simp_all
  define r where "r = \<lparr>rv_table = block_table_len nb,
       rv_row = checksum_row_len (section_len ?n k (fence_len items (2 ^ s)) (rec_total 0 compact items)) PIECE_SHIFT (2 ^ PIECE_SHIFT - 1),
       rv_fence = fence_len items (2 ^ s), rv_directory = ?n * 4\<rparr>"
  have pieces: "rv_table r \<le> rv_table b" "rv_row r \<le> rv_row b" "rv_fence r \<le> rv_fence b" "rv_directory r = rv_directory b"
    unfolding r_def reserve.simps by (rule le)+
  then have "reserve_bytes r \<le> reserve_bytes b" unfolding reserve_bytes_def pieces(4) by (intro fits_mono)
  then show ?thesis using F(4) [folded r_def] fb pieces by blast
qed

definition two_items :: "(nat \<times> nat) list" where
  "two_items = [(8, 20), (8, 10)]"

theorem from_totals_witness:
  "\<exists>r b. for_lengths_as 16384 two_items 4096 0 True = Some (Some r) \<and> from_totals 16384 (length two_items) 8 20 30 4096 0 = Some (Some b) \<and>
    rv_table r \<le> rv_table b \<and> rv_row r \<le> rv_row b \<and> rv_fence r \<le> rv_fence b \<and> rv_directory r = rv_directory b \<and> reserve_bytes r \<le> reserve_bytes b"
  by (rule from_totals_bound)
    (simp_all add: two_items_def within_def U16_MAX_def MAX_RUN_def U32_MAX_def MAX_RECS_def record_len_tail_def record_len_def align_up_def
      REC_ALIGN_def EXT_BYTES_def)

lemma small_table: "hash_cap_for 2 = Some 16"
proof -
  obtain k where k: "hash_cap_for 2 = Some (2 ^ k)" "4 \<le> k" "k = 4 \<or> 3 * 2 ^ (k - 1) < (2 :: nat) * 4"
    by (rule hash_cap_pow [of 2]) simp_all
  have "\<not> 3 * 2 ^ (k - 1) < (2 :: nat) * 4"
  proof -
    have "(2 :: nat) ^ 3 \<le> 2 ^ (k - 1)" using k(2) by (intro power_increasing) simp_all
    then show ?thesis by simp
  qed
  then show ?thesis using k by simp
qed

text \<open>
  C34: With runs inline it is not a bound. Two keys of at most eight bytes with runs of
  twenty and ten bytes, thirty in all, under an inline limit of sixteen: their average is
  inline and so is every run the planner is told of, one block is what it would cut were
  they not, and the table sized is that of no block, where the longer run needs one.
\<close>

theorem from_totals_short:
  "\<exists>r b. for_lengths 16384 two_items 4096 16 = Some (Some r) \<and> from_totals 16384 2 8 20 30 4096 16 = Some (Some b) \<and>
    rv_table b < rv_table r \<and> reserve_bytes b < reserve_bytes r"
proof -
  have st: "fence_stride 16384 2 = Some (2 ^ 4)"
    by (simp add: fence_stride_def div_ceil_def FENCE_MIN_STRIDE_def next_power_of_two_def Let_def USIZE_MAX_def bit_len.simps)
  note lens = segment_record_len_def record_len_compact_def record_len_tail_def record_len_def align_up_def REC_ALIGN_def EXT_BYTES_def
    COMPACT_RUN_def rec_total_def inlined_def
  note cuts = blocks_for_def block_runs_def inlined_def cut_run_def saturating_add_def USIZE_MAX_def
  note fence = fence_len_def fence_total_def div_ceil_def align_up_def REC_ALIGN_def
  let ?rep = "replicate 2 (8, 15) :: (nat \<times> nat) list"
  have sm: "\<forall>x \<in> set two_items. small x" "\<forall>x \<in> set ?rep. small x"
    by (simp_all add: two_items_def small_def U16_MAX_def MAX_RUN_def U32_MAX_def)
  have l: "length two_items = 2" "length ?rep = 2" by (simp_all add: two_items_def)
  have rep: "?rep = [(8, 15), (8, 15)]" by (simp add: numeral_2_eq_2)
  have t: "rec_total 16 True two_items = 60" "rec_total 16 False ?rep = 96"
    unfolding rep by (simp_all add: two_items_def lens)
  have f: "fence_len two_items (2 ^ 4) = 16" "fence_len ?rep (2 ^ 4) = 16"
    unfolding rep by (simp_all add: two_items_def fence)
  have rep15: "replicate 2 15 = [15, 15 :: nat]" by (simp add: numeral_2_eq_2)
  have c: "blocks_for (block_runs 16 two_items) 4096 = Some 1" "blocks_for (replicate 2 15) 4096 = Some 1" "blocks_for (block_runs 16 ?rep) 4096 = Some 0"
    unfolding rep rep15 by (simp_all add: two_items_def cuts)
  have res: "for_lengths_as 16384 items 4096 16 compact = Some (Some \<lparr>rv_table = block_table_len nb,
      rv_row = checksum_row_len (section_len 2 4 16 recs) PIECE_SHIFT (2 ^ PIECE_SHIFT - 1), rv_fence = 16, rv_directory = 2 * 4\<rparr>)"
    if i: "length items = 2" "\<forall>x \<in> set items. small x" "rec_total 16 compact items = recs" "recs \<le> MAX_RECS" "fence_len items (2 ^ 4) = 16"
      "blocks_for (block_runs 16 items) 4096 = Some nb" for items compact recs nb
  proof -
    obtain s k nb' where r: "fence_stride 16384 (length items) = Some (2 ^ s)" "hash_cap_for (length items) = Some (2 ^ k)"
        "blocks_for (block_runs 16 items) 4096 = Some nb'"
        "for_lengths_as 16384 items 4096 16 compact = Some (Some \<lparr>rv_table = block_table_len nb',
          rv_row = checksum_row_len (section_len (length items) k (fence_len items (2 ^ s)) (rec_total 16 compact items)) PIECE_SHIFT (2 ^ PIECE_SHIFT - 1),
          rv_fence = fence_len items (2 ^ s), rv_directory = length items * 4\<rparr>)"
      by (rule for_lengths_eq [of 16384 items 16 compact 4096]) (use i in simp_all)
    have "(2 :: nat) ^ s = 2 ^ 4" "(2 :: nat) ^ k = 2 ^ 4" using r(1,2) st small_table i(1) by simp_all
    then have "s = 4" "k = 4" by (simp_all only: power_inject_exp one_less_numeral_iff semiring_norm)
    then show ?thesis using r(3,4) i by simp
  qed
  have a: "for_lengths 16384 two_items 4096 16 = Some (Some \<lparr>rv_table = block_table_len 1,
      rv_row = checksum_row_len (section_len 2 4 16 60) PIECE_SHIFT (2 ^ PIECE_SHIFT - 1), rv_fence = 16, rv_directory = 2 * 4\<rparr>)"
    unfolding for_lengths_def COMPACT_RECORDS_def by (rule res) (use l sm t f c in \<open>simp_all add: MAX_RECS_def U32_MAX_def\<close>)
  let ?need = "\<lparr>rv_table = block_table_len 0, rv_row = checksum_row_len (section_len 2 4 16 96) PIECE_SHIFT (2 ^ PIECE_SHIFT - 1), rv_fence = 16, rv_directory = 2 * 4\<rparr>"
  have n: "for_lengths_as 16384 ?rep 4096 16 False = Some (Some ?need)"
    by (rule res) (use l sm t f c in \<open>simp_all add: MAX_RECS_def U32_MAX_def\<close>)
  have b: "from_totals 16384 2 8 20 30 4096 16 = Some (Some ?need)"
  proof -
    obtain p0 p where p: "planner_new 16384 4096 16 = Some p0" "planner_pushes (compact_records p0 False) ?rep = Some p"
        "planner_finish 16384 p = Some (Some ?need)"
      using n by (auto simp: for_lengths_as_def split: Option.bind_splits)
    have d: "min (max (div_ceil 30 2) 1) 20 = 15" "div_ceil 30 (4096 - 20) = 1" by (simp_all add: div_ceil_def)
    show ?thesis unfolding from_totals_def Let_def d using p c(2) by simp
  qed
  have rows: "checksum_row_len (section_len 2 4 16 96) PIECE_SHIFT (2 ^ PIECE_SHIFT - 1) = 8" "checksum_row_len (section_len 2 4 16 60) PIECE_SHIFT (2 ^ PIECE_SHIFT - 1) = 8"
    by (simp_all add: checksum_row_len_def piece_count_def div_ceil_def section_len_def HEADER_def SLOT_def PIECE_SHIFT_def)
  have len: "block_table_len 0 = 16" "block_table_len 1 = 16 + 32 + CRC_ROW"
    by (simp_all add: block_table_len_def BLK_HEADER_def BLK_ENTRY_def)
  show ?thesis unfolding a b rows len
    by (simp add: reserve_bytes_def fits_def align8_def div_ceil_def CRC_ROW_def MAX_CHUNK_CRCS_def Let_def)
qed

end
