(* ===== verification/Reserve_Head.thy ===== *)
theory Reserve_Head
  imports Reserve
begin

text \<open>
  The reserve against the writer: the planner's cut is the block store's, its layout the
  streamed section's but for an alignment, and what the finish copies into the head fits.
\<close>

subsection \<open>The cut is the writer's\<close>

text \<open>A writer seen from the planner: how many blocks it has and how many bytes are staged.\<close>

definition planned :: "nat \<times> nat \<Rightarrow> seg_blocks \<Rightarrow> bool" where
  "planned bs s \<longleftrightarrow> fst bs = length (sb_blocks s) \<and> snd bs = length (staged s) \<and> bb_cap (sb_builder s) = sb_block_size s
    \<and> (snd bs < sb_block_size s \<or> snd bs = 0)"

lemma flush_planned:
  assumes "flush_block deflate on s = Some s'"
  shows "length (sb_blocks s') = length (sb_blocks s) + (if staged s \<noteq> [] then 1 else 0) \<and> staged s' = []
    \<and> sb_block_size s' = sb_block_size s \<and> bb_cap (sb_builder s') = bb_cap (sb_builder s)"
  using assms
  by (auto simp: flush_block_def builder_is_empty_def builder_take_def Let_def write_out_def split: if_splits Option.bind_splits prod.splits)

lemma place_run_planned:
  assumes p: "planned (b, n) s" and r: "place_run deflate on s run = Some (at, s')" and bound: "0 < sb_block_size s" "sb_block_size s + length run \<le> USIZE_MAX"
  shows "\<exists>c n'. cut_run n (length run) (sb_block_size s) = Some (c, n') \<and> planned (b + c, n') s' \<and> sb_block_size s' = sb_block_size s"
proof -
  let ?bs = "sb_block_size s"
  obtain s1 where s1: "(if would_overflow (sb_builder s) (length run) then flush_block deflate on s else Some s) = Some s1"
      "(if sb_block_size s1 \<le> length (staged s1 @ run) then flush_block deflate on (s1\<lparr>sb_builder := (sb_builder s1)\<lparr>bb_buf := staged s1 @ run\<rparr>\<rparr>)
        else Some (s1\<lparr>sb_builder := (sb_builder s1)\<lparr>bb_buf := staged s1 @ run\<rparr>\<rparr>)) = Some s'"
    using r by (auto simp: place_run_def builder_push_def builder_len_def Let_def split: Option.bind_splits)
  have n: "n = length (staged s)" "b = length (sb_blocks s)" "bb_cap (sb_builder s) = ?bs" "n < ?bs \<or> n = 0" using p by (auto simp: planned_def)
  define c where "c = (if n \<noteq> 0 \<and> ?bs - n < length run then 1 else 0 :: nat)"
  define m where "m = (if n \<noteq> 0 \<and> ?bs - n < length run then 0 else n)"
  have s1p: "length (sb_blocks s1) = b + c" "length (staged s1) = m" "sb_block_size s1 = ?bs" "bb_cap (sb_builder s1) = ?bs"
  proof -
    have "would_overflow (sb_builder s) (length run) \<longleftrightarrow> n \<noteq> 0 \<and> ?bs - n < length run"
      using n by (auto simp: would_overflow_def)
    then show "length (sb_blocks s1) = b + c" "length (staged s1) = m" "sb_block_size s1 = ?bs" "bb_cap (sb_builder s1) = ?bs"
      using s1(1) n flush_planned [of deflate on s s1] by (auto simp: c_def m_def split: if_splits)
  qed
  have st: "(if n \<noteq> 0 then do { room \<leftarrow> usub ?bs n; Some (if room < length run then (1, 0) else (0, n)) } else Some (0, n)) = Some (c, m)"
    using n(4) by (auto simp: c_def m_def)
  have "m \<le> ?bs" using n(4) by (auto simp: m_def)
  then have sa: "saturating_add m (length run) = m + length run" using bound by (simp add: saturating_add_def)
  have cut: "cut_run n (length run) ?bs = Some (if ?bs \<le> m + length run then (c + 1, 0) else (c, m + length run))"
    unfolding cut_run_def st by (simp add: sa)
  show ?thesis
  proof (cases "?bs \<le> m + length run")
    case True
    define s2 where "s2 = s1\<lparr>sb_builder := (sb_builder s1)\<lparr>bb_buf := staged s1 @ run\<rparr>\<rparr>"
    have f: "flush_block deflate on s2 = Some s'" using s1(2) True s1p by (simp add: s2_def)
    have "length (staged s2) = m + length run" "staged s2 \<noteq> []" using True bound(1) s1p(2) by (auto simp: s2_def)
    then have "length (sb_blocks s') = b + c + 1" "staged s' = []" "sb_block_size s' = ?bs" "bb_cap (sb_builder s') = ?bs"
      using flush_planned [OF f] s1p by (simp_all add: s2_def)
    then show ?thesis using cut True by (auto simp: planned_def)
  next
    case False
    then have "s' = s1\<lparr>sb_builder := (sb_builder s1)\<lparr>bb_buf := staged s1 @ run\<rparr>\<rparr>" using s1(2) s1p by simp
    then show ?thesis using cut False s1p by (auto simp: planned_def)
  qed
qed

lemma place_runs_planned:
  "planned (b, n) s \<Longrightarrow> place_runs deflate on s runs = Some (ats, s') \<Longrightarrow> 0 < sb_block_size s \<Longrightarrow>
    \<forall>r \<in> set runs. sb_block_size s + length r \<le> USIZE_MAX \<Longrightarrow>
    \<exists>b' n'. cut_runs (sb_block_size s) n (map length runs) b = Some (b', n') \<and> planned (b', n') s'"
proof (induction runs arbitrary: b n s ats)
  case (Cons r runs)
  obtain at s1 ats1 where r: "place_run deflate on s r = Some (at, s1)" "place_runs deflate on s1 runs = Some (ats1, s')"
    using Cons.prems(2) by (auto split: Option.bind_splits)
  obtain c n1 where c: "cut_run n (length r) (sb_block_size s) = Some (c, n1)" "planned (b + c, n1) s1" "sb_block_size s1 = sb_block_size s"
    using place_run_planned [OF Cons.prems(1) r(1)] Cons.prems(3,4) by auto
  show ?case using Cons.IH [OF c(2) r(2)] Cons.prems(3,4) c(1,3) by auto
qed auto

lemma length_finish:
  assumes "finish_blocks deflate on s = Some s'" "planned (b, n) s"
  shows "length (sb_blocks s') = (if n \<noteq> 0 then b + 1 else b)"
proof -
  have pl: "place_pending i held s = Some t \<Longrightarrow> length (sb_blocks t) = length (sb_blocks s)" for i held s t
  proof (induction i held s rule: place_pending.induct)
    case (2 i bs held s)
    then show ?case by (fastforce simp: write_out_def split: Option.bind_splits)
  qed simp
  show ?thesis using assms pl unfolding finish_blocks_def planned_def
    by (fastforce dest: flush_planned split: Option.bind_splits if_splits)
qed

lemma planned_new: "planned (0, 0) (seg_new block_size lz4 rf out)"
  by (simp add: planned_def seg_new_def builder_new_def)

subsection \<open>The section the writer streams\<close>

lemma trailer_sizes:
  assumes st: "stream_trailer target n rl kat each st gen lookahead = Some (Some ((h, t, tot), st'))"
    and k: "hash_cap_for n = Some cap" and s: "fence_stride target n = Some S"
    and fo: "fo = align_up (HEADER + rl) 4" and fl: "fl = (if 0 < div_ceil n S then (div_ceil n S + 1) * 4 + length (fence_blob kat S (div_ceil n S)) else 0)"
    and d: "d = align_up (fo + fl) 4" and ho: "ho = align_up (d + n * 4) 8"
  shows "trailer_header (section_words gen n cap ho d rl fo (div_ceil n S) S) = Some h \<and> tot = ho + cap * SLOT"
proof -
  let ?fn = "div_ceil n S"
  define fence where "fence = (if 0 < ?fn then concat (map u32_le (fence_offs kat S ?fn)) @ fence_blob kat S ?fn else [])"
  define t1 where "t1 = replicate (fo - (HEADER + rl)) (0 :: byte)"
  define t2 where "t2 = (t1 @ fence) @ replicate (d - (fo + fl)) (0 :: byte)"
  define dir where "dir = replicate (n * 4) 0 @ replicate (ho - (d + n * 4)) (0 :: byte)"
  have pads: "pad_to [] (HEADER + rl) 4 = (t1, fo)" "pad_to (t1 @ fence) (fo + fl) 4 = (t2, d)"
      "pad_to (replicate (n * 4) 0) (d + n * 4) 8 = (dir, ho)"
    by (simp_all add: pad_to_def Let_def t1_def t2_def dir_def fo d ho)
  have ff: "(if 0 < ?fn then case fence_fill kat S [0..<?fn] [] [] of (offs, blob) \<Rightarrow> (t1 @ offs @ blob, fo + (?fn + 1) * 4 + length blob)
      else (t1, fo)) = (t1 @ fence, fo + fl)"
    by (simp add: fence_fill_eq fence_def fl)
  have "\<not> MAX_RECS < rl" using st by (auto simp: stream_trailer_def)
  then have e: "stream_trailer target n rl kat each st gen lookahead =
      do { (slots, (dir, st)) \<leftarrow> fill_hash (replicate (cap * SLOT) 0) (cap - 1) n (dir_asker each) (dir, st) lookahead;
           h \<leftarrow> trailer_header (section_words gen n cap ho d rl fo ?fn S);
           Some (Some ((h, t2 @ dir @ slots, ho + cap * SLOT), st)) }"
    unfolding stream_trailer_def
    by (simp only: if_False k option.case Let_def s bind.bind_lunit pads(1) prod.case ff pads(2,3) section_words_def)
  show ?thesis using st unfolding e by (auto split: Option.bind_splits)
qed

subsection \<open>The entries a records-first writer keeps\<close>

definition stored :: "nat \<Rightarrow> entry \<Rightarrow> bytes \<Rightarrow> bool" where
  "stored im e run \<longleftrightarrow> length (fst (snd e)) = 1 \<and>
    (let x = fst (snd e) ! 0
     in if inlined im (length run) then is_inline x \<and> e_off x = 0 \<and> unat (e_len x) = length run \<and> snd (snd e) = run
        else \<not> is_inline x \<and> snd (snd e) = [])"

definition lengths_of :: "entry list \<Rightarrow> bytes list \<Rightarrow> (nat \<times> nat) list" where
  "lengths_of es runs = zip (map (\<lambda>e. length (fst e)) es) (map length runs)"

lemma length_stored: "stored im e run \<Longrightarrow> length (entry_bytes compact e) = segment_record_len (length (fst e)) (length run) (inlined im (length run)) compact"
proof -
  assume st: "stored im e run"
  then obtain x where x: "fst (snd e) = [x]" by (auto simp: stored_def length_Suc_conv)
  show ?thesis
    using st by (auto simp: Flat_Section.entry_bytes_def length_record_bytes segment_record_len_def compacts_def x stored_def Let_def split: if_splits)
qed

lemma recs_total: "list_all2 (stored im) es runs \<Longrightarrow> length (recs_bytes compact es) = rec_total im compact (lengths_of es runs)"
  by (induction rule: list_all2_induct) (simp_all add: recs_bytes_def rec_total_def lengths_of_def length_stored)

lemma length_lengths [simp]: "list_all2 (stored im) es runs \<Longrightarrow> length (lengths_of es runs) = length es"
  by (simp add: lengths_of_def list_all2_lengthD)

lemma lengths_runs: "list_all2 (stored im) es runs \<Longrightarrow> 0 < im \<Longrightarrow> block_runs im (lengths_of es runs) = map length (filter (\<lambda>r. im < length r) runs)"
  by (induction rule: list_all2_induct) (simp_all add: block_runs_def lengths_of_def inlined_def not_le)

lemma fence_blob_total:
  assumes "list_all2 (stored im) es runs"
  shows "length (fence_blob (\<lambda>i. fst (es ! i)) (2 ^ s) (div_ceil (length es) (2 ^ s))) = fence_total (lengths_of es runs) (2 ^ s)"
proof -
  have l: "length runs = length es" using assms by (simp add: list_all2_lengthD)
  have "length (fst (es ! (i * 2 ^ s))) = fst (lengths_of es runs ! (i * 2 ^ s))" if "i < div_ceil (length es) (2 ^ s)" for i
  proof -
    have "i * 2 ^ s < length es" by (rule fence_in_range) (use that in simp_all)
    then show ?thesis by (simp add: lengths_of_def l)
  qed
  then show ?thesis unfolding fence_blob_def fence_total_def length_concat length_lengths [OF assms] map_map
    by (intro arg_cong [of _ _ sum_list] map_cong) simp_all
qed

lemma header_back:
  assumes le: "n < 2 ^ k" "2 ^ k \<le> USIZE_MAX" "ho \<le> USIZE_MAX" "d \<le> USIZE_MAX" "rl \<le> USIZE_MAX" "fo \<le> USIZE_MAX" "fn \<le> USIZE_MAX" "st \<le> USIZE_MAX"
    and tot: "0 < tot" "tot \<le> USIZE_MAX"
  obtains hb hdr where "set_checksum_words (header_bytes (section_words gen n (2 ^ k) ho d rl fo fn st)) tot = Some hb" and "header_parse hb = Some hdr"
    and "h_nkeys hdr = n" and "h_crc_off hdr = tot" and "h_piece_shift hdr = PIECE_SHIFT" and "h_fence_n hdr = fn" and "h_fence_offs_off hdr = fo"
    and "h_hash_off hdr = ho" and "h_dir_base hdr = d" and "h_recs_off hdr = HEADER"
proof -
  let ?ws = "section_words gen n (2 ^ k) ho d rl fo fn st"
  define hb where "hb = header_bytes (?ws @ [word_of_nat tot, word_of_nat PIECE_SHIFT])"
  have set: "set_checksum_words (header_bytes ?ws) tot = Some hb" using set_header_words [of ?ws "[]" tot] by (simp add: hb_def)
  have sec: "hb = header_bytes (?ws @ [word_of_nat tot, word_of_nat PIECE_SHIFT]) @ []" by (simp add: hb_def)
  note r = section_sizes [OF sec]
  have nle: "n \<le> USIZE_MAX" "HEADER \<le> USIZE_MAX" using le(1,2) by (simp_all add: HEADER_def USIZE_MAX_def)
  have z: "rd_size hb 56 = Some n" "rd_size hb 64 = Some (2 ^ k)" "rd_size hb 72 = Some ho" "rd_size hb 80 = Some d" "rd_size hb 88 = Some HEADER"
    "rd_size hb 96 = Some rl" "rd_size hb 104 = Some rl" "rd_size hb 112 = Some rl" "rd_size hb 120 = Some fo" "rd_size hb 128 = Some fn"
    "rd_size hb 136 = Some st" "rd_size hb 144 = Some 0"
    using le nle unfolding rd_size_def r by (simp_all only: option.map unat_size unsigned_0)
  have ps: "unat (word_of_nat PIECE_SHIFT :: u64) = 14" by (simp add: PIECE_SHIFT_def)
  have "(word_of_nat tot :: u64) \<noteq> 0" using unat_size [OF tot(2)] tot(1) by auto
  then have cw: "checksum_words hb = Some (Some (tot, PIECE_SHIFT))"
    unfolding checksum_words_def W_CRC_OFF_def W_PIECE_SHIFT_def r using unat_size [OF tot(2)] by (simp add: ps) (simp add: PIECE_SHIFT_def)
  have ld: "live_dir d n 0 0 = Some (d, n)" by (simp add: live_dir_def)
  have cap: "\<not> (2 ^ k = (0 :: nat) \<or> \<not> is_power_of_two (2 ^ k))" "\<not> 2 ^ k < n" using le(1) by simp_all
  show thesis
    by (rule that [OF set], unfold header_parse_def)
      (simp_all only: r(1) simp_thms if_False z r(2) r(20) bind.bind_lunit Let_def max.idem cap ld prod.case cw, simp_all)
qed

lemma fence_span_built:
  assumes "h_fence_n hdr = fn" "h_fence_offs_off hdr = fo" "h_hash_off hdr = ho" "h_dir_base hdr = d" "h_recs_off hdr = HEADER" "h_crc_off hdr = tot"
    and "HEADER \<le> fo" "fn \<noteq> 0 \<longrightarrow> fo < d" "d \<le> ho" "ho \<le> tot" "tot \<le> len"
  shows "snd (fence_span hdr len) = (if fn = 0 then 0 else d - fo)"
proof (cases "fn = 0")
  case False
  then have lt: "fo < d" "fo < ho" "fo < tot" "fo < len" "\<not> HEADER > fo" using assms by linarith+
  have "filter (\<lambda>x. fo < x) [ho, d, HEADER, tot, len] = [ho, d, tot, len]" using lt assms(7) by simp
  moreover have "Min (set [ho, d, tot, len]) = d" using assms(9-11) by (intro Min_eqI) auto
  ultimately show ?thesis using assms lt False unfolding fence_span_def Let_def assms(1-6) by simp
qed (use assms(1) in \<open>simp add: fence_span_def\<close>)

subsection \<open>What the reserve is for\<close>

text \<open>The data blocks a writer of those runs finishes with, and the table over them.\<close>

lemma blocks_written:
  assumes bs: "0 < block_size" "block_size < 2 ^ 32" and im: "0 < im" and es: "list_all2 (stored im) es runs"
    and runs: "\<forall>r \<in> set runs. length r \<le> MAX_RUN" "length runs < 2 ^ 32" and nb: "blocks_for (block_runs im (lengths_of es runs)) block_size = Some nb"
  obtains ats s s' table where "place_runs deflate on (seg_new block_size lz4 True out) (filter (\<lambda>r. im < length r) runs) = Some (ats, s)"
    and "finish_blocks deflate on s = Some s'" and "encode_blocks (sb_blocks s') (sb_rows s') = Some table" and "length table = block_table_len nb"
proof -
  let ?runs = "filter (\<lambda>r. im < length r) runs" and ?new = "seg_new block_size lz4 True out"
  have r: "\<forall>r \<in> set ?runs. r \<noteq> [] \<and> length r < 2 ^ 32" using runs(1) by (auto simp: MAX_RUN_def U32_MAX_def)
  have "length ?runs < 2 ^ 32" by (rule le_less_trans [OF length_filter_le runs(2)])
  then have "length ([] :: ((nat \<times> nat \<times> nat) \<times> bytes) list) + length ?runs < 2 ^ 32" by simp
  then obtain ats s ps dn where p: "place_runs deflate on ?new ?runs = Some (ats, s)" "placing deflate on s ps dn"
    using place_runs_ok [OF placing_new [OF bs(2)] r, of deflate on lz4 True out] by blast
  obtain s' where f: "finish_blocks deflate on s = Some s'" "store_ok deflate on (sb_out s') (sb_blocks s') (sb_rows s') (flushed s ps)"
    using finish_blocks_ok [OF p(2)] by blast
  have ro: "rows_ok (sb_blocks s') (sb_rows s')" using f(2) by (auto simp: rows_ok_def store_ok_def Block_Store.entry_ok_def in_set_conv_nth)
  have sz: "sb_block_size ?new = block_size" by (simp add: seg_new_def)
  have ru: "\<forall>r \<in> set ?runs. sb_block_size ?new + length r \<le> USIZE_MAX" using r bs(2) by (auto simp: sz USIZE_MAX_def)
  obtain b n where c: "cut_runs block_size 0 (map length ?runs) 0 = Some (b, n)" "planned (b, n) s"
    using place_runs_planned [OF planned_new p(1) _ ru] bs(1) sz by auto
  have "nb = (if n \<noteq> 0 then b + 1 else b)" using nb c(1) unfolding blocks_for_def lengths_runs [OF es im] by simp
  then have "length (sb_blocks s') = nb" using length_finish [OF f(1) c(2)] by simp
  then show thesis using that [OF p(1) f(1) encode_blocks_eq [OF ro]] length_table [OF ro] by simp
qed

text \<open>The section streamed behind those records, and what its header says of the parts copied.\<close>

lemma section_written:
  fixes each :: "nat \<Rightarrow> 's \<Rightarrow> ((u32 \<times> u64) \<times> 's) option"
  assumes target: "0 < target" and es: "list_all2 (stored im) es runs" and recs: "length (recs_bytes compact es) \<le> MAX_RECS"
    and small: "\<forall>x \<in> set (lengths_of es runs). small x"
    and each: "\<And>i st. i < length es \<Longrightarrow> \<exists>st'. each i st = Some ((off i, hsh i), st')"
    and s: "fence_stride target (length es) = Some (2 ^ s)" "4 \<le> s" and k: "hash_cap_for (length es) = Some (2 ^ k)"
  obtains h t tot st' hb hdr where
    "stream_trailer target (length es) (length (recs_bytes compact es)) (\<lambda>i. fst (es ! i)) each st gen lookahead = Some (Some ((h, t, tot), st'))"
    and "set_checksum_words h tot = Some hb" and "header_parse hb = Some hdr" and "h_nkeys hdr = length es" and "h_crc_off hdr = tot"
    and "h_piece_shift hdr = PIECE_SHIFT" and "0 < tot"
    and "tot \<le> section_len (length es) k (fence_len (lengths_of es runs) (2 ^ s)) (length (recs_bytes compact es)) + 4"
    and "\<forall>row. snd (fence_span hdr (tot + row)) = fence_len (lengths_of es runs) (2 ^ s)"
proof -
  let ?n = "length es" and ?items = "lengths_of es runs"
  define rl where "rl = length (recs_bytes compact es)"
  define fn where "fn = div_ceil ?n (2 ^ s)"
  define fo where "fo = align_up (HEADER + rl) 4"
  define fl where "fl = (if 0 < fn then (fn + 1) * 4 + length (fence_blob (\<lambda>i. fst (es ! i)) (2 ^ s) fn) else 0)"
  define d where "d = align_up (fo + fl) 4"
  define ho where "ho = align_up (d + ?n * 4) 8"
  have n4: "?n * 4 \<le> rl" using recs_ge [of es compact] by (simp add: rl_def)
  have n30: "?n \<le> 2 ^ 30" using n4 recs by (simp add: rl_def MAX_RECS_def U32_MAX_def)
  have n62: "?n < 2 ^ 62" using n30 by simp
  have kk: "?n < 2 ^ k" "2 ^ k \<le> 8 * ?n + 16"
  proof -
    obtain k' where k': "hash_cap_for ?n = Some (2 ^ k')" "?n < 2 ^ k'" "k' = 4 \<or> 3 * 2 ^ (k' - 1) < ?n * 4" "4 \<le> k'"
      by (rule hash_cap_pow [OF n62]) blast
    then have e: "k' = k" using k by simp
    show "?n < 2 ^ k" using k'(2) e by simp
    obtain j where "k = Suc j" using k'(4) e by (cases k) auto
    then show "2 ^ k \<le> 8 * ?n + 16" using k'(3) e by auto
  qed
  obtain h t tot st' where T: "stream_trailer target ?n rl (\<lambda>i. fst (es ! i)) each st gen lookahead = Some (Some ((h, t, tot), st'))"
    by (rule stream_trailer_eq [OF target n62 recs [folded rl_def] each, where kat = "\<lambda>i. fst (es ! i)" and st = st and gen = gen and lookahead = lookahead])
      blast+
  have ts: "trailer_header (section_words gen ?n (2 ^ k) ho d rl fo fn (2 ^ s)) = Some h" "tot = ho + 2 ^ k * SLOT"
    using trailer_sizes [OF T k s(1) fo_def fl_def [unfolded fn_def] d_def ho_def] by (simp_all add: fn_def)
  have fn0: "fn = 0 \<longleftrightarrow> es = []" and fnn: "fn \<le> ?n"
  proof -
    show "fn \<le> ?n" unfolding fn_def by (rule div_ceil_le) simp
    have "0 < div_ceil ?n (2 ^ s)" if "0 < ?n"
    proof -
      have "2 ^ s \<le> ?n + 2 ^ s - 1" using that by linarith
      then show ?thesis unfolding div_ceil_def by (simp add: div_greater_zero_iff)
    qed
    moreover have "div_ceil 0 (2 ^ s) = 0" by (simp add: div_ceil_def)
    ultimately show "fn = 0 \<longleftrightarrow> es = []" unfolding fn_def by (cases "es = []") auto
  qed
  have flen: "align_up fl 4 = fence_len ?items (2 ^ s)"
    using fn0 fence_blob_total [OF es, of s] length_lengths [OF es]
    by (cases "es = []") (auto simp: fl_def fence_len_def fn_def REC_ALIGN_def align_up_def)
  have rm: "(HEADER + rl) mod 4 = 0" using recs_mod [of compact es] by (simp add: rl_def HEADER_def mod_add_eq [symmetric])
  have fo: "fo = HEADER + rl" using align_up_add [OF rm, of 0] by (simp add: fo_def REC_ALIGN_def align_up_def)
  have d: "d = fo + fence_len ?items (2 ^ s)" unfolding d_def flen [symmetric] using align_up_add [of fo fl] rm fo by (simp add: REC_ALIGN_def)
  have "(d + ?n * 4) mod 4 = 0" using align_up_mod [of "fo + fl"] by (simp add: d_def REC_ALIGN_def mod_add_eq [symmetric])
  then have ho: "d + ?n * 4 \<le> ho" "ho \<le> d + ?n * 4 + 4"
  proof -
    assume m: "(d + ?n * 4) mod 4 = 0"
    have "ho mod 8 = 0" by (simp add: ho_def align_up_def)
    moreover have b: "d + ?n * 4 \<le> ho" "ho < d + ?n * 4 + 8" using align_up_bound [of 8 "d + ?n * 4"] by (simp_all add: ho_def)
    ultimately show "d + ?n * 4 \<le> ho" "ho \<le> d + ?n * 4 + 4" using m by presburger+
  qed
  have big: "fence_len ?items (2 ^ s) \<le> 2 ^ 48"
  proof -
    have "fence_total ?items (2 ^ s) \<le> ?n * U16_MAX" using fence_total_le [OF small s(2)] length_lengths [OF es] by simp
    moreover have "fl \<le> (fn + 1) * 4 + fence_total ?items (2 ^ s)" using fence_blob_total [OF es, of s] by (simp add: fl_def fn_def)
    moreover have "align_up fl 4 < fl + 4" using align_up_less [of fl] by (simp add: REC_ALIGN_def)
    moreover have "(fn + 1) * 4 \<le> (?n + 1) * 4" using fnn by simp
    moreover have "a \<le> e + f + 4" if "t \<le> f" "l \<le> c + t" "a < l + 4" "c \<le> e" for a c e f l t :: nat using that by linarith
    ultimately have "align_up fl 4 \<le> (?n + 1) * 4 + ?n * U16_MAX + 4" by blast
    then show ?thesis using n30 unfolding flen by (simp add: U16_MAX_def)
  qed
  have tot: "tot = ho + 2 ^ k * 8" using ts(2) by (simp add: SLOT_def)
  have rl32: "rl \<le> 2 ^ 32" using recs by (simp add: rl_def MAX_RECS_def U32_MAX_def)
  have lim: "tot \<le> 2 ^ 50" using tot ho(2) d fo big rl32 n30 kk(2) by (simp add: HEADER_def)
  have s62: "(2 :: nat) ^ s \<le> USIZE_MAX"
    using s(1) target by (auto simp: fence_stride_def next_power_of_two_def Let_def split: if_splits)
  obtain hb hdr where H: "set_checksum_words (header_bytes (section_words gen ?n (2 ^ k) ho d rl fo fn (2 ^ s))) tot = Some hb" "header_parse hb = Some hdr"
      "h_nkeys hdr = ?n" "h_crc_off hdr = tot" "h_piece_shift hdr = PIECE_SHIFT" "h_fence_n hdr = fn" "h_fence_offs_off hdr = fo" "h_hash_off hdr = ho"
      "h_dir_base hdr = d" "h_recs_off hdr = HEADER"
  proof (rule header_back [where n = ?n and k = k and ho = ho and d = d and rl = rl and fo = fo and fn = fn and st = "2 ^ s" and tot = tot and gen = gen])
    show "?n < 2 ^ k" by (rule kk(1))
    show "0 < tot" using tot by simp
  qed (use lim tot ho(1) d fo s62 fnn n30 in \<open>simp_all add: USIZE_MAX_def\<close>)
  have h: "h = header_bytes (section_words gen ?n (2 ^ k) ho d rl fo fn (2 ^ s))" using ts(1) trailer_header_eq by simp
  show thesis
  proof (rule that)
    show "stream_trailer target ?n (length (recs_bytes compact es)) (\<lambda>i. fst (es ! i)) each st gen lookahead = Some (Some ((h, t, tot), st'))"
      using T by (simp add: rl_def)
    show "set_checksum_words h tot = Some hb" using H(1) h by simp
    show "tot \<le> section_len ?n k (fence_len ?items (2 ^ s)) (length (recs_bytes compact es)) + 4"
      using tot ho(2) d fo by (simp add: section_len_def SLOT_def rl_def)
    show "\<forall>row. snd (fence_span hdr (tot + row)) = fence_len ?items (2 ^ s)"
    proof
      fix row
      have "fo + 4 \<le> d" if "fn \<noteq> 0"
      proof -
        have "4 \<le> fl" using that by (simp add: fl_def)
        then show ?thesis using align_up_ge [of fl] d flen by (simp add: REC_ALIGN_def)
      qed
      then have "snd (fence_span hdr (tot + row)) = (if fn = 0 then 0 else d - fo)"
        by (intro fence_span_built [OF H(6-10) H(4)]) (use tot ho(1) fo in auto)
      then show "snd (fence_span hdr (tot + row)) = fence_len ?items (2 ^ s)" using fn0 d length_lengths [OF es] by (auto simp: fence_len_def)
    qed
  qed (use H tot in simp_all)
qed

lemma fits_mod: "table mod 4 = 0 \<Longrightarrow> dir mod 4 = 0 \<Longrightarrow> fits table row fence dir mod 4 = 0"
proof -
  assume t: "table mod 4 = 0" "dir mod 4 = 0"
  have "align8 n mod 4 = 0" for n using mod_mod_cancel [of 4 8 "align8 n"] align8_mod [of n] by simp
  then have "(align8 n + dir) mod 4 = 0" "(table + 8) mod 4 = 0" for n using t by (simp_all add: mod_add_eq [symmetric])
  then show ?thesis by (simp add: fits_def Let_def max_def)
qed

lemma table_len_mod: "block_table_len n mod 4 = 0"
  by (simp add: block_table_len_def BLK_HEADER_def BLK_ENTRY_def CRC_ROW_def mod_add_eq [symmetric] mod_mult_right_eq [symmetric])

lemma fence_len_mod: "fence_len items S mod 4 = 0"
  by (simp add: fence_len_def align_up_mod)

lemma checksum_row_pos: "0 < len \<Longrightarrow> checksum_row_len len PIECE_SHIFT base \<noteq> 0"
proof -
  assume "0 < len"
  then have "2 ^ PIECE_SHIFT \<le> base mod 2 ^ PIECE_SHIFT + len + 2 ^ PIECE_SHIFT - 1" by linarith
  then show ?thesis by (simp add: checksum_row_len_def piece_count_def div_ceil_def div_greater_zero_iff)
qed

text \<open>
  C9: The reserve the planner computes from lengths alone holds everything the head is to
  hold. For any entries in the records-first layout, whatever their runs, keys and block
  size: the blocks the writer cuts, the table over them, the section it streams and the
  header it parses back give a table, a fence span and a directory of exactly the planned
  lengths and a checksum row of at most the planned one, and each is placed in the reserve,
  the row, the fence and the directory behind the table, 8-aligned.
\<close>

theorem head_reserve_holds:
  fixes each :: "nat \<Rightarrow> 's \<Rightarrow> ((u32 \<times> u64) \<times> 's) option"
  assumes opts: "0 < target" "0 < im" "0 < block_size" "block_size < 2 ^ 32"
    and es: "list_all2 (stored im) es runs" and keys: "\<forall>e \<in> set es. length (fst e) \<le> U16_MAX" and runs: "\<forall>r \<in> set runs. length r \<le> MAX_RUN"
    and recs: "length (recs_bytes compact es) \<le> MAX_RECS"
    and each: "\<And>i st. i < length es \<Longrightarrow> \<exists>st'. each i st = Some ((off i, hsh i), st')"
  shows "\<exists>r ats s s' table h t tot st' hb hdr row fence.
    for_lengths_as target (lengths_of es runs) block_size im compact = Some (Some r) \<and>
    place_runs deflate on (seg_new block_size lz4 True out) (filter (\<lambda>r. im < length r) runs) = Some (ats, s) \<and>
    finish_blocks deflate on s = Some s' \<and> encode_blocks (sb_blocks s') (sb_rows s') = Some table \<and>
    stream_trailer target (length es) (length (recs_bytes compact es)) (\<lambda>i. fst (es ! i)) each st gen lookahead = Some (Some ((h, t, tot), st')) \<and>
    set_checksum_words h tot = Some hb \<and> header_parse hb = Some hdr \<and>
    row = checksum_row_len (h_crc_off hdr) (h_piece_shift hdr) (SUPER + reserve_bytes r) \<and> fence = snd (fence_span hdr (tot + row)) \<and>
    rv_table r = length table \<and> rv_fence r = fence \<and> rv_directory r = h_nkeys hdr * 4 \<and> row \<le> rv_row r \<and>
    place_head SUPER (reserve_bytes r) (length table) row fence (h_nkeys hdr * 4) =
      \<lparr>hc_table = Some SUPER, hc_row = Some (SUPER + align8 (length table)),
       hc_fence = (if fence = 0 then None else Some (SUPER + align8 (align8 (length table) + row))),
       hc_dir = (if es = [] then None else Some (SUPER + align8 (align8 (align8 (length table) + row) + fence)))\<rparr>"
proof -
  let ?items = "lengths_of es runs"
  have small: "\<forall>x \<in> set ?items. small x"
  proof
    fix x assume "x \<in> set ?items"
    then have "fst x \<in> set (map (\<lambda>e. length (fst e)) es)" "snd x \<in> set (map length runs)"
      unfolding lengths_of_def by (metis prod.collapse set_zip_leftD, metis prod.collapse set_zip_rightD)
    then show "small x" using keys runs by (auto simp: small_def)
  qed
  have rt: "rec_total im compact ?items = length (recs_bytes compact es)" using recs_total [OF es] by simp
  obtain s k nb where F: "fence_stride target (length ?items) = Some (2 ^ s)" "4 \<le> s" "hash_cap_for (length ?items) = Some (2 ^ k)"
      "blocks_for (block_runs im ?items) block_size = Some nb"
      "for_lengths_as target ?items block_size im compact = Some (Some
        \<lparr>rv_table = block_table_len nb,
         rv_row = checksum_row_len (section_len (length ?items) k (fence_len ?items (2 ^ s)) (rec_total im compact ?items)) PIECE_SHIFT (2 ^ PIECE_SHIFT - 1),
         rv_fence = fence_len ?items (2 ^ s), rv_directory = length ?items * 4\<rparr>)"
    by (rule for_lengths_eq [OF opts(1) small recs [folded rt], where bs = block_size])
  note F = F [unfolded length_lengths [OF es] rt]
  define sec where "sec = section_len (length es) k (fence_len ?items (2 ^ s)) (length (recs_bytes compact es))"
  define r where "r = \<lparr>rv_table = block_table_len nb, rv_row = checksum_row_len sec PIECE_SHIFT (2 ^ PIECE_SHIFT - 1),
      rv_fence = fence_len ?items (2 ^ s), rv_directory = length es * 4\<rparr>"
  have rf: "rv_table r = block_table_len nb" "rv_row r = checksum_row_len sec PIECE_SHIFT (2 ^ PIECE_SHIFT - 1)"
      "rv_fence r = fence_len ?items (2 ^ s)" "rv_directory r = length es * 4" by (simp_all add: r_def)
  have "length es * 4 \<le> MAX_RECS" using recs_ge [of es compact] recs by simp
  then have cnt: "length runs < 2 ^ 32" using es by (simp add: list_all2_lengthD MAX_RECS_def U32_MAX_def)
  obtain ats w w' table where W: "place_runs deflate on (seg_new block_size lz4 True out) (filter (\<lambda>r. im < length r) runs) = Some (ats, w)"
      "finish_blocks deflate on w = Some w'" "encode_blocks (sb_blocks w') (sb_rows w') = Some table" "length table = block_table_len nb"
    by (rule blocks_written [OF opts(3,4,2) es runs cnt F(4), of deflate on lz4 out])
  obtain h t tot st' hb hdr where S:
      "stream_trailer target (length es) (length (recs_bytes compact es)) (\<lambda>i. fst (es ! i)) each st gen lookahead = Some (Some ((h, t, tot), st'))"
      "set_checksum_words h tot = Some hb" "header_parse hb = Some hdr" "h_nkeys hdr = length es" "h_crc_off hdr = tot" "h_piece_shift hdr = PIECE_SHIFT"
      "0 < tot" "tot \<le> sec + 4" "\<forall>row. snd (fence_span hdr (tot + row)) = fence_len ?items (2 ^ s)"
    by (rule section_written [where each = each and off = off and hsh = hsh and st = st and gen = gen and lookahead = lookahead,
        OF opts(1) es recs small each F(1-3), folded sec_def])
  define row where "row = checksum_row_len tot PIECE_SHIFT (SUPER + reserve_bytes r)"
  have "reserve_bytes r mod 4 = 0" unfolding reserve_bytes_def rf by (rule fits_mod) (simp_all add: table_len_mod)
  then have base: "(SUPER + reserve_bytes r) mod 4 = 0" by (simp add: SUPER_def mod_add_eq [symmetric])
  have "sec mod 4 = 0" unfolding sec_def section_len_def
    using fence_len_mod [of ?items "2 ^ s"] recs_mod [of compact es]
    by (simp add: HEADER_def SLOT_def mod_add_eq [symmetric] mod_mult_right_eq [symmetric])
  then have rw: "row \<le> rv_row r" unfolding row_def rf by (intro row_within base S(8))
  have r0: "row \<noteq> 0" unfolding row_def by (rule checksum_row_pos [OF S(7)])
  have W4: "rv_table r = length table" by (simp only: rf W(4))
  have "place_head SUPER (reserve_bytes r) (length table) row (rv_fence r) (length es * 4) =
      \<lparr>hc_table = Some SUPER, hc_row = (if row = 0 then None else Some (SUPER + align8 (length table))),
       hc_fence = (if rv_fence r = 0 then None else Some (SUPER + align8 (align8 (length table) + row))),
       hc_dir = (if length es * 4 = 0 then None else Some (SUPER + align8 (align8 (align8 (length table) + row) + rv_fence r)))\<rparr>"
    unfolding reserve_bytes_def W4 by (rule place_head_fits) (use rw in \<open>simp_all add: SUPER_def rf\<close>)
  moreover have "length es * 4 = 0 \<longleftrightarrow> es = []" by simp
  ultimately have P: "place_head SUPER (reserve_bytes r) (length table) row (rv_fence r) (h_nkeys hdr * 4) =
      \<lparr>hc_table = Some SUPER, hc_row = Some (SUPER + align8 (length table)),
       hc_fence = (if rv_fence r = 0 then None else Some (SUPER + align8 (align8 (length table) + row))),
       hc_dir = (if es = [] then None else Some (SUPER + align8 (align8 (align8 (length table) + row) + rv_fence r)))\<rparr>"
    using r0 by (simp only: S(4) if_False)
  show ?thesis
  proof (intro exI conjI)
    show "for_lengths_as target ?items block_size im compact = Some (Some r)" unfolding r_def sec_def by (rule F(5))
    show "place_runs deflate on (seg_new block_size lz4 True out) (filter (\<lambda>r. im < length r) runs) = Some (ats, w)" by (rule W(1))
    show "finish_blocks deflate on w = Some w'" by (rule W(2))
    show "encode_blocks (sb_blocks w') (sb_rows w') = Some table" by (rule W(3))
    show "stream_trailer target (length es) (length (recs_bytes compact es)) (\<lambda>i. fst (es ! i)) each st gen lookahead = Some (Some ((h, t, tot), st'))"
      by (rule S(1))
    show "set_checksum_words h tot = Some hb" by (rule S(2))
    show "header_parse hb = Some hdr" by (rule S(3))
    show "row = checksum_row_len (h_crc_off hdr) (h_piece_shift hdr) (SUPER + reserve_bytes r)" by (simp only: row_def S(5,6))
    show "rv_fence r = snd (fence_span hdr (tot + row))" using S(9) by (simp only: rf simp_thms)
    show "rv_table r = length table" by (rule W4)
    show "rv_directory r = h_nkeys hdr * 4" by (simp only: rf S(4))
    show "row \<le> rv_row r" by (rule rw)
  qed (rule refl P)+
qed

text \<open>A key whose run is inline and one whose run is in a block.\<close>

definition two_entries :: "entry list" where
  "two_entries =
    [([65], [\<lparr>e_block = INLINE, e_off = 0, e_len = 2, e_last = 0, e_count = 1\<rparr>], [1, 2]),
     ([66], [\<lparr>e_block = 0, e_off = 0, e_len = 4, e_last = 0, e_count = 1\<rparr>], [])]"

theorem head_reserve_witness:
  "\<exists>r ats s s' table h t tot st' hb hdr row fence.
    for_lengths_as 16384 (lengths_of two_entries [[1, 2], [1, 2, 3, 4]]) 4096 2 True = Some (Some r) \<and>
    place_runs (\<lambda>bs. bs) True (seg_new 4096 False True []) (filter (\<lambda>r. 2 < length r) [[1, 2], [1, 2, 3, 4]]) = Some (ats, s) \<and>
    finish_blocks (\<lambda>bs. bs) True s = Some s' \<and> encode_blocks (sb_blocks s') (sb_rows s') = Some table \<and>
    stream_trailer 16384 (length two_entries) (length (recs_bytes True two_entries)) (\<lambda>i. fst (two_entries ! i)) (\<lambda>i st. Some ((0, 0), st + 1)) (0 :: nat) 1 False
      = Some (Some ((h, t, tot), st')) \<and>
    set_checksum_words h tot = Some hb \<and> header_parse hb = Some hdr \<and>
    row = checksum_row_len (h_crc_off hdr) (h_piece_shift hdr) (SUPER + reserve_bytes r) \<and> fence = snd (fence_span hdr (tot + row)) \<and>
    rv_table r = length table \<and> rv_fence r = fence \<and> rv_directory r = h_nkeys hdr * 4 \<and> row \<le> rv_row r \<and>
    place_head SUPER (reserve_bytes r) (length table) row fence (h_nkeys hdr * 4) =
      \<lparr>hc_table = Some SUPER, hc_row = Some (SUPER + align8 (length table)),
       hc_fence = (if fence = 0 then None else Some (SUPER + align8 (align8 (length table) + row))),
       hc_dir = (if two_entries = [] then None else Some (SUPER + align8 (align8 (align8 (length table) + row) + fence)))\<rparr>"
proof (rule head_reserve_holds [where off = "\<lambda>i. 0" and hsh = "\<lambda>i. 0"])
  show "list_all2 (stored 2) two_entries [[1, 2], [1, 2, 3, 4]]"
    by (simp add: two_entries_def stored_def inlined_def is_inline_def INLINE_def Let_def)
  show "length (recs_bytes True two_entries) \<le> MAX_RECS"
    by (simp add: two_entries_def recs_bytes_def Flat_Section.entry_bytes_def length_record_bytes compacts_def is_inline_def INLINE_def COMPACT_RUN_def
        record_len_compact_def record_len_tail_def record_len_def align_up_def REC_ALIGN_def EXT_BYTES_def MAX_RECS_def U32_MAX_def)
qed (simp_all add: two_entries_def U16_MAX_def MAX_RUN_def U32_MAX_def)

end
