(* ===== verification/Ord_Index.thy ===== *)
theory Ord_Index
  imports Key_Order Flat_Seek Crc32c
begin

text \<open>
  The ordered index of a segment (ordindex.rs): a file of one eight-byte head a key,
  the bytes after the prefix the keys share, in key order behind a header and under a
  checksum. This theory has the writers (the builder and the composer), the open, and
  every search over the heads; a file is its bytes, and the mapping's advice to the
  kernel is the flag the index keeps of it. A read of the mapping out of range is a
  panic, which is None.
\<close>

definition ORD_MAGIC :: u64 where "ORD_MAGIC = 0x3144524f44505553"
definition ORD_HEADER :: nat where "ORD_HEADER = 64"
definition HEAD :: nat where "HEAD = 8"
definition TOP_STRIDE :: nat where "TOP_STRIDE = 64"
definition UNIFORM_AT :: nat where "UNIFORM_AT = 32"

definition u64_be :: "u64 \<Rightarrow> bytes" where
  "u64_be v = rev (u64_le v)"

definition head_of :: "bytes \<Rightarrow> nat \<Rightarrow> u64" where
  "head_of key pfx =
    (let from = min pfx (length key);
         n = min (length key - from) HEAD
     in be_u64 (take n (drop from key) @ replicate (HEAD - n) 0))"

definition common_prefix :: "bytes \<Rightarrow> bytes \<Rightarrow> nat" where
  "common_prefix first lst = length (takeWhile (\<lambda>(a, b). a = b) (zip first lst))"

subsection \<open>The writers\<close>

record composer =
  co_out :: bytes
  co_pfx :: nat
  co_len0 :: nat
  co_uniform :: bool
  co_n :: nat
  co_pushed :: nat

definition composer_new :: "nat \<Rightarrow> bytes \<Rightarrow> bytes \<Rightarrow> composer" where
  "composer_new n first lst =
    (let pfx = if n = 0 then 0 else common_prefix first lst;
         len0 = if n = 0 then 0 else length first
     in \<lparr>co_out = replicate ORD_HEADER 0, co_pfx = pfx, co_len0 = len0, co_uniform = (0 < n \<and> len0 \<le> pfx + HEAD), co_n = n, co_pushed = 0\<rparr>)"

definition composer_push :: "composer \<Rightarrow> bytes \<Rightarrow> composer" where
  "composer_push c key =
    c\<lparr>co_uniform := co_uniform c \<and> length key = co_len0 c,
      co_out := co_out c @ u64_be (head_of key (co_pfx c)),
      co_pushed := co_pushed c + 1\<rparr>"

definition composer_finish :: "composer \<Rightarrow> bytes option" where
  "composer_finish c =
    do { assert_that (co_pushed c = co_n c);
         out \<leftarrow> put (co_out c) 0 (u64_le ORD_MAGIC);
         out \<leftarrow> put out 8 (u64_le (word_of_nat (co_n c)));
         out \<leftarrow> put out 16 (u64_le (word_of_nat (co_pfx c)));
         out \<leftarrow> put out 24 (u64_le (word_of_nat ORD_HEADER));
         out \<leftarrow> put out UNIFORM_AT (u64_le (if co_uniform c then word_of_nat (co_len0 c) + 1 else 0));
         Some (out @ u32_le (crc32 out)) }"

text \<open>The keys come from a closure, which may panic.\<close>

fun push_from :: "(nat \<Rightarrow> bytes option) \<Rightarrow> composer \<Rightarrow> nat list \<Rightarrow> composer option" where
  "push_from kat c [] = Some c"
| "push_from kat c (i # is) = do { k \<leftarrow> kat i; push_from kat (composer_push c k) is }"

definition finish_from :: "nat \<Rightarrow> (nat \<Rightarrow> bytes option) \<Rightarrow> bytes option" where
  "finish_from n kat =
    do { c \<leftarrow> (if n = 0 then Some (composer_new 0 [] [])
               else do { first \<leftarrow> kat 0; lst \<leftarrow> kat (n - 1); Some (composer_new n first lst) });
         c \<leftarrow> push_from kat c [0..<n];
         composer_finish c }"

record builder =
  bu_starts :: "u32 list"
  bu_bytes :: bytes
  bu_n :: nat

definition builder_new :: builder where
  "builder_new = \<lparr>bu_starts = [], bu_bytes = [], bu_n = 0\<rparr>"

definition builder_push :: "builder \<Rightarrow> bytes \<Rightarrow> builder" where
  "builder_push b key =
    b\<lparr>bu_starts := bu_starts b @ [word_of_nat (length (bu_bytes b))], bu_bytes := bu_bytes b @ key, bu_n := bu_n b + 1\<rparr>"

definition builder_finish :: "builder \<Rightarrow> bytes option" where
  "builder_finish b =
    (let starts = bu_starts b @ [word_of_nat (length (bu_bytes b))]
     in finish_from (bu_n b)
          (\<lambda>i. do { from \<leftarrow> index starts i; upto \<leftarrow> index starts (i + 1); slice (bu_bytes b) (unat from) (unat upto) }))"

subsection \<open>The open\<close>

record ord_index =
  oi_map :: bytes
  oi_advised :: bool
  oi_n :: nat
  oi_pfx :: nat
  oi_uniform_len :: "nat option"
  oi_prefix :: "bytes option"
  oi_top :: "u64 list"

definition rd_word :: "bytes \<Rightarrow> nat \<Rightarrow> (string, nat) res" where
  "rd_word b at = lift_res (do { w \<leftarrow> slice b at (at + 8); Some (le_val w) })"

definition uniform_of :: "nat \<Rightarrow> nat \<Rightarrow> (string, nat option) res" where
  "uniform_of w pfx =
    (if w = 0 then Ok None
     else let l = w - 1
          in if l < pfx \<or> wrapping_add pfx HEAD < l then Err ''uniform length is outside the prefix and the head'' else Ok (Some l))"

fun top_heads :: "bytes \<Rightarrow> nat list \<Rightarrow> u64 list option" where
  "top_heads b [] = Some []"
| "top_heads b (i # is) =
    (let at = ORD_HEADER + i * HEAD
     in do { w \<leftarrow> slice b at (at + HEAD); hs \<leftarrow> top_heads b is; Some (be_u64 w # hs) })"

text \<open>The ranks a stride apart.\<close>

definition strided :: "nat \<Rightarrow> nat list" where
  "strided n = map (\<lambda>t. t * TOP_STRIDE) [0..<div_ceil n TOP_STRIDE]"

definition ord_open :: "bytes \<Rightarrow> nat \<Rightarrow> (string, ord_index) res" where
  "ord_open b keys =
    (if length b < ORD_HEADER + 4 then Err ''shorter than its header''
     else let body = length b - 4
          in bind_res (lift_res (do { w \<leftarrow> slice b body (length b); c \<leftarrow> slice b 0 body; Some (le_val w, c) })) (\<lambda>(crc, c).
             if unat (crc32 c) \<noteq> crc then Err ''checksum does not match''
             else bind_res (rd_word b 0) (\<lambda>magic. if magic \<noteq> unat ORD_MAGIC then Err ''wrong magic''
             else bind_res (rd_word b 8) (\<lambda>n. bind_res (rd_word b 16) (\<lambda>pfx. bind_res (rd_word b 24) (\<lambda>heads_at.
             if n \<noteq> keys then Err ''describes a different segment''
             else bind_res (rd_word b UNIFORM_AT) (\<lambda>w. bind_res (uniform_of w pfx) (\<lambda>uniform_len.
             case checked_mul n HEAD of
               None \<Rightarrow> Err ''key count overflows''
             | Some want \<Rightarrow>
                 if heads_at \<noteq> ORD_HEADER \<or> checked_add heads_at want \<noteq> Some body then Err ''heads do not fill the file''
                 else bind_res (lift_res (top_heads b (strided n))) (\<lambda>top.
                   Ok \<lparr>oi_map = b, oi_advised = False, oi_n = n, oi_pfx = pfx, oi_uniform_len = uniform_len, oi_prefix = None, oi_top = top\<rparr>)))))))))"

subsection \<open>Reads of the heads\<close>

definition ord_uniform :: "ord_index \<Rightarrow> bool" where
  "ord_uniform ix \<longleftrightarrow> oi_uniform_len ix \<noteq> None"

definition learn_prefix :: "ord_index \<Rightarrow> bytes \<Rightarrow> ord_index" where
  "learn_prefix ix first_key = (let m = min (oi_pfx ix) (length first_key) in ix\<lparr>oi_prefix := Some (take m first_key)\<rparr>)"

definition advise_random :: "ord_index \<Rightarrow> ord_index" where
  "advise_random ix = ix\<lparr>oi_advised := True\<rparr>"

definition ord_head :: "ord_index \<Rightarrow> nat \<Rightarrow> u64 option" where
  "ord_head ix i = (let at = ORD_HEADER + i * HEAD in do { w \<leftarrow> slice (oi_map ix) at (at + HEAD); Some (be_u64 w) })"

text \<open>A read that answers nothing is the inner None.\<close>

definition whole_key_at :: "ord_index \<Rightarrow> nat \<Rightarrow> bytes option option" where
  "whole_key_at ix rank =
    (case (oi_uniform_len ix, oi_prefix ix) of
       (Some len, Some prefix) \<Rightarrow>
         if oi_n ix \<le> rank \<or> length prefix \<noteq> oi_pfx ix then Some None
         else do { h \<leftarrow> (if rank mod TOP_STRIDE = 0 then index (oi_top ix) (rank div TOP_STRIDE) else ord_head ix rank);
                   m \<leftarrow> usub len (oi_pfx ix);
                   w \<leftarrow> slice (u64_be h) 0 m;
                   Some (Some (prefix @ w)) }
     | _ \<Rightarrow> Some None)"

definition top_key_at :: "ord_index \<Rightarrow> nat \<Rightarrow> bytes option option" where
  "top_key_at ix rank = (if rank mod TOP_STRIDE \<noteq> 0 then Some None else whole_key_at ix rank)"

definition key_below :: "(nat \<Rightarrow> bytes option) \<Rightarrow> bytes \<Rightarrow> nat \<Rightarrow> bool" where
  "key_below kat key r = (case kat r of Some k \<Rightarrow> k < key | None \<Rightarrow> False)"

function walk_below :: "(nat \<Rightarrow> bool option) \<Rightarrow> nat \<Rightarrow> nat \<Rightarrow> nat option" where
  "walk_below step n r = (if r < n then do { t \<leftarrow> step r; if t then walk_below step n (r + 1) else Some r } else Some r)"
  by auto
termination
  by (relation "measure (\<lambda>(step, n, r). n - r)") auto

declare walk_below.simps [simp del]

text \<open>One step of the walk along the heads: whether the key at a rank is below the query.\<close>

definition head_below :: "ord_index \<Rightarrow> (nat \<Rightarrow> bytes option) \<Rightarrow> bytes \<Rightarrow> u64 \<Rightarrow> nat \<Rightarrow> bool option" where
  "head_below ix kat key hk r =
    do { h \<leftarrow> ord_head ix r;
         Some (if hk < h then False
               else if h = hk then (case oi_uniform_len ix of Some len \<Rightarrow> len < length key | None \<Rightarrow> key_below kat key r)
               else True) }"

definition advance_below :: "ord_index \<Rightarrow> nat \<Rightarrow> bytes \<Rightarrow> (nat \<Rightarrow> bytes option) \<Rightarrow> nat option" where
  "advance_below ix from key kat =
    (case oi_prefix ix of
       None \<Rightarrow> walk_below (\<lambda>r. Some (key_below kat key r)) (oi_n ix) from
     | Some prefix \<Rightarrow>
         let along = walk_below (head_below ix kat key (head_of key (oi_pfx ix))) (oi_n ix) from
         in if 0 < oi_pfx ix
            then let m = min (min (oi_pfx ix) (length key)) (length prefix)
                 in do { ord \<leftarrow> cmp_short (take m key) (take m prefix);
                         case ord of
                           Less \<Rightarrow> Some from
                         | Greater \<Rightarrow> Some (oi_n ix)
                         | Equal \<Rightarrow> if m < oi_pfx ix then Some from else along }
            else along)"

definition stride_window :: "ord_index \<Rightarrow> bytes \<Rightarrow> (nat \<times> nat) option option" where
  "stride_window ix key =
    (let window = do { t \<leftarrow> lower_bound (oi_top ix) (head_of key (oi_pfx ix));
                       Some (Some (if t = 0 then (0, min TOP_STRIDE (oi_n ix))
                                   else ((t - 1) * TOP_STRIDE + 1, min (t * TOP_STRIDE) (oi_n ix)))) }
     in if oi_n ix = 0 then Some None
        else if 0 < oi_pfx ix
        then (case oi_prefix ix of
                None \<Rightarrow> Some None
              | Some prefix \<Rightarrow>
                  if length key < oi_pfx ix \<or> take (oi_pfx ix) key \<noteq> take (min (oi_pfx ix) (length prefix)) prefix then Some None else window)
        else window)"

definition head_page :: "nat \<Rightarrow> nat \<Rightarrow> nat option" where
  "head_page rank page = (if page = 0 then None else Some ((ORD_HEADER + rank * HEAD) div page))"

definition page_end :: "nat \<Rightarrow> nat \<Rightarrow> nat option" where
  "page_end rank page = do { p \<leftarrow> head_page rank page; Some (div_ceil ((p + 1) * page - ORD_HEADER) HEAD) }"

subsection \<open>The seeks\<close>

text \<open>The run of equal heads: doubling steps past its start, then a bisection.\<close>

partial_function (option) gallop_run :: "ord_index \<Rightarrow> u64 \<Rightarrow> nat \<Rightarrow> nat \<Rightarrow> nat \<Rightarrow> (nat \<times> nat) option" where
  "gallop_run ix h from lo step =
    (let p = saturating_add from step
     in if oi_n ix \<le> p then Some (lo, step)
        else do { x \<leftarrow> ord_head ix p; if x \<noteq> h then Some (lo, step) else gallop_run ix h from p (step * 2) })"

definition run_end :: "ord_index \<Rightarrow> u64 \<Rightarrow> nat \<Rightarrow> nat option" where
  "run_end ix h from =
    do { (lo, step) \<leftarrow> gallop_run ix h from from 1;
         let hi = min (saturating_add from step) (oi_n ix);
         halve (\<lambda>m. do { x \<leftarrow> ord_head ix m; Some (x = h) }) (lo + 1) hi }"

text \<open>The search of a window for a query that carries the prefix.\<close>

definition search_in :: "ord_index \<Rightarrow> nat \<Rightarrow> nat \<Rightarrow> u64 \<Rightarrow> bytes \<Rightarrow> (nat \<Rightarrow> bytes option) \<Rightarrow> (nat \<times> bool option) option" where
  "search_in ix lo hi h key kat =
    do { a \<leftarrow> halve (\<lambda>m. do { x \<leftarrow> ord_head ix m; Some (x < h) }) lo hi;
         tie \<leftarrow> (if hi \<le> a then Some False else do { x \<leftarrow> ord_head ix a; Some (x = h) });
         if \<not> tie then Some (a, Some False)
         else case oi_uniform_len ix of
           Some len \<Rightarrow>
             if length key \<le> len then Some (a, Some (length key = len))
             else do { e \<leftarrow> run_end ix h a; Some (min e hi, Some False) }
         | None \<Rightarrow>
             do { e \<leftarrow> run_end ix h a;
                  a \<leftarrow> halve (\<lambda>m. Some (key_below kat key m)) a (min e hi);
                  Some (a, if hi \<le> a then Some False else None) } }"

definition seek_in_exact :: "ord_index \<Rightarrow> nat \<Rightarrow> nat \<Rightarrow> bytes \<Rightarrow> (nat \<Rightarrow> bytes option) \<Rightarrow> (nat \<times> bool option) option" where
  "seek_in_exact ix lo hi key kat =
    (let hi = min hi (oi_n ix);
         h = head_of key (oi_pfx ix)
     in if hi \<le> lo then Some (hi, Some False)
        else if 0 < oi_pfx ix
        then (case (case oi_prefix ix of Some p \<Rightarrow> Some p | None \<Rightarrow> kat 0) of
                None \<Rightarrow> Some (lo, Some False)
              | Some first \<Rightarrow>
                  let m = min (min (oi_pfx ix) (length key)) (length first)
                  in do { ord \<leftarrow> cmp_short (take m key) (take m first);
                          case ord of
                            Less \<Rightarrow> Some (lo, Some False)
                          | Greater \<Rightarrow> Some (hi, Some False)
                          | Equal \<Rightarrow> if m < oi_pfx ix then Some (lo, Some False) else search_in ix lo hi h key kat })
        else search_in ix lo hi h key kat)"

definition seek_in :: "ord_index \<Rightarrow> nat \<Rightarrow> nat \<Rightarrow> bytes \<Rightarrow> (nat \<Rightarrow> bytes option) \<Rightarrow> nat option" where
  "seek_in ix lo hi key kat = map_option fst (seek_in_exact ix lo hi key kat)"

definition outside_prefix :: "ord_index \<Rightarrow> bytes \<Rightarrow> (nat \<Rightarrow> bytes option) \<Rightarrow> (nat \<times> bool option) option option" where
  "outside_prefix ix key kat =
    (if oi_pfx ix = 0 then Some None
     else case (case oi_prefix ix of Some p \<Rightarrow> Some p | None \<Rightarrow> kat 0) of
       None \<Rightarrow> Some (Some (0, Some False))
     | Some first \<Rightarrow>
         let m = min (min (oi_pfx ix) (length key)) (length first)
         in do { ord \<leftarrow> cmp_short (take m key) (take m first);
                 Some (case ord of
                         Less \<Rightarrow> Some (0, Some False)
                       | Greater \<Rightarrow> Some (oi_n ix, Some False)
                       | Equal \<Rightarrow> if m < oi_pfx ix then Some (0, Some False) else None) })"

definition exact_at :: "ord_index \<Rightarrow> nat \<Rightarrow> u64 \<Rightarrow> bytes \<Rightarrow> (nat \<Rightarrow> bytes option) \<Rightarrow> (nat \<times> bool option) option" where
  "exact_at ix lo h key kat =
    do { tie \<leftarrow> (if oi_n ix \<le> lo then Some False else do { x \<leftarrow> ord_head ix lo; Some (x = h) });
         if \<not> tie then Some (lo, map_option (\<lambda>_. False) (oi_uniform_len ix))
         else case oi_uniform_len ix of
           Some len \<Rightarrow>
             if length key \<le> len then Some (lo, Some (length key = len))
             else do { e \<leftarrow> run_end ix h lo; Some (e, Some False) }
         | None \<Rightarrow>
             do { e \<leftarrow> run_end ix h lo;
                  a \<leftarrow> halve (\<lambda>m. Some (key_below kat key m)) lo e;
                  Some (a, None) } }"

text \<open>
  The window's callback passes a state of its own; asking for the window's lines is a
  hint that first takes a slice of the mapping.
\<close>

definition seek_exact_hint ::
    "ord_index \<Rightarrow> bytes \<Rightarrow> (nat \<Rightarrow> bytes option) \<Rightarrow> (nat \<Rightarrow> nat \<Rightarrow> 's \<Rightarrow> 's) \<Rightarrow> 's \<Rightarrow> ((nat \<times> bool option) \<times> 's) option" where
  "seek_exact_hint ix key kat on_window st =
    (if oi_n ix = 0 then Some ((0, Some False), st)
     else do { out \<leftarrow> outside_prefix ix key kat;
               case out of
                 Some ans \<Rightarrow> Some (ans, st)
               | None \<Rightarrow>
                   let h = head_of key (oi_pfx ix)
                   in do { t \<leftarrow> lower_bound (oi_top ix) h;
                           let (lo, hi) = (if t = 0 then (0, 0) else ((t - 1) * TOP_STRIDE + 1, min (t * TOP_STRIDE) (oi_n ix)));
                           (if lo < hi then assert_that (ORD_HEADER + lo * HEAD \<le> length (oi_map ix)) else Some ());
                           let st = on_window lo hi st;
                           w \<leftarrow> usub hi lo;
                           i \<leftarrow> select_lower_bound w (\<lambda>i. do { x \<leftarrow> ord_head ix (lo + i); Some (x < h) });
                           ans \<leftarrow> exact_at ix (lo + i) h key kat;
                           Some (ans, st) } })"

definition seek_exact :: "ord_index \<Rightarrow> bytes \<Rightarrow> (nat \<Rightarrow> bytes option) \<Rightarrow> (nat \<times> bool option) option" where
  "seek_exact ix key kat = map_option fst (seek_exact_hint ix key kat (\<lambda>_ _ st. st) ())"

definition ord_seek :: "ord_index \<Rightarrow> bytes \<Rightarrow> (nat \<Rightarrow> bytes option) \<Rightarrow> nat option" where
  "ord_seek ix key kat = map_option fst (seek_exact ix key kat)"

partial_function (option) gallop_from :: "ord_index \<Rightarrow> u64 \<Rightarrow> nat \<Rightarrow> nat \<Rightarrow> (nat \<times> nat) option" where
  "gallop_from ix h lo step =
    (let p = lo + step
     in if oi_n ix \<le> p then Some (lo, oi_n ix)
        else do { x \<leftarrow> ord_head ix p; if x < h then gallop_from ix h p (step * 2) else Some (lo, p) })"

definition seek_exact_from :: "ord_index \<Rightarrow> nat \<Rightarrow> bytes \<Rightarrow> (nat \<Rightarrow> bytes option) \<Rightarrow> (nat \<times> bool option) option" where
  "seek_exact_from ix from key kat =
    (if from = 0 \<or> oi_n ix \<le> from then seek_exact ix key kat
     else do { out \<leftarrow> outside_prefix ix key kat;
               case out of
                 Some ans \<Rightarrow> Some ans
               | None \<Rightarrow>
                   let h = head_of key (oi_pfx ix)
                   in do { x \<leftarrow> ord_head ix (from - 1);
                           if h \<le> x then seek_exact ix key kat
                           else do { y \<leftarrow> ord_head ix from;
                                     lo \<leftarrow> (if h \<le> y then Some from
                                           else do { (lo, hi) \<leftarrow> gallop_from ix h from 1;
                                                     let base = lo + 1;
                                                     w \<leftarrow> usub hi base;
                                                     i \<leftarrow> select_lower_bound w (\<lambda>i. do { x \<leftarrow> ord_head ix (base + i); Some (x < h) });
                                                     Some (base + i) });
                                     exact_at ix lo h key kat } } })"

end
