(* ===== verification/Ord_Seek.thy ===== *)
theory Ord_Seek
  imports Ord_Index
begin

text \<open>
  Every search of the ordered index answers what the records answer. The heads order
  the keys up to ties, the prefix decides a key that does not carry it, and a tie is
  broken by the keys' one length or by the records.
\<close>

subsection \<open>Heads in key order\<close>

fun pad :: "nat \<Rightarrow> bytes \<Rightarrow> bytes" where
  "pad 0 x = []"
| "pad (Suc n) [] = 0 # pad n []"
| "pad (Suc n) (c # x) = c # pad n x"

lemma length_pad [simp]: "length (pad n x) = n"
  by (induction n x rule: pad.induct) simp_all

lemma pad_eq: "pad n x = take n x @ replicate (n - length x) 0"
  by (induction n x rule: pad.induct) simp_all

lemma pad_mono: "a \<le> b \<Longrightarrow> pad n a \<le> pad n b"
proof (induction n a arbitrary: b rule: pad.induct)
  case (2 n)
  then show ?case
  proof (cases b)
    case (Cons c x)
    have "pad n [] \<le> pad n x" using 2(1) by simp
    moreover have "(0 :: byte) \<le> c" by simp
    ultimately show ?thesis using Cons by (cases "c = 0") (simp_all add: less_le)
  qed simp
next
  case (3 n c x)
  then show ?case by (cases b) auto
qed simp

lemma head_of_pad: "head_of key pfx = be_u64 (pad HEAD (drop pfx key))"
proof -
  have "drop (min pfx (length key)) key = drop pfx key" by (cases "pfx \<le> length key") simp_all
  moreover have "length key - min pfx (length key) = length (drop pfx key)" by simp
  ultimately have "head_of key pfx = be_u64 (take (min (length (drop pfx key)) HEAD) (drop pfx key) @ replicate (HEAD - min (length (drop pfx key)) HEAD) 0)"
    unfolding head_of_def Let_def by metis
  moreover have "take (min (length x) HEAD) x @ replicate (HEAD - min (length x) HEAD) 0 = pad HEAD x" for x
    unfolding pad_eq by (cases "length x \<le> HEAD") simp_all
  ultimately show ?thesis by metis
qed

text \<open>Two keys behind one prefix.\<close>

lemma heads_le:
  assumes "take pfx k = take pfx k'" "k \<le> k'"
  shows "head_of k pfx \<le> head_of k' pfx"
proof -
  have "drop pfx k \<le> drop pfx k'"
  proof -
    have k: "take pfx k' @ drop pfx k = k" using assms(1) append_take_drop_id [of pfx k] by simp
    have "\<not> k' < k" using assms(2) by (simp add: not_less)
    then have "\<not> drop pfx k' < drop pfx k" using prefix_less [of "take pfx k'" "drop pfx k'" "drop pfx k"] by (simp add: k)
    then show ?thesis by (simp add: not_less)
  qed
  then have "pad HEAD (drop pfx k) \<le> pad HEAD (drop pfx k')" by (rule pad_mono)
  then have "\<not> pad HEAD (drop pfx k') < pad HEAD (drop pfx k)" by (simp add: not_less)
  moreover have "length (pad HEAD (drop pfx k)) = 8" "length (pad HEAD (drop pfx k')) = 8" by (simp_all add: HEAD_def)
  ultimately show ?thesis unfolding head_of_pad using be_u64_order(1) by (simp add: not_less [symmetric])
qed

lemma head_less: "take pfx k = take pfx k' \<Longrightarrow> head_of k pfx < head_of k' pfx \<Longrightarrow> k < k'"
  using heads_le [of pfx k' k] by (metis leD le_less_linear not_less)

lemma pad_prefix:
  assumes "pad n a = pad n b" "length a \<le> length b" "length a \<le> n"
  shows "take (length a) b = a"
proof -
  have "take (length a) (pad n a) = a" using assms(3) by (simp add: pad_eq)
  moreover have "take (length a) (pad n b) = take (length a) b" using assms(2,3) by (simp add: pad_eq min_def)
  ultimately show ?thesis using assms(1) by simp
qed

lemma proper_prefix_less: "take (length a) b = a \<Longrightarrow> length a < length b \<Longrightarrow> a < b" for a :: bytes
proof -
  assume a: "take (length a) b = a" and l: "length a < length b"
  then have "b = a @ drop (length a) b" by (metis append_take_drop_id)
  moreover have "drop (length a) b \<noteq> []" using l by simp
  ultimately show ?thesis using prefix_less [of a "[]" "drop (length a) b"] by (metis append_Nil2 Nil_less_Cons neq_Nil_conv)
qed

lemma tied_prefix:
  assumes t: "take pfx k = take pfx k'" and h: "head_of k pfx = head_of k' pfx" and l: "length k \<le> length k'" "pfx \<le> length k" "length k \<le> pfx + HEAD"
  shows "take (length k) k' = k"
proof -
  have "length (pad HEAD (drop pfx k)) = 8" "length (pad HEAD (drop pfx k')) = 8" by (simp_all add: HEAD_def)
  then have "pad HEAD (drop pfx k) = pad HEAD (drop pfx k')" using h be_u64_order(2) by (simp add: head_of_pad)
  then have "take (length (drop pfx k)) (drop pfx k') = drop pfx k" by (rule pad_prefix) (use l in auto)
  moreover have "take (length k) k' = take pfx k' @ take (length k - pfx) (drop pfx k')" using l by (metis le_add_diff_inverse take_add)
  ultimately show ?thesis using t append_take_drop_id [of pfx k] by simp
qed

subsection \<open>An index of a list of keys\<close>

definition ord_for :: "ord_index \<Rightarrow> bytes list \<Rightarrow> bytes \<Rightarrow> bool" where
  "ord_for ix ks p \<longleftrightarrow> oi_n ix = length ks \<and> length ks < USIZE_MAX \<and> sorted_wrt (<) ks
    \<and> length p = oi_pfx ix \<and> (\<forall>k \<in> set ks. take (oi_pfx ix) k = p)
    \<and> (\<forall>i < length ks. ord_head ix i = Some (head_of (ks ! i) (oi_pfx ix)))
    \<and> oi_top ix = map (\<lambda>i. head_of (ks ! i) (oi_pfx ix)) (strided (length ks))
    \<and> (\<forall>q. oi_prefix ix = Some q \<longrightarrow> q = p)
    \<and> (\<forall>len. oi_uniform_len ix = Some len \<longrightarrow> (\<forall>k \<in> set ks. length k = len) \<and> oi_pfx ix \<le> len \<and> len \<le> oi_pfx ix + HEAD)
    \<and> ORD_HEADER + length ks * HEAD \<le> length (oi_map ix)"

definition reads_at :: "(nat \<Rightarrow> bytes option) \<Rightarrow> bytes list \<Rightarrow> bool" where
  "reads_at kat ks \<longleftrightarrow> (\<forall>i < length ks. kat i = Some (ks ! i))"

lemma sorted_keys:
  assumes "sorted_wrt (<) ks" "i \<le> j" "j < length ks"
  shows "ks ! i \<le> (ks ! j :: bytes)"
  using sorted_wrt_nth_less [OF assms(1), of i j] assms by (cases "i = j") auto

lemma rank_cut: "sorted_wrt (<) ks \<Longrightarrow> cut (\<lambda>i. ks ! i < key) 0 (length ks) (rank_of ks key)"
  unfolding cut_def using rank_of_le rank_of_before rank_of_after by blast

lemma cut_rank: "sorted_wrt (<) ks \<Longrightarrow> cut (\<lambda>i. ks ! i < key) 0 (length ks) r \<Longrightarrow> r = rank_of ks key"
  using rank_cut cut_unique by blast

lemma heads_sorted:
  assumes "ord_for ix ks p" "i \<le> j" "j < length ks"
  shows "head_of (ks ! i) (oi_pfx ix) \<le> head_of (ks ! j) (oi_pfx ix)"
proof (rule heads_le)
  show "take (oi_pfx ix) (ks ! i) = take (oi_pfx ix) (ks ! j)" using assms by (simp add: ord_for_def)
  show "ks ! i \<le> ks ! j" using assms sorted_keys by (simp add: ord_for_def)
qed

text \<open>What the prefix says of a key: below all, above all, or a carrier of it.\<close>

lemma prefix_verdict:
  assumes o: "ord_for ix ks p" and f: "take (oi_pfx ix) first = p" and m: "m = min (min (oi_pfx ix) (length key)) (length first)"
  obtains ord where "cmp_short (take m key) (take m first) = Some ord"
    "ord = Less \<Longrightarrow> \<forall>k \<in> set ks. key < k" "ord = Greater \<Longrightarrow> \<forall>k \<in> set ks. k < key"
    "ord = Equal \<Longrightarrow> m < oi_pfx ix \<Longrightarrow> \<forall>k \<in> set ks. key < k" "ord = Equal \<Longrightarrow> \<not> m < oi_pfx ix \<Longrightarrow> take (oi_pfx ix) key = p"
proof -
  have p: "length p = oi_pfx ix" "\<And>k. k \<in> set ks \<Longrightarrow> take (oi_pfx ix) k = p" using o by (auto simp: ord_for_def)
  have lf: "oi_pfx ix \<le> length first" using p(1) f by (metis length_take min.cobounded1)
  then have m': "m = min (oi_pfx ix) (length key)" using m by simp
  have tf: "take m first = take m p" using f m' by (metis min.absorb1 min.cobounded1 take_take)
  have tk: "take m k = take m p" "m \<le> length k" if "k \<in> set ks" for k
    using p(2) [OF that] p(1) m' by (metis min.absorb1 min.cobounded1 take_take) (metis length_take m' min.cobounded1 min.coboundedI1 min.cobounded2 order_trans p that)
  have l: "length (take m key) = length (take m first)" using m' lf by simp
  have c: "cmp_short (take m key) (take m first) = Some (cmp (take m key) (take m p))" using cmp_short_order [OF l] tf by simp
  have lm: "length (take m key) = length (take m p)" using l tf by simp
  show thesis
  proof (rule that [OF c])
    show "\<forall>k \<in> set ks. key < k" if "cmp (take m key) (take m p) = Less"
      using window_less [OF lm, of "drop m key"] that tk(1) append_take_drop_id by (metis cmp_simps(2))
    show "\<forall>k \<in> set ks. k < key" if "cmp (take m key) (take m p) = Greater"
      using window_less [OF lm [symmetric]] that tk(1) append_take_drop_id by (metis cmp_simps(3))
    show "\<forall>k \<in> set ks. key < k" if "cmp (take m key) (take m p) = Equal" "m < oi_pfx ix"
    proof
      fix k assume k: "k \<in> set ks"
      have "m = length key" using m' that(2) by simp
      then have "take (length key) k = key" using tk(1) [OF k] that(1) by simp
      moreover have "length key < length k" using that(2) m' p k by (metis length_take min.cobounded1 min_less_iff_conj not_less order_less_le_trans)
      ultimately show "key < k" by (rule proper_prefix_less)
    qed
    show "take (oi_pfx ix) key = p" if "cmp (take m key) (take m p) = Equal" "\<not> m < oi_pfx ix"
    proof -
      have "m = oi_pfx ix" using m' that(2) by simp
      then show ?thesis using that(1) p(1) by simp
    qed
  qed
qed

lemma cutI:
  "lo \<le> r \<Longrightarrow> r \<le> hi \<Longrightarrow> (\<And>i. lo \<le> i \<Longrightarrow> i < r \<Longrightarrow> P i) \<Longrightarrow> (\<And>i. r \<le> i \<Longrightarrow> i < hi \<Longrightarrow> \<not> P i) \<Longrightarrow> cut P lo hi r"
  by (simp add: cut_def)

subsection \<open>The end of a run of equal heads\<close>

lemma gallop_run_ends:
  assumes o: "ord_for ix ks p" and fr: "from < length ks"
  shows "0 < step \<Longrightarrow> from \<le> lo \<Longrightarrow> lo < length ks \<Longrightarrow> lo < from + step \<Longrightarrow> head_of (ks ! lo) (oi_pfx ix) = h \<Longrightarrow>
    \<exists>lo' step'. gallop_run ix h from lo step = Some (lo', step') \<and> lo \<le> lo' \<and> lo' < length ks \<and> lo' < from + step' \<and> head_of (ks ! lo') (oi_pfx ix) = h
      \<and> (\<forall>i. from + step' \<le> i \<and> i < length ks \<longrightarrow> head_of (ks ! i) (oi_pfx ix) \<noteq> h)"
proof (induction "length ks - step" arbitrary: lo step rule: less_induct)
  case less
  have n: "oi_n ix = length ks" "length ks < USIZE_MAX" using o by (auto simp: ord_for_def)
  show ?case
  proof (cases "length ks \<le> from + step")
    case True
    then have "gallop_run ix h from lo step = Some (lo, step)"
      using n by (subst gallop_run.simps) (simp add: saturating_add_def)
    then show ?thesis using less.prems True by auto
  next
    case False
    let ?x = "head_of (ks ! (from + step)) (oi_pfx ix)"
    have s: "saturating_add from step = from + step" using False n by (simp add: saturating_add_def)
    have hd: "ord_head ix (from + step) = Some ?x" using o False by (simp add: ord_for_def)
    show ?thesis
    proof (cases "?x = h")
      case True
      have "gallop_run ix h from lo step = gallop_run ix h from (from + step) (step * 2)"
        using False s hd True n by (subst gallop_run.simps) simp
      moreover have "length ks - step * 2 < length ks - step" using False less.prems by linarith
      then have "\<exists>lo' step'. gallop_run ix h from (from + step) (step * 2) = Some (lo', step') \<and> from + step \<le> lo' \<and> lo' < length ks \<and> lo' < from + step'
          \<and> head_of (ks ! lo') (oi_pfx ix) = h \<and> (\<forall>i. from + step' \<le> i \<and> i < length ks \<longrightarrow> head_of (ks ! i) (oi_pfx ix) \<noteq> h)"
        by (rule less.hyps) (use less.prems False True in auto)
      ultimately show ?thesis using less.prems(4) by fastforce
    next
      case x: False
      have "gallop_run ix h from lo step = Some (lo, step)" using False s hd x n by (subst gallop_run.simps) simp
      moreover have "head_of (ks ! i) (oi_pfx ix) \<noteq> h" if "from + step \<le> i" "i < length ks" for i
      proof -
        have "h \<le> ?x" using heads_sorted [OF o, of lo "from + step"] less.prems False by auto
        moreover have "?x \<le> head_of (ks ! i) (oi_pfx ix)" using heads_sorted [OF o that] .
        ultimately show ?thesis using x by auto
      qed
      ultimately show ?thesis using less.prems by auto
    qed
  qed
qed

lemma run_end_ends:
  assumes o: "ord_for ix ks p" and fr: "from < length ks" and h: "head_of (ks ! from) (oi_pfx ix) = h"
  obtains e where "run_end ix h from = Some e" "from < e" "e \<le> length ks"
    "\<And>i. from \<le> i \<Longrightarrow> i < e \<Longrightarrow> head_of (ks ! i) (oi_pfx ix) = h" "\<And>i. e \<le> i \<Longrightarrow> i < length ks \<Longrightarrow> head_of (ks ! i) (oi_pfx ix) \<noteq> h"
proof -
  have n: "oi_n ix = length ks" "length ks < USIZE_MAX" using o by (auto simp: ord_for_def)
  obtain lo step where g: "gallop_run ix h from from 1 = Some (lo, step)" "from \<le> lo" "lo < length ks" "lo < from + step" "head_of (ks ! lo) (oi_pfx ix) = h"
      "\<forall>i. from + step \<le> i \<and> i < length ks \<longrightarrow> head_of (ks ! i) (oi_pfx ix) \<noteq> h"
    using gallop_run_ends [OF o fr, of 1 "from" h] fr h by auto
  let ?hi = "min (saturating_add from step) (oi_n ix)"
  let ?P = "\<lambda>i. head_of (ks ! i) (oi_pfx ix) = h"
  have hi: "?hi = min (from + step) (length ks)" using n by (simp add: saturating_add_def min_def)
  have "\<exists>r. halve (\<lambda>m. do { x \<leftarrow> ord_head ix m; Some (x = h) }) (lo + 1) ?hi = Some r \<and> cut ?P (lo + 1) ?hi r"
  proof (rule halve_cut)
    show "(do { x \<leftarrow> ord_head ix i; Some (x = h) }) = Some (?P i)" if "lo + 1 \<le> i" "i < ?hi" for i using o that hi by (simp add: ord_for_def)
    show "?P i" if "lo + 1 \<le> i" "i \<le> j" "j < ?hi" "?P j" for i j
      using heads_sorted [OF o, of i j] heads_sorted [OF o, of lo i] that g(5) hi by simp
    show "lo + 1 \<le> ?hi" using g(3,4) hi by simp
  qed auto
  then obtain e where e: "halve (\<lambda>m. do { x \<leftarrow> ord_head ix m; Some (x = h) }) (lo + 1) ?hi = Some e" "cut ?P (lo + 1) ?hi e" by blast
  show thesis
  proof (rule that)
    show "run_end ix h from = Some e" using g(1) e(1) by (simp add: run_end_def Let_def)
    show "from < e" "e \<le> length ks" using e(2) g(2) hi by (auto simp: cut_def)
    show "?P i" if "from \<le> i" "i < e" for i
    proof (cases "i \<le> lo")
      case True
      then show ?thesis using heads_sorted [OF o, of "from" i] heads_sorted [OF o, of i lo] that g(3,5) h by simp
    next
      case False
      then show ?thesis using e(2) that by (simp add: cut_def)
    qed
    show "\<not> ?P i" if "e \<le> i" "i < length ks" for i using e(2) g(6) that hi by (cases "i < ?hi") (auto simp: cut_def)
  qed
qed

subsection \<open>From the heads to the keys\<close>

text \<open>The key compared with a tied one of the keys' one length.\<close>

lemma tie_uniform:
  assumes o: "ord_for ix ks p" and c: "take (oi_pfx ix) key = p" and i: "i < length ks" and t: "head_of (ks ! i) (oi_pfx ix) = head_of key (oi_pfx ix)"
    and u: "oi_uniform_len ix = Some len"
  shows "ks ! i = key \<longleftrightarrow> length key = len" "ks ! i < key \<longleftrightarrow> len < length key"
proof -
  have l: "length (ks ! i) = len" "oi_pfx ix \<le> len" "len \<le> oi_pfx ix + HEAD" and e: "take (oi_pfx ix) (ks ! i) = take (oi_pfx ix) key"
    using o i u c by (auto simp: ord_for_def)
  have pk: "oi_pfx ix \<le> length key" using o c by (metis length_take min.cobounded1 ord_for_def)
  have long: "take len key = ks ! i" if "len \<le> length key" using tied_prefix [OF e t] l that by simp
  have short: "take (length key) (ks ! i) = key" if "length key \<le> len" using tied_prefix [OF e [symmetric] t [symmetric]] l that pk by simp
  show "ks ! i = key \<longleftrightarrow> length key = len" using long l by auto
  have "ks ! i < key" if "len < length key" by (rule proper_prefix_less) (use l that long in simp_all)
  moreover have "key < ks ! i" if "length key < len" by (rule proper_prefix_less) (use l that short in simp_all)
  moreover have "ks ! i = key" if "length key = len" using long that by simp
  ultimately show "ks ! i < key \<longleftrightarrow> len < length key" by (metis less_asym less_irrefl linorder_neqE_nat)
qed

lemma head_sides:
  assumes o: "ord_for ix ks p" and c: "take (oi_pfx ix) key = p" and i: "i < length ks"
  shows "head_of (ks ! i) (oi_pfx ix) < head_of key (oi_pfx ix) \<Longrightarrow> ks ! i < key"
    and "head_of key (oi_pfx ix) < head_of (ks ! i) (oi_pfx ix) \<Longrightarrow> key < ks ! i"
proof -
  have e: "take (oi_pfx ix) (ks ! i) = take (oi_pfx ix) key" using o c i by (simp add: ord_for_def)
  show "head_of (ks ! i) (oi_pfx ix) < head_of key (oi_pfx ix) \<Longrightarrow> ks ! i < key" using head_less [OF e] .
  show "head_of key (oi_pfx ix) < head_of (ks ! i) (oi_pfx ix) \<Longrightarrow> key < ks ! i" using head_less [OF e [symmetric]] .
qed

text \<open>An answer over a range of ranks, and the verdict with it where there is one.\<close>

definition answers :: "bytes list \<Rightarrow> bytes \<Rightarrow> nat \<Rightarrow> nat \<Rightarrow> nat \<times> bool option \<Rightarrow> bool" where
  "answers ks key lo hi ans \<longleftrightarrow> cut (\<lambda>i. ks ! i < key) lo hi (fst ans)
    \<and> (\<forall>b. snd ans = Some b \<longrightarrow> (b \<longleftrightarrow> fst ans < hi \<and> ks ! fst ans = key))"

lemma tie_none:
  assumes o: "ord_for ix ks p" and c: "take (oi_pfx ix) key = p" and hi: "hi \<le> length ks"
    and a: "cut (\<lambda>i. head_of (ks ! i) (oi_pfx ix) < head_of key (oi_pfx ix)) lo hi a"
    and t: "a < hi \<Longrightarrow> head_of (ks ! a) (oi_pfx ix) \<noteq> head_of key (oi_pfx ix)"
  shows "answers ks key lo hi (a, Some False)" "answers ks key lo hi (a, None)"
proof -
  have gt: "key < ks ! i" if "a \<le> i" "i < hi" for i
  proof -
    have "head_of key (oi_pfx ix) < head_of (ks ! a) (oi_pfx ix)" using a t that by (auto simp: cut_def)
    also have "\<dots> \<le> head_of (ks ! i) (oi_pfx ix)" using heads_sorted [OF o that(1)] that hi by simp
    finally show ?thesis using head_sides(2) [OF o c] that hi by simp
  qed
  have lt: "ks ! i < key" if "lo \<le> i" "i < a" for i using a that head_sides(1) [OF o c] hi by (simp add: cut_def)
  have r: "lo \<le> a" "a \<le> hi" using a by (auto simp: cut_def)
  then have "cut (\<lambda>i. ks ! i < key) lo hi a" using lt gt by (auto simp: cut_def dest: less_asym)
  moreover have "ks ! a \<noteq> key" if "a < hi" using gt [of a] that by auto
  ultimately show "answers ks key lo hi (a, Some False)" "answers ks key lo hi (a, None)" by (auto simp: answers_def)
qed

lemma tie_short:
  assumes o: "ord_for ix ks p" and c: "take (oi_pfx ix) key = p" and hi: "hi \<le> length ks"
    and a: "cut (\<lambda>i. head_of (ks ! i) (oi_pfx ix) < head_of key (oi_pfx ix)) lo hi a"
    and t: "a < hi" "head_of (ks ! a) (oi_pfx ix) = head_of key (oi_pfx ix)" and u: "oi_uniform_len ix = Some len" "length key \<le> len"
  shows "answers ks key lo hi (a, Some (length key = len))"
proof -
  note tu = tie_uniform [OF o c _ t(2) u(1)]
  have "\<not> ks ! a < key" using tu(2) t(1) hi u(2) by simp
  then have "\<not> ks ! i < key" if "a \<le> i" "i < hi" for i
    using sorted_keys [of ks a i] o that hi by (metis le_less_trans ord_for_def order_less_le_trans)
  moreover have "ks ! i < key" if "lo \<le> i" "i < a" for i using a that head_sides(1) [OF o c] hi by (simp add: cut_def)
  moreover have "ks ! a = key \<longleftrightarrow> length key = len" using tu(1) t(1) hi by simp
  ultimately show ?thesis using a t(1) by (auto simp: answers_def cut_def)
qed

lemma tie_long:
  assumes o: "ord_for ix ks p" and c: "take (oi_pfx ix) key = p" and hi: "hi \<le> length ks"
    and a: "cut (\<lambda>i. head_of (ks ! i) (oi_pfx ix) < head_of key (oi_pfx ix)) lo hi a"
    and t: "a < hi" "head_of (ks ! a) (oi_pfx ix) = head_of key (oi_pfx ix)" and u: "oi_uniform_len ix = Some len" "len < length key"
    and e: "a < e" "\<And>i. a \<le> i \<Longrightarrow> i < e \<Longrightarrow> head_of (ks ! i) (oi_pfx ix) = head_of key (oi_pfx ix)"
      "\<And>i. e \<le> i \<Longrightarrow> i < length ks \<Longrightarrow> head_of (ks ! i) (oi_pfx ix) \<noteq> head_of key (oi_pfx ix)"
  shows "answers ks key lo hi (min e hi, Some False)"
proof -
  have lt: "ks ! i < key" if "lo \<le> i" "i < e" "i < hi" for i
    using a that head_sides(1) [OF o c, of i] tie_uniform(2) [OF o c _ e(2) u(1), of i] hi u(2) by (cases "i < a") (auto simp: cut_def)
  have gt: "key < ks ! i" if "e \<le> i" "i < hi" for i
  proof -
    have "head_of key (oi_pfx ix) \<le> head_of (ks ! i) (oi_pfx ix)" using heads_sorted [OF o, of a i] t(2) that e(1) hi by simp
    then have "head_of key (oi_pfx ix) < head_of (ks ! i) (oi_pfx ix)" using e(3) [of i] that hi by simp
    then show ?thesis using head_sides(2) [OF o c] that hi by simp
  qed
  have "\<not> ks ! i < key" if "min e hi \<le> i" "i < hi" for i using less_not_sym [OF gt [of i]] that by auto
  then have "cut (\<lambda>i. ks ! i < key) lo hi (min e hi)" using a e(1) lt by (intro cutI) (auto simp: cut_def)
  moreover have "ks ! min e hi \<noteq> key" if "min e hi < hi" using gt [of e] that by (auto simp: min_def split: if_splits)
  ultimately show ?thesis by (simp add: answers_def)
qed

lemma tie_records:
  assumes o: "ord_for ix ks p" and c: "take (oi_pfx ix) key = p" and hi: "hi \<le> length ks" and k: "reads_at kat ks"
    and a: "cut (\<lambda>i. head_of (ks ! i) (oi_pfx ix) < head_of key (oi_pfx ix)) lo hi a" and t: "a < hi"
    and e: "a < e" "head_of (ks ! a) (oi_pfx ix) = head_of key (oi_pfx ix)"
      "\<And>i. e \<le> i \<Longrightarrow> i < length ks \<Longrightarrow> head_of (ks ! i) (oi_pfx ix) \<noteq> head_of key (oi_pfx ix)"
  obtains r where "halve (\<lambda>m. Some (key_below kat key m)) a (min e hi) = Some r" "cut (\<lambda>i. ks ! i < key) lo hi r"
proof -
  have mono: "ks ! i < key" if "i \<le> j" "j < hi" "ks ! j < key" for i j
    using sorted_keys [of ks i j] o that hi by (metis le_less_trans ord_for_def order_less_le_trans)
  have gt: "\<not> ks ! i < key" if "e \<le> i" "i < hi" for i
  proof -
    have "head_of key (oi_pfx ix) \<le> head_of (ks ! i) (oi_pfx ix)" using heads_sorted [OF o, of a i] e(1,2) that hi by simp
    then have "head_of key (oi_pfx ix) < head_of (ks ! i) (oi_pfx ix)" using e(3) [of i] that hi by simp
    then have "key < ks ! i" using head_sides(2) [OF o c] that hi by simp
    then show ?thesis by (rule less_not_sym)
  qed
  have lt: "ks ! i < key" if "lo \<le> i" "i < a" for i using a that head_sides(1) [OF o c, of i] hi by (simp add: cut_def)
  have "\<exists>r. halve (\<lambda>m. Some (key_below kat key m)) a (min e hi) = Some r \<and> cut (\<lambda>i. ks ! i < key) lo hi r"
  proof (rule halve_cut)
    show "Some (key_below kat key i) = Some (ks ! i < key)" if "lo \<le> i" "i < hi" for i using k that hi by (simp add: reads_at_def key_below_def)
    show "ks ! i < key" if "lo \<le> i" "i \<le> j" "j < hi" "ks ! j < key" for i j using mono that by blast
    show "lo \<le> a" "a \<le> min e hi" using a t e(1) by (auto simp: cut_def)
    show "\<forall>i. lo \<le> i \<and> i < a \<longrightarrow> ks ! i < key" "\<forall>i. min e hi \<le> i \<and> i < hi \<longrightarrow> \<not> ks ! i < key" using lt gt by auto
  qed simp
  then show thesis using that by blast
qed

subsection \<open>The seeks\<close>

lemma exact_at_answers:
  assumes o: "ord_for ix ks p" and k: "reads_at kat ks" and c: "take (oi_pfx ix) key = p"
    and a: "cut (\<lambda>i. head_of (ks ! i) (oi_pfx ix) < head_of key (oi_pfx ix)) 0 (length ks) a"
  obtains ans where "exact_at ix a (head_of key (oi_pfx ix)) key kat = Some ans" "answers ks key 0 (length ks) ans"
    "oi_uniform_len ix \<noteq> None \<Longrightarrow> snd ans \<noteq> None"
proof (cases "a < length ks \<and> head_of (ks ! a) (oi_pfx ix) = head_of key (oi_pfx ix)")
  case False
  have n: "oi_n ix = length ks" and h: "\<And>i. i < length ks \<Longrightarrow> ord_head ix i = Some (head_of (ks ! i) (oi_pfx ix))"
    using o by (auto simp: ord_for_def)
  have "exact_at ix a (head_of key (oi_pfx ix)) key kat = Some (a, map_option (\<lambda>_. False) (oi_uniform_len ix))"
    using False n h [of a] by (cases "a < length ks") (simp_all add: exact_at_def)
  moreover have "answers ks key 0 (length ks) (a, map_option (\<lambda>_. False) (oi_uniform_len ix))"
    using tie_none [OF o c order_refl a] False by (cases "oi_uniform_len ix") auto
  ultimately show thesis using that by auto
next
  case True
  then have a': "a < length ks" "head_of (ks ! a) (oi_pfx ix) = head_of key (oi_pfx ix)" by auto
  have n: "oi_n ix = length ks" and h: "ord_head ix a = Some (head_of key (oi_pfx ix))" using o a' by (auto simp: ord_for_def)
  obtain e where e: "run_end ix (head_of key (oi_pfx ix)) a = Some e" "a < e" "e \<le> length ks"
      "\<And>i. a \<le> i \<Longrightarrow> i < e \<Longrightarrow> head_of (ks ! i) (oi_pfx ix) = head_of key (oi_pfx ix)"
      "\<And>i. e \<le> i \<Longrightarrow> i < length ks \<Longrightarrow> head_of (ks ! i) (oi_pfx ix) \<noteq> head_of key (oi_pfx ix)"
    using run_end_ends [OF o a'] by blast
  show thesis
  proof (cases "oi_uniform_len ix")
    case None
    obtain r where r: "halve (\<lambda>m. Some (key_below kat key m)) a (min e (length ks)) = Some r" "cut (\<lambda>i. ks ! i < key) 0 (length ks) r"
      using tie_records [OF o c order_refl k a a'(1) e(2) a'(2) e(5)] by blast
    then have "exact_at ix a (head_of key (oi_pfx ix)) key kat = Some (r, None)"
      using None n h a'(1) e(1,3) by (simp add: exact_at_def min_absorb1)
    then show thesis using that r(2) None by (simp add: answers_def)
  next
    case (Some len)
    show thesis
    proof (cases "length key \<le> len")
      case True
      then show thesis using that tie_short [OF o c order_refl a a' Some True] Some n h a'(1) by (simp add: exact_at_def)
    next
      case False
      then have "answers ks key 0 (length ks) (min e (length ks), Some False)"
        using tie_long [OF o c order_refl a a' Some _ e(2) e(4) e(5)] by simp
      then show thesis using that [of "(e, Some False)"] False Some n h a'(1) e(1,3) by (simp add: exact_at_def min_absorb1)
    qed
  qed
qed

lemma all_below: "ord_for ix ks p \<Longrightarrow> \<forall>k \<in> set ks. k < key \<Longrightarrow> lo \<le> hi \<Longrightarrow> hi \<le> length ks \<Longrightarrow> answers ks key lo hi (hi, Some False)"
  by (auto simp: answers_def cut_def)

lemma all_above: "ord_for ix ks p \<Longrightarrow> \<forall>k \<in> set ks. key < k \<Longrightarrow> lo \<le> hi \<Longrightarrow> hi \<le> length ks \<Longrightarrow> answers ks key lo hi (lo, Some False)"
proof -
  assume "\<forall>k \<in> set ks. key < k" "lo \<le> hi" "hi \<le> length ks"
  moreover from this have "key < ks ! i" if "i < hi" for i using that by simp
  ultimately show ?thesis using less_not_sym by (fastforce simp: answers_def cut_def)
qed

text \<open>The first key or the prefix learned of it, which starts with the prefix.\<close>

lemma first_known:
  assumes o: "ord_for ix ks p" and k: "reads_at kat ks" and n: "ks \<noteq> []"
  obtains first where "(case oi_prefix ix of Some q \<Rightarrow> Some q | None \<Rightarrow> kat 0) = Some first" "take (oi_pfx ix) first = p"
proof (cases "oi_prefix ix")
  case None
  then show thesis using that [of "ks ! 0"] o k n by (simp add: reads_at_def ord_for_def)
next
  case (Some q)
  then show thesis using that [of p] o by (simp add: ord_for_def)
qed

lemma outside_prefix_answers:
  assumes o: "ord_for ix ks p" and k: "reads_at kat ks" and n: "ks \<noteq> []"
  obtains (carries) "outside_prefix ix key kat = Some None" "take (oi_pfx ix) key = p"
    | (outside) ans where "outside_prefix ix key kat = Some (Some ans)" "answers ks key 0 (length ks) ans" "snd ans \<noteq> None"
proof (cases "oi_pfx ix = 0")
  case True
  then show thesis using carries o by (simp add: outside_prefix_def ord_for_def)
next
  case False
  obtain first where f: "(case oi_prefix ix of Some q \<Rightarrow> Some q | None \<Rightarrow> kat 0) = Some first" "take (oi_pfx ix) first = p"
    using first_known [OF o k n] .
  define m where "m = min (min (oi_pfx ix) (length key)) (length first)"
  have on: "oi_n ix = length ks" using o by (simp add: ord_for_def)
  obtain ord where v: "cmp_short (take m key) (take m first) = Some ord"
      "ord = Less \<Longrightarrow> \<forall>k \<in> set ks. key < k" "ord = Greater \<Longrightarrow> \<forall>k \<in> set ks. k < key"
      "ord = Equal \<Longrightarrow> m < oi_pfx ix \<Longrightarrow> \<forall>k \<in> set ks. key < k" "ord = Equal \<Longrightarrow> \<not> m < oi_pfx ix \<Longrightarrow> take (oi_pfx ix) key = p"
    using prefix_verdict [OF o f(2) m_def] by blast
  have e: "outside_prefix ix key kat = Some (case ord of Less \<Rightarrow> Some (0, Some False) | Greater \<Rightarrow> Some (oi_n ix, Some False)
      | Equal \<Rightarrow> if m < oi_pfx ix then Some (0, Some False) else None)"
    unfolding outside_prefix_def f(1) using False v(1) by (simp add: m_def [symmetric] Let_def)
  note below = all_above [OF o _ le0 order_refl] and above = all_below [OF o _ le0 order_refl]
  show thesis
  proof (cases ord)
    case Less
    then show thesis using e v(2) below outside [of "(0, Some False)"] by simp
  next
    case Greater
    then show thesis using e v(3) above outside [of "(length ks, Some False)"] by (simp add: on)
  next
    case Equal
    then show thesis using e v(4,5) below outside [of "(0, Some False)"] carries by (cases "m < oi_pfx ix") simp_all
  qed
qed

text \<open>The answer of a seek over all the keys.\<close>

definition seeks :: "bytes list \<Rightarrow> bytes \<Rightarrow> bool \<Rightarrow> nat \<times> bool option \<Rightarrow> bool" where
  "seeks ks key uni ans \<longleftrightarrow> fst ans = rank_of ks key \<and> (\<forall>b. snd ans = Some b \<longrightarrow> (b \<longleftrightarrow> key \<in> set ks)) \<and> (uni \<longrightarrow> snd ans \<noteq> None)"

lemma rank_member:
  assumes "sorted_wrt (<) ks"
  shows "rank_of ks key < length ks \<and> ks ! rank_of ks key = key \<longleftrightarrow> key \<in> set ks"
proof
  assume "key \<in> set ks"
  then obtain i where i: "i < length ks" "ks ! i = key" by (auto simp: in_set_conv_nth)
  have "rank_of ks key = i"
    by (rule rank_of_eq) (use i sorted_wrt_nth_less [OF assms, of _ i] in auto)
  then show "rank_of ks key < length ks \<and> ks ! rank_of ks key = key" using i by simp
qed (metis nth_mem)

lemma answers_seeks:
  assumes "ord_for ix ks p" "answers ks key 0 (length ks) ans" "uni \<Longrightarrow> snd ans \<noteq> None"
  shows "seeks ks key uni ans"
proof -
  have s: "sorted_wrt (<) ks" using assms(1) by (simp add: ord_for_def)
  have "fst ans = rank_of ks key" using cut_rank [OF s] assms(2) by (simp add: answers_def)
  then show ?thesis using assms(2,3) rank_member [OF s] by (simp add: seeks_def answers_def)
qed

lemma top_cut:
  assumes o: "ord_for ix ks p" and n: "ks \<noteq> []"
  obtains t where "lower_bound (oi_top ix) h = Some t"
    "t = 0 \<Longrightarrow> \<not> head_of (ks ! 0) (oi_pfx ix) < h"
    "0 < t \<Longrightarrow> (t - 1) * TOP_STRIDE < length ks \<and> head_of (ks ! ((t - 1) * TOP_STRIDE)) (oi_pfx ix) < h"
    "t * TOP_STRIDE < length ks \<Longrightarrow> \<not> head_of (ks ! (t * TOP_STRIDE)) (oi_pfx ix) < h"
proof -
  let ?d = "div_ceil (length ks) TOP_STRIDE"
  let ?P = "\<lambda>t. head_of (ks ! (t * TOP_STRIDE)) (oi_pfx ix) < h"
  have top: "oi_top ix = map (\<lambda>i. head_of (ks ! i) (oi_pfx ix)) (strided (length ks))" and u: "length ks < USIZE_MAX"
    using o by (auto simp: ord_for_def)
  have len: "length (oi_top ix) = ?d" by (simp add: top strided_def)
  have d: "t < ?d \<longleftrightarrow> t * TOP_STRIDE < length ks" for t by (auto simp: div_ceil_def TOP_STRIDE_def)
  have nth: "oi_top ix ! t = head_of (ks ! (t * TOP_STRIDE)) (oi_pfx ix)" if "t < ?d" for t using that by (simp add: top strided_def)
  have "?d \<le> length ks" by (simp add: div_ceil_def TOP_STRIDE_def)
  then have small: "?d < 2 ^ 64" using u by (simp add: USIZE_MAX_def)
  obtain t where t: "select_lower_bound ?d (\<lambda>i. do { x \<leftarrow> index (oi_top ix) i; Some (x < h) }) = Some t" "cut ?P 0 ?d t"
  proof (rule select_lower_bound_cut [OF _ small])
    show "(do { x \<leftarrow> index (oi_top ix) i; Some (x < h) }) = Some (?P i)" if "i < ?d" for i using that nth len by simp
    show "?P i" if "i \<le> j" "j < ?d" "?P j" for i j
      using heads_sorted [OF o, of "i * TOP_STRIDE" "j * TOP_STRIDE"] that d [of j] by (simp add: TOP_STRIDE_def)
  qed
  show thesis
  proof (rule that)
    show "lower_bound (oi_top ix) h = Some t" using t(1) by (simp add: lower_bound_def len)
    show "\<not> head_of (ks ! 0) (oi_pfx ix) < h" if "t = 0" using t(2) that d [of 0] n by (auto simp: cut_def)
    show "(t - 1) * TOP_STRIDE < length ks \<and> head_of (ks ! ((t - 1) * TOP_STRIDE)) (oi_pfx ix) < h" if "0 < t"
      using t(2) that d [of "t - 1"] by (auto simp: cut_def)
    show "\<not> head_of (ks ! (t * TOP_STRIDE)) (oi_pfx ix) < h" if "t * TOP_STRIDE < length ks" using t(2) that d [of t] by (auto simp: cut_def)
  qed
qed

text \<open>A span of heads between one below the query and one that is not.\<close>

lemma span_search:
  assumes o: "ord_for ix ks p" and r: "lo \<le> hi" "hi \<le> length ks"
    and l: "0 < lo \<Longrightarrow> head_of (ks ! (lo - 1)) (oi_pfx ix) < h" and e: "hi < length ks \<Longrightarrow> \<not> head_of (ks ! hi) (oi_pfx ix) < h"
  obtains i where "select_lower_bound (hi - lo) (\<lambda>i. do { x \<leftarrow> ord_head ix (lo + i); Some (x < h) }) = Some i"
    "cut (\<lambda>i. head_of (ks ! i) (oi_pfx ix) < h) 0 (length ks) (lo + i)"
proof -
  let ?P = "\<lambda>i. head_of (ks ! i) (oi_pfx ix) < h"
  have mono: "?P i" if "i \<le> j" "j < length ks" "?P j" for i j using heads_sorted [OF o that(1,2)] that(3) by simp
  have "length ks < 2 ^ 64" using o by (simp add: ord_for_def USIZE_MAX_def)
  then have "hi - lo < 2 ^ 64" using r by linarith
  then obtain i where i: "select_lower_bound (hi - lo) (\<lambda>i. do { x \<leftarrow> ord_head ix (lo + i); Some (x < h) }) = Some i" "cut (\<lambda>i. ?P (lo + i)) 0 (hi - lo) i"
  proof (rule select_lower_bound_cut [rotated])
    show "(do { x \<leftarrow> ord_head ix (lo + i); Some (x < h) }) = Some (?P (lo + i))" if "i < hi - lo" for i using o that r by (simp add: ord_for_def)
    show "?P (lo + i)" if "i \<le> j" "j < hi - lo" "?P (lo + j)" for i j using mono [of "lo + i" "lo + j"] that r by simp
  qed
  have "cut ?P 0 (length ks) (lo + i)"
  proof (rule cutI)
    have "i \<le> hi - lo" using i(2) by (simp add: cut_def)
    then show "lo + i \<le> length ks" using r by linarith
    show "?P j" if "j < lo + i" for j
    proof (cases "j < lo")
      case True
      then show ?thesis using mono [of j "lo - 1"] l r by simp
    next
      case False
      then show ?thesis using i(2) that by (auto simp: cut_def dest: spec [of _ "j - lo"])
    qed
    show "\<not> ?P j" if "lo + i \<le> j" "j < length ks" for j
    proof (cases "j < hi")
      case True
      have "i \<le> j - lo" "j - lo < hi - lo" "lo + (j - lo) = j" using that True by auto
      then show ?thesis using i(2) unfolding cut_def by metis
    next
      case False
      then show ?thesis using mono [of hi j] e that by auto
    qed
  qed simp
  then show thesis using that i(1) by blast
qed

lemma seek_exact_hint_seeks:
  assumes o: "ord_for ix ks p" and k: "reads_at kat ks"
  shows "\<exists>ans st'. seek_exact_hint ix key kat on_window st = Some (ans, st') \<and> seeks ks key (oi_uniform_len ix \<noteq> None) ans"
proof (cases "ks = []")
  case True
  then have "seek_exact_hint ix key kat on_window st = Some ((0, Some False), st)" using o by (simp add: seek_exact_hint_def ord_for_def)
  then show ?thesis using True by (auto simp: seeks_def rank_of_def)
next
  case n: False
  have on: "oi_n ix = length ks" "ORD_HEADER + length ks * HEAD \<le> length (oi_map ix)" using o by (auto simp: ord_for_def)
  let ?h = "head_of key (oi_pfx ix)"
  show ?thesis
  proof (rule outside_prefix_answers [OF o k n, of key])
    fix ans assume a: "outside_prefix ix key kat = Some (Some ans)" "answers ks key 0 (length ks) ans" "snd ans \<noteq> None"
    then have "seek_exact_hint ix key kat on_window st = Some (ans, st)" using n on by (simp add: seek_exact_hint_def)
    then show ?thesis using answers_seeks [OF o a(2)] a(3) by blast
  next
    assume c: "outside_prefix ix key kat = Some None" "take (oi_pfx ix) key = p"
    obtain t where t: "lower_bound (oi_top ix) ?h = Some t" "t = 0 \<Longrightarrow> \<not> head_of (ks ! 0) (oi_pfx ix) < ?h"
        "0 < t \<Longrightarrow> (t - 1) * TOP_STRIDE < length ks \<and> head_of (ks ! ((t - 1) * TOP_STRIDE)) (oi_pfx ix) < ?h"
        "t * TOP_STRIDE < length ks \<Longrightarrow> \<not> head_of (ks ! (t * TOP_STRIDE)) (oi_pfx ix) < ?h"
      using top_cut [OF o n] by blast
    define lo where "lo = (if t = 0 then 0 else (t - 1) * TOP_STRIDE + 1)"
    define hi where "hi = (if t = 0 then 0 else min (t * TOP_STRIDE) (length ks))"
    have r: "lo \<le> hi" "hi \<le> length ks" using t(3) by (auto simp: lo_def hi_def TOP_STRIDE_def)
    obtain i where i: "select_lower_bound (hi - lo) (\<lambda>i. do { x \<leftarrow> ord_head ix (lo + i); Some (x < ?h) }) = Some i"
        "cut (\<lambda>i. head_of (ks ! i) (oi_pfx ix) < ?h) 0 (length ks) (lo + i)"
    proof (rule span_search [OF o r])
      show "head_of (ks ! (lo - 1)) (oi_pfx ix) < ?h" if "0 < lo" using t(3) that by (auto simp: lo_def split: if_splits)
      show "\<not> head_of (ks ! hi) (oi_pfx ix) < ?h" if "hi < length ks" using t(2,4) that by (auto simp: hi_def min_def split: if_splits)
    qed
    obtain ans where ans: "exact_at ix (lo + i) ?h key kat = Some ans" "answers ks key 0 (length ks) ans" "oi_uniform_len ix \<noteq> None \<Longrightarrow> snd ans \<noteq> None"
      using exact_at_answers [OF o k c(2) i(2)] by blast
    have w: "(if t = 0 then (0, 0) else ((t - 1) * TOP_STRIDE + 1, min (t * TOP_STRIDE) (oi_n ix))) = (lo, hi)" by (simp add: lo_def hi_def on)
    have m: "lo < hi \<Longrightarrow> ORD_HEADER + lo * HEAD \<le> length (oi_map ix)" using on(2) r by (auto simp: HEAD_def)
    have "seek_exact_hint ix key kat on_window st = Some (ans, on_window lo hi st)"
      unfolding seek_exact_hint_def Let_def using n on(1) c(1) t(1) w m r i(1) ans(1) by simp
    then show ?thesis using answers_seeks [OF o ans(2,3)] by blast
  qed
qed

lemma seek_exact_seeks:
  assumes "ord_for ix ks p" "reads_at kat ks"
  obtains ans where "seek_exact ix key kat = Some ans" "seeks ks key (oi_uniform_len ix \<noteq> None) ans"
  using seek_exact_hint_seeks [OF assms, of key "\<lambda>_ _ st. st" "()"] that by (auto simp: seek_exact_def)

lemma gallop_from_span:
  assumes o: "ord_for ix ks p"
  shows "0 < step \<Longrightarrow> lo < length ks \<Longrightarrow> head_of (ks ! lo) (oi_pfx ix) < h \<Longrightarrow>
    \<exists>lo' hi. gallop_from ix h lo step = Some (lo', hi) \<and> lo' < hi \<and> hi \<le> length ks \<and> head_of (ks ! lo') (oi_pfx ix) < h
      \<and> (hi < length ks \<longrightarrow> \<not> head_of (ks ! hi) (oi_pfx ix) < h)"
proof (induction "length ks - lo" arbitrary: lo step rule: less_induct)
  case less
  have n: "oi_n ix = length ks" using o by (simp add: ord_for_def)
  show ?case
  proof (cases "length ks \<le> lo + step")
    case True
    then have "gallop_from ix h lo step = Some (lo, length ks)" by (subst gallop_from.simps) (simp add: n)
    then show ?thesis using less.prems by auto
  next
    case False
    then have hd: "ord_head ix (lo + step) = Some (head_of (ks ! (lo + step)) (oi_pfx ix))" using o by (simp add: ord_for_def)
    show ?thesis
    proof (cases "head_of (ks ! (lo + step)) (oi_pfx ix) < h")
      case True
      have "gallop_from ix h lo step = gallop_from ix h (lo + step) (step * 2)"
        using False hd True by (subst gallop_from.simps) (simp add: n)
      moreover have "\<exists>lo' hi. gallop_from ix h (lo + step) (step * 2) = Some (lo', hi) \<and> lo' < hi \<and> hi \<le> length ks \<and> head_of (ks ! lo') (oi_pfx ix) < h
          \<and> (hi < length ks \<longrightarrow> \<not> head_of (ks ! hi) (oi_pfx ix) < h)"
        by (rule less.hyps) (use False True less.prems in auto)
      ultimately show ?thesis by simp
    next
      case x: False
      then have "gallop_from ix h lo step = Some (lo, lo + step)" using False hd by (subst gallop_from.simps) (simp add: n)
      then show ?thesis using less.prems False x by auto
    qed
  qed
qed

lemma seek_exact_from_seeks:
  assumes o: "ord_for ix ks p" and k: "reads_at kat ks"
  obtains ans where "seek_exact_from ix from key kat = Some ans" "seeks ks key (oi_uniform_len ix \<noteq> None) ans"
proof -
  let ?h = "head_of key (oi_pfx ix)" and ?H = "\<lambda>i. head_of (ks ! i) (oi_pfx ix)"
  have on: "oi_n ix = length ks" and hd: "\<And>i. i < length ks \<Longrightarrow> ord_head ix i = Some (?H i)" using o by (auto simp: ord_for_def)
  obtain full where full: "seek_exact ix key kat = Some full" "seeks ks key (oi_uniform_len ix \<noteq> None) full" using seek_exact_seeks [OF o k] .
  consider (full) "from = 0 \<or> length ks \<le> from" | (part) "0 < from" "from < length ks" by linarith
  then show thesis
  proof cases
    case full
    then show thesis using that \<open>seek_exact ix key kat = Some _\<close> \<open>seeks _ _ _ _\<close> on by (simp add: seek_exact_from_def)
  next
    case part
    then have n: "ks \<noteq> []" by auto
    have g: "from \<noteq> 0 \<and> \<not> oi_n ix \<le> from" using part on by simp
    show thesis
    proof (rule outside_prefix_answers [OF o k n, of key])
      fix ans assume a: "outside_prefix ix key kat = Some (Some ans)" "answers ks key 0 (length ks) ans" "snd ans \<noteq> None"
      then show thesis using that [of ans] answers_seeks [OF o a(2)] g by (simp add: seek_exact_from_def)
    next
      assume c: "outside_prefix ix key kat = Some None" "take (oi_pfx ix) key = p"
      have e: "seek_exact_from ix from key kat =
          (if ?h \<le> ?H (from - 1) then seek_exact ix key kat
           else do { lo \<leftarrow> (if ?h \<le> ?H from then Some from
                       else do { (lo, hi) \<leftarrow> gallop_from ix ?h from 1; let base = lo + 1; w \<leftarrow> usub hi base;
                                 i \<leftarrow> select_lower_bound w (\<lambda>i. do { x \<leftarrow> ord_head ix (base + i); Some (x < ?h) }); Some (base + i) });
                     exact_at ix lo ?h key kat })"
        unfolding seek_exact_from_def Let_def using g c(1) hd part by simp
      show thesis
      proof (cases "?h \<le> ?H (from - 1)")
        case True
        then show thesis using that full e by simp
      next
        case lt: False
        obtain lo where lo: "(if ?h \<le> ?H from then Some from
              else do { (lo, hi) \<leftarrow> gallop_from ix ?h from 1; let base = lo + 1; w \<leftarrow> usub hi base;
                        i \<leftarrow> select_lower_bound w (\<lambda>i. do { x \<leftarrow> ord_head ix (base + i); Some (x < ?h) }); Some (base + i) }) = Some lo"
            "cut (\<lambda>i. ?H i < ?h) 0 (length ks) lo"
        proof (cases "?h \<le> ?H from")
          case True
          obtain i where i: "select_lower_bound (from - from) (\<lambda>i. do { x \<leftarrow> ord_head ix (from + i); Some (x < ?h) }) = Some i" "cut (\<lambda>i. ?H i < ?h) 0 (length ks) (from + i)"
            by (rule span_search [OF o, of "from" "from" ?h]) (use part lt True in auto)
          then have "i = 0" by (simp add: select_lower_bound_def narrow.simps)
          then show thesis using that [of "from"] True i(2) by simp
        next
          case False
          obtain a b where ab: "gallop_from ix ?h from 1 = Some (a, b)" "a < b" "b \<le> length ks" "?H a < ?h" "b < length ks \<longrightarrow> \<not> ?H b < ?h"
            using gallop_from_span [OF o, of 1 "from" ?h] part False by (auto simp: not_le)
          obtain i where "select_lower_bound (b - (a + 1)) (\<lambda>i. do { x \<leftarrow> ord_head ix (a + 1 + i); Some (x < ?h) }) = Some i" "cut (\<lambda>i. ?H i < ?h) 0 (length ks) (a + 1 + i)"
            by (rule span_search [OF o, of "a + 1" b ?h]) (use ab in auto)
          then show thesis using that [of "a + 1 + i"] False ab(1,2) by (simp add: Let_def)
        qed
        obtain ans where "exact_at ix lo ?h key kat = Some ans" "answers ks key 0 (length ks) ans" "oi_uniform_len ix \<noteq> None \<Longrightarrow> snd ans \<noteq> None"
          using exact_at_answers [OF o k c(2) lo(2)] by blast
        then show thesis using that [of ans] answers_seeks [OF o] e lt lo(1) by simp
      qed
    qed
  qed
qed

lemma in_search_answers:
  assumes o: "ord_for ix ks p" and k: "reads_at kat ks" and c: "take (oi_pfx ix) key = p" and r: "lo < hi" "hi \<le> length ks"
  defines "h \<equiv> head_of key (oi_pfx ix)"
  obtains ans where "search_in ix lo hi h key kat = Some ans"
    "answers ks key lo hi ans" "oi_uniform_len ix \<noteq> None \<Longrightarrow> snd ans \<noteq> None"
proof -
  let ?H = "\<lambda>i. head_of (ks ! i) (oi_pfx ix)"
  have hd: "\<And>i. i < length ks \<Longrightarrow> ord_head ix i = Some (?H i)" using o by (auto simp: ord_for_def)
  have "\<exists>a. halve (\<lambda>m. do { x \<leftarrow> ord_head ix m; Some (x < h) }) lo hi = Some a \<and> cut (\<lambda>i. ?H i < h) lo hi a"
  proof (rule halve_cut)
    show "(do { x \<leftarrow> ord_head ix i; Some (x < h) }) = Some (?H i < h)" if "lo \<le> i" "i < hi" for i using that r hd by simp
    show "?H i < h" if "lo \<le> i" "i \<le> j" "j < hi" "?H j < h" for i j using heads_sorted [OF o, of i j] that r by simp
  qed (use r in auto)
  then obtain a where a: "halve (\<lambda>m. do { x \<leftarrow> ord_head ix m; Some (x < h) }) lo hi = Some a" "cut (\<lambda>i. ?H i < h) lo hi a" by blast
  note a' = a(2) [unfolded h_def]
  show thesis
  proof (cases "a < hi \<and> ?H a = h")
    case False
    then have tie: "(if hi \<le> a then Some False else do { x \<leftarrow> ord_head ix a; Some (x = h) }) = Some False" using hd [of a] r by auto
    have "answers ks key lo hi (a, Some False)" using tie_none(1) [OF o c r(2) a'] False by (simp add: h_def)
    then show thesis using that [of "(a, Some False)"] a(1) tie by (simp add: search_in_def)
  next
    case True
    then have t: "a < hi" "?H a = head_of key (oi_pfx ix)" by (auto simp: h_def)
    have al: "a < length ks" using t r by simp
    have tie: "(if hi \<le> a then Some False else do { x \<leftarrow> ord_head ix a; Some (x = h) }) = Some True" using hd [of a] r True by auto
    obtain e where e: "run_end ix h a = Some e" "a < e"
        "\<And>i. a \<le> i \<Longrightarrow> i < e \<Longrightarrow> ?H i = head_of key (oi_pfx ix)" "\<And>i. e \<le> i \<Longrightarrow> i < length ks \<Longrightarrow> ?H i \<noteq> head_of key (oi_pfx ix)"
      using run_end_ends [OF o al t(2)] unfolding h_def by blast
    show thesis
    proof (cases "oi_uniform_len ix")
      case None
      obtain q where q: "halve (\<lambda>m. Some (key_below kat key m)) a (min e hi) = Some q" "cut (\<lambda>i. ks ! i < key) lo hi q"
        using tie_records [OF o c r(2) k a' t(1) e(2) t(2) e(4)] by blast
      then have "answers ks key lo hi (q, if hi \<le> q then Some False else None)" by (simp add: answers_def)
      then show thesis using that [of "(q, if hi \<le> q then Some False else None)"] None a(1) tie e(1) q(1) by (simp add: search_in_def)
    next
      case (Some len)
      show thesis
      proof (cases "length key \<le> len")
        case True
        then show thesis using that [of "(a, Some (length key = len))"] tie_short [OF o c r(2) a' t Some True] Some a(1) tie by (simp add: search_in_def)
      next
        case False
        then have "answers ks key lo hi (min e hi, Some False)" using tie_long [OF o c r(2) a' t Some _ e(2) e(3) e(4)] by simp
        then show thesis using that [of "(min e hi, Some False)"] False Some a(1) tie e(1) by (simp add: search_in_def)
      qed
    qed
  qed
qed

lemma seek_in_exact_answers:
  assumes o: "ord_for ix ks p" and k: "reads_at kat ks"
  shows "\<exists>ans. seek_in_exact ix lo hi key kat = Some ans \<and>
    (if lo < min hi (length ks) then answers ks key lo (min hi (length ks)) ans else ans = (min hi (length ks), Some False))"
proof (cases "lo < min hi (length ks)")
  case False
  have "oi_n ix = length ks" using o by (simp add: ord_for_def)
  then show ?thesis using False by (auto simp: seek_in_exact_def Let_def not_less)
next
  case True
  have on: "oi_n ix = length ks" using o by (simp add: ord_for_def)
  have n: "ks \<noteq> []" using True by auto
  define w where "w = min hi (length ks)"
  have r: "lo < w" "w \<le> length ks" "\<not> w \<le> lo" using True by (auto simp: w_def)
  let ?h = "head_of key (oi_pfx ix)"
  have search: "\<exists>ans. search_in ix lo w ?h key kat = Some ans \<and> answers ks key lo w ans" if "take (oi_pfx ix) key = p"
    using in_search_answers [OF o k that r(1,2)] by metis
  note below = all_above [OF o _ less_imp_le [OF r(1)] r(2)] and above = all_below [OF o _ less_imp_le [OF r(1)] r(2)]
  have "\<exists>ans. seek_in_exact ix lo hi key kat = Some ans \<and> answers ks key lo w ans"
  proof (cases "oi_pfx ix = 0")
    case z: True
    then have "take (oi_pfx ix) key = p" using o by (simp add: ord_for_def)
    moreover have "seek_in_exact ix lo hi key kat = search_in ix lo w ?h key kat"
      using z r(3) by (simp add: seek_in_exact_def on w_def [symmetric])
    ultimately show ?thesis using search by simp
  next
    case False
    obtain first where f: "(case oi_prefix ix of Some q \<Rightarrow> Some q | None \<Rightarrow> kat 0) = Some first" "take (oi_pfx ix) first = p"
      using first_known [OF o k n] .
    define m where "m = min (min (oi_pfx ix) (length key)) (length first)"
    obtain ord where v: "cmp_short (take m key) (take m first) = Some ord"
        "ord = Less \<Longrightarrow> \<forall>k \<in> set ks. key < k" "ord = Greater \<Longrightarrow> \<forall>k \<in> set ks. k < key"
        "ord = Equal \<Longrightarrow> m < oi_pfx ix \<Longrightarrow> \<forall>k \<in> set ks. key < k" "ord = Equal \<Longrightarrow> \<not> m < oi_pfx ix \<Longrightarrow> take (oi_pfx ix) key = p"
      using prefix_verdict [OF o f(2) m_def] by blast
    have e: "seek_in_exact ix lo hi key kat = (case ord of Less \<Rightarrow> Some (lo, Some False) | Greater \<Rightarrow> Some (w, Some False)
        | Equal \<Rightarrow> if m < oi_pfx ix then Some (lo, Some False) else search_in ix lo w ?h key kat)"
      unfolding seek_in_exact_def f(1) using False v(1) r(3) by (simp add: on w_def [symmetric] m_def [symmetric] Let_def)
    show ?thesis
    proof (cases ord)
      case Less
      then show ?thesis using e v(2) below by simp
    next
      case Greater
      then show ?thesis using e v(3) above by simp
    next
      case Equal
      then show ?thesis using e v(4,5) below search by (cases "m < oi_pfx ix") simp_all
    qed
  qed
  then show ?thesis using True by (simp add: w_def)
qed

subsection \<open>The walk along the heads\<close>

lemma walk_below_cut:
  assumes ok: "\<And>i. i < n \<Longrightarrow> f i = Some (P i)" and mono: "\<And>i j. i \<le> j \<Longrightarrow> j < n \<Longrightarrow> P j \<Longrightarrow> P i"
  shows "r \<le> n \<Longrightarrow> \<exists>e. walk_below f n r = Some e \<and> cut P r n e"
proof (induction "n - r" arbitrary: r rule: less_induct)
  case less
  show ?case
  proof (cases "r < n \<and> P r")
    case True
    then have "walk_below f n r = walk_below f n (r + 1)" using ok [of r] by (subst walk_below.simps) simp
    moreover obtain e where e: "walk_below f n (r + 1) = Some e" "cut P (r + 1) n e" using less.hyps [of "r + 1"] True by fastforce
    moreover have "cut P r n e" using e(2) True by (auto simp: cut_def) (metis Suc_leI le_neq_implies_less)
    ultimately show ?thesis by auto
  next
    case False
    then have "walk_below f n r = Some r" using ok [of r] less.prems by (subst walk_below.simps) auto
    moreover have "cut P r n r" using False mono [of r] less.prems by (auto simp: cut_def)
    ultimately show ?thesis by blast
  qed
qed

lemma head_below_is:
  assumes o: "ord_for ix ks p" and k: "reads_at kat ks" and c: "take (oi_pfx ix) key = p" and i: "i < length ks"
  shows "head_below ix kat key (head_of key (oi_pfx ix)) i = Some (ks ! i < key)"
proof -
  have h: "ord_head ix i = Some (head_of (ks ! i) (oi_pfx ix))" "kat i = Some (ks ! i)" using o k i by (auto simp: ord_for_def reads_at_def)
  note s = head_sides [OF o c i]
  consider "head_of key (oi_pfx ix) < head_of (ks ! i) (oi_pfx ix)" | "head_of (ks ! i) (oi_pfx ix) = head_of key (oi_pfx ix)"
    | "head_of (ks ! i) (oi_pfx ix) < head_of key (oi_pfx ix)" by (rule linorder_cases)
  then show ?thesis
  proof cases
    case 1
    then show ?thesis using s(2) h less_not_sym [OF s(2) [OF 1]] by (simp add: head_below_def)
  next
    case 2
    then show ?thesis using h tie_uniform(2) [OF o c i 2] by (auto simp: head_below_def key_below_def split: option.split)
  next
    case 3
    then show ?thesis using s(1) h less_not_sym [OF 3] less_imp_neq [OF 3] by (simp add: head_below_def)
  qed
qed

lemma advance_below_cut:
  assumes o: "ord_for ix ks p" and k: "reads_at kat ks" and r: "from \<le> length ks"
  shows "\<exists>e. advance_below ix from key kat = Some e \<and> cut (\<lambda>i. ks ! i < key) from (length ks) e"
proof -
  let ?B = "\<lambda>i. ks ! i < key" and ?h = "head_of key (oi_pfx ix)"
  have on: "oi_n ix = length ks" using o by (simp add: ord_for_def)
  have mono: "?B i" if "i \<le> j" "j < length ks" "?B j" for i j
    using sorted_keys [of ks i j] o that by (metis le_less_trans ord_for_def order_less_le_trans)
  have top: "cut ?B from (length ks) from" if "\<forall>k \<in> set ks. key < k"
    using all_above [OF o that r order_refl] by (simp add: answers_def)
  have bot: "cut ?B from (length ks) (length ks)" if "\<forall>k \<in> set ks. k < key"
    using all_below [OF o that r order_refl] by (simp add: answers_def)
  have along: "\<exists>e. walk_below (head_below ix kat key ?h) (length ks) from = Some e \<and> cut ?B from (length ks) e" if "take (oi_pfx ix) key = p"
    by (rule walk_below_cut [OF _ _ r]) (use head_below_is [OF o k that] mono in blast)+
  show ?thesis
  proof (cases "oi_prefix ix")
    case None
    have "\<exists>e. walk_below (\<lambda>r. Some (key_below kat key r)) (length ks) from = Some e \<and> cut ?B from (length ks) e"
    proof (rule walk_below_cut [OF _ _ r])
      show "Some (key_below kat key i) = Some (?B i)" if "i < length ks" for i using k that by (simp add: reads_at_def key_below_def)
    qed (use mono in blast)
    then show ?thesis using None on by (simp add: advance_below_def)
  next
    case (Some q)
    then have q: "q = p" "length p = oi_pfx ix" using o by (auto simp: ord_for_def)
    define m where "m = min (min (oi_pfx ix) (length key)) (length q)"
    have tq: "take (oi_pfx ix) q = p" using q by simp
    obtain ord where v: "cmp_short (take m key) (take m q) = Some ord"
        "ord = Less \<Longrightarrow> \<forall>k \<in> set ks. key < k" "ord = Greater \<Longrightarrow> \<forall>k \<in> set ks. k < key"
        "ord = Equal \<Longrightarrow> m < oi_pfx ix \<Longrightarrow> \<forall>k \<in> set ks. key < k" "ord = Equal \<Longrightarrow> \<not> m < oi_pfx ix \<Longrightarrow> take (oi_pfx ix) key = p"
      using prefix_verdict [OF o tq m_def] by blast
    show ?thesis
    proof (cases "oi_pfx ix = 0")
      case True
      then show ?thesis using along Some q on by (simp add: advance_below_def)
    next
      case False
      have e: "advance_below ix from key kat = (case ord of Less \<Rightarrow> Some from | Greater \<Rightarrow> Some (length ks)
          | Equal \<Rightarrow> if m < oi_pfx ix then Some from else walk_below (head_below ix kat key ?h) (length ks) from)"
        using False Some v(1) on by (simp add: advance_below_def m_def [symmetric] Let_def)
      show ?thesis
      proof (cases ord)
        case Less
        then show ?thesis using e v(2) top by simp
      next
        case Greater
        then show ?thesis using e v(3) bot by simp
      next
        case Equal
        then show ?thesis using e v(4,5) top along by (cases "m < oi_pfx ix") simp_all
      qed
    qed
  qed
qed

end
