(* ===== verification/Ord_File.thy ===== *)
theory Ord_File
  imports Ord_Seek
begin

text \<open>
  The ordered index's file: what the composer writes of sorted keys, that both writers
  write it, that it opens as an index of those keys, and the properties of the
  component.
\<close>

subsection \<open>The file's bytes\<close>

lemma u64_be_length [simp]: "length (u64_be v) = 8"
  by (simp add: u64_be_def)

lemma be_u64_be [simp]: "be_u64 (u64_be v) = v"
  by (simp add: be_u64_def u64_be_def)

definition ord_heads :: "nat \<Rightarrow> bytes list \<Rightarrow> bytes" where
  "ord_heads pfx ks = concat (map (\<lambda>k. u64_be (head_of k pfx)) ks)"

lemma ord_heads_length [simp]: "length (ord_heads pfx ks) = 8 * length ks"
  by (simp add: ord_heads_def) (induction ks; simp)

definition ord_body :: "nat \<Rightarrow> nat \<Rightarrow> nat \<Rightarrow> bytes \<Rightarrow> bytes" where
  "ord_body n pfx u heads =
    u64_le ORD_MAGIC @ u64_le (word_of_nat n) @ u64_le (word_of_nat pfx) @ u64_le (word_of_nat ORD_HEADER) @ u64_le (word_of_nat u) @ replicate 24 0 @ heads"

lemma ord_body_length: "length (ord_body n pfx u heads) = 64 + length heads"
  by (simp add: ord_body_def)

lemma push_all:
  "push_from (index ks) c [a..<length ks] = Some (foldl composer_push c (drop a ks))" if "a \<le> length ks"
  using that
proof (induction "length ks - a" arbitrary: a c)
  case 0
  then show ?case by simp
next
  case (Suc m)
  then have a: "a < length ks" by linarith
  have "push_from (index ks) c [a..<length ks] = push_from (index ks) (composer_push c (ks ! a)) [Suc a..<length ks]"
    using a by (simp add: upt_conv_Cons)
  also have "\<dots> = Some (foldl composer_push (composer_push c (ks ! a)) (drop (Suc a) ks))" using Suc a by simp
  also have "foldl composer_push (composer_push c (ks ! a)) (drop (Suc a) ks) = foldl composer_push c (drop a ks)"
    by (simp only: Cons_nth_drop_Suc [OF a, symmetric] foldl.simps)
  finally show ?case .
qed

lemma pushes:
  "foldl composer_push c ks = c\<lparr>co_uniform := co_uniform c \<and> (\<forall>k \<in> set ks. length k = co_len0 c),
    co_out := co_out c @ ord_heads (co_pfx c) ks, co_pushed := co_pushed c + length ks\<rparr>"
  by (induction ks arbitrary: c) (simp_all add: composer_push_def ord_heads_def)

lemma composer_finish_body:
  assumes "co_out c = replicate ORD_HEADER 0 @ heads" "co_pushed c = co_n c"
  shows "composer_finish c = (let out = ord_body (co_n c) (co_pfx c) (if co_uniform c then co_len0 c + 1 else 0) heads in Some (out @ u32_le (crc32 out)))"
proof -
  define z t where "z = replicate 8 (0 :: byte)" and "t = replicate 24 0 @ heads"
  have r: "replicate ORD_HEADER (0 :: byte) = z @ z @ z @ z @ z @ replicate 24 0"
    unfolding z_def ORD_HEADER_def by (simp add: replicate_add [symmetric])
  define m n p q u where "m = u64_le ORD_MAGIC" and "n = u64_le (word_of_nat (co_n c))" and "p = u64_le (word_of_nat (co_pfx c))"
    and "q = u64_le (word_of_nat ORD_HEADER)" and "u = u64_le (if co_uniform c then word_of_nat (co_len0 c) + 1 else 0)"
  note d = m_def n_def p_def q_def u_def
  have l: "length m = 8" "length n = 8" "length p = 8" "length q = 8" "length u = 8" "length z = 8" by (simp_all add: d z_def)
  have 1: "put (z @ z @ z @ z @ z @ t) 0 m = Some (m @ z @ z @ z @ z @ t)"
  proof -
    have "length z = length m" "0 = length ([] :: bytes)" using l by simp_all
    note put_at [OF this, of "z @ z @ z @ z @ t"]
    then show ?thesis by (simp only: append_assoc append_Nil)
  qed
  have 2: "put (m @ z @ z @ z @ z @ t) 8 n = Some (m @ n @ z @ z @ z @ t)"
  proof -
    have "length z = length n" "8 = length (m)" using l by simp_all
    note put_at [OF this, of "z @ z @ z @ t"]
    then show ?thesis by (simp only: append_assoc append_Nil)
  qed
  have 3: "put (m @ n @ z @ z @ z @ t) 16 p = Some (m @ n @ p @ z @ z @ t)"
  proof -
    have "length z = length p" "16 = length (m @ n)" using l by simp_all
    note put_at [OF this, of "z @ z @ t"]
    then show ?thesis by (simp only: append_assoc append_Nil)
  qed
  have 4: "put (m @ n @ p @ z @ z @ t) 24 q = Some (m @ n @ p @ q @ z @ t)"
  proof -
    have "length z = length q" "24 = length (m @ n @ p)" using l by simp_all
    note put_at [OF this, of "z @ t"]
    then show ?thesis by (simp only: append_assoc append_Nil)
  qed
  have 5: "put (m @ n @ p @ q @ z @ t) 32 u = Some (m @ n @ p @ q @ u @ t)"
  proof -
    have "length z = length u" "32 = length (m @ n @ p @ q)" using l by simp_all
    note put_at [OF this, of "t"]
    then show ?thesis by (simp only: append_assoc append_Nil)
  qed
  have co: "co_out c = z @ z @ z @ z @ z @ t" using assms(1) r by (simp only: append_assoc t_def)
  have "u64_le (word_of_nat (if co_uniform c then co_len0 c + 1 else 0)) = u" by (simp add: u_def add.commute)
  then have body: "ord_body (co_n c) (co_pfx c) (if co_uniform c then co_len0 c + 1 else 0) heads = m @ n @ p @ q @ u @ t"
    unfolding ord_body_def by (simp only: d t_def)
  show ?thesis
    unfolding composer_finish_def UNIFORM_AT_def co body d [symmetric] assms(2)
    by (simp only: 1 2 3 4 5 assert_that_simps bind.bind_lunit Let_def refl simp_thms)
qed

definition ord_pfx :: "bytes list \<Rightarrow> nat" where
  "ord_pfx ks = (if ks = [] then 0 else common_prefix (ks ! 0) (ks ! (length ks - 1)))"

definition ord_len :: "bytes list \<Rightarrow> nat option" where
  "ord_len ks = (if ks \<noteq> [] \<and> length (ks ! 0) \<le> ord_pfx ks + HEAD \<and> (\<forall>k \<in> set ks. length k = length (ks ! 0)) then Some (length (ks ! 0)) else None)"

definition ord_file :: "bytes list \<Rightarrow> bytes" where
  "ord_file ks =
    (let out = ord_body (length ks) (ord_pfx ks) (case ord_len ks of Some l \<Rightarrow> l + 1 | None \<Rightarrow> 0) (ord_heads (ord_pfx ks) ks)
     in out @ u32_le (crc32 out))"

lemma finish_from_file: "finish_from (length ks) (index ks) = Some (ord_file ks)"
proof -
  define c where "c = composer_new (length ks) (ks ! 0) (ks ! (length ks - 1))"
  have c0: "(if length ks = 0 then Some (composer_new 0 [] [])
      else do { first \<leftarrow> index ks 0; lst \<leftarrow> index ks (length ks - 1); Some (composer_new (length ks) first lst) }) = Some c"
    by (cases "ks = []") (simp_all add: c_def composer_new_def)
  define d where "d = foldl composer_push c ks"
  have p: "push_from (index ks) c [0..<length ks] = Some d" using push_all [of 0 ks c] by (simp add: d_def)
  have c: "co_out c = replicate ORD_HEADER 0" "co_pushed c = 0" "co_n c = length ks" "co_pfx c = ord_pfx ks" "co_len0 c = (if ks = [] then 0 else length (ks ! 0))"
      "co_uniform c \<longleftrightarrow> ks \<noteq> [] \<and> co_len0 c \<le> co_pfx c + HEAD"
    unfolding c_def composer_new_def Let_def by (auto simp: ord_pfx_def)
  have d: "co_out d = replicate ORD_HEADER 0 @ ord_heads (ord_pfx ks) ks" "co_pushed d = co_n d" "co_n d = length ks" "co_pfx d = ord_pfx ks"
    unfolding d_def pushes by (simp_all add: c)
  have u: "(if co_uniform d then co_len0 d + 1 else 0) = (case ord_len ks of Some l \<Rightarrow> l + 1 | None \<Rightarrow> 0)"
  proof (cases "ks = []")
    case False
    define l0 where "l0 = length (ks ! 0)"
    show ?thesis unfolding d_def pushes ord_len_def l0_def [symmetric] using False by (simp add: c l0_def [symmetric])
  qed (simp add: d_def pushes ord_len_def c)
  show ?thesis
    unfolding finish_from_def c0 bind.bind_lunit p composer_finish_body [OF d(1,2)] d(3,4) u ord_file_def Let_def ..
qed

subsection \<open>The builder\<close>

lemma finish_from_cong: "(\<And>i. i < n \<Longrightarrow> f i = g i) \<Longrightarrow> finish_from n f = finish_from n g"
proof -
  assume e: "\<And>i. i < n \<Longrightarrow> f i = g i"
  have "push_from f c js = push_from g c js" if "set js \<subseteq> {..<n}" for c js
    using that by (induction js arbitrary: c) (auto simp: e split: bind_splits)
  note this [of "[0..<n]"]
  moreover have "set [0..<n] \<subseteq> {..<n}" by auto
  ultimately have "push_from f c [0..<n] = push_from g c [0..<n]" for c by blast
  then show ?thesis using e by (simp add: finish_from_def)
qed

lemma builder_pushes:
  "foldl builder_push b ks = b\<lparr>bu_starts := bu_starts b @ map (\<lambda>i. word_of_nat (length (bu_bytes b) + length (concat (take i ks)))) [0..<length ks],
    bu_bytes := bu_bytes b @ concat ks, bu_n := bu_n b + length ks\<rparr>"
proof (induction ks rule: rev_induct)
  case (snoc k ks)
  have "map (\<lambda>i. word_of_nat (length (bu_bytes b) + length (concat (take i (ks @ [k])))) :: u32) [0..<length ks] =
      map (\<lambda>i. word_of_nat (length (bu_bytes b) + length (concat (take i ks)))) [0..<length ks]" by simp
  then show ?case using snoc by (simp add: builder_push_def)
qed simp

lemma builder_file:
  assumes "length (concat ks) < 2 ^ 32"
  shows "builder_finish (foldl builder_push builder_new ks) = Some (ord_file ks)"
proof -
  let ?b = "foldl builder_push builder_new ks"
  let ?s = "\<lambda>i. length (concat (take i ks))"
  define starts where "starts = bu_starts ?b @ [word_of_nat (length (bu_bytes ?b))]"
  have b: "bu_bytes ?b = concat ks" "bu_n ?b = length ks" by (simp_all add: builder_pushes builder_new_def)
  have s: "starts = map (\<lambda>i. word_of_nat (?s i)) [0..<Suc (length ks)]" by (simp add: starts_def builder_pushes builder_new_def)
  have le: "?s i \<le> length (concat ks)" for i
    by (metis append_take_drop_id concat_append length_append le_add1)
  then have u: "unat (word_of_nat (?s i) :: u32) = ?s i" for i using le_less_trans [OF le [of i] assms] by (simp add: unat_of_nat)
  have "(do { from \<leftarrow> index starts i; upto \<leftarrow> index starts (i + 1); slice (bu_bytes ?b) (unat from) (unat upto) }) = index ks i" if i: "i < length ks" for i
  proof -
    have c: "concat ks = concat (take i ks) @ ks ! i @ concat (drop (Suc i) ks)" using concat_nth [OF i, of "\<lambda>k. k"] by simp
    have si: "?s (Suc i) = ?s i + length (ks ! i)" using i by (simp add: take_Suc_conv_app_nth)
    have "slice (concat ks) (?s i) (?s (Suc i)) = Some (ks ! i)" unfolding si using le [of "Suc i"] si by (subst (1) c) (simp add: slice_def c)
    moreover have "index starts i = Some (word_of_nat (?s i))" "index starts (i + 1) = Some (word_of_nat (?s (Suc i)))"
      using i by (simp_all add: s del: upt_Suc)
    ultimately show ?thesis using i by (simp add: u b)
  qed
  then have "finish_from (length ks) (\<lambda>i. do { from \<leftarrow> index starts i; upto \<leftarrow> index starts (i + 1); slice (bu_bytes ?b) (unat from) (unat upto) }) =
      finish_from (length ks) (index ks)" by (intro finish_from_cong)
  then show ?thesis unfolding builder_finish_def Let_def starts_def [symmetric] b(2) by (simp only: finish_from_file)
qed


subsection \<open>The open of a file\<close>

lemma le_val_words [simp]: "le_val (u64_le x) = unat x" "le_val (u32_le y) = unat y"
  using unsigned_less [of x, where 'a = nat] unsigned_less [of y, where 'a = nat] by (simp_all add: u64_le_def u32_le_def le_val_bytes)

lemma rd_header_word: "p = length a \<Longrightarrow> rd_word (a @ u64_le x @ b) p = Ok (unat x)"
  by (simp add: rd_word_def slice_def)

lemma ord_body_words:
  fixes n pfx u :: nat and heads t :: bytes
  defines "b \<equiv> ord_body n pfx u heads"
  shows "rd_word (b @ t) 0 = Ok (unat ORD_MAGIC)" "rd_word (b @ t) 8 = Ok (unat (word_of_nat n :: u64))" "rd_word (b @ t) 16 = Ok (unat (word_of_nat pfx :: u64))"
    "rd_word (b @ t) 24 = Ok (unat (word_of_nat ORD_HEADER :: u64))" "rd_word (b @ t) 32 = Ok (unat (word_of_nat u :: u64))"
proof -
  let ?m = "u64_le ORD_MAGIC" and ?n = "u64_le (word_of_nat n)" and ?p = "u64_le (word_of_nat pfx)" and ?h = "u64_le (word_of_nat ORD_HEADER)"
  note d = b_def ord_body_def append_assoc
  show "rd_word (b @ t) 0 = Ok (unat ORD_MAGIC)"
    using rd_header_word [of 0 "[]"] unfolding d by simp
  show "rd_word (b @ t) 8 = Ok (unat (word_of_nat n :: u64))"
    using rd_header_word [of 8 ?m] unfolding d by simp
  show "rd_word (b @ t) 16 = Ok (unat (word_of_nat pfx :: u64))"
    using rd_header_word [of 16 "?m @ ?n"] unfolding d by simp
  show "rd_word (b @ t) 24 = Ok (unat (word_of_nat ORD_HEADER :: u64))"
    using rd_header_word [of 24 "?m @ ?n @ ?p"] unfolding d by simp
  show "rd_word (b @ t) 32 = Ok (unat (word_of_nat u :: u64))"
    using rd_header_word [of 32 "?m @ ?n @ ?p @ ?h"] unfolding d by simp
qed

lemma head_slice:
  assumes i: "i < length ks" and h: "length pre = ORD_HEADER"
  shows "slice (pre @ ord_heads pfx ks @ t) (ORD_HEADER + i * HEAD) (ORD_HEADER + i * HEAD + HEAD) = Some (u64_be (head_of (ks ! i) pfx))"
proof -
  have "ord_heads pfx ks = ord_heads pfx (take i ks) @ u64_be (head_of (ks ! i) pfx) @ ord_heads pfx (drop (Suc i) ks)"
    unfolding ord_heads_def by (rule concat_nth [OF i])
  moreover have "length (ord_heads pfx (take i ks)) = i * HEAD" using i by (simp add: HEAD_def)
  ultimately show ?thesis using h by (simp add: slice_def HEAD_def)
qed

lemma top_heads_read:
  assumes "length pre = ORD_HEADER"
  shows "\<forall>i \<in> set js. i < length ks \<Longrightarrow> top_heads (pre @ ord_heads pfx ks @ t) js = Some (map (\<lambda>i. head_of (ks ! i) pfx) js)"
  using head_slice [OF _ assms] by (induction js) (simp_all add: Let_def)

lemma strided_inside: "i \<in> set (strided n) \<Longrightarrow> i < n"
  by (auto simp: strided_def div_ceil_def TOP_STRIDE_def)

text \<open>The bounds of a fl: its length and the lengths of its keys are those of things in memory.\<close>

definition ord_fits :: "bytes list \<Rightarrow> bool" where
  "ord_fits ks \<longleftrightarrow> ORD_HEADER + length ks * HEAD + 4 \<le> USIZE_MAX \<and> (\<forall>k \<in> set ks. length k + HEAD < USIZE_MAX)"

definition ord_opened :: "bytes list \<Rightarrow> ord_index" where
  "ord_opened ks = \<lparr>oi_map = ord_file ks, oi_advised = False, oi_n = length ks, oi_pfx = ord_pfx ks, oi_uniform_len = ord_len ks,
    oi_prefix = None, oi_top = map (\<lambda>i. head_of (ks ! i) (ord_pfx ks)) (strided (length ks))\<rparr>"

lemma common_prefix_le: "common_prefix a b \<le> length a" "common_prefix a b \<le> length b"
  unfolding common_prefix_def using length_takeWhile_le [of "\<lambda>(a, b). a = b" "zip a b"] by simp_all

lemma common_prefix_take: "take (common_prefix a b) a = take (common_prefix a b) b"
proof (induction a arbitrary: b)
  case (Cons x a)
  then show ?case by (cases b) (auto simp: common_prefix_def)
qed (simp add: common_prefix_def)

lemma ord_pfx_le: "k \<in> {ks ! 0, ks ! (length ks - 1)} \<Longrightarrow> ord_pfx ks \<le> length k"
  using common_prefix_le by (auto simp: ord_pfx_def)

lemma ord_pfx_fits: "ord_fits ks \<Longrightarrow> ord_pfx ks + HEAD < USIZE_MAX"
proof (cases "ks = []")
  case True
  then show ?thesis by (simp add: ord_pfx_def HEAD_def USIZE_MAX_def)
next
  case False
  moreover assume "ord_fits ks"
  ultimately have "length (ks ! 0) + HEAD < USIZE_MAX" by (simp add: ord_fits_def)
  then show ?thesis using ord_pfx_le [of "ks ! 0" ks] by simp
qed

lemma ord_len_bounds: "ord_len ks = Some l \<Longrightarrow> ks \<noteq> [] \<and> (\<forall>k \<in> set ks. length k = l) \<and> l = length (ks ! 0) \<and> ord_pfx ks \<le> l \<and> l \<le> ord_pfx ks + HEAD"
proof -
  assume l: "ord_len ks = Some l"
  define l0 where "l0 = length (ks ! 0)"
  have "ord_pfx ks \<le> l0" using ord_pfx_le [of "ks ! 0" ks] by (simp add: l0_def)
  moreover have "ks \<noteq> [] \<and> l = l0 \<and> l0 \<le> ord_pfx ks + HEAD \<and> (\<forall>k \<in> set ks. length k = l0)"
    using l unfolding ord_len_def l0_def [symmetric] by (metis option.distinct(1) option.inject)
  ultimately show ?thesis unfolding l0_def [symmetric] by blast
qed

lemma uniform_of_len:
  assumes "ord_fits ks"
  shows "uniform_of (unat (word_of_nat (case ord_len ks of Some l \<Rightarrow> l + 1 | None \<Rightarrow> 0) :: u64)) (ord_pfx ks) = Ok (ord_len ks)"
proof (cases "ord_len ks")
  case None
  then show ?thesis by (simp add: uniform_of_def)
next
  case (Some l)
  have p: "ord_pfx ks + HEAD < USIZE_MAX" using ord_pfx_fits [OF assms] .
  then have w: "wrapping_add (ord_pfx ks) HEAD = ord_pfx ks + HEAD" by (simp add: wrapping_add_def USIZE_MAX_def)
  have b: "ord_pfx ks \<le> l" "l \<le> ord_pfx ks + HEAD" using ord_len_bounds [OF Some] by blast+
  then have "l + 1 < 2 ^ 64" using p by (simp add: USIZE_MAX_def)
  then have "unat (word_of_nat (l + 1) :: u64) = l + 1" by (simp add: unat_of_nat del: of_nat_Suc of_nat_add)
  then show ?thesis using Some b w by (simp add: uniform_of_def del: of_nat_Suc of_nat_add)
qed

lemma ord_open_file:
  assumes f: "ord_fits ks"
  shows "ord_open (ord_file ks) m = (if m = length ks then Ok (ord_opened ks) else Err ''describes a different segment'')"
proof -
  define u where "u = (case ord_len ks of Some l \<Rightarrow> l + 1 | None \<Rightarrow> 0)"
  define out where "out = ord_body (length ks) (ord_pfx ks) u (ord_heads (ord_pfx ks) ks)"
  have fl: "ord_file ks = out @ u32_le (crc32 out)" by (simp add: ord_file_def out_def u_def Let_def)
  have l: "length out = ORD_HEADER + length ks * HEAD" by (simp add: out_def ord_body_length ORD_HEADER_def HEAD_def)
  have len: "length (ord_file ks) = length out + 4" by (simp add: fl)
  define pre where "pre = ord_body (length ks) (ord_pfx ks) u []"
  have pre: "length pre = ORD_HEADER" "ord_file ks = pre @ ord_heads (ord_pfx ks) ks @ u32_le (crc32 out)"
    by (simp_all add: pre_def ord_body_length ORD_HEADER_def fl out_def ord_body_def)
  have small: "length ks < 2 ^ 64" "ord_pfx ks < 2 ^ 64" using f ord_pfx_fits [OF f] by (simp_all add: ord_fits_def HEAD_def USIZE_MAX_def)
  have w: "rd_word (ord_file ks) 0 = Ok (unat ORD_MAGIC)" "rd_word (ord_file ks) 8 = Ok (length ks)" "rd_word (ord_file ks) 16 = Ok (ord_pfx ks)"
      "rd_word (ord_file ks) 24 = Ok ORD_HEADER" "rd_word (ord_file ks) UNIFORM_AT = Ok (unat (word_of_nat u :: u64))"
    unfolding fl out_def ord_body_words UNIFORM_AT_def using small by (simp_all add: unat_of_nat ORD_HEADER_def)
  have crc: "(do { w \<leftarrow> slice (ord_file ks) (length out) (length out + 4); c \<leftarrow> slice (ord_file ks) 0 (length out); Some (le_val w, c) }) =
      Some (unat (crc32 out), out)" by (simp add: fl slice_def)
  have un: "uniform_of (unat (word_of_nat u :: u64)) (ord_pfx ks) = Ok (ord_len ks)" unfolding u_def by (rule uniform_of_len [OF f])
  have mul: "checked_mul (length ks) HEAD = Some (length ks * HEAD)" and add: "checked_add ORD_HEADER (length ks * HEAD) = Some (length out)"
    using f by (simp_all add: checked_mul_def checked_add_def ord_fits_def l)
  have top: "top_heads (ord_file ks) (strided (length ks)) = Some (map (\<lambda>i. head_of (ks ! i) (ord_pfx ks)) (strided (length ks)))"
    unfolding pre(2) by (rule top_heads_read [OF pre(1)]) (use strided_inside in blast)
  have body: "(length out + 4 < ORD_HEADER + 4) = False" "length out + 4 - 4 = length out" using l by simp_all
  show ?thesis
    unfolding ord_open_def Let_def len body if_False crc lift_res_simps bind_res_simps case_prod_conv w un mul add option.case top
    by (simp add: ord_opened_def)
qed

text \<open>The keys between two that share a prefix share it.\<close>

lemma prefix_between:
  "a \<le> k \<Longrightarrow> k \<le> b \<Longrightarrow> take n a = take n b \<Longrightarrow> n \<le> length a \<Longrightarrow> n \<le> length b \<Longrightarrow> take n k = take n (a :: bytes)"
proof (induction n arbitrary: a k b)
  case (Suc n)
  obtain x a' y b' where ab: "a = x # a'" "b = y # b'" using Suc.prems(4,5) by (metis Suc_le_length_iff)
  have y: "y = x" using Suc.prems(3) ab by simp
  obtain z k' where k: "k = z # k'" using Suc.prems(1) ab by (cases k) auto
  have "z = x" "a' \<le> k'" "k' \<le> b'" using Suc.prems(1,2) ab k y by auto
  then show ?case using Suc.IH [of a' k' b'] Suc.prems ab k y by simp
qed simp

lemma ord_file_for:
  assumes s: "sorted_wrt (<) ks" and f: "ord_fits ks"
  defines "p \<equiv> (if ks = [] then [] else take (ord_pfx ks) (ks ! 0))"
  shows "ord_for (ord_opened ks) ks p" "ks \<noteq> [] \<Longrightarrow> ord_for (learn_prefix (ord_opened ks) (ks ! 0)) ks p"
proof -
  define out where "out = ord_body (length ks) (ord_pfx ks) (case ord_len ks of Some l \<Rightarrow> l + 1 | None \<Rightarrow> 0) []"
  have fl: "\<exists>t. ord_file ks = out @ ord_heads (ord_pfx ks) ks @ t" and o: "length out = ORD_HEADER"
    by (auto simp: ord_file_def out_def ord_body_def Let_def ORD_HEADER_def)
  then obtain t where t: "ord_file ks = out @ ord_heads (ord_pfx ks) ks @ t" by blast
  have heads: "ord_head (ord_opened ks) i = Some (head_of (ks ! i) (ord_pfx ks))" if "i < length ks" for i
    using head_slice [OF that o, of "ord_pfx ks" t] by (simp add: ord_head_def ord_opened_def t Let_def)
  have carry: "take (ord_pfx ks) k = p" if "k \<in> set ks" for k
  proof -
    have n: "ks \<noteq> []" using that by auto
    obtain i where i: "i < length ks" "k = ks ! i" using \<open>k \<in> set ks\<close> by (metis in_set_conv_nth)
    have "take (ord_pfx ks) k = take (ord_pfx ks) (ks ! 0)"
    proof (rule prefix_between)
      show "ks ! 0 \<le> k" "k \<le> ks ! (length ks - 1)" using sorted_keys [OF s] i by auto
      show "take (ord_pfx ks) (ks ! 0) = take (ord_pfx ks) (ks ! (length ks - 1))" using n common_prefix_take by (simp add: ord_pfx_def)
    qed (use ord_pfx_le in auto)
    then show ?thesis using n by (simp add: p_def)
  qed
  have lp: "length p = ord_pfx ks" using ord_pfx_le [of "ks ! 0" ks] by (auto simp: p_def) (simp add: ord_pfx_def)
  have room: "ORD_HEADER + length ks * HEAD \<le> length (ord_file ks)" by (simp add: t o HEAD_def)
  have small: "length ks < USIZE_MAX" using f by (simp add: ord_fits_def HEAD_def ORD_HEADER_def)
  have len: "\<forall>l. ord_len ks = Some l \<longrightarrow> (\<forall>k \<in> set ks. length k = l) \<and> ord_pfx ks \<le> l \<and> l \<le> ord_pfx ks + HEAD" using ord_len_bounds by blast
  note fields = ord_opened_def ord_index.simps ord_index.update_convs
  show "ord_for (ord_opened ks) ks p"
    unfolding ord_for_def using s small lp carry heads len room by (simp add: fields)
  assume n: "ks \<noteq> []"
  define ix where "ix = learn_prefix (ord_opened ks) (ks ! 0)"
  have ix: "oi_n ix = length ks" "oi_pfx ix = ord_pfx ks" "oi_uniform_len ix = ord_len ks" "oi_map ix = ord_file ks"
      "oi_top ix = map (\<lambda>i. head_of (ks ! i) (ord_pfx ks)) (strided (length ks))" "oi_prefix ix = Some p" "\<And>i. ord_head ix i = ord_head (ord_opened ks) i"
    using n ord_pfx_le [of "ks ! 0" ks] by (simp_all add: ix_def learn_prefix_def Let_def p_def ord_head_def) (simp_all add: ord_opened_def min_absorb1)
  show "ord_for (learn_prefix (ord_opened ks) (ks ! 0)) ks p"
    unfolding ix_def [symmetric] ord_for_def ix using s small lp carry heads len room by simp
qed

lemma whole_key_read:
  assumes o: "ord_for ix ks p" and q: "oi_prefix ix = Some p" and i: "i < length ks"
  shows "whole_key_at ix i = Some (if ord_uniform ix then Some (ks ! i) else None)"
proof (cases "oi_uniform_len ix")
  case None
  then show ?thesis by (simp add: whole_key_at_def ord_uniform_def)
next
  case (Some len)
  let ?h = "head_of (ks ! i) (oi_pfx ix)"
  have f: "oi_n ix = length ks" "length p = oi_pfx ix" "take (oi_pfx ix) (ks ! i) = p" "ord_head ix i = Some ?h"
      "oi_top ix = map (\<lambda>i. head_of (ks ! i) (oi_pfx ix)) (strided (length ks))" "length (ks ! i) = len" "oi_pfx ix \<le> len" "len \<le> oi_pfx ix + HEAD"
    using o i Some by (auto simp: ord_for_def)
  have h: "(if i mod TOP_STRIDE = 0 then index (oi_top ix) (i div TOP_STRIDE) else ord_head ix i) = Some ?h"
  proof (cases "i mod TOP_STRIDE = 0")
    case True
    then have t: "i = i div TOP_STRIDE * TOP_STRIDE" by (metis add.right_neutral div_mult_mod_eq)
    then have "i div TOP_STRIDE < div_ceil (length ks) TOP_STRIDE" using i by (auto simp: div_ceil_def TOP_STRIDE_def)
    then show ?thesis using True t by (simp add: f(5) strided_def)
  qed (use f(4) in simp)
  define r where "r = drop (oi_pfx ix) (ks ! i)"
  have lr: "length r = len - oi_pfx ix" "length r \<le> HEAD" using f by (auto simp: r_def)
  have "\<exists>v. u64_be (be_u64 v) = v \<and> v = pad HEAD r"
  proof -
    have "le_bytes 8 (le_val (rev (pad HEAD r))) = rev (pad HEAD r)" using le_bytes_val [of "rev (pad HEAD r)"] by (simp add: HEAD_def)
    moreover have "le_val (rev (pad HEAD r)) < 2 ^ 64" using le_val_less [of "rev (pad HEAD r)"] by (simp add: HEAD_def)
    ultimately have "u64_be (be_u64 (pad HEAD r)) = pad HEAD r" by (simp add: u64_be_def be_u64_def u64_le_def unat_of_nat)
    then show ?thesis by blast
  qed
  then have "u64_be ?h = pad HEAD r" by (simp add: head_of_pad r_def)
  then have w: "slice (u64_be ?h) 0 (len - oi_pfx ix) = Some r" using lr by (simp add: slice_def pad_eq HEAD_def)
  have "p @ r = ks ! i" using f(3) by (simp add: r_def flip: f(3))
  then show ?thesis
    unfolding whole_key_at_def Some q option.case prod.case f(1) h bind.bind_lunit using i f(2,7) w by (simp add: ord_uniform_def Some)
qed

lemma update_noticed:
  assumes i: "i < length out" and v: "v \<noteq> out ! i"
  shows "crc32 (out[i := v]) \<noteq> crc32 out"
proof -
  have b: "out[i := v] = blit out i [v]" using i by (simp add: blit_def upd_conv_take_nth_drop)
  have "out[i := v] ! i \<noteq> out ! i" using i v by simp
  then have "blit out i [v] \<noteq> out" unfolding b by metis
  then show ?thesis unfolding b using i by (intro crc.blit_noticed) simp_all
qed

lemma damaged_refused:
  assumes i: "i < length (ord_file ks)" and v: "v \<noteq> ord_file ks ! i"
  shows "ord_open ((ord_file ks)[i := v]) m = Err ''checksum does not match''"
proof -
  define out where "out = ord_body (length ks) (ord_pfx ks) (case ord_len ks of Some l \<Rightarrow> l + 1 | None \<Rightarrow> 0) (ord_heads (ord_pfx ks) ks)"
  define c where "c = u32_le (crc32 out)"
  have fl: "ord_file ks = out @ c" by (simp add: ord_file_def out_def c_def Let_def)
  have l: "ORD_HEADER \<le> length out" "length c = 4" by (simp_all add: out_def ord_body_length ORD_HEADER_def c_def)
  define out' c' where "out' = (if i < length out then out[i := v] else out)" and "c' = (if i < length out then c else c[i - length out := v])"
  have d: "(ord_file ks)[i := v] = out' @ c'" "length out' = length out" "length c' = 4"
    using l by (simp_all add: fl list_update_append out'_def c'_def)
  have ne: "unat (crc32 out') \<noteq> le_val c'"
  proof (cases "i < length out")
    case True
    then have "v \<noteq> out ! i" using v by (simp add: fl nth_append)
    then have "crc32 out' \<noteq> crc32 out" using update_noticed [OF True] True by (simp add: out'_def)
    then show ?thesis using True by (simp add: c'_def c_def word_unat_eq_iff)
  next
    case False
    have "c' ! (i - length out) \<noteq> c ! (i - length out)" using False v i l by (simp add: fl nth_append c'_def)
    then have "c' \<noteq> c" by metis
    moreover have "le_bytes 4 (le_val c') = c'" using le_bytes_val [of c'] d(3) by simp
    moreover have "le_bytes 4 (unat (crc32 out)) = c" by (simp add: c_def u32_le_def)
    ultimately show ?thesis using False by (auto simp: out'_def)
  qed
  have "(length out' + 4 < ORD_HEADER + 4) = False" "length out' + 4 - 4 = length out'" "length (out' @ c') = length out' + 4" using l d by simp_all
  moreover have "(do { w \<leftarrow> slice (out' @ c') (length out') (length out' + 4); x \<leftarrow> slice (out' @ c') 0 (length out'); Some (le_val w, x) }) = Some (le_val c', out')"
    using d(3) by (simp add: slice_def)
  ultimately show ?thesis
    unfolding ord_open_def Let_def d(1) using ne by (simp only: if_False lift_res_simps bind_res_simps case_prod_conv) simp
qed

subsection \<open>Properties\<close>

text \<open>
  C11: Both writers of an ordered index write the same file for the same keys; the file
  opens for a segment of that many keys and for no other, and read after the prefix is
  learned each head is its whole key exactly when the index says the keys are uniform;
  with any one byte of the file changed the open refuses it.
\<close>

theorem ord_file_roundtrip:
  assumes "sorted_wrt (<) ks" "ks \<noteq> []" "ord_fits ks"
  shows "\<exists>fb ix. finish_from (length ks) (index ks) = Some fb \<and>
    (length (concat ks) < 2 ^ 32 \<longrightarrow> builder_finish (foldl builder_push builder_new ks) = Some fb) \<and>
    (\<forall>m. ord_open fb m = (if m = length ks then Ok ix else Err ''describes a different segment'')) \<and>
    (\<forall>i < length ks. whole_key_at (learn_prefix ix (ks ! 0)) i = Some (if ord_uniform ix then Some (ks ! i) else None)) \<and>
    (ord_uniform ix \<longleftrightarrow> (\<exists>l \<le> oi_pfx ix + HEAD. \<forall>k \<in> set ks. length k = l)) \<and>
    (\<forall>i v m. i < length fb \<and> v \<noteq> fb ! i \<longrightarrow> ord_open (fb[i := v]) m = Err ''checksum does not match'')"
proof (intro exI conjI)
  let ?ix = "ord_opened ks"
  show "finish_from (length ks) (index ks) = Some (ord_file ks)" by (rule finish_from_file)
  show "length (concat ks) < 2 ^ 32 \<longrightarrow> builder_finish (foldl builder_push builder_new ks) = Some (ord_file ks)" using builder_file by blast
  show "\<forall>m. ord_open (ord_file ks) m = (if m = length ks then Ok ?ix else Err ''describes a different segment'')" using ord_open_file [OF assms(3)] by blast
  have o: "ord_for (learn_prefix ?ix (ks ! 0)) ks (take (ord_pfx ks) (ks ! 0))" using ord_file_for(2) [OF assms(1,3,2)] assms(2) by simp
  have "oi_prefix (learn_prefix ?ix (ks ! 0)) = Some (take (ord_pfx ks) (ks ! 0))"
    using ord_pfx_le [of "ks ! 0" ks] by (simp add: learn_prefix_def ord_opened_def Let_def min_absorb1)
  moreover have "ord_uniform (learn_prefix ?ix (ks ! 0)) = ord_uniform ?ix" by (simp add: learn_prefix_def ord_uniform_def Let_def)
  ultimately show "\<forall>i < length ks. whole_key_at (learn_prefix ?ix (ks ! 0)) i = Some (if ord_uniform ?ix then Some (ks ! i) else None)"
    using whole_key_read [OF o] by simp
  define l0 where "l0 = length (ks ! 0)"
  have "ord_uniform ?ix \<longleftrightarrow> l0 \<le> ord_pfx ks + HEAD \<and> (\<forall>k \<in> set ks. length k = l0)"
    using assms(2) by (simp add: ord_uniform_def ord_opened_def ord_len_def l0_def [symmetric])
  moreover have "ks ! 0 \<in> set ks" using assms(2) by simp
  ultimately show "ord_uniform ?ix \<longleftrightarrow> (\<exists>l \<le> oi_pfx ?ix + HEAD. \<forall>k \<in> set ks. length k = l)"
    by (auto simp: l0_def ord_opened_def)
  show "\<forall>i v m. i < length (ord_file ks) \<and> v \<noteq> ord_file ks ! i \<longrightarrow> ord_open ((ord_file ks)[i := v]) m = Err ''checksum does not match''"
    using damaged_refused by blast
qed

theorem ord_file_roundtrip_witness:
  "\<exists>fb ix. finish_from (length [[65], [66 :: byte]]) (index [[65], [66]]) = Some fb \<and> ord_open fb 2 = Ok ix \<and>
    whole_key_at (learn_prefix ix [65]) 1 = Some (Some [66]) \<and> (\<forall>i v m. i < length fb \<and> v \<noteq> fb ! i \<longrightarrow> ord_open (fb[i := v]) m = Err ''checksum does not match'')"
proof -
  have f: "ord_fits [[65], [66]]" by (simp add: ord_fits_def ORD_HEADER_def HEAD_def USIZE_MAX_def)
  obtain fb ix where r: "finish_from (length [[65], [66 :: byte]]) (index [[65], [66]]) = Some fb"
      "\<forall>m. ord_open fb m = (if m = length [[65], [66 :: byte]] then Ok ix else Err ''describes a different segment'')"
      "\<forall>i < length [[65], [66 :: byte]]. whole_key_at (learn_prefix ix ([[65], [66]] ! 0)) i = Some (if ord_uniform ix then Some ([[65], [66]] ! i) else None)"
      "ord_uniform ix \<longleftrightarrow> (\<exists>l \<le> oi_pfx ix + HEAD. \<forall>k \<in> set [[65], [66 :: byte]]. length k = l)"
      "\<forall>i v m. i < length fb \<and> v \<noteq> fb ! i \<longrightarrow> ord_open (fb[i := v]) m = Err ''checksum does not match''"
    using ord_file_roundtrip [of "[[65], [66]]"] f by fastforce
  have "ord_uniform ix" using r(4) by (simp add: HEAD_def)
  then show ?thesis using r(1,2,3,5) by (intro exI [of _ fb] exI [of _ ix]) (simp add: less_Suc_eq)
qed

text \<open>
  C7: Every search of an opened index answers what the records answer. With the prefix
  learned or not, the seek from the top, the seek from any rank a query is expected at,
  the seek within a window and the walk along the heads each end at the first rank not
  below the key, and where one says whether the key is there it is right, which it
  says always when the keys are uniform.
\<close>

theorem ord_searches:
  assumes "sorted_wrt (<) ks" "ord_fits ks" "finish_from (length ks) (index ks) = Some fb" "ord_open fb (length ks) = Ok opened"
    and "ix = opened \<or> ks \<noteq> [] \<and> ix = learn_prefix opened (ks ! 0)" and "\<forall>i < length ks. kat i = Some (ks ! i)"
  shows "ord_seek ix key kat = Some (rank_of ks key) \<and>
    (\<exists>ans st'. seek_exact_hint ix key kat on_window st = Some (ans, st') \<and> seeks ks key (ord_uniform ix) ans) \<and>
    (\<exists>ans. seek_exact_from ix from key kat = Some ans \<and> seeks ks key (ord_uniform ix) ans) \<and>
    (\<exists>ans. seek_in_exact ix lo hi key kat = Some ans \<and>
      (if lo < min hi (length ks) then answers ks key lo (min hi (length ks)) ans else ans = (min hi (length ks), Some False))) \<and>
    (from \<le> length ks \<longrightarrow> (\<exists>e. advance_below ix from key kat = Some e \<and> cut (\<lambda>i. ks ! i < key) from (length ks) e))"
proof -
  have "opened = ord_opened ks" using assms(3,4) ord_open_file [OF assms(2)] by (simp add: finish_from_file)
  then obtain p where o: "ord_for ix ks p" using ord_file_for [OF assms(1,2)] assms(5) by blast
  have k: "reads_at kat ks" using assms(6) by (simp add: reads_at_def)
  have u: "ord_uniform ix = (oi_uniform_len ix \<noteq> None)" by (simp add: ord_uniform_def)
  obtain ans where "seek_exact ix key kat = Some ans" "seeks ks key (oi_uniform_len ix \<noteq> None) ans" using seek_exact_seeks [OF o k] .
  then have 1: "ord_seek ix key kat = Some (rank_of ks key)" by (simp add: ord_seek_def seeks_def)
  have 2: "\<exists>ans. seek_exact_from ix from key kat = Some ans \<and> seeks ks key (ord_uniform ix) ans"
    unfolding u using seek_exact_from_seeks [OF o k] by metis
  show ?thesis
    using 1 2 seek_exact_hint_seeks [OF o k, of key on_window st] seek_in_exact_answers [OF o k, of lo hi key] advance_below_cut [OF o k, of "from" key]
    unfolding u by blast
qed

theorem ord_searches_witness:
  "\<exists>fb opened. finish_from (length [[65], [66 :: byte]]) (index [[65], [66]]) = Some fb \<and> ord_open fb 2 = Ok opened \<and>
    ord_seek opened [65, 1] (index [[65], [66]]) = Some 1 \<and> ord_seek (learn_prefix opened [65]) [65, 1] (index [[65], [66]]) = Some 1"
proof -
  let ?ks = "[[65], [66 :: byte]]"
  have f: "ord_fits ?ks" by (simp add: ord_fits_def ORD_HEADER_def HEAD_def USIZE_MAX_def)
  have op: "ord_open (ord_file ?ks) (length ?ks) = Ok (ord_opened ?ks)" using ord_open_file [OF f] by simp
  have r: "rank_of ?ks [65, 1] = 1" by (simp add: rank_of_def)
  have s: "ord_seek ix [65, 1] (index ?ks) = Some 1" if "ix = ord_opened ?ks \<or> ?ks \<noteq> [] \<and> ix = learn_prefix (ord_opened ?ks) (?ks ! 0)" for ix
    using ord_searches [OF _ f finish_from_file op that, of "index ?ks" "[65, 1]", THEN conjunct1] r by (simp add: less_Suc_eq)
  show ?thesis
    using s [of "ord_opened ?ks"] s [of "learn_prefix (ord_opened ?ks) [65]"] op finish_from_file [of ?ks]
    by (intro exI [of _ "ord_file ?ks"] exI [of _ "ord_opened ?ks"]) (simp add: numeral_2_eq_2)
qed

end
