(* ===== verification/Spec2Isabelle.thy ===== *)
theory Spec2Isabelle
  imports Crc32c Runs Lz4_Encode_Correct Block_Store Wal_Log Manifest Records Hash_Table Bloom Merge Slicer Reserve_Head Ord_File Flat_Section
begin

text \<open>
  The verification library of supdb, an embedded key-multivalue store written in Rust:
  its on-disk formats and the algorithms over them, translated from the sources under
  \<open>src/src/\<close> and proved in the theories imported here.

  \<^bold>\<open>The program.\<close> A write goes to the write-ahead log (\<open>db.rs\<close>) and to a memory table; a
  seal writes the table's keys in order into an immutable segment. A segment is a file of
  compressed data blocks, a block table, and a key section: records in key order, a
  directory of their offsets, an open-addressed hash table, a sampled fence and a row of
  checksums. Beside it lies an ordered index of eight bytes a key. Merges walk the keys of
  several segments in order and cut them into new segments by ranges. The manifest says
  which segments are live and which log records they cover. A reader opens a segment from a
  mapping or from byte ranges, looks a key up by its hash or its rank, finds the extents of
  its runs, and fetches, verifies and decodes the blocks they name.

  \<^bold>\<open>Which theory models what\<close>, in the order they build on each other.

  \<^item> \<open>Prelude\<close>: machine integers, byte strings, slices, writes into buffers, little-endian
    scalars, the panic monad and fallible results, with the lemmas every component shares.
  \<^item> \<open>Crc32c\<close> (\<open>block.rs\<close>: the table builder, \<open>crc32c_scalar\<close>, the x86 path, \<open>crc32_resume\<close>,
    \<open>crc32_combine\<close>): every path equals the bit-at-a-time division; damage of up to four
    consecutive bytes changes the checksum. The locale \<open>checksum\<close> is what others rely on.
  \<^item> \<open>Runs\<close> (\<open>index.rs\<close>, and the varints of \<open>db.rs\<close>): extents with their flags, and the run
    encoding of a key's values, read back in order.
  \<^item> \<open>Lz4_Decode\<close>, \<open>Lz4_Encode\<close> and their \<open>_Correct\<close> theories (\<open>db/zlz4.rs\<close>): the block
    decoder with its raw overrunning moves refines a growing-output reference and stays in
    its buffers; the encoder (hash chains, lazy and optimal parse) writes blocks within the
    bound it promises that decode to its input.
  \<^item> \<open>Chunks\<close> (\<open>block.rs\<close>): blocks, the chunked form with its directory and checksums, ranged
    reads. The compressor is a parameter under the locale \<open>block_codec\<close>, interpreted on the
    engine's own LZ4 and on the stored form.
  \<^item> \<open>Block_Table\<close> (\<open>flatindex.rs\<close>): the table of block locations, encoded and viewed.
  \<^item> \<open>Block_Store\<close> (\<open>db.rs\<close>, \<open>blob.rs\<close>, \<open>bytes.rs\<close>): the writer's staging and flushing of
    blocks and the reader's location, fetch, verification and decode, end to end, over any
    byte source that keeps the locale \<open>byte_source\<close>.
  \<^item> \<open>Wal\<close>, \<open>Wal_Log\<close> (\<open>db.rs\<close>): the log's frames and batches, writes, barriers, crashes and
    replay, as a refinement of a specified log of batches.
  \<^item> \<open>Manifest\<close> (\<open>db.rs\<close>): the manifest's bytes, its parser over three versions, the two slots
    it is published to and which one a reader takes.
  \<^item> \<open>Records\<close>, \<open>Hash_Table\<close>, \<open>Pieces\<close>, \<open>Flat_Index\<close>, \<open>Flat_Seek\<close>, \<open>Flat_Section\<close>
    (\<open>flatindex.rs\<close>): records full and compact; the hash table's fill and probe, with the
    locale \<open>slot_array\<close>; the checksum row; the trailer, both header parsers, lookups, ranks,
    seeks and the operations of an in-place update; and what a section built from records
    answers.
  \<^item> \<open>Key_Order\<close> (\<open>db.rs\<close> \<open>key_cmp\<close>, \<open>select_lower_bound\<close>; \<open>ordindex.rs\<close> \<open>cmp_short\<close>): word-at-a-time
    comparisons are the order of the bytes, and the branch-free search is the lower bound.
  \<^item> \<open>Ord_Index\<close>, \<open>Ord_Seek\<close>, \<open>Ord_File\<close> (\<open>ordindex.rs\<close>): the ordered index's writers, its
    open and its searches, which answer what the records' own search answers.
  \<^item> \<open>Bloom\<close> (\<open>db.rs\<close> \<open>BlockedBloom\<close>, \<open>BloomFill\<close>): no key added is missed, plain or with the
    ring of held hashes, and the stored words read back.
  \<^item> \<open>Merge\<close> (\<open>db.rs\<close> \<open>merge_ranks\<close>): the k-way walk, under the locale \<open>ranked_input\<close>
    interpreted on segments.
  \<^item> \<open>Fences\<close>, \<open>Slicer\<close> (\<open>db.rs\<close> \<open>fences_overlap\<close>, \<open>merges_meet\<close>, \<open>Seg\<close>'s range, \<open>resolve_fences\<close>,
    \<open>cut_by_bounds\<close>, \<open>KeyList\<close>, \<open>Slicer\<close>): the partitions a merge takes are the least set
    closed under its segments, and its cuts slice the keys by fences that tile the ranges.
  \<^item> \<open>Reserve\<close>, \<open>Reserve_Head\<close> (\<open>reserve.rs\<close>, \<open>flatindex.rs\<close> \<open>section_layout\<close>, the finish of
    \<open>db.rs\<close>): the head reserve planned from lengths is what the block store and the streamed
    section need, and the copies all fit in it.

  \<^bold>\<open>How the code is read.\<close> A Rust panic (an index or slice out of range, a failed assertion,
  an unwrap of nothing) and, in the unsafe code of the decoder, a move out of its buffer, are
  the value None of an option type; a \<open>Result\<close> is \<open>Some (Inl error)\<close> or \<open>Some (Inr value)\<close>,
  the type \<open>res\<close>. A usize is a nat on a target of 64-bit addresses: checked and saturating
  operations are written against USIZE_MAX, wrapping ones with their modulus, and plain ones
  that could exceed it are bounded by a hypothesis or are None. Hashes, checksums, heads and
  stored scalars are words of their width. The byte order of the host is little-endian, as on
  every target of the source. A closure is a function argument, with its state passed through
  where the code's closure has one. A prefetch or an advice to the kernel changes nothing and
  is left out, save the flag the ordered index keeps of it. A file is its bytes. The record
  of a structure has the source's fields with a prefix of its own.

  \<^bold>\<open>Loops.\<close> A loop that halves or walks a range is a function with a measure; one the code does
  not bound itself (the hash table's placing probe, doubling, galloping, the merge's walk, the
  growth of a merge's ranges) is a partial function whose None is not returning, and the
  property that it returns is proved where it is used. No fuel is needed anywhere.

  \<^bold>\<open>What is taken as a parameter.\<close> The compressor behind a block, under the laws of
  \<open>block_codec\<close>; the byte source, under those of \<open>byte_source\<close>; the fence's target number of
  entries, which the source reads from the environment (\<open>SUPDB_FENCE_TARGET\<close>); the closure that answers for a
  record's offset and hash when a trailer is streamed.

  \<^bold>\<open>Not modelled\<close>, and why: the memory tables, the scheduler of seals and merges, threads,
  locks, the block cache and the handles of \<open>db.rs\<close> (concurrency and policy over the formats
  modelled here, tens of thousands of lines whose state is the operating system's files and
  clocks); the z form (\<open>db/zfile.rs\<close>, \<open>db/zpages.rs\<close>, \<open>db/zselect.rs\<close>), of which the LZ4 block
  codec and the filter are modelled; a key section written whole (\<open>encode_inline\<close>),
  whose layout, records and readers are the ones modelled; the sparse reader of
  \<open>blob.rs\<close>, which fetches the same section in parts; the wasm bindings, the benchmark
  programs and the experiments. Each is named in the manifest's list of components.

  \<^bold>\<open>Findings\<close> made on the way, with the theorems that show them where there is one, are in the
  manifest: an empty run placed with nothing staged and no bytes after it names a block the table
  does not have (\<open>Block_Store.empty_run_dangles\<close>), a head reserve computed from totals can be smaller than
  the one the lengths need when runs are inline (\<open>Reserve.from_totals_short\<close>), and places
  where a comment promises more than the code checks.
\<close>

end
